(* ===== verification/Hala_Prelude.thy ===== *)
theory Hala_Prelude
  imports Main "HOL-Library.Word"
begin

text \<open>
  Shared vocabulary of the development: the Rust result type extended with panics, the
  kinds of \<open>std::io::Error\<close> the crates distinguish, bytes and machine integers, the
  \<open>iter().enumerate()\<close> search idiom of the scanners, and the generic list and map lemmas
  that the component theories use.
\<close>

section \<open>Results\<close>

text \<open>
  A fallible Rust function returns \<open>Result<T, E>\<close> and may panic besides. \<open>Panic\<close> is a value
  of its own, so that the absence of panics is a statement about the model.
\<close>

datatype ('e, 'a) outcome = Ok 'a | Err 'e | Panic

fun and_then :: "('e, 'a) outcome \<Rightarrow> ('a \<Rightarrow> ('e, 'b) outcome) \<Rightarrow> ('e, 'b) outcome" where
  "and_then (Ok x) f = f x"
| "and_then (Err e) f = Err e"
| "and_then Panic f = Panic"

fun map_ok :: "('a \<Rightarrow> 'b) \<Rightarrow> ('e, 'a) outcome \<Rightarrow> ('e, 'b) outcome" where
  "map_ok f (Ok x) = Ok (f x)"
| "map_ok f (Err e) = Err e"
| "map_ok f Panic = Panic"

fun map_err :: "('e \<Rightarrow> 'f) \<Rightarrow> ('e, 'a) outcome \<Rightarrow> ('f, 'a) outcome" where
  "map_err f (Ok x) = Ok x"
| "map_err f (Err e) = Err (f e)"
| "map_err f Panic = Panic"

text \<open>\<open>Option::ok_or\<close>, \<open>Option::unwrap\<close> / \<open>expect\<close> and \<open>assert!\<close>.\<close>

fun ok_or :: "'e \<Rightarrow> 'a option \<Rightarrow> ('e, 'a) outcome" where
  "ok_or e None = Err e"
| "ok_or e (Some x) = Ok x"

fun unwrap :: "'a option \<Rightarrow> ('e, 'a) outcome" where
  "unwrap None = Panic"
| "unwrap (Some x) = Ok x"

definition assert_true :: "bool \<Rightarrow> ('e, unit) outcome" where
  "assert_true b = (if b then Ok () else Panic)"

lemma and_then_eq_Ok [simp]:
  "and_then m f = Ok y \<longleftrightarrow> (\<exists>x. m = Ok x \<and> f x = Ok y)"
  by (cases m) auto

lemma and_then_eq_Err:
  "and_then m f = Err e \<longleftrightarrow> m = Err e \<or> (\<exists>x. m = Ok x \<and> f x = Err e)"
  by (cases m) auto

lemma and_then_eq_Panic:
  "and_then m f = Panic \<longleftrightarrow> m = Panic \<or> (\<exists>x. m = Ok x \<and> f x = Panic)"
  by (cases m) auto

lemma and_then_assoc:
  "and_then (and_then m f) g = and_then m (\<lambda>x. and_then (f x) g)"
  by (cases m) auto

lemma and_then_cong [fundef_cong]:
  "\<lbrakk> m = m'; \<And>x. m' = Ok x \<Longrightarrow> f x = g x \<rbrakk> \<Longrightarrow> and_then m f = and_then m' g"
  by (cases m') auto

lemma map_err_eq_Ok [simp]: "map_err f m = Ok y \<longleftrightarrow> m = Ok y"
  by (cases m) auto

lemma map_err_eq_Err [simp]: "map_err f m = Err e \<longleftrightarrow> (\<exists>d. m = Err d \<and> e = f d)"
  by (cases m) auto

lemma map_err_eq_Panic [simp]: "map_err f m = Panic \<longleftrightarrow> m = Panic"
  by (cases m) auto

lemma map_ok_eq_Ok [simp]: "map_ok f m = Ok y \<longleftrightarrow> (\<exists>x. m = Ok x \<and> y = f x)"
  by (cases m) auto

lemma map_ok_eq_Err [simp]: "map_ok f m = Err e \<longleftrightarrow> m = Err e"
  by (cases m) auto

lemma map_ok_eq_Panic [simp]: "map_ok f m = Panic \<longleftrightarrow> m = Panic"
  by (cases m) auto

lemma ok_or_eq_Ok [simp]: "ok_or e x = Ok y \<longleftrightarrow> x = Some y"
  by (cases x) auto

lemma ok_or_eq_Err: "ok_or e x = Err d \<longleftrightarrow> x = None \<and> d = e"
  by (cases x) auto

lemma ok_or_no_Panic [simp]: "ok_or e x \<noteq> Panic"
  by (cases x) auto

lemma unwrap_eq_Ok [simp]: "unwrap x = Ok y \<longleftrightarrow> x = Some y"
  by (cases x) auto

lemma unwrap_eq_Panic [simp]: "unwrap x = Panic \<longleftrightarrow> x = None"
  by (cases x) auto

lemma assert_true_eq_Ok [simp]: "assert_true b = Ok u \<longleftrightarrow> b"
  by (simp add: assert_true_def)

lemma assert_true_eq_Panic [simp]: "assert_true b = Panic \<longleftrightarrow> \<not> b"
  by (simp add: assert_true_def)

section \<open>Errors, polls, bytes\<close>

text \<open>
  An \<open>io::Error\<close> is modelled by its \<open>ErrorKind\<close>; the message is dropped. The constructors are
  the kinds that the crates create or test, and \<open>OtherError\<close> stands for \<open>ErrorKind::Other\<close>.
\<close>

datatype io_error =
    WouldBlock | Interrupted | InvalidInput | InvalidData | BrokenPipe | TimedOut
  | NotFound | ConnectionRefused | UnexpectedEof | OtherError

type_synonym 'a io_result = "(io_error, 'a) outcome"

datatype 'a poll = Ready 'a | Pending

text \<open>A byte is an 8-bit value; HOL's \<open>char\<close> is exactly that, and has literals.\<close>

type_synonym byte = char
type_synonym bytes = "char list"
type_synonym u64 = "64 word"
type_synonym usize = "64 word"

abbreviation (input) CR :: byte where "CR \<equiv> CHR 0x0D"
abbreviation (input) LF :: byte where "LF \<equiv> CHR 0x0A"
abbreviation (input) TAB :: byte where "TAB \<equiv> CHR 0x09"
abbreviation (input) SP :: byte where "SP \<equiv> CHR 0x20"
abbreviation (input) COLON :: byte where "COLON \<equiv> CHR 0x3A"

definition usize_max :: nat where
  "usize_max = 2 ^ 64 - 1"

section \<open>The enumerate search\<close>

text \<open>
  \<open>for (offset, c) in buf.iter().cloned().enumerate() { if p(c) { return Some(offset) } } None\<close>
\<close>

fun find_offset :: "('a \<Rightarrow> bool) \<Rightarrow> 'a list \<Rightarrow> nat option" where
  "find_offset p [] = None"
| "find_offset p (c # cs) = (if p c then Some 0 else map_option Suc (find_offset p cs))"

lemma find_offset_None [simp]: "find_offset p xs = None \<longleftrightarrow> (\<forall>x\<in>set xs. \<not> p x)"
  by (induction xs) auto

lemma find_offset_Some:
  "find_offset p xs = Some n \<longleftrightarrow>
     n < length xs \<and> p (xs ! n) \<and> n = length (takeWhile (\<lambda>x. \<not> p x) xs)"
proof (induction xs arbitrary: n)
  case (Cons x xs)
  then show ?case by (cases n) auto
qed simp

lemma find_offset_less: "find_offset p xs = Some n \<Longrightarrow> n < length xs"
  by (simp add: find_offset_Some)

lemma find_offset_append_hit:
  "\<lbrakk> \<forall>x\<in>set xs. \<not> p x; p y \<rbrakk> \<Longrightarrow> find_offset p (xs @ y # ys) = Some (length xs)"
  by (induction xs) auto

lemma find_offset_append_Some:
  "find_offset p xs = Some n \<Longrightarrow> find_offset p (xs @ ys) = Some n"
  by (induction xs arbitrary: n) (auto split: if_splits)

lemma find_offset_all_before:
  "find_offset p xs = Some n \<Longrightarrow> \<forall>x\<in>set (take n xs). \<not> p x"
  by (induction xs arbitrary: n) (auto split: if_splits simp: take_Cons')

section \<open>Maps\<close>

text \<open>\<open>map.remove(k)\<close> of a \<open>HashMap\<close> or \<open>DashMap\<close>: the value, and the map without the key.\<close>

definition map_remove :: "'k \<Rightarrow> ('k \<rightharpoonup> 'v) \<Rightarrow> 'v option \<times> ('k \<rightharpoonup> 'v)" where
  "map_remove k m = (m k, m(k := None))"

lemma dom_map_remove [simp]: "dom (snd (map_remove k m)) = dom m - {k}"
  by (simp add: map_remove_def)

lemma map_remove_simps [simp]:
  "fst (map_remove k m) = m k" "snd (map_remove k m) = m(k := None)"
  by (simp_all add: map_remove_def)

section \<open>Ownership\<close>

text \<open>
  Boxes behind raw pointers: \<open>B\<close> maps the allocated addresses to their contents and \<open>H\<close> the holders to the
  address that they own. Every address has one owner, and every owner an allocated address.
\<close>

definition owns :: "('h \<rightharpoonup> 'a) \<Rightarrow> ('a \<rightharpoonup> 'v) \<Rightarrow> bool" where
  "owns H B \<longleftrightarrow> inj_on H (dom H) \<and> ran H = dom B"

lemma ownsD: "\<lbrakk> owns H B; H h = Some a \<rbrakk> \<Longrightarrow> \<exists>v. B a = Some v"
  by (auto simp: owns_def ran_def)

lemma owns_uniq: "\<lbrakk> owns H B; H h = Some a; H h' = Some a \<rbrakk> \<Longrightarrow> h = h'"
  unfolding owns_def inj_on_def by (metis domI)

lemma owns_ex: "\<lbrakk> owns H B; B a = Some v \<rbrakk> \<Longrightarrow> \<exists>h. H h = Some a"
  by (force simp: owns_def ran_def dom_def)

lemma ownsI:
  assumes "\<And>h a. H h = Some a \<Longrightarrow> \<exists>v. B a = Some v" "\<And>h h' a. \<lbrakk> H h = Some a; H h' = Some a \<rbrakk> \<Longrightarrow> h = h'"
    "\<And>a v. B a = Some v \<Longrightarrow> \<exists>h. H h = Some a"
  shows "owns H B"
proof -
  have "inj_on H (dom H)" using assms(2) unfolding inj_on_def by (metis domD)
  moreover have "ran H = dom B" using assms(1,3) unfolding ran_def dom_def by blast
  ultimately show ?thesis by (simp add: owns_def)
qed

lemma owns_empty [simp]: "owns Map.empty Map.empty" by (simp add: owns_def)

lemma owns_new:
  assumes "owns H B" "H h = None" "B a = None"
  shows "owns (H(h \<mapsto> a)) (B(a \<mapsto> v))"
proof (rule ownsI)
  fix b u assume "(B(a \<mapsto> v)) b = Some u"
  then show "\<exists>k. (H(h \<mapsto> a)) k = Some b" using owns_ex [OF assms(1), of b u] assms(2) by (metis fun_upd_apply option.distinct(1))
qed (use assms in \<open>auto dest: ownsD owns_uniq split: if_splits\<close>)

lemma owns_free:
  assumes "owns H B" "H h = Some a"
  shows "owns (H(h := None)) (B(a := None))"
proof (rule ownsI)
  fix b u assume "(B(a := None)) b = Some u"
  then show "\<exists>k. (H(h := None)) k = Some b" using owns_ex [OF assms(1), of b u] assms(2) by (metis fun_upd_apply option.distinct(1) option.inject)
qed (use assms in \<open>auto dest: ownsD owns_uniq split: if_splits\<close>)

lemma owns_swap:
  assumes "owns H B" "H h = Some a" "h \<noteq> k"
  shows "owns (H(h := H k, k \<mapsto> a)) B"
proof (rule ownsI)
  fix b u assume "B b = Some u"
  then obtain l where l: "H l = Some b" using owns_ex [OF assms(1)] by blast
  then have "(H(h := H k, k \<mapsto> a)) (if l = h then k else if l = k then h else l) = Some b" using assms(2,3) by auto
  then show "\<exists>l. (H(h := H k, k \<mapsto> a)) l = Some b" by blast
qed (use assms in \<open>auto dest: ownsD owns_uniq split: if_splits\<close>)

lemma owns_move: "\<lbrakk> owns H B; H h = Some a; H k = None \<rbrakk> \<Longrightarrow> owns (H(h := None, k \<mapsto> a)) B"
  using owns_swap [of H B h a k] by (cases "h = k") auto
lemma owns_bij: "owns H B \<Longrightarrow> bij_betw (the \<circ> H) (dom H) (dom B)"
  unfolding bij_betw_def owns_def
proof (elim conjE, intro conjI)
  assume H: "inj_on H (dom H)" "ran H = dom B"
  then show "inj_on (the \<circ> H) (dom H)" by (auto simp: inj_on_def) (metis domI)
  show "(the \<circ> H) ` dom H = dom B" unfolding H(2) [symmetric] by (force simp: ran_def dom_def)
qed

text \<open>What the holders own, as values.\<close>

lemma owns_comp_new:
  assumes "owns H B" "H h = None" "B a = None"
  shows "B(a \<mapsto> v) \<circ>\<^sub>m H(h \<mapsto> a) = (B \<circ>\<^sub>m H)(h \<mapsto> v)"
proof
  fix k
  have "H k \<noteq> Some a" using ownsD [OF assms(1), of k a] assms(3) by auto
  then show "(B(a \<mapsto> v) \<circ>\<^sub>m H(h \<mapsto> a)) k = ((B \<circ>\<^sub>m H)(h \<mapsto> v)) k" by (auto simp: map_comp_def split: option.splits)
qed

lemma owns_comp_free:
  assumes "owns H B" "H h = Some a"
  shows "B(a := None) \<circ>\<^sub>m H(h := None) = (B \<circ>\<^sub>m H)(h := None)"
proof
  fix k
  have "H k \<noteq> Some a" if "k \<noteq> h" using owns_uniq [OF assms] that by auto
  then show "(B(a := None) \<circ>\<^sub>m H(h := None)) k = ((B \<circ>\<^sub>m H)(h := None)) k" by (auto simp: map_comp_def split: option.splits)
qed

text \<open>A program of operations, \<open>None\<close> when one of them is undefined; two of them, step by step.\<close>

fun run_ops :: "('o \<Rightarrow> 'st \<Rightarrow> ('x \<times> 'st) option) \<Rightarrow> 'o list \<Rightarrow> 'st \<Rightarrow> ('x list \<times> 'st) option" where
  "run_ops step [] st = Some ([], st)"
| "run_ops step (d # ops) st =
     Option.bind (step d st) (\<lambda>(r, st1). map_option (\<lambda>(rs, st2). (r # rs, st2)) (run_ops step ops st1))"

lemma run_ops_simulates:
  assumes step: "\<And>d a c r a'. \<lbrakk> R a c; spec d a = Some (r, a') \<rbrakk> \<Longrightarrow> \<exists>c'. impl d c = Some (r, c') \<and> R a' c'"
  shows "\<lbrakk> R a c; run_ops spec ops a = Some (rs, a') \<rbrakk> \<Longrightarrow> \<exists>c'. run_ops impl ops c = Some (rs, c') \<and> R a' c'"
proof (induction ops arbitrary: a c rs)
  case (Cons d ops)
  obtain r a1 rs1 where a1: "spec d a = Some (r, a1)" "run_ops spec ops a1 = Some (rs1, a')" "rs = r # rs1"
    using Cons.prems(2) by (auto split: bind_splits)
  obtain c1 where c1: "impl d c = Some (r, c1)" "R a1 c1" using step [OF Cons.prems(1) a1(1)] by blast
  then show ?case using Cons.IH [OF c1(2) a1(2)] a1(3) by auto
qed auto

end
