(* ===== verification/Read_Buf.thy ===== *)
theory Read_Buf
  imports Hala_Prelude
begin

text \<open>
  \<open>crates/io/src/read_buf.rs\<close>: \<open>ReadBuf\<close>, the buffer the HTTP parsers and the QUIC
  listener fill from a stream. It wraps \<open>bytes::BytesMut\<close>, which is not part of the repository.
  The wrapped buffer is its initialised contents and its capacity; how \<open>BytesMut::chunk_mut\<close>
  enlarges a full buffer is the parameter \<open>reserve\<close> (length and capacity give the capacity
  after the call), about which only the documented contract of \<open>BufMut::chunk_mut\<close> is assumed
  (\<open>bufmut_contract\<close>).
\<close>

record read_buf =
  contents :: bytes
  capacity :: nat

type_synonym reserve_fn = "nat \<Rightarrow> nat \<Rightarrow> nat"

text \<open>
  \<open>BufMut::chunk_mut\<close> is documented to return an empty slice if and only if
  \<open>remaining_mut()\<close> is 0, and \<open>BytesMut::remaining_mut\<close> is \<open>usize::MAX - len\<close>. A reservation
  never shrinks the buffer.
\<close>

definition bufmut_contract :: "reserve_fn \<Rightarrow> bool" where
  "bufmut_contract reserve \<longleftrightarrow>
     (\<forall>len cap. len \<le> cap \<longrightarrow> cap \<le> reserve len cap) \<and>
     (\<forall>len cap. len \<le> cap \<longrightarrow> len < usize_max \<longrightarrow> len < reserve len cap)"

definition with_capacity :: "nat \<Rightarrow> read_buf" where
  "with_capacity cap = \<lparr>contents = [], capacity = cap\<rparr>"

text \<open>The writable slice: its length, and the buffer after the reservation.\<close>

definition chunk_mut :: "reserve_fn \<Rightarrow> read_buf \<Rightarrow> nat \<times> read_buf" where
  "chunk_mut reserve rb =
     (let cap = reserve (length (contents rb)) (capacity rb)
      in (cap - length (contents rb), rb\<lparr>capacity := cap\<rparr>))"

text \<open>
  \<open>filled(n)\<close> after the stream wrote \<open>data\<close> at the start of the writable slice:
  \<open>advance_mut\<close> panics when it runs past the capacity.
\<close>

definition filled :: "bytes \<Rightarrow> read_buf \<Rightarrow> ('e, read_buf) outcome" where
  "filled data rb =
     (if length (contents rb) + length data \<le> capacity rb
      then Ok (rb\<lparr>contents := contents rb @ data\<rparr>) else Panic)"

definition chunk :: "read_buf \<Rightarrow> bytes" where
  "chunk rb = contents rb"

text \<open>\<open>split_to(at)\<close> panics when \<open>at > len\<close>; the capacity moves with the split-off front.\<close>

definition split_to :: "nat \<Rightarrow> read_buf \<Rightarrow> ('e, bytes \<times> read_buf) outcome" where
  "split_to at rb =
     (if at \<le> length (contents rb)
      then Ok (take at (contents rb),
               \<lparr>contents = drop at (contents rb), capacity = capacity rb - at\<rparr>)
      else Panic)"

definition into_bytes_mut :: "bytes option \<Rightarrow> read_buf \<Rightarrow> ('e, bytes) outcome" where
  "into_bytes_mut advance rb =
     (case advance of
        None \<Rightarrow> Ok (contents rb)
      | Some data \<Rightarrow> map_ok contents (filled data rb))"

definition into_bytes :: "bytes option \<Rightarrow> read_buf \<Rightarrow> ('e, bytes) outcome" where
  "into_bytes advance rb = into_bytes_mut advance rb"

definition advance :: "nat \<Rightarrow> read_buf \<Rightarrow> ('e, read_buf) outcome" where
  "advance cnt rb = map_ok snd (split_to cnt rb)"

section \<open>Well-formedness\<close>

definition rb_wf :: "read_buf \<Rightarrow> bool" where
  "rb_wf rb \<longleftrightarrow> length (contents rb) \<le> capacity rb"

lemma rb_wf_with_capacity [simp]: "rb_wf (with_capacity n)"
  by (simp add: rb_wf_def with_capacity_def)

lemma rb_wf_chunk_mut:
  "\<lbrakk> bufmut_contract reserve; rb_wf rb \<rbrakk> \<Longrightarrow> rb_wf (snd (chunk_mut reserve rb))"
  by (auto simp: rb_wf_def chunk_mut_def bufmut_contract_def Let_def intro: order_trans)

lemma chunk_chunk_mut [simp]: "chunk (snd (chunk_mut reserve rb)) = chunk rb"
  by (simp add: chunk_def chunk_mut_def Let_def)

lemma chunk_with_capacity [simp]: "chunk (with_capacity n) = []"
  by (simp add: chunk_def with_capacity_def)

lemma chunk_mut_positive:
  "\<lbrakk> bufmut_contract reserve; rb_wf rb; length (chunk rb) < usize_max \<rbrakk>
   \<Longrightarrow> 0 < fst (chunk_mut reserve rb)"
  by (simp add: rb_wf_def chunk_mut_def bufmut_contract_def chunk_def Let_def)

lemma filled_fits:
  assumes "length data \<le> fst (chunk_mut reserve rb)" "bufmut_contract reserve" "rb_wf rb"
  shows "\<exists>rb'. filled data (snd (chunk_mut reserve rb)) = Ok rb' \<and>
           chunk rb' = chunk rb @ data \<and> rb_wf rb'"
proof -
  have "capacity rb \<le> reserve (length (contents rb)) (capacity rb)"
    using assms(2,3) by (simp add: bufmut_contract_def rb_wf_def)
  with assms(1,3) show ?thesis
    by (auto simp: filled_def chunk_mut_def chunk_def rb_wf_def Let_def)
qed

lemma split_to_Ok:
  "split_to at rb = Ok (front, rb') \<longleftrightarrow>
     at \<le> length (chunk rb) \<and> front = take at (chunk rb) \<and>
     rb' = \<lparr>contents = drop at (chunk rb), capacity = capacity rb - at\<rparr>"
  by (auto simp: split_to_def chunk_def)

lemma split_to_Panic [simp]: "split_to at rb = Panic \<longleftrightarrow> length (chunk rb) < at"
  by (auto simp: split_to_def chunk_def)

lemma split_to_no_Err [simp]: "split_to at rb \<noteq> Err e"
  by (simp add: split_to_def)

lemma split_to_rb_wf: "\<lbrakk> split_to at rb = Ok (front, rb'); rb_wf rb \<rbrakk> \<Longrightarrow> rb_wf rb'"
  by (auto simp: split_to_Ok rb_wf_def chunk_def)

lemma split_to_chunk: "split_to at rb = Ok (front, rb') \<Longrightarrow> front @ chunk rb' = chunk rb"
  by (auto simp: split_to_Ok chunk_def)

end
