(* ===== verification/Http_Scan.thy ===== *)
theory Http_Scan
  imports Read_Buf
begin

text \<open>
  The lexical layer of \<open>crates/net/http/src/parse.rs\<close>: the error type, the configuration, the
  byte scanners, newline skipping and the header-line parser. The \<open>http\<close> crate is not part of
  the repository: its constructors (\<open>Method::from_bytes\<close>, \<open>Uri::from_maybe_shared\<close>,
  \<open>HeaderName::from_bytes\<close>, \<open>HeaderValue::from_maybe_shared\<close>, \<open>StatusCode::from_bytes\<close>) and
  the success of \<open>Builder::body\<close> are the fields of the parameter \<open>http_api\<close>; a builder is the
  list of the calls made on it.
\<close>

section \<open>Errors, configuration, versions\<close>

datatype parse_error =
    HttpError | ParseBufOverflow nat | IoError io_error | Eof | MissMethod | InvalidMethod
  | MissUri | InvalidUri | BadVersion | InvalidHeaderName | InvalidHeaderValue
  | InvalidStatusCode | SerdeJsonError

type_synonym 'a parse_result = "(parse_error, 'a) outcome"

text \<open>\<open>impl From<ParseError> for io::Error\<close>\<close>

fun parse_error_into_io :: "parse_error \<Rightarrow> io_error" where
  "parse_error_into_io (IoError err) = err"
| "parse_error_into_io _ = OtherError"

record config =
  parsing_headers_max_buf :: nat

definition default_config :: config where
  "default_config = \<lparr>parsing_headers_max_buf = 2048\<rparr>"

datatype version = HTTP_09 | HTTP_10 | HTTP_11 | HTTP_2 | HTTP_3

datatype 'o builder_call =
    CallMethod 'o | CallUri 'o | CallVersion version | CallHeader 'o 'o | CallStatus 'o

record 'o http_api =
  method_from_bytes :: "bytes \<Rightarrow> 'o option"
  uri_from_maybe_shared :: "bytes \<Rightarrow> 'o option"
  header_name_from_bytes :: "bytes \<Rightarrow> 'o option"
  header_value_from_maybe_shared :: "bytes \<Rightarrow> 'o option"
  status_code_from_bytes :: "bytes \<Rightarrow> 'o option"
  body_ok :: "'o builder_call list \<Rightarrow> bool"

section \<open>Scanners\<close>

definition is_space :: "byte \<Rightarrow> bool" where
  "is_space b \<longleftrightarrow> b = SP \<or> b = TAB"

definition is_newline :: "byte \<Rightarrow> bool" where
  "is_newline c \<longleftrightarrow> c = CR \<or> c = LF"

definition skip_spaces :: "bytes \<Rightarrow> nat" where
  "skip_spaces buf =
     (case find_offset (\<lambda>b. \<not> is_space b) buf of Some off \<Rightarrow> off | None \<Rightarrow> length buf)"

definition parse_token :: "bytes \<Rightarrow> nat option" where
  "parse_token buf = find_offset (\<lambda>c. c = SP \<or> c = TAB \<or> c = CR \<or> c = LF) buf"

definition parse_header_name :: "bytes \<Rightarrow> nat option" where
  "parse_header_name buf = find_offset (\<lambda>c. c = COLON) buf"

definition parse_header_value :: "bytes \<Rightarrow> nat option" where
  "parse_header_value buf = find_offset (\<lambda>c. c = CR \<or> c = LF) buf"

definition parse_reason :: "bytes \<Rightarrow> nat option" where
  "parse_reason buf = find_offset (\<lambda>c. c = CR \<or> c = LF) buf"

definition parse_version :: "bytes \<Rightarrow> version option parse_result" where
  "parse_version buf =
     (if 8 \<le> length buf then
        (let tag = take 8 buf in
         if tag = ''HTTP/0.9'' then Ok (Some HTTP_09)
         else if tag = ''HTTP/1.0'' then Ok (Some HTTP_10)
         else if tag = ''HTTP/1.1'' then Ok (Some HTTP_11)
         else if tag = ''HTTP/2.0'' then Ok (Some HTTP_2)
         else if tag = ''HTTP/3.0'' then Ok (Some HTTP_3)
         else Err BadVersion)
      else Ok None)"

definition parse_code :: "'o http_api \<Rightarrow> bytes \<Rightarrow> 'o option parse_result" where
  "parse_code api buf =
     (if 3 \<le> length buf
      then map_ok Some (ok_or InvalidStatusCode (status_code_from_bytes api (take 3 buf)))
      else Ok None)"

definition trim_suffix_spaces :: "bytes \<Rightarrow> bytes" where
  "trim_suffix_spaces buf =
     (case find_offset (\<lambda>c. c \<noteq> SP \<and> c \<noteq> TAB) (rev buf) of
        Some off \<Rightarrow> (if 0 < off then take (length buf - off) buf else buf)
      | None \<Rightarrow> buf)"

section \<open>Newlines\<close>

datatype skip_new_line = SkipNone | One nat | Break nat | Incomplete

definition raw_skip_newline :: "bytes \<Rightarrow> skip_new_line" where
  "raw_skip_newline buf =
     (if 1 < length buf \<and> [CR, LF] = take 2 buf then One 2
      else if 1 < length buf \<and> [LF, LF] = take 2 buf then Break 2
      else if 0 < length buf then
        (if buf ! 0 = LF then One 1 else if buf ! 0 = CR then Incomplete else SkipNone)
      else SkipNone)"

lemma raw_skip_newline_simps:
  "raw_skip_newline [] = SkipNone"
  "raw_skip_newline [c] = (if c = LF then One 1 else if c = CR then Incomplete else SkipNone)"
  "raw_skip_newline (c # d # cs) =
     (if c = LF then (if d = LF then Break 2 else One 1)
      else if c = CR then (if d = LF then One 2 else Incomplete) else SkipNone)"
  by (simp_all add: raw_skip_newline_def)

lemma raw_skip_newline_One_bounds:
  "raw_skip_newline buf = One n \<Longrightarrow> 0 < n \<and> n \<le> length buf"
  by (cases buf rule: remdups_adj.cases) (auto simp: raw_skip_newline_simps split: if_splits)

lemma raw_skip_newline_Break_bounds:
  "raw_skip_newline buf = Break n \<Longrightarrow> 0 < n \<and> n \<le> length buf"
  by (cases buf rule: remdups_adj.cases) (auto simp: raw_skip_newline_simps split: if_splits)

text \<open>The \<open>loop\<close> of \<open>_skip_newlines\<close>, with its two mutable locals as arguments.\<close>

function skip_newlines_loop :: "bytes \<Rightarrow> nat \<Rightarrow> bool \<Rightarrow> skip_new_line" where
  "skip_newlines_loop buf offset is_break =
     (case raw_skip_newline (drop offset buf) of
        Incomplete \<Rightarrow>
          (if is_break then Break offset else if 0 < offset then One offset else SkipNone)
      | SkipNone \<Rightarrow>
          (if is_break then Break offset else if 0 < offset then One offset else SkipNone)
      | One len \<Rightarrow> skip_newlines_loop buf (offset + len) (if 0 < offset then True else is_break)
      | Break len \<Rightarrow> skip_newlines_loop buf (offset + len) True)"
  by pat_completeness auto
termination
  by (relation "measure (\<lambda>(buf, offset, is_break). length buf - offset)")
     (auto dest!: raw_skip_newline_One_bounds raw_skip_newline_Break_bounds)

declare skip_newlines_loop.simps [simp del]

definition raw_skip_newlines :: "bytes \<Rightarrow> skip_new_line" where
  "raw_skip_newlines buf = skip_newlines_loop buf 0 False"

definition skip_newlines :: "read_buf \<Rightarrow> (skip_new_line \<times> read_buf) parse_result" where
  "skip_newlines rb =
     (let r = raw_skip_newlines (chunk rb) in
      case r of
        One len \<Rightarrow> map_ok (\<lambda>(_, rb'). (r, rb')) (split_to len rb)
      | Break len \<Rightarrow> map_ok (\<lambda>(_, rb'). (r, rb')) (split_to len rb)
      | _ \<Rightarrow> Ok (r, rb))"

section \<open>Header lines\<close>

text \<open>\<open>&buf[from..]\<close> panics when \<open>from\<close> lies past the end.\<close>

definition slice_from :: "bytes \<Rightarrow> nat \<Rightarrow> bytes parse_result" where
  "slice_from buf from = (if from \<le> length buf then Ok (drop from buf) else Panic)"

definition parse_header ::
  "'o http_api \<Rightarrow> read_buf \<Rightarrow> (('o \<times> 'o) option \<times> read_buf) parse_result" where
  "parse_header api rb =
     (let buf = chunk rb; name_offset = skip_spaces buf in
      and_then (slice_from buf name_offset) (\<lambda>name_slice.
      case parse_header_name name_slice of
        None \<Rightarrow> Ok (None, rb)
      | Some name_len \<Rightarrow>
          let off = name_offset + (name_len + 1) in
          and_then (slice_from buf off) (\<lambda>after_colon.
          let value_offset = skip_spaces after_colon in
          and_then (slice_from buf (off + value_offset)) (\<lambda>value_slice.
          case parse_header_value value_slice of
            None \<Rightarrow> Ok (None, rb)
          | Some value_len \<Rightarrow>
              and_then (split_to name_offset rb) (\<lambda>(_, rb1).
              and_then (split_to name_len rb1) (\<lambda>(name, rb2).
              and_then (ok_or InvalidHeaderName
                 (header_name_from_bytes api (trim_suffix_spaces name))) (\<lambda>header_name.
              and_then (split_to (value_offset + 1) rb2) (\<lambda>(_, rb3).
              and_then (split_to value_len rb3) (\<lambda>(val, rb4).
              and_then (ok_or InvalidHeaderValue
                 (header_value_from_maybe_shared api (trim_suffix_spaces val))) (\<lambda>header_value.
              Ok (Some (header_name, header_value), rb4)))))))))))"

section \<open>What the scanners compute\<close>

lemma skip_spaces_takeWhile: "skip_spaces buf = length (takeWhile is_space buf)"
proof (cases "find_offset (\<lambda>b. \<not> is_space b) buf")
  case None
  then have "length (takeWhile is_space buf) = length buf"
    by (metis find_offset_None takeWhile_eq_all_conv)
  with None show ?thesis by (simp add: skip_spaces_def del: find_offset_None)
next
  case (Some n)
  then show ?thesis by (simp add: skip_spaces_def) (simp add: find_offset_Some)
qed

lemma skip_spaces_le [simp]: "skip_spaces buf \<le> length buf"
  by (simp add: skip_spaces_takeWhile length_takeWhile_le)

lemma drop_skip_spaces: "drop (skip_spaces buf) buf = dropWhile is_space buf"
  by (simp add: skip_spaces_takeWhile dropWhile_eq_drop)

lemma skip_spaces_append:
  "\<forall>x\<in>set xs. is_space x \<Longrightarrow> skip_spaces (xs @ ys) = length xs + skip_spaces ys"
  by (simp add: skip_spaces_takeWhile takeWhile_append2)

lemma skip_spaces_Cons_stop: "\<not> is_space y \<Longrightarrow> skip_spaces (y # ys) = 0"
  by (simp add: skip_spaces_takeWhile)

lemma slice_from_Ok [simp]: "from \<le> length buf \<Longrightarrow> slice_from buf from = Ok (drop from buf)"
  by (simp add: slice_from_def)

lemmas scan_defs = parse_token_def parse_header_name_def parse_header_value_def parse_reason_def

lemma scan_less:
  "parse_token buf = Some n \<Longrightarrow> n < length buf"
  "parse_header_name buf = Some n \<Longrightarrow> n < length buf"
  "parse_header_value buf = Some n \<Longrightarrow> n < length buf"
  "parse_reason buf = Some n \<Longrightarrow> n < length buf"
  by (auto simp: scan_defs find_offset_less)

lemma parse_version_long: "parse_version buf = Ok (Some v) \<Longrightarrow> 8 \<le> length buf"
  by (auto simp: parse_version_def split: if_splits)

lemma parse_version_no_Panic [simp]: "parse_version buf \<noteq> Panic"
  by (simp add: parse_version_def Let_def)

lemma parse_code_long: "parse_code api buf = Ok (Some c) \<Longrightarrow> 3 \<le> length buf"
  by (auto simp: parse_code_def split: if_splits)

lemma parse_code_no_Panic [simp]: "parse_code api buf \<noteq> Panic"
  by (simp add: parse_code_def)

text \<open>
  Trimming drops exactly the trailing spaces and tabs of a buffer that holds some other byte
  (a buffer of spaces only is left as it is).
\<close>

lemma trim_suffix_spaces_eq:
  assumes "\<not> is_space x" "\<forall>y\<in>set ys. is_space y"
  shows "trim_suffix_spaces (xs @ x # ys) = xs @ [x]"
proof -
  have "find_offset (\<lambda>c. c \<noteq> SP \<and> c \<noteq> TAB) (rev ys @ x # rev xs) = Some (length ys)"
    using assms find_offset_append_hit [of "rev ys" "\<lambda>c. c \<noteq> SP \<and> c \<noteq> TAB" x "rev xs"]
    by (auto simp: is_space_def)
  then show ?thesis by (simp add: trim_suffix_spaces_def)
qed

lemma trim_suffix_spaces_Nil [simp]: "trim_suffix_spaces [] = []"
  by (simp add: trim_suffix_spaces_def)

lemma trim_suffix_spaces_id: "xs = [] \<or> \<not> is_space (last xs) \<Longrightarrow> trim_suffix_spaces xs = xs"
  using trim_suffix_spaces_eq [of "last xs" "[]" "butlast xs"] by (cases "xs = []") auto

section \<open>Newline runs\<close>

text \<open>
  Reference description of newline skipping: a newline token is LF or CR LF; \<open>nl_run\<close> is the
  number of bytes, \<open>nl_count\<close> the number of tokens of the longest run of newline tokens.
\<close>

fun nl_run :: "bytes \<Rightarrow> nat" where
  "nl_run [] = 0"
| "nl_run [c] = (if c = LF then 1 else 0)"
| "nl_run (c # d # cs) =
     (if c = LF then Suc (nl_run (d # cs)) else if c = CR \<and> d = LF then 2 + nl_run cs else 0)"

fun nl_count :: "bytes \<Rightarrow> nat" where
  "nl_count [] = 0"
| "nl_count [c] = (if c = LF then 1 else 0)"
| "nl_count (c # d # cs) =
     (if c = LF then Suc (nl_count (d # cs)) else if c = CR \<and> d = LF then Suc (nl_count cs) else 0)"

lemma nl_run_le: "nl_run buf \<le> length buf"
  by (induction buf rule: nl_run.induct) auto

lemma nl_LF [simp]: "nl_run (LF # cs) = Suc (nl_run cs)" "nl_count (LF # cs) = Suc (nl_count cs)"
  by (cases cs; simp)+

lemma nl_CRLF [simp]:
  "nl_run (CR # LF # cs) = 2 + nl_run cs" "nl_count (CR # LF # cs) = Suc (nl_count cs)"
  by simp_all

lemma nl_stop [simp]:
  "\<not> is_newline c \<Longrightarrow> nl_run (c # cs) = 0" "\<not> is_newline c \<Longrightarrow> nl_count (c # cs) = 0"
  by (cases cs; simp add: is_newline_def)+

lemma nl_count_0: "nl_count buf = 0 \<longleftrightarrow> nl_run buf = 0"
  by (induction buf rule: nl_run.induct) auto

lemma raw_skip_newline_One:
  "raw_skip_newline buf = One n \<Longrightarrow>
     nl_run buf = n + nl_run (drop n buf) \<and> nl_count buf = Suc (nl_count (drop n buf))"
  by (cases buf rule: nl_run.cases)
     (auto simp: raw_skip_newline_simps numeral_2_eq_2 split: if_splits)

lemma raw_skip_newline_Break:
  "raw_skip_newline buf = Break n \<Longrightarrow>
     nl_run buf = n + nl_run (drop n buf) \<and> nl_count buf = Suc (Suc (nl_count (drop n buf)))"
  by (cases buf rule: nl_run.cases)
     (auto simp: raw_skip_newline_simps numeral_2_eq_2 split: if_splits)

lemma raw_skip_newline_stop:
  "raw_skip_newline buf = SkipNone \<or> raw_skip_newline buf = Incomplete \<Longrightarrow>
     nl_run buf = 0 \<and> nl_count buf = 0"
  by (cases buf rule: nl_run.cases)
     (auto simp: raw_skip_newline_simps split: if_splits)

lemma skip_newlines_loop_eq:
  "offset \<le> length buf \<Longrightarrow>
   skip_newlines_loop buf offset is_break =
     (let n = offset + nl_run (drop offset buf); k = nl_count (drop offset buf) in
      if is_break \<or> 2 \<le> k \<or> 0 < offset \<and> 1 \<le> k then Break n
      else if 0 < offset \<or> 1 \<le> k then One n else SkipNone)"
proof (induction buf offset is_break rule: skip_newlines_loop.induct)
  case (1 buf offset is_break)
  show ?case
  proof (cases "raw_skip_newline (drop offset buf)")
    case SkipNone
    then show ?thesis
      using raw_skip_newline_stop [of "drop offset buf"]
      by (simp add: skip_newlines_loop.simps [of buf offset is_break])
  next
    case Incomplete
    then show ?thesis
      using raw_skip_newline_stop [of "drop offset buf"]
      by (simp add: skip_newlines_loop.simps [of buf offset is_break])
  next
    case (One n)
    note bounds = raw_skip_newline_One_bounds [OF One]
    then have le: "offset + n \<le> length buf" using "1.prems" by auto
    show ?thesis
      using "1.IH"(1) [OF One le] raw_skip_newline_One [OF One] bounds
      by (auto simp: skip_newlines_loop.simps [of buf offset is_break] One Let_def add.commute)
  next
    case (Break n)
    note bounds = raw_skip_newline_Break_bounds [OF Break]
    then have le: "offset + n \<le> length buf" using "1.prems" by auto
    show ?thesis
      using "1.IH"(2) [OF Break le] raw_skip_newline_Break [OF Break] bounds
      by (auto simp: skip_newlines_loop.simps [of buf offset is_break] Break Let_def add.commute)
  qed
qed

lemma raw_skip_newlines_eq:
  "raw_skip_newlines buf =
     (if 2 \<le> nl_count buf then Break (nl_run buf)
      else if nl_count buf = 1 then One (nl_run buf) else SkipNone)"
  by (auto simp: raw_skip_newlines_def skip_newlines_loop_eq Let_def)

section \<open>What the header-line parser computes\<close>

lemma skip_newlines_eq:
  "skip_newlines rb =
     Ok (raw_skip_newlines (chunk rb),
         \<lparr>contents = drop (nl_run (chunk rb)) (chunk rb),
          capacity = capacity rb - nl_run (chunk rb)\<rparr>)"
  using nl_run_le [of "chunk rb"] nl_count_0 [of "chunk rb"]
  by (cases rb) (auto simp: skip_newlines_def raw_skip_newlines_eq split_to_def chunk_def Let_def)

lemma parse_header_eq:
  "parse_header api rb =
     (let buf = chunk rb; no = skip_spaces buf in
      case parse_header_name (drop no buf) of
        None \<Rightarrow> Ok (None, rb)
      | Some nl \<Rightarrow>
          let off = no + (nl + 1); vo = skip_spaces (drop off buf) in
          case parse_header_value (drop (off + vo) buf) of
            None \<Rightarrow> Ok (None, rb)
          | Some vl \<Rightarrow>
              and_then (ok_or InvalidHeaderName
                 (header_name_from_bytes api (trim_suffix_spaces (take nl (drop no buf))))) (\<lambda>hn.
              and_then (ok_or InvalidHeaderValue
                 (header_value_from_maybe_shared api
                    (trim_suffix_spaces (take vl (drop (off + vo) buf))))) (\<lambda>hv.
              Ok (Some (hn, hv), \<lparr>contents = drop (off + vo + vl) buf,
                                  capacity = capacity rb - (off + vo + vl)\<rparr>))))"
proof (cases "parse_header_name (drop (skip_spaces (chunk rb)) (chunk rb))")
  case None
  then show ?thesis by (simp add: parse_header_def)
next
  case name: (Some nl)
  let ?no = "skip_spaces (chunk rb)"
  let ?off = "?no + (nl + 1)"
  let ?vo = "skip_spaces (drop ?off (chunk rb))"
  have nl: "nl < length (chunk rb) - ?no" using scan_less(2) [OF name] by simp
  have vo: "?vo \<le> length (chunk rb) - ?off"
    using skip_spaces_le [of "drop ?off (chunk rb)"] by simp
  have slices: "?no \<le> length (chunk rb)" "?off \<le> length (chunk rb)"
      "?off + ?vo \<le> length (chunk rb)"
    using nl vo by auto
  show ?thesis
  proof (cases "parse_header_value (drop (?off + ?vo) (chunk rb))")
    case None
    then show ?thesis
      using name by (simp only: parse_header_def Let_def slice_from_Ok slices and_then.simps option.case)
  next
    case val: (Some vl)
    have vl: "vl < length (chunk rb) - (?off + ?vo)" using scan_less(3) [OF val] by simp
    define no off vo where "no = ?no" and "off = ?off" and "vo = ?vo"
    have sizes: "no + nl < off" "off + vo + vl < length (chunk rb)" "no \<le> off" "off - (no + nl) = 1"
      "vo + 1 + (no + nl) = off + vo"
      using nl vl by (auto simp: no_def off_def vo_def)
    have splits:
      "split_to no rb = Ok (take no (chunk rb),
         \<lparr>contents = drop no (chunk rb), capacity = capacity rb - no\<rparr>)"
      "split_to nl \<lparr>contents = drop no (chunk rb), capacity = capacity rb - no\<rparr> =
         Ok (take nl (drop no (chunk rb)),
             \<lparr>contents = drop (no + nl) (chunk rb), capacity = capacity rb - (no + nl)\<rparr>)"
      "split_to (vo + 1) \<lparr>contents = drop (no + nl) (chunk rb), capacity = capacity rb - (no + nl)\<rparr> =
         Ok (take (vo + 1) (drop (no + nl) (chunk rb)),
             \<lparr>contents = drop (off + vo) (chunk rb), capacity = capacity rb - (off + vo)\<rparr>)"
      "split_to vl \<lparr>contents = drop (off + vo) (chunk rb), capacity = capacity rb - (off + vo)\<rparr> =
         Ok (take vl (drop (off + vo) (chunk rb)),
             \<lparr>contents = drop (off + vo + vl) (chunk rb), capacity = capacity rb - (off + vo + vl)\<rparr>)"
      using sizes
      by (auto simp: split_to_Ok chunk_def [of "\<lparr>contents = _, capacity = _\<rparr>"] add.commute
            simp del: split_to_Panic)
    show ?thesis
      by (simp only: parse_header_def Let_def slice_from_Ok slices and_then.simps option.case
            name val splits [unfolded no_def off_def vo_def] prod.case)
  qed
qed

end
