(* ===== verification/Http_Loop.thy ===== *)
theory Http_Loop
  imports Http_Scan "HOL-Library.Sublist"
begin

text \<open>
  The transport stream and the contract of the read-and-parse loop that \<open>Requester::parse\<close> and
  \<open>Responser::parse\<close> (\<open>crates/net/http/src/parse.rs\<close>) share. The locale \<open>parser_loop\<close> fixes
  the per-state parser (\<open>dispatch\<close>) and the two loops built on it, assumes what the per-state
  parsers promise, and derives what the loops guarantee; the request and the response parser
  interpret it on their own definitions.
\<close>

section \<open>The stream\<close>

text \<open>
  A value of the \<open>AsyncRead\<close> parameter \<open>S\<close> is what it will deliver: pieces of data, each handed
  out by one \<open>read\<close> or by several when the caller's buffer is shorter, and failures. The end
  of the list is the end of the stream (\<open>read\<close> returns 0).
\<close>

datatype stream_event = Data bytes | Fail io_error

type_synonym stream = "stream_event list"

fun stream_read :: "nat \<Rightarrow> stream \<Rightarrow> (bytes \<times> stream) io_result" where
  "stream_read n [] = Ok ([], [])"
| "stream_read n (Fail e # s) = Err e"
| "stream_read n (Data d # s) =
     (if length d \<le> n then Ok (d, s) else Ok (take n d, Data (drop n d) # s))"

fun stream_bytes :: "stream \<Rightarrow> bytes" where
  "stream_bytes [] = []"
| "stream_bytes (Fail e # s) = stream_bytes s"
| "stream_bytes (Data d # s) = d @ stream_bytes s"

definition stream_size :: "stream \<Rightarrow> nat" where
  "stream_size s = length s + length (stream_bytes s)"

lemma stream_read_length: "stream_read n s = Ok (d, s') \<Longrightarrow> length d \<le> n"
  by (induction n s rule: stream_read.induct) (auto split: if_splits)

lemma stream_read_bytes: "stream_read n s = Ok (d, s') \<Longrightarrow> stream_bytes s = d @ stream_bytes s'"
  by (induction n s rule: stream_read.induct) (auto split: if_splits)

lemma stream_read_no_Panic [simp]: "stream_read n s \<noteq> Panic"
  by (induction n s rule: stream_read.induct) auto

lemma stream_read_size:
  "\<lbrakk> stream_read n s = Ok (d, s'); d \<noteq> [] \<rbrakk> \<Longrightarrow> stream_size s' < stream_size s"
  by (induction n s rule: stream_read.induct) (auto simp: stream_size_def split: if_splits)

text \<open>\<open>BodyReader\<close> of \<open>body.rs\<close>: what the parser read past the headers, and the rest of the stream.\<close>

record body_reader =
  br_cached :: bytes
  br_stream :: stream

text \<open>The method \<open>skip_spaces(&mut self, read_buf)\<close>.\<close>

definition buf_skip_spaces :: "read_buf \<Rightarrow> read_buf parse_result" where
  "buf_skip_spaces rb = map_ok snd (split_to (skip_spaces (chunk rb)) rb)"

section \<open>Consuming a prefix of the buffer\<close>

lemma buf_skip_spaces_eq:
  "buf_skip_spaces rb =
     Ok \<lparr>contents = dropWhile is_space (chunk rb), capacity = capacity rb - skip_spaces (chunk rb)\<rparr>"
  using skip_spaces_le [of "chunk rb"]
  by (simp add: buf_skip_spaces_def split_to_def drop_skip_spaces flip: chunk_def)

lemma chunk_make [simp]: "chunk \<lparr>contents = c, capacity = n\<rparr> = c"
  by (simp add: chunk_def)

lemma rb_wf_make_drop: "rb_wf rb \<Longrightarrow> rb_wf \<lparr>contents = drop n (chunk rb), capacity = capacity rb - n\<rparr>"
  by (auto simp: rb_wf_def chunk_def)

text \<open>
  Every step leaves the parser's stream and configuration alone and a buffer that is what a
  \<open>split_to\<close> of the original would leave; \<open>consumes n\<close> names that.
\<close>

definition consumes :: "nat \<Rightarrow> read_buf \<Rightarrow> read_buf \<Rightarrow> bool" where
  "consumes n rb rb' \<longleftrightarrow>
     n \<le> length (chunk rb) \<and> rb' = \<lparr>contents = drop n (chunk rb), capacity = capacity rb - n\<rparr>"

lemma consumes_trans: "\<lbrakk> consumes m rb rb1; consumes n rb1 rb2 \<rbrakk> \<Longrightarrow> consumes (m + n) rb rb2"
  by (auto simp: consumes_def add.commute)

lemma consumes_refl: "consumes 0 rb rb"
  by (simp add: consumes_def chunk_def)

lemma consumes_split_to: "split_to n rb = Ok (front, rb') \<Longrightarrow> consumes n rb rb'"
  by (simp add: split_to_Ok consumes_def)

lemma consumes_skip_spaces: "buf_skip_spaces rb = Ok rb' \<Longrightarrow> consumes (skip_spaces (chunk rb)) rb rb'"
  by (auto simp: buf_skip_spaces_eq consumes_def drop_skip_spaces)

lemma consumes_skip_newlines: "skip_newlines rb = Ok (r, rb') \<Longrightarrow> consumes (nl_run (chunk rb)) rb rb'"
  by (auto simp: skip_newlines_eq consumes_def nl_run_le)

lemma consumes_parse_header:
  assumes "parse_header api rb = Ok (Some h, rb')"
  shows "\<exists>n>0. consumes n rb rb'"
proof -
  let ?no = "skip_spaces (chunk rb)"
  obtain nl where nl: "parse_header_name (drop ?no (chunk rb)) = Some nl"
    using assms by (auto simp: parse_header_eq Let_def split: option.splits)
  let ?o = "?no + (nl + 1) + skip_spaces (drop (?no + (nl + 1)) (chunk rb))"
  obtain vl where vl: "parse_header_value (drop ?o (chunk rb)) = Some vl"
    and rb': "rb' = \<lparr>contents = drop (?o + vl) (chunk rb), capacity = capacity rb - (?o + vl)\<rparr>"
    using assms by (simp only: parse_header_eq Let_def nl option.case) (auto split: option.splits)
  have "?o + vl \<le> length (chunk rb)" using scan_less(3) [OF vl] by simp
  then have "consumes (?o + vl) rb rb'" by (simp only: consumes_def rb')
  then show ?thesis by (intro exI [of _ "?o + vl"] conjI) simp_all
qed

lemma parse_header_None: "parse_header api rb = Ok (None, rb') \<Longrightarrow> rb' = rb"
  by (auto simp: parse_header_eq Let_def split: option.splits)

lemma parse_header_no_Panic [simp]: "parse_header api rb \<noteq> Panic"
  by (auto simp: parse_header_eq Let_def and_then_eq_Panic split: option.splits)

lemma parse_header_Err:
  "parse_header api rb = Err e \<Longrightarrow> e = InvalidHeaderName \<or> e = InvalidHeaderValue"
  by (auto simp: parse_header_eq Let_def and_then_eq_Err ok_or_eq_Err split: option.splits)

lemma consumes_suffix: "consumes n rb rb' \<Longrightarrow> suffix (chunk rb') (chunk rb)"
  by (auto simp: consumes_def suffix_drop)

lemma consumes_wf: "\<lbrakk> consumes n rb rb'; rb_wf rb \<rbrakk> \<Longrightarrow> rb_wf rb'"
  by (auto simp: consumes_def rb_wf_make_drop)

lemma consumes_spare:
  "\<lbrakk> consumes n rb rb'; rb_wf rb \<rbrakk>
   \<Longrightarrow> capacity rb' - length (chunk rb') = capacity rb - length (chunk rb)"
  by (auto simp: consumes_def rb_wf_def chunk_def)

lemma consumes_length: "consumes n rb rb' \<Longrightarrow> length (chunk rb') = length (chunk rb) - n"
  by (auto simp: consumes_def)

lemma consumes_less: "\<lbrakk> consumes n rb rb'; 0 < n \<rbrakk> \<Longrightarrow> length (chunk rb') < length (chunk rb)"
  by (auto simp: consumes_def)

lemma consumes_progress:
  "\<lbrakk> consumes n rb rb'; 0 < n \<or> Q \<rbrakk> \<Longrightarrow>
   length (chunk rb') < length (chunk rb) \<or> length (chunk rb') = length (chunk rb) \<and> Q"
  by (cases "n = 0") (auto simp: consumes_def)

section \<open>Well-formed message parts\<close>

text \<open>
  The parts of a message head as a peer writes them: tokens, header fields with their values
  (no surrounding spaces), and the field lines, each preceded by the line break that ends the
  line before it.
\<close>

definition token_ok :: "bytes \<Rightarrow> bool" where
  "token_ok t \<longleftrightarrow> t \<noteq> [] \<and> (\<forall>c\<in>set t. \<not> is_space c \<and> \<not> is_newline c)"

definition field_ok :: "bytes \<times> bytes \<Rightarrow> bool" where
  "field_ok = (\<lambda>(n, v).
     n \<noteq> [] \<and> \<not> is_space (hd n) \<and> \<not> is_newline (hd n) \<and> \<not> is_space (last n) \<and> COLON \<notin> set n \<and>
     (\<forall>c\<in>set v. \<not> is_newline c) \<and> (v = [] \<or> \<not> is_space (hd v) \<and> \<not> is_space (last v)))"

definition field_line :: "bytes \<times> bytes \<Rightarrow> bytes" where
  "field_line = (\<lambda>(n, v). [CR, LF] @ n @ [COLON, SP] @ v)"

definition field_lines :: "(bytes \<times> bytes) list \<Rightarrow> bytes" where
  "field_lines hs = concat (map field_line hs)"

fun version_tag :: "version \<Rightarrow> bytes" where
  "version_tag HTTP_09 = ''HTTP/0.9''"
| "version_tag HTTP_10 = ''HTTP/1.0''"
| "version_tag HTTP_11 = ''HTTP/1.1''"
| "version_tag HTTP_2 = ''HTTP/2.0''"
| "version_tag HTTP_3 = ''HTTP/3.0''"

lemma version_tag_props: "token_ok (version_tag v)" "length (version_tag v) = 8"
  by (cases v; simp add: token_ok_def is_space_def is_newline_def)+

lemma parse_version_tag: "parse_version (version_tag v @ rest) = Ok (Some v)"
  by (cases v) (simp_all add: parse_version_def)

lemma parse_token_hit:
  "\<lbrakk> token_ok t; c = SP \<or> c = CR \<rbrakk> \<Longrightarrow> parse_token (t @ c # rest) = Some (length t)"
  unfolding parse_token_def token_ok_def
  by (rule find_offset_append_hit) (auto simp: is_space_def is_newline_def)

lemma dropWhile_space_token: "token_ok t \<Longrightarrow> dropWhile is_space (t @ rest) = t @ rest"
  by (cases t) (auto simp: token_ok_def)

lemma skip_spaces_token: "token_ok t \<Longrightarrow> skip_spaces (t @ rest) = 0"
  by (cases t) (auto simp: token_ok_def skip_spaces_Cons_stop)

lemma skip_spaces_SP_token: "token_ok t \<Longrightarrow> skip_spaces (SP # t @ rest) = 1"
  using skip_spaces_append [of "[SP]" "t @ rest"] by (simp add: skip_spaces_token is_space_def)

lemma parse_header_field:
  assumes ok: "field_ok (n, v)"
    and api: "header_name_from_bytes api n = Some hn" "header_value_from_maybe_shared api v = Some hv"
  shows "parse_header api \<lparr>contents = n @ COLON # SP # v @ CR # rest, capacity = c\<rparr> =
     Ok (Some (hn, hv), \<lparr>contents = CR # rest, capacity = c - (length n + 2 + length v)\<rparr>)"
proof -
  let ?buf = "n @ COLON # SP # v @ CR # rest"
  have no: "skip_spaces ?buf = 0"
    using ok by (cases n) (auto simp: field_ok_def skip_spaces_Cons_stop)
  have name: "parse_header_name ?buf = Some (length n)"
    unfolding parse_header_name_def
    by (rule find_offset_append_hit) (use ok in \<open>auto simp: field_ok_def\<close>)
  have vo: "skip_spaces (SP # v @ CR # rest) = 1"
    using ok skip_spaces_append [of "[SP]" "v @ CR # rest"]
    by (cases v) (auto simp: field_ok_def is_space_def skip_spaces_Cons_stop)
  have val: "parse_header_value (v @ CR # rest) = Some (length v)"
    unfolding parse_header_value_def
    by (rule find_offset_append_hit) (use ok in \<open>auto simp: field_ok_def is_newline_def\<close>)
  have trims: "trim_suffix_spaces n = n" "trim_suffix_spaces v = v"
    using ok by (auto simp: field_ok_def intro: trim_suffix_spaces_id)
  show ?thesis
    by (simp add: parse_header_eq no name vo val trims api)
qed

lemma skip_newlines_field:
  assumes "field_ok (n, v)"
  shows "skip_newlines \<lparr>contents = CR # LF # n @ rest, capacity = c\<rparr> =
     Ok (One 2, \<lparr>contents = n @ rest, capacity = c - 2\<rparr>)"
  using assms by (cases n) (auto simp: field_ok_def skip_newlines_eq raw_skip_newlines_eq)

lemma skip_newlines_end:
  assumes "nl_run body = 0"
  shows "skip_newlines \<lparr>contents = CR # LF # CR # LF # body, capacity = c\<rparr> =
     Ok (Break 4, \<lparr>contents = body, capacity = c - 4\<rparr>)"
  using assms nl_count_0 [of body] by (auto simp: skip_newlines_eq raw_skip_newlines_eq)

text \<open>The header step: line breaks, then at most one header line.\<close>

lemma newlines_then_header:
  assumes "skip_newlines rb = Ok (skipped, rb1)" "parse_header api rb1 = Ok (h, rb2)"
  shows "\<exists>n. consumes n rb rb2 \<and> (h \<noteq> None \<longrightarrow> 0 < n)"
proof (cases h)
  case None
  then show ?thesis
    using assms consumes_skip_newlines [OF assms(1)] by (auto dest: parse_header_None)
next
  case (Some nv)
  then show ?thesis
    using assms(2) consumes_parse_header [of api rb1 nv rb2]
      consumes_trans [OF consumes_skip_newlines [OF assms(1)]] by (metis add_gr_0)
qed

definition fields_accepted :: "'o http_api \<Rightarrow> (bytes \<times> bytes) list \<Rightarrow> bool" where
  "fields_accepted api hs \<longleftrightarrow> (\<forall>(n, v) \<in> set hs. field_ok (n, v) \<and>
     header_name_from_bytes api n \<noteq> None \<and> header_value_from_maybe_shared api v \<noteq> None)"

definition field_calls :: "'o http_api \<Rightarrow> (bytes \<times> bytes) list \<Rightarrow> 'o builder_call list" where
  "field_calls api hs = map (\<lambda>(n, v). CallHeader (the (header_name_from_bytes api n))
     (the (header_value_from_maybe_shared api v))) hs"

lemma skip_then_split:
  assumes "buf_skip_spaces rb = Ok rb1" "split_to n rb1 = Ok (front, rb2)" "0 < n"
  shows "\<exists>k>0. consumes k rb rb2"
  using consumes_trans [OF consumes_skip_spaces [OF assms(1)] consumes_split_to [OF assms(2)]] assms(3)
  by (metis add_gr_0)

section \<open>The loop contract\<close>

text \<open>
  One step of the inner loop returns \<open>(True, p', rb')\<close> to go on and \<open>(False, p', rb')\<close> to
  leave it. The promise of a step: it never panics, it only consumes a prefix of the buffer, a
  step that goes on makes progress, and it leaves the stream alone.
\<close>

locale parser_loop =
  fixes dispatch :: "'p \<Rightarrow> read_buf \<Rightarrow> (bool \<times> 'p \<times> read_buf) parse_result"
    and inner :: "'p \<Rightarrow> read_buf \<Rightarrow> ('p \<times> read_buf) parse_result"
    and outer :: "'p \<Rightarrow> read_buf \<Rightarrow> ('p \<times> read_buf) parse_result"
    and finished :: "'p \<Rightarrow> bool"
    and strm :: "'p \<Rightarrow> stream"
    and with_stream :: "stream \<Rightarrow> 'p \<Rightarrow> 'p"
    and rank :: "'p \<Rightarrow> nat"
    and reserve :: reserve_fn
    and max_buf :: nat
  assumes dispatch_no_Panic: "dispatch p rb \<noteq> Panic"
    and dispatch_no_Overflow: "dispatch p rb \<noteq> Err (ParseBufOverflow n)"
    and dispatch_consumes: "dispatch p rb = Ok (b, p', rb') \<Longrightarrow> \<exists>n. consumes n rb rb'"
    and dispatch_stream: "dispatch p rb = Ok (b, p', rb') \<Longrightarrow> strm p' = strm p"
    and dispatch_progress: "dispatch p rb = Ok (True, p', rb') \<Longrightarrow>
          length (chunk rb') < length (chunk rb) \<or>
          length (chunk rb') = length (chunk rb) \<and> rank p' < rank p"
    and inner_eq: "inner p rb =
          (if 0 < length (chunk rb)
           then and_then (dispatch p rb)
                  (\<lambda>(b, p', rb'). if b then inner p' rb' else Ok (p', rb'))
           else Ok (p, rb))"
    and outer_eq: "outer p rb =
          (if finished p then Ok (p, rb)
           else let (n, rb1) = chunk_mut reserve rb in
             if n = 0 then Err (ParseBufOverflow max_buf)
             else and_then (map_err IoError (stream_read n (strm p))) (\<lambda>(data, s').
                  if length data = 0 then Err Eof
                  else and_then (filled data rb1) (\<lambda>rb2.
                       and_then (inner (with_stream s' p) rb2) (\<lambda>(p', rb').
                       if finished p' then Ok (p', rb') else outer p' rb'))))"
    and strm_with_stream: "strm (with_stream s p) = s"
begin

lemma inner_induct [case_names step]:
  assumes "\<And>p rb. (\<And>p' rb'. dispatch p rb = Ok (True, p', rb') \<Longrightarrow> Q p' rb') \<Longrightarrow> Q p rb"
  shows "Q p rb"
proof -
  let ?r = "measures [\<lambda>(p, rb). length (chunk rb), \<lambda>(p, rb). rank p]"
  have "wf ?r" by simp
  then show ?thesis
  proof (induct "(p, rb)" arbitrary: p rb rule: wf_induct_rule)
    case less
    show ?case
      by (rule assms, rule less) (auto dest: dispatch_progress)
  qed
qed

lemma inner_True:
  "\<lbrakk> chunk rb \<noteq> []; dispatch p rb = Ok (True, p', rb') \<rbrakk> \<Longrightarrow> inner p rb = inner p' rb'"
  by (simp add: inner_eq [of p rb])

lemma inner_False:
  "\<lbrakk> chunk rb \<noteq> []; dispatch p rb = Ok (False, p', rb') \<rbrakk> \<Longrightarrow> inner p rb = Ok (p', rb')"
  by (simp add: inner_eq [of p rb])

lemma inner_no_Panic: "inner p rb \<noteq> Panic"
proof (induction p rb rule: inner_induct)
  case (step p rb)
  then show ?case
    using dispatch_no_Panic [of p rb]
    by (subst inner_eq) (auto simp: and_then_eq_Panic split: if_splits)
qed

lemma inner_no_Overflow: "inner p rb \<noteq> Err (ParseBufOverflow n)"
proof (induction p rb rule: inner_induct)
  case (step p rb)
  then show ?case
    using dispatch_no_Overflow [of p rb]
    by (subst inner_eq) (auto simp: and_then_eq_Err split: if_splits)
qed

lemma inner_consumes:
  "inner p rb = Ok (p', rb') \<Longrightarrow> (\<exists>n. consumes n rb rb') \<and> strm p' = strm p"
proof (induction p rb arbitrary: p' rb' rule: inner_induct)
  case (step p rb)
  show ?case
  proof (cases "0 < length (chunk rb)")
    case False
    with step.prems show ?thesis by (auto simp: inner_eq [of p rb] intro: consumes_refl)
  next
    case True
    with step.prems obtain b p1 rb1 where d: "dispatch p rb = Ok (b, p1, rb1)"
      and rest: "(if b then inner p1 rb1 else Ok (p1, rb1)) = Ok (p', rb')"
      by (auto simp: inner_eq [of p rb])
    have "(\<exists>n. consumes n rb1 rb') \<and> strm p' = strm p1"
      using step.IH d rest by (cases b) (auto intro: consumes_refl)
    then show ?thesis
      using dispatch_consumes [OF d] dispatch_stream [OF d] by (metis consumes_trans)
  qed
qed

lemma inner_keeps:
  "inner p rb = Ok (p', rb') \<Longrightarrow>
     suffix (chunk rb') (chunk rb) \<and> strm p' = strm p \<and> (rb_wf rb \<longrightarrow> rb_wf rb')"
  using inner_consumes by (metis consumes_suffix consumes_wf)

text \<open>
  Outer loop: by induction on what the stream still holds, since every round that goes on has
  read at least one byte.
\<close>

lemma outer_round:
  assumes "\<not> finished p" "bufmut_contract reserve" "rb_wf rb"
  obtains (overflow) "fst (chunk_mut reserve rb) = 0" "outer p rb = Err (ParseBufOverflow max_buf)"
    | (io) e where "outer p rb = Err (IoError e)"
    | (eof) "outer p rb = Err Eof"
    | (round) data s' rb2 where
        "stream_read (fst (chunk_mut reserve rb)) (strm p) = Ok (data, s')" "data \<noteq> []"
        "0 < fst (chunk_mut reserve rb)" "rb_wf rb2" "chunk rb2 = chunk rb @ data"
        "outer p rb = and_then (inner (with_stream s' p) rb2)
           (\<lambda>(p', rb'). if finished p' then Ok (p', rb') else outer p' rb')"
proof -
  obtain n rb1 where cm: "chunk_mut reserve rb = (n, rb1)" by fastforce
  note eq = outer_eq [of p rb, simplified assms(1) cm, simplified]
  show thesis
  proof (cases "n = 0")
    case True
    then show thesis using overflow eq cm by simp
  next
    case n: False
    show thesis
    proof (cases "stream_read n (strm p)")
      case (Err e)
      then show thesis using io eq n by simp
    next
      case Panic
      then show thesis by simp
    next
      case (Ok x)
      then obtain data s' where x: "stream_read n (strm p) = Ok (data, s')" by (cases x) auto
      show thesis
      proof (cases "data = []")
        case True
        then show thesis using eof eq n x by simp
      next
        case False
        have "length data \<le> fst (chunk_mut reserve rb)"
          using stream_read_length [OF x] cm by simp
        then obtain rb2 where "filled data rb1 = (Ok rb2 :: (parse_error, read_buf) outcome)"
            "chunk rb2 = chunk rb @ data" "rb_wf rb2"
          using filled_fits [OF _ assms(2,3)] cm by (metis snd_conv)
        then show thesis using round [of data s' rb2] eq n x False cm by simp
      qed
    qed
  qed
qed

lemma inner_spare:
  "\<lbrakk> inner p rb = Ok (p', rb'); rb_wf rb \<rbrakk>
   \<Longrightarrow> capacity rb' - length (chunk rb') = capacity rb - length (chunk rb)"
  using inner_consumes consumes_spare by metis

text \<open>A round of the outer loop on a stream whose first piece fits the buffer, and at its end.\<close>

lemma outer_piece:
  assumes "bufmut_contract reserve" "rb_wf rb" "\<not> finished p" "strm p = Data d # s"
    and "d \<noteq> []" "length (chunk rb) + length d \<le> capacity rb"
  shows "\<exists>c'\<ge>capacity rb. outer p rb =
     and_then (inner (with_stream s p) \<lparr>contents = chunk rb @ d, capacity = c'\<rparr>)
       (\<lambda>(p', rb'). if finished p' then Ok (p', rb') else outer p' rb')"
proof -
  let ?cap = "reserve (length (contents rb)) (capacity rb)"
  have cap: "capacity rb \<le> ?cap" using assms(1,2) by (simp add: bufmut_contract_def rb_wf_def)
  then have fit: "length d \<le> ?cap - length (contents rb)" "?cap - length (contents rb) \<noteq> 0"
    using assms(5,6) by (auto simp: chunk_def) (cases d; simp)
  then have "filled d (rb\<lparr>capacity := ?cap\<rparr>) =
      (Ok \<lparr>contents = chunk rb @ d, capacity = ?cap\<rparr> :: read_buf parse_result)"
    by (cases rb) (auto simp: filled_def chunk_def)
  then show ?thesis
    using assms(3-5) fit cap
    by (subst outer_eq) (auto simp: chunk_mut_def Let_def)
qed

lemma outer_eof:
  assumes "bufmut_contract reserve" "rb_wf rb" "\<not> finished p" "strm p = []"
    and "length (chunk rb) < usize_max"
  shows "outer p rb = Err Eof"
  using assms(3,4) chunk_mut_positive [OF assms(1,2,5)]
  by (subst outer_eq) (auto simp: Let_def split: prod.splits)

lemma outer_induct [case_names round]:
  assumes "\<And>p rb. (\<And>p' rb'. stream_size (strm p') < stream_size (strm p) \<Longrightarrow> Q p' rb') \<Longrightarrow> Q p rb"
  shows "Q p rb"
  using assms by (induct "stream_size (strm p)" arbitrary: p rb rule: less_induct) blast

lemma outer_no_Panic:
  "\<lbrakk> bufmut_contract reserve; rb_wf rb \<rbrakk> \<Longrightarrow> outer p rb \<noteq> Panic"
proof (induction p rb rule: outer_induct)
  case (round p rb)
  show ?case
  proof (cases "finished p")
    case True
    then show ?thesis by (simp add: outer_eq [of p rb])
  next
    case False
    then show ?thesis
    proof (rule outer_round [OF _ round.prems])
      fix data s' rb2
      assume r: "stream_read (fst (chunk_mut reserve rb)) (strm p) = Ok (data, s')" "data \<noteq> []"
        and rb2: "rb_wf rb2"
        and eq: "outer p rb = and_then (inner (with_stream s' p) rb2)
           (\<lambda>(p', rb'). if finished p' then Ok (p', rb') else outer p' rb')"
      have "outer p' rb' \<noteq> Panic" if "inner (with_stream s' p) rb2 = Ok (p', rb')" for p' rb'
        using round.IH [of p' rb'] round.prems(1) inner_keeps [OF that] rb2
          stream_read_size [OF r] strm_with_stream by auto
      then show ?thesis
        using inner_no_Panic [of "with_stream s' p" rb2]
        by (auto simp: eq and_then_eq_Panic split: if_splits)
    qed (use False in simp_all)
  qed
qed

text \<open>
  Under the contract of \<open>BufMut\<close> the buffer can always grow, so the overflow error of the
  loop is never returned while the input is shorter than the address space.
\<close>

lemma outer_no_Overflow:
  "\<lbrakk> bufmut_contract reserve; rb_wf rb; length (chunk rb @ stream_bytes (strm p)) < usize_max \<rbrakk>
   \<Longrightarrow> outer p rb \<noteq> Err (ParseBufOverflow n)"
proof (induction p rb rule: outer_induct)
  case (round p rb)
  show ?case
  proof (cases "finished p")
    case True
    then show ?thesis by (simp add: outer_eq [of p rb])
  next
    case False
    then show ?thesis
    proof (rule outer_round [OF _ round.prems(1,2)])
      assume "fst (chunk_mut reserve rb) = 0"
      then show ?thesis using chunk_mut_positive [OF round.prems(1,2)] round.prems(3) by simp
    next
      fix data s' rb2
      assume r: "stream_read (fst (chunk_mut reserve rb)) (strm p) = Ok (data, s')" "data \<noteq> []"
        and rb2: "rb_wf rb2" "chunk rb2 = chunk rb @ data"
        and eq: "outer p rb = and_then (inner (with_stream s' p) rb2)
           (\<lambda>(p', rb'). if finished p' then Ok (p', rb') else outer p' rb')"
      have "outer p' rb' \<noteq> Err (ParseBufOverflow n)"
        if i: "inner (with_stream s' p) rb2 = Ok (p', rb')" for p' rb'
      proof (rule round.IH)
        have "length (chunk rb') \<le> length (chunk rb @ data)"
          using inner_keeps [OF i] rb2 by (auto dest: suffix_length_le)
        then show "length (chunk rb' @ stream_bytes (strm p')) < usize_max"
          using round.prems(3) inner_keeps [OF i] strm_with_stream stream_read_bytes [OF r(1)] by simp
      qed (use round.prems(1) inner_keeps [OF i] rb2 stream_read_size [OF r] strm_with_stream in auto)
      then show ?thesis
        using inner_no_Overflow [of "with_stream s' p" rb2]
        by (auto simp: eq and_then_eq_Err split: if_splits)
    qed (use False in simp_all)
  qed
qed

text \<open>No byte of the input is lost or duplicated: what is left is a suffix of what came in.\<close>

lemma outer_suffix:
  "\<lbrakk> bufmut_contract reserve; rb_wf rb; outer p rb = Ok (p', rb') \<rbrakk>
   \<Longrightarrow> suffix (chunk rb' @ stream_bytes (strm p')) (chunk rb @ stream_bytes (strm p)) \<and> finished p'"
proof (induction p rb arbitrary: p' rb' rule: outer_induct)
  case (round p rb)
  show ?case
  proof (cases "finished p")
    case True
    then show ?thesis using round.prems(3) by (simp add: outer_eq [of p rb])
  next
    case False
    then show ?thesis
    proof (rule outer_round [OF _ round.prems(1,2)])
      fix data s' rb2
      assume r: "stream_read (fst (chunk_mut reserve rb)) (strm p) = Ok (data, s')" "data \<noteq> []"
        and rb2: "rb_wf rb2" "chunk rb2 = chunk rb @ data"
        and eq: "outer p rb = and_then (inner (with_stream s' p) rb2)
           (\<lambda>(p', rb'). if finished p' then Ok (p', rb') else outer p' rb')"
      obtain p1 rb1 where i: "inner (with_stream s' p) rb2 = Ok (p1, rb1)"
        and rest: "(if finished p1 then Ok (p1, rb1) else outer p1 rb1) = Ok (p', rb')"
        using round.prems(3) by (auto simp: eq)
      note k = inner_keeps [OF i, unfolded strm_with_stream]
      have "suffix (chunk rb1 @ stream_bytes (strm p1)) (chunk rb @ stream_bytes (strm p))"
        using k rb2 stream_read_bytes [OF r(1)] by (auto simp: suffix_def)
      moreover have "suffix (chunk rb' @ stream_bytes (strm p')) (chunk rb1 @ stream_bytes (strm p1))
          \<and> finished p'"
        using rest round.IH [of p1 rb1 p' rb'] round.prems(1) k rb2 stream_read_size [OF r]
        by (cases "finished p1") auto
      ultimately show ?thesis by (auto intro: suffix_order.trans)
    qed (use False round.prems(3) in simp_all)
  qed
qed

end

section \<open>Sample parameters\<close>

text \<open>
  Concrete parameters for the witnesses: an \<open>http\<close> crate that accepts everything and
  represents its values by their bytes, and the growth policy of the \<open>bytes\<close> crate (64 more
  bytes when the buffer is full).
\<close>

definition sample_api :: "bytes http_api" where
  "sample_api = \<lparr>method_from_bytes = Some, uri_from_maybe_shared = Some, header_name_from_bytes = Some,
     header_value_from_maybe_shared = Some, status_code_from_bytes = Some, body_ok = (\<lambda>_. True)\<rparr>"

definition sample_reserve :: reserve_fn where
  "sample_reserve len cap = (if len = cap then cap + 64 else cap)"

lemma sample_reserve_contract [simp]: "bufmut_contract sample_reserve"
  by (auto simp: bufmut_contract_def sample_reserve_def)

end
