(* ===== verification/Http_Request.thy ===== *)
theory Http_Request
  imports Http_Loop
begin

text \<open>
  \<open>Requester\<close> of \<open>crates/net/http/src/parse.rs\<close>: the request parser. The record is the Rust
  struct; a step method takes the parser and the read buffer and returns its \<open>bool\<close> with both
  of them updated.
\<close>

section \<open>The state machine\<close>

datatype request_parse_state = ReqMethod | ReqUri | ReqVersion | ReqHeaders | ReqFinished

text \<open>
  \<open>#[repr(u8)]\<close> with explicit discriminants; \<open>next\<close> adds one to the discriminant through a raw
  pointer, so a byte that is no discriminant would be an invalid value of the enum.
\<close>

fun req_discriminant :: "request_parse_state \<Rightarrow> 8 word" where
  "req_discriminant ReqMethod = 1"
| "req_discriminant ReqUri = 2"
| "req_discriminant ReqVersion = 3"
| "req_discriminant ReqHeaders = 4"
| "req_discriminant ReqFinished = 5"

definition req_of_u8 :: "8 word \<Rightarrow> request_parse_state option" where
  "req_of_u8 b =
     (if b = 1 then Some ReqMethod else if b = 2 then Some ReqUri
      else if b = 3 then Some ReqVersion else if b = 4 then Some ReqHeaders
      else if b = 5 then Some ReqFinished else None)"

definition req_next :: "request_parse_state \<Rightarrow> request_parse_state parse_result" where
  "req_next st =
     (if st = ReqFinished then Ok st else unwrap (req_of_u8 (req_discriminant st + 1)))"

lemma req_next_simps [simp]:
  "req_next ReqMethod = Ok ReqUri" "req_next ReqUri = Ok ReqVersion"
  "req_next ReqVersion = Ok ReqHeaders" "req_next ReqHeaders = Ok ReqFinished"
  "req_next ReqFinished = Ok ReqFinished"
  by (simp_all add: req_next_def req_of_u8_def)

lemma req_next_no_Panic [simp]: "req_next st \<noteq> Panic" "req_next st \<noteq> Err e"
  by (cases st; simp)+

section \<open>The parser\<close>

record 'o requester =
  rq_config :: config
  rq_state :: request_parse_state
  rq_stream :: stream
  rq_builder :: "'o builder_call list"

definition requester_new_with :: "stream \<Rightarrow> config \<Rightarrow> 'o requester" where
  "requester_new_with s cfg =
     \<lparr>rq_config = cfg, rq_state = ReqMethod, rq_stream = s, rq_builder = []\<rparr>"

definition requester_new :: "stream \<Rightarrow> 'o requester" where
  "requester_new s = requester_new_with s default_config"

definition rq_call :: "'o builder_call \<Rightarrow> 'o requester \<Rightarrow> 'o requester" where
  "rq_call c p = p\<lparr>rq_builder := rq_builder p @ [c]\<rparr>"

definition rq_advance :: "'o requester \<Rightarrow> 'o requester parse_result" where
  "rq_advance p = map_ok (\<lambda>st. p\<lparr>rq_state := st\<rparr>) (req_next (rq_state p))"

definition req_parse_method ::
  "'o http_api \<Rightarrow> 'o requester \<Rightarrow> read_buf \<Rightarrow> (bool \<times> 'o requester \<times> read_buf) parse_result" where
  "req_parse_method api p rb =
     and_then (buf_skip_spaces rb) (\<lambda>rb1.
     case parse_token (chunk rb1) of
       Some len \<Rightarrow>
         if len = 0 then Err MissMethod
         else and_then (split_to len rb1) (\<lambda>(buf, rb2).
              and_then (ok_or InvalidMethod (method_from_bytes api buf)) (\<lambda>m.
              and_then (rq_advance (rq_call (CallMethod m) p)) (\<lambda>p'. Ok (True, p', rb2))))
     | None \<Rightarrow> Ok (False, p, rb1))"

definition req_parse_uri ::
  "'o http_api \<Rightarrow> 'o requester \<Rightarrow> read_buf \<Rightarrow> (bool \<times> 'o requester \<times> read_buf) parse_result" where
  "req_parse_uri api p rb =
     and_then (buf_skip_spaces rb) (\<lambda>rb1.
     case parse_token (chunk rb1) of
       Some len \<Rightarrow>
         if len = 0 then Err MissUri
         else and_then (split_to len rb1) (\<lambda>(buf, rb2).
              and_then (ok_or InvalidUri (uri_from_maybe_shared api buf)) (\<lambda>u.
              and_then (rq_advance (rq_call (CallUri u) p)) (\<lambda>p'. Ok (True, p', rb2))))
     | None \<Rightarrow> Ok (False, p, rb1))"

definition req_parse_version ::
  "'o requester \<Rightarrow> read_buf \<Rightarrow> (bool \<times> 'o requester \<times> read_buf) parse_result" where
  "req_parse_version p rb =
     and_then (buf_skip_spaces rb) (\<lambda>rb1.
     and_then (parse_version (chunk rb1)) (\<lambda>ver.
     case ver of
       Some v \<Rightarrow>
         and_then (split_to 8 rb1) (\<lambda>(_, rb2).
         and_then (rq_advance (rq_call (CallVersion v) p)) (\<lambda>p'. Ok (True, p', rb2)))
     | None \<Rightarrow> Ok (False, p, rb1)))"

definition req_parse_header ::
  "'o http_api \<Rightarrow> 'o requester \<Rightarrow> read_buf \<Rightarrow> (bool \<times> 'o requester \<times> read_buf) parse_result" where
  "req_parse_header api p rb =
     and_then (skip_newlines rb) (\<lambda>(skipped, rb1).
     case skipped of
       Break _ \<Rightarrow> and_then (rq_advance p) (\<lambda>p'. Ok (False, p', rb1))
     | Incomplete \<Rightarrow> Ok (False, p, rb1)
     | _ \<Rightarrow>
         and_then (parse_header api rb1) (\<lambda>(header, rb2).
         case header of
           Some (name, val) \<Rightarrow> Ok (True, rq_call (CallHeader name val) p, rb2)
         | None \<Rightarrow> Ok (False, p, rb2)))"

text \<open>
  The \<open>match self.state\<close> of the inner loop. \<open>break 'out\<close> in the state \<open>Finished\<close> is the same as
  leaving the inner loop, whose exit is followed by a \<open>break\<close> in that state.
\<close>

definition req_dispatch ::
  "'o http_api \<Rightarrow> 'o requester \<Rightarrow> read_buf \<Rightarrow> (bool \<times> 'o requester \<times> read_buf) parse_result" where
  "req_dispatch api p rb =
     (case rq_state p of
        ReqMethod \<Rightarrow> req_parse_method api p rb
      | ReqUri \<Rightarrow> req_parse_uri api p rb
      | ReqVersion \<Rightarrow> req_parse_version p rb
      | ReqHeaders \<Rightarrow> req_parse_header api p rb
      | ReqFinished \<Rightarrow> Ok (False, p, rb))"

section \<open>The loops\<close>

text \<open>
  What one step guarantees, for every state: it consumes a prefix of the buffer, it keeps stream
  and configuration, and a step that goes on consumes at least one byte.
\<close>

lemma rq_advance_Ok [simp]:
  "rq_advance p = Ok p' \<longleftrightarrow> (\<exists>st. req_next (rq_state p) = Ok st \<and> p' = p\<lparr>rq_state := st\<rparr>)"
  by (auto simp: rq_advance_def)

lemma rq_advance_total [simp]: "rq_advance p \<noteq> Panic" "rq_advance p \<noteq> Err e"
  by (simp_all add: rq_advance_def)

lemma rq_call_simps [simp]:
  "rq_stream (rq_call c p) = rq_stream p" "rq_state (rq_call c p) = rq_state p"
  "rq_builder (rq_call c p) = rq_builder p @ [c]" "rq_config (rq_call c p) = rq_config p"
  by (simp_all add: rq_call_def)

definition step_ok :: "'o requester \<Rightarrow> read_buf \<Rightarrow> bool \<Rightarrow> 'o requester \<Rightarrow> read_buf \<Rightarrow> bool" where
  "step_ok p rb b p' rb' \<longleftrightarrow>
     rq_stream p' = rq_stream p \<and> rq_config p' = rq_config p \<and>
     (\<exists>n. consumes n rb rb' \<and> (b \<longrightarrow> 0 < n))"

lemma step_ok_refl: "step_ok p rb False p rb"
  by (auto simp: step_ok_def intro: consumes_refl)

lemma req_parse_method_step:
  assumes "req_parse_method api p rb = Ok (b, p', rb')"
  shows "step_ok p rb b p' rb'"
proof -
  obtain rb1 where s: "buf_skip_spaces rb = Ok rb1" by (simp add: buf_skip_spaces_eq)
  show ?thesis
  proof (cases "parse_token (chunk rb1)")
    case None
    then show ?thesis
      using assms consumes_skip_spaces [OF s] by (auto simp: req_parse_method_def s step_ok_def)
  next
    case (Some n)
    then show ?thesis
      using assms
      by (auto simp: req_parse_method_def s step_ok_def split: if_splits dest: skip_then_split [OF s])
  qed
qed

lemma req_parse_uri_step:
  assumes "req_parse_uri api p rb = Ok (b, p', rb')"
  shows "step_ok p rb b p' rb'"
proof -
  obtain rb1 where s: "buf_skip_spaces rb = Ok rb1" by (simp add: buf_skip_spaces_eq)
  show ?thesis
  proof (cases "parse_token (chunk rb1)")
    case None
    then show ?thesis
      using assms consumes_skip_spaces [OF s] by (auto simp: req_parse_uri_def s step_ok_def)
  next
    case (Some n)
    then show ?thesis
      using assms
      by (auto simp: req_parse_uri_def s step_ok_def split: if_splits dest: skip_then_split [OF s])
  qed
qed

lemma req_parse_version_step:
  assumes "req_parse_version p rb = Ok (b, p', rb')"
  shows "step_ok p rb b p' rb'"
proof -
  obtain rb1 where s: "buf_skip_spaces rb = Ok rb1" by (simp add: buf_skip_spaces_eq)
  obtain ver where v: "parse_version (chunk rb1) = Ok ver"
    using assms by (auto simp: req_parse_version_def s)
  show ?thesis
  proof (cases ver)
    case None
    then show ?thesis
      using assms v consumes_skip_spaces [OF s] by (auto simp: req_parse_version_def s step_ok_def)
  next
    case (Some n)
    then show ?thesis
      using assms v skip_then_split [OF s, of 8] by (auto simp: req_parse_version_def s step_ok_def)
  qed
qed

lemma req_parse_header_step:
  assumes "req_parse_header api p rb = Ok (b, p', rb')"
  shows "step_ok p rb b p' rb'"
proof -
  obtain skipped rb1 where s: "skip_newlines rb = Ok (skipped, rb1)"
    by (simp add: skip_newlines_eq)
  note c1 = consumes_skip_newlines [OF s]
  show ?thesis
    using assms c1
    by (auto simp: req_parse_header_def s step_ok_def split: skip_new_line.splits 
          dest!: newlines_then_header [OF s])
       (auto split: option.splits)
qed

lemma req_dispatch_step:
  "req_dispatch api p rb = Ok (b, p', rb') \<Longrightarrow> step_ok p rb b p' rb'"
  by (cases "rq_state p")
     (auto simp: req_dispatch_def intro: step_ok_refl
        req_parse_method_step req_parse_uri_step req_parse_version_step req_parse_header_step)

lemma skip_then_split_no_Panic:
  "\<lbrakk> buf_skip_spaces rb = Ok rb1; parse_token (chunk rb1) = Some n \<rbrakk> \<Longrightarrow> n \<le> length (chunk rb1)"
  by (auto dest: scan_less)

lemma req_dispatch_no_Panic: "req_dispatch api p rb \<noteq> Panic"
  by (auto simp: req_dispatch_def req_parse_method_def req_parse_uri_def req_parse_version_def
        req_parse_header_def buf_skip_spaces_eq skip_newlines_eq and_then_eq_Panic
        split: request_parse_state.splits option.splits skip_new_line.splits if_splits
        dest!: scan_less parse_version_long)

lemma req_dispatch_Err: "req_dispatch api p rb = Err e \<Longrightarrow>
   e \<in> {MissMethod, InvalidMethod, MissUri, InvalidUri, BadVersion, InvalidHeaderName, InvalidHeaderValue}"
  by (auto simp: req_dispatch_def req_parse_method_def req_parse_uri_def req_parse_version_def
        req_parse_header_def buf_skip_spaces_eq skip_newlines_eq and_then_eq_Err ok_or_eq_Err
        parse_version_def Let_def
        split: request_parse_state.splits option.splits skip_new_line.splits if_splits
        dest!: parse_header_Err)

text \<open>\<open>'inner: while read_buf.chunk().len() > 0\<close>\<close>

function req_inner ::
  "'o http_api \<Rightarrow> 'o requester \<Rightarrow> read_buf \<Rightarrow> ('o requester \<times> read_buf) parse_result" where
  "req_inner api p rb =
     (if 0 < length (chunk rb)
      then and_then (req_dispatch api p rb)
             (\<lambda>(b, p', rb'). if b then req_inner api p' rb' else Ok (p', rb'))
      else Ok (p, rb))"
  by pat_completeness auto
termination
  by (relation "measure (\<lambda>(api, p, rb). length (chunk rb))")
     (auto dest!: req_dispatch_step simp: step_ok_def consumes_length)

declare req_inner.simps [simp del]

lemma req_inner_stream: "req_inner api p rb = Ok (p', rb') \<Longrightarrow> rq_stream p' = rq_stream p"
proof (induction api p rb rule: req_inner.induct)
  case (1 api p rb)
  show ?case
  proof (cases "0 < length (chunk rb)")
    case True
    with "1.prems" obtain b p1 rb1 where d: "req_dispatch api p rb = Ok (b, p1, rb1)"
      and rest: "(if b then req_inner api p1 rb1 else Ok (p1, rb1)) = Ok (p', rb')"
      by (auto simp: req_inner.simps [of api p rb])
    have "rq_stream p' = rq_stream p1"
      using "1.IH" [OF True d] rest by (cases b) auto
    then show ?thesis using req_dispatch_step [OF d] by (simp add: step_ok_def)
  next
    case False
    with "1.prems" show ?thesis by (simp add: req_inner.simps [of api p rb])
  qed
qed

text \<open>\<open>'out: while self.state != RequestParseState::Finished\<close>\<close>

function req_outer ::
  "'o http_api \<Rightarrow> reserve_fn \<Rightarrow> nat \<Rightarrow> 'o requester \<Rightarrow> read_buf \<Rightarrow> ('o requester \<times> read_buf) parse_result"
where
  "req_outer api reserve max_buf p rb =
     (if rq_state p = ReqFinished then Ok (p, rb)
      else let (n, rb1) = chunk_mut reserve rb in
        if n = 0 then Err (ParseBufOverflow max_buf)
        else and_then (map_err IoError (stream_read n (rq_stream p))) (\<lambda>(data, s').
             if length data = 0 then Err Eof
             else and_then (filled data rb1) (\<lambda>rb2.
                  and_then (req_inner api (p\<lparr>rq_stream := s'\<rparr>) rb2) (\<lambda>(p', rb').
                  if rq_state p' = ReqFinished then Ok (p', rb')
                  else req_outer api reserve max_buf p' rb'))))"
  by pat_completeness auto
termination
  by (relation "measure (\<lambda>(api, reserve, max_buf, p, rb). stream_size (rq_stream p))")
     (auto dest!: req_inner_stream stream_read_size)

declare req_outer.simps [simp del]

text \<open>
  \<open>Requester::parse\<close>. The result is the builder's call list together with the body reader, when
  \<open>Builder::body\<close> accepts the calls.
\<close>

definition requester_parse ::
  "'o http_api \<Rightarrow> reserve_fn \<Rightarrow> 'o requester \<Rightarrow> ('o builder_call list \<times> body_reader) parse_result" where
  "requester_parse api reserve p =
     (let max_buf = parsing_headers_max_buf (rq_config p) in
      and_then (req_outer api reserve max_buf p (with_capacity max_buf)) (\<lambda>(p', rb).
      and_then (into_bytes None rb) (\<lambda>cached.
      if body_ok api (rq_builder p')
      then Ok (rq_builder p', \<lparr>br_cached = cached, br_stream = rq_stream p'\<rparr>)
      else Err HttpError)))"

definition parse_request_with ::
  "'o http_api \<Rightarrow> reserve_fn \<Rightarrow> stream \<Rightarrow> config \<Rightarrow> ('o builder_call list \<times> body_reader) io_result" where
  "parse_request_with api reserve s cfg =
     map_err parse_error_into_io (requester_parse api reserve (requester_new_with s cfg))"

definition parse_request ::
  "'o http_api \<Rightarrow> reserve_fn \<Rightarrow> stream \<Rightarrow> ('o builder_call list \<times> body_reader) io_result" where
  "parse_request api reserve s =
     map_err parse_error_into_io (requester_parse api reserve (requester_new s))"

section \<open>The request parser is a parser loop\<close>

interpretation req: parser_loop "req_dispatch api" "req_inner api" "req_outer api reserve max_buf"
    "\<lambda>p. rq_state p = ReqFinished" rq_stream "\<lambda>s p. p\<lparr>rq_stream := s\<rparr>" "\<lambda>_. 0" reserve max_buf
  for api :: "'o http_api" and reserve max_buf
proof unfold_locales
  show "req_inner api p rb =
      (if 0 < length (chunk rb)
       then and_then (req_dispatch api p rb)
              (\<lambda>(b, p', rb'). if b then req_inner api p' rb' else Ok (p', rb'))
       else Ok (p, rb))" for p :: "'o requester" and rb
    by (rule req_inner.simps)
  show "req_outer api reserve max_buf p rb =
      (if rq_state p = ReqFinished then Ok (p, rb)
       else let (n, rb1) = chunk_mut reserve rb in
         if n = 0 then Err (ParseBufOverflow max_buf)
         else and_then (map_err IoError (stream_read n (rq_stream p))) (\<lambda>(data, s').
              if length data = 0 then Err Eof
              else and_then (filled data rb1) (\<lambda>rb2.
                   and_then (req_inner api (p\<lparr>rq_stream := s'\<rparr>) rb2) (\<lambda>(p', rb').
                   if rq_state p' = ReqFinished then Ok (p', rb')
                   else req_outer api reserve max_buf p' rb'))))" for p :: "'o requester" and rb
    by (rule req_outer.simps)
qed (auto dest!: req_dispatch_step req_dispatch_Err simp: req_dispatch_no_Panic step_ok_def
      intro: consumes_less)

section \<open>Parsing a well-formed request\<close>

lemma req_inner_method:
  assumes "rq_state p = ReqMethod" "token_ok m" "method_from_bytes api m = Some x"
  shows "req_inner api p \<lparr>contents = m @ SP # rest, capacity = c\<rparr> =
     req_inner api (p\<lparr>rq_state := ReqUri, rq_builder := rq_builder p @ [CallMethod x]\<rparr>)
       \<lparr>contents = SP # rest, capacity = c - length m\<rparr>"
  using assms parse_token_hit [of m SP rest] dropWhile_space_token [of m "SP # rest"]
    skip_spaces_token [of m "SP # rest"]
  by (intro req.inner_True)
     (auto simp: req_dispatch_def req_parse_method_def buf_skip_spaces_eq split_to_def rq_call_def
        token_ok_def rq_advance_def)

lemma req_inner_uri:
  assumes "rq_state p = ReqUri" "token_ok u" "uri_from_maybe_shared api u = Some x"
  shows "req_inner api p \<lparr>contents = SP # u @ SP # rest, capacity = c\<rparr> =
     req_inner api (p\<lparr>rq_state := ReqVersion, rq_builder := rq_builder p @ [CallUri x]\<rparr>)
       \<lparr>contents = SP # rest, capacity = c - (length u + 1)\<rparr>"
  using assms parse_token_hit [of u SP rest] dropWhile_space_token [of u "SP # rest"]
    skip_spaces_SP_token [of u "SP # rest"]
  by (intro req.inner_True)
     (auto simp: req_dispatch_def req_parse_uri_def buf_skip_spaces_eq split_to_def rq_call_def
        token_ok_def rq_advance_def is_space_def)

lemma req_inner_version:
  assumes "rq_state p = ReqVersion"
  shows "req_inner api p \<lparr>contents = SP # version_tag v @ rest, capacity = c\<rparr> =
     req_inner api (p\<lparr>rq_state := ReqHeaders, rq_builder := rq_builder p @ [CallVersion v]\<rparr>)
       \<lparr>contents = rest, capacity = c - 9\<rparr>"
proof -
  have "buf_skip_spaces \<lparr>contents = SP # version_tag v @ rest, capacity = c\<rparr> =
      Ok \<lparr>contents = version_tag v @ rest, capacity = c - 1\<rparr>"
    using dropWhile_space_token [OF version_tag_props(1)] skip_spaces_SP_token [OF version_tag_props(1)]
    by (simp add: buf_skip_spaces_eq is_space_def)
  then show ?thesis
    using assms version_tag_props(2) [of v]
    by (intro req.inner_True)
       (auto simp: req_dispatch_def req_parse_version_def parse_version_tag split_to_def rq_call_def
          rq_advance_def)
qed

lemma req_inner_field:
  assumes "rq_state p = ReqHeaders" "field_ok (n, v)"
    and "header_name_from_bytes api n = Some hn" "header_value_from_maybe_shared api v = Some hv"
  shows "req_inner api p \<lparr>contents = field_line (n, v) @ CR # rest, capacity = c\<rparr> =
     req_inner api (p\<lparr>rq_builder := rq_builder p @ [CallHeader hn hv]\<rparr>)
       \<lparr>contents = CR # rest, capacity = c - 2 - (length n + 2 + length v)\<rparr>"
  using assms skip_newlines_field [OF assms(2)] parse_header_field [OF assms(2-4)]
  by (intro req.inner_True)
     (auto simp: req_dispatch_def req_parse_header_def field_line_def rq_call_def)

lemma req_inner_end:
  assumes "rq_state p = ReqHeaders" "nl_run body = 0"
  shows "req_inner api p \<lparr>contents = CR # LF # CR # LF # body, capacity = c\<rparr> =
     Ok (p\<lparr>rq_state := ReqFinished\<rparr>, \<lparr>contents = body, capacity = c - 4\<rparr>)"
  using assms skip_newlines_end [OF assms(2)]
  by (intro req.inner_False) (auto simp: req_dispatch_def req_parse_header_def rq_advance_def)

lemma req_inner_fields:
  "\<lbrakk> rq_state p = ReqHeaders; fields_accepted api hs \<rbrakk> \<Longrightarrow>
   \<exists>c'. req_inner api p \<lparr>contents = field_lines hs @ CR # rest, capacity = c\<rparr> =
     req_inner api (p\<lparr>rq_builder := rq_builder p @ field_calls api hs\<rparr>)
       \<lparr>contents = CR # rest, capacity = c'\<rparr>"
proof (induction hs arbitrary: p c)
  case Nil
  then show ?case by (auto simp: field_lines_def field_calls_def)
next
  case (Cons h hs)
  obtain n v where h: "h = (n, v)" by fastforce
  from Cons.prems(2) obtain hn hv where api: "field_ok (n, v)" "header_name_from_bytes api n = Some hn"
      "header_value_from_maybe_shared api v = Some hv"
    by (auto simp: fields_accepted_def h)
  obtain rest' where rest': "field_lines hs @ CR # rest = CR # rest'"
    by (cases hs) (auto simp: field_lines_def field_line_def split: prod.splits)
  have "req_inner api p \<lparr>contents = field_lines (h # hs) @ CR # rest, capacity = c\<rparr> =
      req_inner api (p\<lparr>rq_builder := rq_builder p @ [CallHeader hn hv]\<rparr>)
        \<lparr>contents = field_lines hs @ CR # rest, capacity = c - 2 - (length n + 2 + length v)\<rparr>"
    using req_inner_field [OF Cons.prems(1) api, of rest' c]
    by (simp add: h rest' field_lines_def) (metis append_assoc field_lines_def rest')
  moreover have "fields_accepted api hs" using Cons.prems(2) by (simp add: fields_accepted_def)
  ultimately show ?case
    using Cons.IH [of "p\<lparr>rq_builder := rq_builder p @ [CallHeader hn hv]\<rparr>"] Cons.prems(1) api
    by (simp add: field_calls_def h)
qed

definition request_line :: "bytes \<Rightarrow> bytes \<Rightarrow> version \<Rightarrow> bytes" where
  "request_line m u v = m @ [SP] @ u @ [SP] @ version_tag v"

definition request_wire :: "bytes \<Rightarrow> bytes \<Rightarrow> version \<Rightarrow> (bytes \<times> bytes) list \<Rightarrow> bytes \<Rightarrow> bytes" where
  "request_wire m u v hs body = request_line m u v @ field_lines hs @ [CR, LF, CR, LF] @ body"

definition line_accepted :: "'o http_api \<Rightarrow> bytes \<Rightarrow> bytes \<Rightarrow> bool" where
  "line_accepted api m u \<longleftrightarrow>
     token_ok m \<and> token_ok u \<and> method_from_bytes api m \<noteq> None \<and> uri_from_maybe_shared api u \<noteq> None"

definition request_calls ::
  "'o http_api \<Rightarrow> bytes \<Rightarrow> bytes \<Rightarrow> version \<Rightarrow> (bytes \<times> bytes) list \<Rightarrow> 'o builder_call list" where
  "request_calls api m u v hs =
     [CallMethod (the (method_from_bytes api m)), CallUri (the (uri_from_maybe_shared api u)), CallVersion v]
     @ field_calls api hs"

lemma req_inner_line:
  assumes "line_accepted api m u" "rq_state p = ReqMethod" "rq_builder p = []"
  shows "\<exists>c'. req_inner api p \<lparr>contents = request_line m u v @ rest, capacity = c\<rparr> =
     req_inner api (p\<lparr>rq_state := ReqHeaders, rq_builder := request_calls api m u v []\<rparr>)
       \<lparr>contents = rest, capacity = c'\<rparr>"
proof -
  obtain x y where x: "method_from_bytes api m = Some x" and y: "uri_from_maybe_shared api u = Some y"
    using assms(1) by (auto simp: line_accepted_def)
  let ?p1 = "p\<lparr>rq_state := ReqUri, rq_builder := [CallMethod x]\<rparr>"
  let ?p2 = "p\<lparr>rq_state := ReqVersion, rq_builder := [CallMethod x, CallUri y]\<rparr>"
  let ?r2 = "version_tag v @ rest" and ?r1 = "u @ SP # version_tag v @ rest"
  have "req_inner api p \<lparr>contents = m @ SP # ?r1, capacity = c\<rparr> =
      req_inner api ?p1 \<lparr>contents = SP # ?r1, capacity = c - length m\<rparr>"
    using req_inner_method [OF assms(2) _ x, of ?r1 c] assms(1,3) by (simp add: line_accepted_def)
  also have "\<dots> = req_inner api ?p2
      \<lparr>contents = SP # ?r2, capacity = c - length m - (length u + 1)\<rparr>"
    using req_inner_uri [of ?p1 u api y ?r2 "c - length m"] y assms(1) by (simp add: line_accepted_def)
  also have "\<dots> = req_inner api (p\<lparr>rq_state := ReqHeaders, rq_builder := request_calls api m u v []\<rparr>)
      \<lparr>contents = rest, capacity = c - length m - (length u + 1) - 9\<rparr>"
    using req_inner_version [of ?p2 api v rest "c - length m - (length u + 1)"]
    by (simp add: request_calls_def field_calls_def x y)
  finally show ?thesis by (auto simp: request_line_def)
qed

lemma req_inner_request:
  assumes "line_accepted api m u" "fields_accepted api hs" "nl_run body = 0"
    and "rq_state p = ReqMethod" "rq_builder p = []"
  shows "\<exists>c'. req_inner api p \<lparr>contents = request_wire m u v hs body, capacity = c\<rparr> =
     Ok (p\<lparr>rq_state := ReqFinished, rq_builder := request_calls api m u v hs\<rparr>,
         \<lparr>contents = body, capacity = c'\<rparr>)"
proof -
  let ?p = "p\<lparr>rq_state := ReqHeaders, rq_builder := request_calls api m u v []\<rparr>"
  let ?rest = "LF # CR # LF # body"
  obtain c1 where c1: "req_inner api p \<lparr>contents = request_wire m u v hs body, capacity = c\<rparr> =
      req_inner api ?p \<lparr>contents = field_lines hs @ CR # ?rest, capacity = c1\<rparr>"
    using req_inner_line [OF assms(1,4,5), of v "field_lines hs @ CR # ?rest" c]
    by (auto simp: request_wire_def)
  obtain c2 where c2: "req_inner api ?p \<lparr>contents = field_lines hs @ CR # ?rest, capacity = c1\<rparr> =
      req_inner api (?p\<lparr>rq_builder := rq_builder ?p @ field_calls api hs\<rparr>)
        \<lparr>contents = CR # ?rest, capacity = c2\<rparr>"
    using req_inner_fields [of ?p api hs ?rest c1] assms(2) by auto
  show ?thesis
    using c1 c2 req_inner_end [of "?p\<lparr>rq_builder := rq_builder ?p @ field_calls api hs\<rparr>" body api c2] assms(3)
    by (simp add: request_calls_def field_calls_def)
qed

text \<open>A lone line break in the header state is consumed and the parser waits for more.\<close>

lemma req_inner_CRLF:
  assumes "rq_state p = ReqHeaders"
  shows "req_inner api p \<lparr>contents = [CR, LF], capacity = c\<rparr> = Ok (p, \<lparr>contents = [], capacity = c - 2\<rparr>)"
proof -
  have "skip_newlines \<lparr>contents = [CR, LF], capacity = c\<rparr> = Ok (One 2, \<lparr>contents = [], capacity = c - 2\<rparr>)"
    by (simp add: skip_newlines_eq raw_skip_newlines_eq)
  then show ?thesis
    using assms
    by (intro req.inner_False)
       (auto simp: req_dispatch_def req_parse_header_def parse_header_eq parse_header_name_def Let_def)
qed

lemma req_inner_line_CRLF:
  assumes "line_accepted api m u" "rq_state p = ReqMethod" "rq_builder p = []"
  shows "\<exists>c'. req_inner api p \<lparr>contents = request_line m u v @ [CR, LF], capacity = c\<rparr> =
     Ok (p\<lparr>rq_state := ReqHeaders, rq_builder := request_calls api m u v []\<rparr>,
         \<lparr>contents = [], capacity = c'\<rparr>)"
proof -
  let ?q = "p\<lparr>rq_state := ReqHeaders, rq_builder := request_calls api m u v []\<rparr>"
  obtain c' where "req_inner api p \<lparr>contents = request_line m u v @ [CR, LF], capacity = c\<rparr> =
      req_inner api ?q \<lparr>contents = [CR, LF], capacity = c'\<rparr>"
    using req_inner_line [OF assms] by blast
  then show ?thesis using req_inner_CRLF [of ?q api c'] by simp
qed

lemma requester_parse_request:
  assumes "bufmut_contract reserve"
    and "line_accepted api m u" "fields_accepted api hs" "nl_run body = 0"
    and "length (request_wire m u v hs body) \<le> parsing_headers_max_buf cfg"
    and "body_ok api (request_calls api m u v hs)"
  shows "requester_parse api reserve (requester_new_with (Data (request_wire m u v hs body) # s) cfg) =
     Ok (request_calls api m u v hs, \<lparr>br_cached = body, br_stream = s\<rparr>)"
proof -
  let ?wire = "request_wire m u v hs body" and ?n = "parsing_headers_max_buf cfg"
  let ?p = "requester_new_with (Data ?wire # s) cfg :: 'a requester"
  have p: "rq_state ?p = ReqMethod" "rq_builder ?p = []" "rq_stream ?p = Data ?wire # s" "rq_config ?p = cfg"
    by (simp_all add: requester_new_with_def)
  have "?wire \<noteq> []" by (simp add: request_wire_def)
  then obtain c where c: "req_outer api reserve ?n ?p (with_capacity ?n) =
      and_then (req_inner api (?p\<lparr>rq_stream := s\<rparr>) \<lparr>contents = ?wire, capacity = c\<rparr>)
       (\<lambda>(p', rb'). if rq_state p' = ReqFinished then Ok (p', rb') else req_outer api reserve ?n p' rb')"
    using req.outer_piece [OF assms(1) rb_wf_with_capacity, of ?p ?wire s ?n api ?n] assms(5) p
    by (auto simp: with_capacity_def)
  obtain c' where "req_inner api (?p\<lparr>rq_stream := s\<rparr>) \<lparr>contents = ?wire, capacity = c\<rparr> =
      Ok (?p\<lparr>rq_stream := s, rq_state := ReqFinished, rq_builder := request_calls api m u v hs\<rparr>,
          \<lparr>contents = body, capacity = c'\<rparr>)"
    using req_inner_request [OF assms(2-4), of "?p\<lparr>rq_stream := s\<rparr>" v c] p by auto
  then show ?thesis
    using c assms(6) p
    by (simp add: requester_parse_def into_bytes_def into_bytes_mut_def del: and_then_eq_Ok)
qed

section \<open>Properties\<close>

text \<open>
  C1: request round trip. When the first piece of the stream is a whole request head, printed from
  a method, a target, a version and header fields that the \<open>http\<close> crate accepts, followed by
  body bytes that do not start with a line break, the parser makes exactly the builder calls of
  those parts, in order, and hands out the body bytes and the rest of the stream untouched.
\<close>

theorem request_roundtrip:
  assumes "bufmut_contract reserve"
    and "line_accepted api m u" "fields_accepted api hs" "nl_run body = 0"
    and "length (request_wire m u v hs body) \<le> parsing_headers_max_buf cfg"
    and "body_ok api (request_calls api m u v hs)"
  shows "requester_parse api reserve (requester_new_with (Data (request_wire m u v hs body) # s) cfg) =
     Ok (request_calls api m u v hs, \<lparr>br_cached = body, br_stream = s\<rparr>)"
  by (rule requester_parse_request [OF assms])

theorem request_roundtrip_witness:
  "requester_parse sample_api sample_reserve
     (requester_new_with [Data (request_wire ''GET'' ''/a'' HTTP_11 [(''Host'', ''b'')] ''xy'')] default_config)
   = Ok ([CallMethod ''GET'', CallUri ''/a'', CallVersion HTTP_11, CallHeader ''Host'' ''b''],
         \<lparr>br_cached = ''xy'', br_stream = []\<rparr>)"
  using request_roundtrip [of sample_reserve sample_api "''GET''" "''/a''" "[(''Host'', ''b'')]" "''xy''"
      HTTP_11 default_config "[]"]
  by (simp add: line_accepted_def token_ok_def fields_accepted_def field_ok_def sample_api_def
      is_space_def is_newline_def default_config_def request_wire_def request_line_def field_lines_def
      field_line_def request_calls_def field_calls_def)

text \<open>
  A blank line split between two reads is not recognised. The line break that ends the request
  line is delivered with it, the blank line that ends the head in the next piece: a line break
  alone in the buffer counts as the end of a line, so the parser forgets it, takes the next one for
  the end of a line again, waits for more and reports the end of the stream, although the request
  is complete.
\<close>

theorem request_blank_line_split:
  assumes "bufmut_contract reserve" "line_accepted api m u"
    and "length (request_line m u v) + 4 \<le> parsing_headers_max_buf cfg"
  shows "requester_parse api reserve
     (requester_new_with [Data (request_line m u v @ [CR, LF]), Data [CR, LF]] cfg) = Err Eof"
proof -
  let ?n = "parsing_headers_max_buf cfg" and ?d = "request_line m u v @ [CR, LF]"
  let ?p = "requester_new_with [Data ?d, Data [CR, LF]] cfg :: 'a requester"
  let ?q = "\<lambda>s. \<lparr>rq_config = cfg, rq_state = ReqHeaders, rq_stream = s,
      rq_builder = request_calls api m u v []\<rparr> :: 'a requester"
  have p: "rq_state ?p = ReqMethod" "rq_builder ?p = []" "rq_stream ?p = [Data ?d, Data [CR, LF]]"
      "rq_config ?p = cfg"
    by (simp_all add: requester_new_with_def)
  obtain c1 where c1: "?n \<le> c1" "req_outer api reserve ?n ?p (with_capacity ?n) =
      and_then (req_inner api (?p\<lparr>rq_stream := [Data [CR, LF]]\<rparr>) \<lparr>contents = ?d, capacity = c1\<rparr>)
       (\<lambda>(p', rb'). if rq_state p' = ReqFinished then Ok (p', rb') else req_outer api reserve ?n p' rb')"
    using req.outer_piece [OF assms(1) rb_wf_with_capacity, of ?p ?d "[Data [CR, LF]]" ?n api ?n] assms(3) p
    by (auto simp: with_capacity_def)
  obtain c2 where i: "req_inner api (?p\<lparr>rq_stream := [Data [CR, LF]]\<rparr>) \<lparr>contents = ?d, capacity = c1\<rparr> =
      Ok (?q [Data [CR, LF]], \<lparr>contents = [], capacity = c2\<rparr>)"
    using req_inner_line_CRLF [OF assms(2), of "?p\<lparr>rq_stream := [Data [CR, LF]]\<rparr>" v c1] p
    by (auto simp: requester_new_with_def)
  have "rb_wf \<lparr>contents = ?d, capacity = c1\<rparr>" using c1(1) assms(3) by (simp add: rb_wf_def)
  then have c2: "2 \<le> c2" using req.inner_spare [OF i] c1(1) assms(3) by simp
  obtain c3 where c3: "req_outer api reserve ?n (?q [Data [CR, LF]]) \<lparr>contents = [], capacity = c2\<rparr> =
      and_then (req_inner api (?q []) \<lparr>contents = [CR, LF], capacity = c3\<rparr>)
       (\<lambda>(p', rb'). if rq_state p' = ReqFinished then Ok (p', rb') else req_outer api reserve ?n p' rb')"
    using req.outer_piece [OF assms(1), of "\<lparr>contents = [], capacity = c2\<rparr>" "?q [Data [CR, LF]]"
        "[CR, LF]" "[]" api ?n] c2
    by (auto simp: rb_wf_def)
  have "req_outer api reserve ?n (?q []) \<lparr>contents = [], capacity = c3 - 2\<rparr> = Err Eof"
    by (rule req.outer_eof [OF assms(1)]) (auto simp: rb_wf_def usize_max_def)
  then show ?thesis
    using c1(2) i c3 req_inner_CRLF [of "?q []" api c3] p(4) by (simp add: requester_parse_def)
qed

theorem request_blank_line_split_witness:
  "requester_parse sample_api sample_reserve
     (requester_new_with [Data (request_line ''GET'' ''/'' HTTP_11 @ [CR, LF]), Data [CR, LF]] default_config)
   = Err Eof"
  by (rule request_blank_line_split)
     (simp_all add: line_accepted_def token_ok_def sample_api_def is_space_def is_newline_def
        default_config_def request_line_def)

end
