(* ===== verification/Http_Response.thy ===== *)
theory Http_Response
  imports Http_Request
begin

text \<open>
  \<open>Responser\<close> of \<open>crates/net/http/src/parse.rs\<close>: the response parser. It has the loop of the
  request parser with other states; the step of the state \<open>Reason\<close> may go on without consuming
  a byte, so the inner loop ends because the state advances there.
\<close>

section \<open>The state machine\<close>

datatype response_parse_state = ResVersion | ResStatusCode | ResReason | ResHeaders | ResFinished

fun res_discriminant :: "response_parse_state \<Rightarrow> 8 word" where
  "res_discriminant ResVersion = 1"
| "res_discriminant ResStatusCode = 2"
| "res_discriminant ResReason = 3"
| "res_discriminant ResHeaders = 4"
| "res_discriminant ResFinished = 5"

definition res_of_u8 :: "8 word \<Rightarrow> response_parse_state option" where
  "res_of_u8 b =
     (if b = 1 then Some ResVersion else if b = 2 then Some ResStatusCode
      else if b = 3 then Some ResReason else if b = 4 then Some ResHeaders
      else if b = 5 then Some ResFinished else None)"

definition res_next :: "response_parse_state \<Rightarrow> response_parse_state parse_result" where
  "res_next st =
     (if st = ResFinished then Ok st else unwrap (res_of_u8 (res_discriminant st + 1)))"

lemma res_next_simps [simp]:
  "res_next ResVersion = Ok ResStatusCode" "res_next ResStatusCode = Ok ResReason"
  "res_next ResReason = Ok ResHeaders" "res_next ResHeaders = Ok ResFinished"
  "res_next ResFinished = Ok ResFinished"
  by (simp_all add: res_next_def res_of_u8_def)

lemma res_next_no_Panic [simp]: "res_next st \<noteq> Panic" "res_next st \<noteq> Err e"
  by (cases st; simp)+

section \<open>The parser\<close>

record 'o responser =
  rs_config :: config
  rs_state :: response_parse_state
  rs_stream :: stream
  rs_builder :: "'o builder_call list"
  rs_reason :: "bytes option"

definition responser_new_with :: "stream \<Rightarrow> config \<Rightarrow> 'o responser" where
  "responser_new_with s cfg =
     \<lparr>rs_config = cfg, rs_state = ResVersion, rs_stream = s, rs_builder = [], rs_reason = Some []\<rparr>"

definition responser_new :: "stream \<Rightarrow> 'o responser" where
  "responser_new s = responser_new_with s default_config"

definition rs_call :: "'o builder_call \<Rightarrow> 'o responser \<Rightarrow> 'o responser" where
  "rs_call c p = p\<lparr>rs_builder := rs_builder p @ [c]\<rparr>"

definition rs_advance :: "'o responser \<Rightarrow> 'o responser parse_result" where
  "rs_advance p = map_ok (\<lambda>st. p\<lparr>rs_state := st\<rparr>) (res_next (rs_state p))"

definition res_parse_status_code ::
  "'o http_api \<Rightarrow> 'o responser \<Rightarrow> read_buf \<Rightarrow> (bool \<times> 'o responser \<times> read_buf) parse_result" where
  "res_parse_status_code api p rb =
     and_then (buf_skip_spaces rb) (\<lambda>rb1.
     and_then (parse_code api (chunk rb1)) (\<lambda>code.
     case code of
       Some c \<Rightarrow>
         and_then (split_to 3 rb1) (\<lambda>(_, rb2).
         and_then (rs_advance (rs_call (CallStatus c) p)) (\<lambda>p'. Ok (True, p', rb2)))
     | None \<Rightarrow> Ok (False, p, rb1)))"

definition res_parse_reason ::
  "'o responser \<Rightarrow> read_buf \<Rightarrow> (bool \<times> 'o responser \<times> read_buf) parse_result" where
  "res_parse_reason p rb =
     and_then (buf_skip_spaces rb) (\<lambda>rb1.
     case parse_reason (chunk rb1) of
       Some len \<Rightarrow>
         and_then (split_to len rb1) (\<lambda>(buf, rb2).
         and_then (rs_advance (p\<lparr>rs_reason := Some buf\<rparr>)) (\<lambda>p'. Ok (True, p', rb2)))
     | None \<Rightarrow> Ok (False, p, rb1))"

definition res_parse_version ::
  "'o responser \<Rightarrow> read_buf \<Rightarrow> (bool \<times> 'o responser \<times> read_buf) parse_result" where
  "res_parse_version p rb =
     and_then (buf_skip_spaces rb) (\<lambda>rb1.
     and_then (parse_version (chunk rb1)) (\<lambda>ver.
     case ver of
       Some v \<Rightarrow>
         and_then (split_to 8 rb1) (\<lambda>(_, rb2).
         and_then (rs_advance (rs_call (CallVersion v) p)) (\<lambda>p'. Ok (True, p', rb2)))
     | None \<Rightarrow> Ok (False, p, rb1)))"

definition res_parse_header ::
  "'o http_api \<Rightarrow> 'o responser \<Rightarrow> read_buf \<Rightarrow> (bool \<times> 'o responser \<times> read_buf) parse_result" where
  "res_parse_header api p rb =
     and_then (skip_newlines rb) (\<lambda>(skipped, rb1).
     case skipped of
       Break _ \<Rightarrow> and_then (rs_advance p) (\<lambda>p'. Ok (False, p', rb1))
     | Incomplete \<Rightarrow> Ok (False, p, rb1)
     | _ \<Rightarrow>
         and_then (parse_header api rb1) (\<lambda>(header, rb2).
         case header of
           Some (name, val) \<Rightarrow> Ok (True, rs_call (CallHeader name val) p, rb2)
         | None \<Rightarrow> Ok (False, p, rb2)))"

definition res_dispatch ::
  "'o http_api \<Rightarrow> 'o responser \<Rightarrow> read_buf \<Rightarrow> (bool \<times> 'o responser \<times> read_buf) parse_result" where
  "res_dispatch api p rb =
     (case rs_state p of
        ResVersion \<Rightarrow> res_parse_version p rb
      | ResStatusCode \<Rightarrow> res_parse_status_code api p rb
      | ResReason \<Rightarrow> res_parse_reason p rb
      | ResHeaders \<Rightarrow> res_parse_header api p rb
      | ResFinished \<Rightarrow> Ok (False, p, rb))"

section \<open>The loops\<close>

definition res_rank :: "'o responser \<Rightarrow> nat" where
  "res_rank p = 5 - unat (res_discriminant (rs_state p))"

lemma rs_advance_Ok [simp]:
  "rs_advance p = Ok p' \<longleftrightarrow> (\<exists>st. res_next (rs_state p) = Ok st \<and> p' = p\<lparr>rs_state := st\<rparr>)"
  by (auto simp: rs_advance_def)

lemma rs_advance_total [simp]: "rs_advance p \<noteq> Panic" "rs_advance p \<noteq> Err e"
  by (simp_all add: rs_advance_def)

lemma rs_call_simps [simp]:
  "rs_stream (rs_call c p) = rs_stream p" "rs_state (rs_call c p) = rs_state p"
  "rs_builder (rs_call c p) = rs_builder p @ [c]" "rs_config (rs_call c p) = rs_config p"
  "rs_reason (rs_call c p) = rs_reason p"
  by (simp_all add: rs_call_def)

definition res_step_ok :: "'o responser \<Rightarrow> read_buf \<Rightarrow> bool \<Rightarrow> 'o responser \<Rightarrow> read_buf \<Rightarrow> bool" where
  "res_step_ok p rb b p' rb' \<longleftrightarrow>
     rs_stream p' = rs_stream p \<and> rs_config p' = rs_config p \<and>
     (\<exists>n. consumes n rb rb' \<and> (b \<longrightarrow> 0 < n \<or> res_rank p' < res_rank p))"

lemma res_step_ok_refl: "res_step_ok p rb False p rb"
  by (auto simp: res_step_ok_def intro: consumes_refl)

lemma res_step_okI:
  "\<lbrakk> rs_stream p' = rs_stream p; rs_config p' = rs_config p; \<exists>n>0. consumes n rb rb' \<rbrakk>
   \<Longrightarrow> res_step_ok p rb b p' rb'"
  by (auto simp: res_step_ok_def)

lemma res_parse_status_code_step:
  assumes "res_parse_status_code api p rb = Ok (b, p', rb')"
  shows "res_step_ok p rb b p' rb'"
proof -
  obtain rb1 where s: "buf_skip_spaces rb = Ok rb1" by (simp add: buf_skip_spaces_eq)
  obtain code where c: "parse_code api (chunk rb1) = Ok code"
    using assms by (auto simp: res_parse_status_code_def s)
  show ?thesis
  proof (cases code)
    case None
    then show ?thesis
      using assms c consumes_skip_spaces [OF s] by (auto simp: res_parse_status_code_def s res_step_ok_def)
  next
    case (Some x)
    then show ?thesis
      using assms c skip_then_split [OF s, of 3]
      by (auto simp: res_parse_status_code_def s intro!: res_step_okI)
  qed
qed

lemma res_parse_version_step:
  assumes "res_parse_version p rb = Ok (b, p', rb')"
  shows "res_step_ok p rb b p' rb'"
proof -
  obtain rb1 where s: "buf_skip_spaces rb = Ok rb1" by (simp add: buf_skip_spaces_eq)
  obtain ver where v: "parse_version (chunk rb1) = Ok ver"
    using assms by (auto simp: res_parse_version_def s)
  show ?thesis
  proof (cases ver)
    case None
    then show ?thesis
      using assms v consumes_skip_spaces [OF s] by (auto simp: res_parse_version_def s res_step_ok_def)
  next
    case (Some x)
    then show ?thesis
      using assms v skip_then_split [OF s, of 8]
      by (auto simp: res_parse_version_def s intro!: res_step_okI)
  qed
qed

lemma res_parse_reason_step:
  assumes "res_parse_reason p rb = Ok (b, p', rb')" "rs_state p = ResReason"
  shows "res_step_ok p rb b p' rb'"
proof -
  obtain rb1 where s: "buf_skip_spaces rb = Ok rb1" by (simp add: buf_skip_spaces_eq)
  show ?thesis
  proof (cases "parse_reason (chunk rb1)")
    case None
    then show ?thesis
      using assms consumes_skip_spaces [OF s] by (auto simp: res_parse_reason_def s res_step_ok_def)
  next
    case (Some len)
    then show ?thesis
      using assms
      by (auto simp: res_parse_reason_def s res_step_ok_def res_rank_def
            dest!: consumes_trans [OF consumes_skip_spaces [OF s] consumes_split_to])
  qed
qed

lemma res_parse_header_step:
  assumes "res_parse_header api p rb = Ok (b, p', rb')"
  shows "res_step_ok p rb b p' rb'"
proof -
  obtain skipped rb1 where s: "skip_newlines rb = Ok (skipped, rb1)"
    by (simp add: skip_newlines_eq)
  note c1 = consumes_skip_newlines [OF s]
  show ?thesis
    using assms c1
    by (auto simp: res_parse_header_def s res_step_ok_def split: skip_new_line.splits
          dest!: newlines_then_header [OF s])
       (auto split: option.splits)
qed

lemma res_dispatch_step:
  "res_dispatch api p rb = Ok (b, p', rb') \<Longrightarrow> res_step_ok p rb b p' rb'"
  by (cases "rs_state p")
     (auto simp: res_dispatch_def intro: res_step_ok_refl res_parse_version_step
        res_parse_status_code_step res_parse_reason_step res_parse_header_step)

lemma res_dispatch_no_Panic: "res_dispatch api p rb \<noteq> Panic"
  by (auto simp: res_dispatch_def res_parse_version_def res_parse_status_code_def res_parse_reason_def
        res_parse_header_def buf_skip_spaces_eq skip_newlines_eq and_then_eq_Panic parse_code_def
        split: response_parse_state.splits option.splits skip_new_line.splits if_splits
        dest!: scan_less parse_version_long)

lemma res_dispatch_Err: "res_dispatch api p rb = Err e \<Longrightarrow>
   e \<in> {InvalidStatusCode, BadVersion, InvalidHeaderName, InvalidHeaderValue}"
  by (auto simp: res_dispatch_def res_parse_version_def res_parse_status_code_def res_parse_reason_def
        res_parse_header_def buf_skip_spaces_eq skip_newlines_eq and_then_eq_Err ok_or_eq_Err
        parse_version_def parse_code_def Let_def
        split: response_parse_state.splits option.splits skip_new_line.splits if_splits
        dest!: parse_header_Err)

function res_inner ::
  "'o http_api \<Rightarrow> 'o responser \<Rightarrow> read_buf \<Rightarrow> ('o responser \<times> read_buf) parse_result" where
  "res_inner api p rb =
     (if 0 < length (chunk rb)
      then and_then (res_dispatch api p rb)
             (\<lambda>(b, p', rb'). if b then res_inner api p' rb' else Ok (p', rb'))
      else Ok (p, rb))"
  by pat_completeness auto
termination
  by (relation "measures [\<lambda>(api, p, rb). length (chunk rb), \<lambda>(api, p, rb). res_rank p]")
     (auto dest!: res_dispatch_step simp: res_step_ok_def consumes_length)

declare res_inner.simps [simp del]

lemma res_inner_stream: "res_inner api p rb = Ok (p', rb') \<Longrightarrow> rs_stream p' = rs_stream p"
proof (induction api p rb rule: res_inner.induct)
  case (1 api p rb)
  show ?case
  proof (cases "0 < length (chunk rb)")
    case True
    with "1.prems" obtain b p1 rb1 where d: "res_dispatch api p rb = Ok (b, p1, rb1)"
      and rest: "(if b then res_inner api p1 rb1 else Ok (p1, rb1)) = Ok (p', rb')"
      by (auto simp: res_inner.simps [of api p rb])
    have "rs_stream p' = rs_stream p1"
      using "1.IH" [OF True d] rest by (cases b) auto
    then show ?thesis using res_dispatch_step [OF d] by (simp add: res_step_ok_def)
  next
    case False
    with "1.prems" show ?thesis by (simp add: res_inner.simps [of api p rb])
  qed
qed

function res_outer ::
  "'o http_api \<Rightarrow> reserve_fn \<Rightarrow> nat \<Rightarrow> 'o responser \<Rightarrow> read_buf \<Rightarrow> ('o responser \<times> read_buf) parse_result"
where
  "res_outer api reserve max_buf p rb =
     (if rs_state p = ResFinished then Ok (p, rb)
      else let (n, rb1) = chunk_mut reserve rb in
        if n = 0 then Err (ParseBufOverflow max_buf)
        else and_then (map_err IoError (stream_read n (rs_stream p))) (\<lambda>(data, s').
             if length data = 0 then Err Eof
             else and_then (filled data rb1) (\<lambda>rb2.
                  and_then (res_inner api (p\<lparr>rs_stream := s'\<rparr>) rb2) (\<lambda>(p', rb').
                  if rs_state p' = ResFinished then Ok (p', rb')
                  else res_outer api reserve max_buf p' rb'))))"
  by pat_completeness auto
termination
  by (relation "measure (\<lambda>(api, reserve, max_buf, p, rb). stream_size (rs_stream p))")
     (auto dest!: res_inner_stream stream_read_size)

declare res_outer.simps [simp del]

text \<open>
  \<open>Responser::parse\<close>. The reason phrase is stored in the parser and dropped with it: the
  response does not carry it.
\<close>

definition responser_parse ::
  "'o http_api \<Rightarrow> reserve_fn \<Rightarrow> 'o responser \<Rightarrow> ('o builder_call list \<times> body_reader) parse_result" where
  "responser_parse api reserve p =
     (let max_buf = parsing_headers_max_buf (rs_config p) in
      and_then (res_outer api reserve max_buf p (with_capacity max_buf)) (\<lambda>(p', rb).
      and_then (into_bytes None rb) (\<lambda>cached.
      if body_ok api (rs_builder p')
      then Ok (rs_builder p', \<lparr>br_cached = cached, br_stream = rs_stream p'\<rparr>)
      else Err HttpError)))"

definition parse_response_with ::
  "'o http_api \<Rightarrow> reserve_fn \<Rightarrow> stream \<Rightarrow> config \<Rightarrow> ('o builder_call list \<times> body_reader) io_result" where
  "parse_response_with api reserve s cfg =
     map_err parse_error_into_io (responser_parse api reserve (responser_new_with s cfg))"

definition parse_response ::
  "'o http_api \<Rightarrow> reserve_fn \<Rightarrow> stream \<Rightarrow> ('o builder_call list \<times> body_reader) io_result" where
  "parse_response api reserve s =
     map_err parse_error_into_io (responser_parse api reserve (responser_new s))"

section \<open>The response parser is a parser loop\<close>

interpretation res: parser_loop "res_dispatch api" "res_inner api" "res_outer api reserve max_buf"
    "\<lambda>p. rs_state p = ResFinished" rs_stream "\<lambda>s p. p\<lparr>rs_stream := s\<rparr>" res_rank reserve max_buf
  for api :: "'o http_api" and reserve max_buf
proof unfold_locales
  show "res_inner api p rb =
      (if 0 < length (chunk rb)
       then and_then (res_dispatch api p rb)
              (\<lambda>(b, p', rb'). if b then res_inner api p' rb' else Ok (p', rb'))
       else Ok (p, rb))" for p :: "'o responser" and rb
    by (rule res_inner.simps)
  show "res_outer api reserve max_buf p rb =
      (if rs_state p = ResFinished then Ok (p, rb)
       else let (n, rb1) = chunk_mut reserve rb in
         if n = 0 then Err (ParseBufOverflow max_buf)
         else and_then (map_err IoError (stream_read n (rs_stream p))) (\<lambda>(data, s').
              if length data = 0 then Err Eof
              else and_then (filled data rb1) (\<lambda>rb2.
                   and_then (res_inner api (p\<lparr>rs_stream := s'\<rparr>) rb2) (\<lambda>(p', rb').
                   if rs_state p' = ResFinished then Ok (p', rb')
                   else res_outer api reserve max_buf p' rb'))))" for p :: "'o responser" and rb
    by (rule res_outer.simps)
  show "length (chunk rb') < length (chunk rb) \<or>
      length (chunk rb') = length (chunk rb) \<and> res_rank p' < res_rank p"
    if "res_dispatch api p rb = Ok (True, p', rb')" for p p' :: "'o responser" and rb rb'
    using res_dispatch_step [OF that] consumes_progress by (fastforce simp: res_step_ok_def)
qed (auto dest!: res_dispatch_step res_dispatch_Err simp: res_dispatch_no_Panic res_step_ok_def)

section \<open>Parsing a well-formed response\<close>

lemma res_inner_version:
  assumes "rs_state p = ResVersion"
  shows "res_inner api p \<lparr>contents = version_tag v @ rest, capacity = c\<rparr> =
     res_inner api (p\<lparr>rs_state := ResStatusCode, rs_builder := rs_builder p @ [CallVersion v]\<rparr>)
       \<lparr>contents = rest, capacity = c - 8\<rparr>"
proof -
  have "buf_skip_spaces \<lparr>contents = version_tag v @ rest, capacity = c\<rparr> =
      Ok \<lparr>contents = version_tag v @ rest, capacity = c\<rparr>"
    using dropWhile_space_token [OF version_tag_props(1)] skip_spaces_token [OF version_tag_props(1)]
    by (simp add: buf_skip_spaces_eq)
  then show ?thesis
    using assms version_tag_props [of v]
    by (intro res.inner_True)
       (auto simp: res_dispatch_def res_parse_version_def parse_version_tag split_to_def rs_call_def
          rs_advance_def token_ok_def)
qed

lemma res_inner_code:
  assumes "rs_state p = ResStatusCode" "token_ok code" "length code = 3"
    and "status_code_from_bytes api code = Some x"
  shows "res_inner api p \<lparr>contents = SP # code @ rest, capacity = c\<rparr> =
     res_inner api (p\<lparr>rs_state := ResReason, rs_builder := rs_builder p @ [CallStatus x]\<rparr>)
       \<lparr>contents = rest, capacity = c - 4\<rparr>"
proof -
  have "buf_skip_spaces \<lparr>contents = SP # code @ rest, capacity = c\<rparr> =
      Ok \<lparr>contents = code @ rest, capacity = c - 1\<rparr>"
    using dropWhile_space_token [OF assms(2)] skip_spaces_SP_token [OF assms(2)]
    by (simp add: buf_skip_spaces_eq is_space_def)
  then show ?thesis
    using assms
    by (intro res.inner_True)
       (auto simp: res_dispatch_def res_parse_status_code_def parse_code_def split_to_def rs_call_def
          rs_advance_def)
qed

definition reason_ok :: "bytes \<Rightarrow> bool" where
  "reason_ok r \<longleftrightarrow> (\<forall>c\<in>set r. \<not> is_newline c) \<and> (r \<noteq> [] \<longrightarrow> \<not> is_space (hd r))"

lemma res_inner_reason:
  assumes "rs_state p = ResReason" "reason_ok r"
  shows "res_inner api p \<lparr>contents = SP # r @ CR # rest, capacity = c\<rparr> =
     res_inner api (p\<lparr>rs_state := ResHeaders, rs_reason := Some r\<rparr>)
       \<lparr>contents = CR # rest, capacity = c - (length r + 1)\<rparr>"
proof -
  have d: "dropWhile is_space (SP # r @ CR # rest) = r @ CR # rest"
    using assms(2) by (cases r) (auto simp: reason_ok_def is_space_def)
  have "takeWhile is_space (SP # r @ CR # rest) = [SP]"
    using assms(2) by (cases r) (auto simp: reason_ok_def is_space_def)
  then have s: "skip_spaces (SP # r @ CR # rest) = 1" by (simp only: skip_spaces_takeWhile) simp
  have "parse_reason (r @ CR # rest) = Some (length r)"
    unfolding parse_reason_def
    by (rule find_offset_append_hit) (use assms(2) in \<open>auto simp: reason_ok_def is_newline_def\<close>)
  then show ?thesis
    using assms(1) d s
    by (intro res.inner_True)
       (auto simp: res_dispatch_def res_parse_reason_def buf_skip_spaces_eq split_to_def rs_advance_def)
qed

lemma res_inner_field:
  assumes "rs_state p = ResHeaders" "field_ok (n, v)"
    and "header_name_from_bytes api n = Some hn" "header_value_from_maybe_shared api v = Some hv"
  shows "res_inner api p \<lparr>contents = field_line (n, v) @ CR # rest, capacity = c\<rparr> =
     res_inner api (p\<lparr>rs_builder := rs_builder p @ [CallHeader hn hv]\<rparr>)
       \<lparr>contents = CR # rest, capacity = c - 2 - (length n + 2 + length v)\<rparr>"
  using assms skip_newlines_field [OF assms(2)] parse_header_field [OF assms(2-4)]
  by (intro res.inner_True)
     (auto simp: res_dispatch_def res_parse_header_def field_line_def rs_call_def)

lemma res_inner_end:
  assumes "rs_state p = ResHeaders" "nl_run body = 0"
  shows "res_inner api p \<lparr>contents = CR # LF # CR # LF # body, capacity = c\<rparr> =
     Ok (p\<lparr>rs_state := ResFinished\<rparr>, \<lparr>contents = body, capacity = c - 4\<rparr>)"
  using assms skip_newlines_end [OF assms(2)]
  by (intro res.inner_False) (auto simp: res_dispatch_def res_parse_header_def rs_advance_def)

lemma res_inner_fields:
  "\<lbrakk> rs_state p = ResHeaders; fields_accepted api hs \<rbrakk> \<Longrightarrow>
   \<exists>c'. res_inner api p \<lparr>contents = field_lines hs @ CR # rest, capacity = c\<rparr> =
     res_inner api (p\<lparr>rs_builder := rs_builder p @ field_calls api hs\<rparr>)
       \<lparr>contents = CR # rest, capacity = c'\<rparr>"
proof (induction hs arbitrary: p c)
  case Nil
  then show ?case by (auto simp: field_lines_def field_calls_def)
next
  case (Cons h hs)
  obtain n v where h: "h = (n, v)" by fastforce
  from Cons.prems(2) obtain hn hv where api: "field_ok (n, v)" "header_name_from_bytes api n = Some hn"
      "header_value_from_maybe_shared api v = Some hv"
    by (auto simp: fields_accepted_def h)
  obtain rest' where rest': "field_lines hs @ CR # rest = CR # rest'"
    by (cases hs) (auto simp: field_lines_def field_line_def split: prod.splits)
  have "res_inner api p \<lparr>contents = field_lines (h # hs) @ CR # rest, capacity = c\<rparr> =
      res_inner api (p\<lparr>rs_builder := rs_builder p @ [CallHeader hn hv]\<rparr>)
        \<lparr>contents = field_lines hs @ CR # rest, capacity = c - 2 - (length n + 2 + length v)\<rparr>"
    using res_inner_field [OF Cons.prems(1) api, of rest' c]
    by (simp add: h rest' field_lines_def) (metis append_assoc field_lines_def rest')
  moreover have "fields_accepted api hs" using Cons.prems(2) by (simp add: fields_accepted_def)
  ultimately show ?case
    using Cons.IH [of "p\<lparr>rs_builder := rs_builder p @ [CallHeader hn hv]\<rparr>"] Cons.prems(1) api
    by (simp add: field_calls_def h)
qed

definition response_wire ::
  "version \<Rightarrow> bytes \<Rightarrow> bytes \<Rightarrow> (bytes \<times> bytes) list \<Rightarrow> bytes \<Rightarrow> bytes" where
  "response_wire v code r hs body =
     version_tag v @ [SP] @ code @ [SP] @ r @ field_lines hs @ [CR, LF, CR, LF] @ body"

definition status_accepted :: "'o http_api \<Rightarrow> bytes \<Rightarrow> bytes \<Rightarrow> bool" where
  "status_accepted api code r \<longleftrightarrow>
     token_ok code \<and> length code = 3 \<and> status_code_from_bytes api code \<noteq> None \<and> reason_ok r"

definition response_calls ::
  "'o http_api \<Rightarrow> version \<Rightarrow> bytes \<Rightarrow> (bytes \<times> bytes) list \<Rightarrow> 'o builder_call list" where
  "response_calls api v code hs =
     [CallVersion v, CallStatus (the (status_code_from_bytes api code))] @ field_calls api hs"

lemma res_inner_response:
  assumes "status_accepted api code r" "fields_accepted api hs" "nl_run body = 0"
    and "rs_state p = ResVersion" "rs_builder p = []"
  shows "\<exists>c'. res_inner api p \<lparr>contents = response_wire v code r hs body, capacity = c\<rparr> =
     Ok (p\<lparr>rs_state := ResFinished, rs_builder := response_calls api v code hs, rs_reason := Some r\<rparr>,
         \<lparr>contents = body, capacity = c'\<rparr>)"
proof -
  obtain x where x: "status_code_from_bytes api code = Some x"
    using assms(1) by (auto simp: status_accepted_def)
  let ?p1 = "p\<lparr>rs_state := ResStatusCode, rs_builder := [CallVersion v]\<rparr>"
  let ?p2 = "p\<lparr>rs_state := ResReason, rs_builder := [CallVersion v, CallStatus x]\<rparr>"
  let ?p3 = "p\<lparr>rs_state := ResHeaders, rs_builder := [CallVersion v, CallStatus x], rs_reason := Some r\<rparr>"
  let ?tail = "LF # CR # LF # body"
  obtain rest where rest: "field_lines hs @ CR # ?tail = CR # rest"
    by (cases hs) (auto simp: field_lines_def field_line_def split: prod.splits)
  have "res_inner api p \<lparr>contents = response_wire v code r hs body, capacity = c\<rparr> =
      res_inner api ?p1 \<lparr>contents = SP # code @ SP # r @ CR # rest, capacity = c - 8\<rparr>"
    using res_inner_version [OF assms(4), of api v "SP # code @ SP # r @ CR # rest" c] rest assms(5)
    by (simp add: response_wire_def)
  also have "\<dots> = res_inner api ?p2 \<lparr>contents = SP # r @ CR # rest, capacity = c - 8 - 4\<rparr>"
    using res_inner_code [of ?p1 code api x "SP # r @ CR # rest" "c - 8"] x assms(1)
    by (simp add: status_accepted_def)
  also have "\<dots> = res_inner api ?p3
      \<lparr>contents = field_lines hs @ CR # ?tail, capacity = c - 8 - 4 - (length r + 1)\<rparr>"
    using res_inner_reason [of ?p2 r api rest "c - 8 - 4"] assms(1) rest
    by (cases p) (simp add: status_accepted_def)
  finally have line: "res_inner api p \<lparr>contents = response_wire v code r hs body, capacity = c\<rparr> =
      res_inner api ?p3 \<lparr>contents = field_lines hs @ CR # ?tail, capacity = c - 8 - 4 - (length r + 1)\<rparr>" .
  obtain c2 where "res_inner api ?p3
        \<lparr>contents = field_lines hs @ CR # ?tail, capacity = c - 8 - 4 - (length r + 1)\<rparr> =
      res_inner api (?p3\<lparr>rs_builder := rs_builder ?p3 @ field_calls api hs\<rparr>)
        \<lparr>contents = CR # ?tail, capacity = c2\<rparr>"
    using res_inner_fields [of ?p3 api hs ?tail] assms(2) by auto
  then show ?thesis
    using line x assms(3) res_inner_end [of "?p3\<lparr>rs_builder := rs_builder ?p3 @ field_calls api hs\<rparr>" body api c2]
    by (simp add: response_calls_def)
qed

section \<open>Properties\<close>

text \<open>
  C2: response round trip. When the first piece of the stream is a whole response head, printed
  from a version, a three-byte status code, a reason phrase and header fields that the \<open>http\<close>
  crate accepts, followed by body bytes that do not start with a line break, the parser makes
  exactly the builder calls of those parts, in order, and hands out the body bytes and the rest of
  the stream untouched.
\<close>

theorem response_roundtrip:
  assumes "bufmut_contract reserve"
    and "status_accepted api code r" "fields_accepted api hs" "nl_run body = 0"
    and "length (response_wire v code r hs body) \<le> parsing_headers_max_buf cfg"
    and "body_ok api (response_calls api v code hs)"
  shows "responser_parse api reserve
       (responser_new_with (Data (response_wire v code r hs body) # s) cfg) =
     Ok (response_calls api v code hs, \<lparr>br_cached = body, br_stream = s\<rparr>)"
proof -
  let ?wire = "response_wire v code r hs body" and ?n = "parsing_headers_max_buf cfg"
  let ?p = "responser_new_with (Data ?wire # s) cfg :: 'a responser"
  have p: "rs_state ?p = ResVersion" "rs_builder ?p = []" "rs_stream ?p = Data ?wire # s" "rs_config ?p = cfg"
    by (simp_all add: responser_new_with_def)
  have "?wire \<noteq> []" by (simp add: response_wire_def)
  then obtain c where c: "res_outer api reserve ?n ?p (with_capacity ?n) =
      and_then (res_inner api (?p\<lparr>rs_stream := s\<rparr>) \<lparr>contents = ?wire, capacity = c\<rparr>)
       (\<lambda>(p', rb'). if rs_state p' = ResFinished then Ok (p', rb') else res_outer api reserve ?n p' rb')"
    using res.outer_piece [OF assms(1) rb_wf_with_capacity, of ?p ?wire s ?n api ?n] assms(5) p
    by (auto simp: with_capacity_def)
  obtain c' where "res_inner api (?p\<lparr>rs_stream := s\<rparr>) \<lparr>contents = ?wire, capacity = c\<rparr> =
      Ok (?p\<lparr>rs_stream := s, rs_state := ResFinished, rs_builder := response_calls api v code hs,
            rs_reason := Some r\<rparr>, \<lparr>contents = body, capacity = c'\<rparr>)"
    using res_inner_response [OF assms(2-4), of "?p\<lparr>rs_stream := s\<rparr>" v c] p by auto
  then show ?thesis
    using c assms(6) p
    by (simp add: responser_parse_def into_bytes_def into_bytes_mut_def del: and_then_eq_Ok)
qed

theorem response_roundtrip_witness:
  "responser_parse sample_api sample_reserve
     (responser_new_with [Data (response_wire HTTP_11 ''200'' ''OK'' [(''Host'', ''b'')] ''xy'')] default_config)
   = Ok ([CallVersion HTTP_11, CallStatus ''200'', CallHeader ''Host'' ''b''],
         \<lparr>br_cached = ''xy'', br_stream = []\<rparr>)"
  using response_roundtrip [of sample_reserve sample_api "''200''" "''OK''" "[(''Host'', ''b'')]" "''xy''"
      HTTP_11 default_config "[]"]
  by (simp add: status_accepted_def token_ok_def fields_accepted_def field_ok_def sample_api_def reason_ok_def
      is_space_def is_newline_def default_config_def response_wire_def field_lines_def
      field_line_def response_calls_def field_calls_def)

end
