(* ===== verification/Http_Body.thy ===== *)
theory Http_Body
  imports Http_Response
begin

text \<open>
  \<open>BodyReader\<close> of \<open>crates/net/http/src/body.rs\<close>: the reader that the parsers return, its
  \<open>into_read\<close>, the collecting loop \<open>into_bytes\<close> and the JSON entry points. \<open>serde_json\<close> is the
  parameter \<open>from_slice\<close>.
\<close>

section \<open>The reader\<close>

definition body_reader_new :: "bytes \<Rightarrow> stream \<Rightarrow> body_reader" where
  "body_reader_new cached s = \<lparr>br_cached = cached, br_stream = s\<rparr>"

text \<open>
  \<open>Cursor::new(cached).chain(stream)\<close>: the cursor is read until it is exhausted, and a read
  on an exhausted cursor goes to the stream at once.
\<close>

definition into_read :: "body_reader \<Rightarrow> stream" where
  "into_read br = (if br_cached br = [] then br_stream br else Data (br_cached br) # br_stream br)"

function body_loop :: "reserve_fn \<Rightarrow> nat \<Rightarrow> stream \<Rightarrow> read_buf \<Rightarrow> read_buf parse_result" where
  "body_loop reserve max_body_len s rb =
     (let (n, rb1) = chunk_mut reserve rb in
      if n = 0 then Err (ParseBufOverflow max_body_len)
      else and_then (map_err IoError (stream_read n s)) (\<lambda>(data, s').
           if length data = 0 then Ok rb1
           else and_then (filled data rb1) (\<lambda>rb2. body_loop reserve max_body_len s' rb2)))"
  by pat_completeness auto
termination
  by (relation "measure (\<lambda>(reserve, max_body_len, s, rb). stream_size s)")
     (auto dest!: stream_read_size)

declare body_loop.simps [simp del]

definition body_into_bytes :: "reserve_fn \<Rightarrow> body_reader \<Rightarrow> nat \<Rightarrow> bytes parse_result" where
  "body_into_bytes reserve br max_body_len =
     and_then (body_loop reserve max_body_len (into_read br) (with_capacity max_body_len))
       (into_bytes_mut None)"

definition from_json_with ::
  "(bytes \<Rightarrow> 'v option) \<Rightarrow> reserve_fn \<Rightarrow> body_reader \<Rightarrow> nat \<Rightarrow> 'v parse_result" where
  "from_json_with from_slice reserve br max_body_len =
     and_then (body_into_bytes reserve br max_body_len)
       (\<lambda>buf. ok_or SerdeJsonError (from_slice buf))"

definition from_json :: "(bytes \<Rightarrow> 'v option) \<Rightarrow> reserve_fn \<Rightarrow> body_reader \<Rightarrow> 'v parse_result" where
  "from_json from_slice reserve br = from_json_with from_slice reserve br 4096"

section \<open>The reference: drain the stream\<close>

text \<open>
  What reading a stream to its end gives: the concatenation of its pieces up to the first empty
  read, or the first failure.
\<close>

fun drain :: "stream \<Rightarrow> bytes io_result" where
  "drain [] = Ok []"
| "drain (Fail e # s) = Err e"
| "drain (Data d # s) = (if d = [] then Ok [] else map_ok ((@) d) (drain s))"

lemma drain_read:
  "\<lbrakk> stream_read n s = Ok (d, s'); 0 < n \<rbrakk> \<Longrightarrow>
     drain s = (if d = [] then Ok [] else map_ok ((@) d) (drain s'))"
proof (cases "(n, s)" rule: stream_read.cases)
  case (3 m d0 s0)
  assume "stream_read n s = Ok (d, s')" "0 < n"
  with 3 show ?thesis
    by (cases "drain s0") (auto split: if_splits)
qed auto

lemma drain_Err: "stream_read n s = Err e \<Longrightarrow> drain s = Err e"
  by (cases "(n, s)" rule: stream_read.cases) (auto split: if_splits)

lemma drain_pieces:
  "list_all (\<lambda>ev. case ev of Data d \<Rightarrow> d \<noteq> [] | Fail _ \<Rightarrow> False) s \<Longrightarrow> drain s = Ok (stream_bytes s)"
  by (induction s rule: drain.induct) auto

lemma body_loop_drain:
  assumes "bufmut_contract reserve"
  shows "\<lbrakk> rb_wf rb; length (chunk rb @ stream_bytes s) < usize_max \<rbrakk> \<Longrightarrow>
    and_then (body_loop reserve max_body_len s rb) (into_bytes_mut None) =
      map_ok ((@) (chunk rb)) (map_err IoError (drain s))"
proof (induction "stream_size s" arbitrary: s rb rule: less_induct)
  case less
  obtain n rb1 where cm: "chunk_mut reserve rb = (n, rb1)" by fastforce
  have n: "0 < n" using chunk_mut_positive [OF assms less.prems(1)] less.prems(2) cm by simp
  have rb1: "chunk rb1 = chunk rb" using chunk_chunk_mut [of reserve rb] cm by simp
  show ?case
  proof (cases "stream_read n s")
    case (Err e)
    then show ?thesis using n cm by (simp add: body_loop.simps [of _ _ s] drain_Err)
  next
    case (Ok x)
    then obtain d s' where r: "stream_read n s = Ok (d, s')" by (cases x) auto
    have "length d \<le> fst (chunk_mut reserve rb)" using stream_read_length [OF r] cm by simp
    then obtain rb2 where f: "filled d rb1 = (Ok rb2 :: read_buf parse_result)"
        "chunk rb2 = chunk rb @ d" "rb_wf rb2"
      using filled_fits [OF _ assms less.prems(1)] cm by (metis snd_conv)
    show ?thesis
    proof (cases "d = []")
      case True
      then show ?thesis
        using n cm r rb1 drain_read [OF r n]
        by (simp add: body_loop.simps [of _ _ s] into_bytes_mut_def chunk_def)
    next
      case False
      have "and_then (body_loop reserve max_body_len s' rb2) (into_bytes_mut None) =
          map_ok ((@) (chunk rb2)) (map_err IoError (drain s'))"
        by (rule less.hyps) (use stream_read_size [OF r False] f less.prems(2) stream_read_bytes [OF r] in auto)
      then show ?thesis
        using n cm r f(1,2) False drain_read [OF r n]
        by (cases "drain s'") (simp_all add: body_loop.simps [of _ _ s])
    qed
  qed simp
qed

lemma body_into_bytes_drain:
  assumes "bufmut_contract reserve" "length (br_cached br @ stream_bytes (br_stream br)) < usize_max"
  shows "body_into_bytes reserve br max_body_len = map_err IoError (drain (into_read br))"
proof -
  have "map_ok ((@) (chunk (with_capacity max_body_len))) (map_err IoError (drain (into_read br))) =
      map_err IoError (drain (into_read br))"
    by (cases "drain (into_read br)") auto
  then show ?thesis
    using body_loop_drain [OF assms(1) rb_wf_with_capacity, of max_body_len "into_read br" max_body_len] assms(2)
    by (simp add: body_into_bytes_def into_read_def split: if_splits)
qed

section \<open>Properties\<close>

text \<open>
  C27: collecting a body. \<open>into_bytes\<close> returns exactly the cached bytes followed by the bytes of
  the stream, or the first failure of the stream. The value of \<open>max_body_len\<close> plays no part: the
  buffer is only created with that capacity and grows on demand, so a body longer than the limit is
  returned whole and \<open>ParseBufOverflow\<close> is not reported, although the documentation of the method
  promises a limit.
\<close>

theorem body_into_bytes_equals_drain:
  assumes "bufmut_contract reserve" "length (br_cached br @ stream_bytes (br_stream br)) < usize_max"
  shows "body_into_bytes reserve br max_body_len =
     (if br_cached br = [] then map_err IoError (drain (br_stream br))
      else map_ok ((@) (br_cached br)) (map_err IoError (drain (br_stream br))))"
  using body_into_bytes_drain [OF assms]
  by (cases "drain (br_stream br)") (simp_all add: into_read_def)

theorem body_into_bytes_equals_drain_witness:
  "body_into_bytes sample_reserve \<lparr>br_cached = ''ab'', br_stream = [Data ''cd'', Data ''ef'']\<rparr> 3 = Ok ''abcdef''"
  using body_into_bytes_equals_drain
    [of sample_reserve "\<lparr>br_cached = ''ab'', br_stream = [Data ''cd'', Data ''ef'']\<rparr>" 3]
  by (simp add: usize_max_def)

end
