(* ===== verification/Lockfree_Queue.thy ===== *)
theory Lockfree_Queue
  imports Hala_Prelude
begin

text \<open>
  \<open>Queue\<close> of \<open>crates/lockfree/src/queue.rs\<close>: two counters and a concurrent map from tickets to
  values. First the operations as one thread runs them, against the interface of a bounded FIFO
  queue (locale \<open>fifo\<close>); then the same operations as interleaved atomic steps of any number of
  threads. The counters are 64-bit words and wrap as \<open>fetch_add\<close> does.
\<close>

section \<open>The queue and its operations\<close>

record 'a queue =
  q_head :: usize
  q_tail :: usize
  q_slots :: "usize \<rightharpoonup> 'a"

definition queue_new :: "'a queue" where
  "queue_new = \<lparr>q_head = 0, q_tail = 0, q_slots = Map.empty\<rparr>"

definition queue_len :: "'a queue \<Rightarrow> usize" where
  "queue_len q = q_tail q - q_head q"

definition queue_push :: "'a \<Rightarrow> 'a queue \<Rightarrow> 'a queue" where
  "queue_push v q = (let offset = q_tail q in
     q\<lparr>q_tail := offset + 1, q_slots := (q_slots q)(offset \<mapsto> v)\<rparr>)"

text \<open>\<open>None\<close> stands for a loop that does not return.\<close>

partial_function (option) spin_pop_by_offset :: "usize \<Rightarrow> 'a queue \<Rightarrow> ('a \<times> 'a queue) option" where
  "spin_pop_by_offset index q =
     (case q_slots q index of
        Some v \<Rightarrow> Some (v, q\<lparr>q_slots := (q_slots q)(index := None)\<rparr>)
      | None \<Rightarrow> spin_pop_by_offset index q)"

definition head_compare_exchange :: "usize \<Rightarrow> usize \<Rightarrow> 'a queue \<Rightarrow> bool \<times> 'a queue" where
  "head_compare_exchange current new q =
     (if q_head q = current then (True, q\<lparr>q_head := new\<rparr>) else (False, q))"

partial_function (option) queue_pop :: "'a queue \<Rightarrow> ('a option \<times> 'a queue) option" where
  "queue_pop q =
     (let header = q_head q; tail = q_tail q in
      if header = tail then Some (None, q)
      else let (ok, q1) = head_compare_exchange header (header + 1) q in
        if ok then Option.bind (spin_pop_by_offset header q1) (\<lambda>(v, q2). Some (Some v, q2))
        else queue_pop q1)"

section \<open>The interface of a bounded FIFO queue\<close>

locale fifo =
  fixes new :: "'q"
    and push :: "'a \<Rightarrow> 'q \<Rightarrow> 'q"
    and pop :: "'q \<Rightarrow> ('a option \<times> 'q) option"
    and inv :: "'q \<Rightarrow> bool"
    and items :: "'q \<Rightarrow> 'a list"
    and bound :: nat
  assumes inv_new: "inv new"
    and items_new: "items new = []"
    and inv_push: "\<lbrakk> inv q; length (items q) < bound \<rbrakk> \<Longrightarrow> inv (push v q)"
    and items_push: "\<lbrakk> inv q; length (items q) < bound \<rbrakk> \<Longrightarrow> items (push v q) = items q @ [v]"
    and pop_empty: "\<lbrakk> inv q; items q = [] \<rbrakk> \<Longrightarrow> pop q = Some (None, q)"
    and pop_cons: "\<lbrakk> inv q; items q = v # vs \<rbrakk> \<Longrightarrow> \<exists>q'. pop q = Some (Some v, q') \<and> inv q' \<and> items q' = vs"
begin

text \<open>A pop always returns, keeps the invariant and takes the head of the queue.\<close>

lemma pop_total:
  assumes "inv q"
  shows "\<exists>q'. pop q = Some (case items q of [] \<Rightarrow> None | v # _ \<Rightarrow> Some v, q') \<and> inv q' \<and> items q' = tl (items q)"
  using assms pop_empty pop_cons by (cases "items q") fastforce+

lemma pop_SomeD:
  "\<lbrakk> inv q; pop q = Some (Some v, q') \<rbrakk> \<Longrightarrow> inv q' \<and> items q = v # items q'"
  using pop_total [of q] by (cases "items q") auto

lemma pop_NoneD:
  "\<lbrakk> inv q; pop q = Some (None, q') \<rbrakk> \<Longrightarrow> q' = q \<and> items q = []"
  using pop_total [of q] pop_empty [of q] by (cases "items q") auto

lemma push_all:
  "\<lbrakk> inv q; length (items q) + length vs \<le> bound \<rbrakk> \<Longrightarrow>
   inv (foldl (\<lambda>q v. push v q) q vs) \<and> items (foldl (\<lambda>q v. push v q) q vs) = items q @ vs"
proof (induction vs arbitrary: q)
  case (Cons v vs)
  then show ?case using Cons.IH [of "push v q"] inv_push items_push by simp
qed simp

end

section \<open>The queue refines the interface\<close>

definition q_count :: "'a queue \<Rightarrow> nat" where
  "q_count q = unat (q_tail q - q_head q)"

definition q_items :: "'a queue \<Rightarrow> 'a list" where
  "q_items q = map (\<lambda>i. the (q_slots q (q_head q + of_nat i))) [0..<q_count q]"

definition q_inv :: "'a queue \<Rightarrow> bool" where
  "q_inv q \<longleftrightarrow> dom (q_slots q) = (\<lambda>i. q_head q + of_nat i) ` {0..<q_count q}"

lemma usize_bound: "unat (x :: usize) < 2 ^ 64"
  using unsigned_less [of x, where ?'a = nat] by simp

lemma of_nat_usize_inj:
  "\<lbrakk> i < 2 ^ 64; j < 2 ^ 64 \<rbrakk> \<Longrightarrow> of_nat i = (of_nat j :: usize) \<longleftrightarrow> i = j"
  by (auto simp: of_nat_eq_iff word_of_nat_eq_iff take_bit_eq_mod)

lemma q_count_less: "q_count q < 2 ^ 64"
  unfolding q_count_def by (rule usize_bound)

lemma q_tail_eq: "q_tail q = q_head q + of_nat (q_count q)"
  by (simp add: q_count_def)

lemma q_count_push:
  assumes "q_count q < 2 ^ 64 - 1"
  shows "q_count (queue_push v q) = q_count q + 1"
proof -
  have "q_tail (queue_push v q) - q_head (queue_push v q) = of_nat (q_count q + 1)"
    by (simp add: q_count_def queue_push_def Let_def)
  then have "q_count (queue_push v q) = unat (of_nat (q_count q + 1) :: usize)"
    by (simp only: q_count_def [of "queue_push v q"])
  then show ?thesis using assms by (simp add: unat_of_nat del: of_nat_add of_nat_Suc)
qed

lemma q_items_length [simp]: "length (q_items q) = q_count q"
  by (simp add: q_items_def)

lemma q_slots_tail: "q_inv q \<Longrightarrow> q_slots q (q_tail q) = None"
  using q_count_less [of q]
  by (auto simp: q_inv_def q_tail_eq of_nat_usize_inj domIff dest!: equalityD1)

lemma queue_push_inv:
  assumes "q_inv q" "q_count q < 2 ^ 64 - 1"
  shows "q_inv (queue_push v q)"
proof -
  have "dom (q_slots (queue_push v q)) = insert (q_tail q) (dom (q_slots q))"
    by (simp add: queue_push_def Let_def)
  also have "\<dots> = (\<lambda>i. q_head q + of_nat i) ` {0..<q_count q + 1}"
    using assms(1) by (auto simp: q_inv_def q_tail_eq atLeast0_lessThan_Suc)
  finally show ?thesis
    using q_count_push [OF assms(2)] by (simp add: q_inv_def queue_push_def Let_def)
qed

lemma queue_push_items:
  assumes "q_inv q" "q_count q < 2 ^ 64 - 1"
  shows "q_items (queue_push v q) = q_items q @ [v]"
proof -
  have "q_items (queue_push v q) =
      map (\<lambda>i. the (q_slots (queue_push v q) (q_head q + of_nat i))) [0..<q_count q + 1]"
    by (simp only: q_items_def q_count_push [OF assms(2)]) (simp add: queue_push_def Let_def)
  also have "\<dots> = q_items q @ [v]"
    using q_count_less [of q]
    by (auto simp: q_items_def queue_push_def Let_def q_tail_eq [of q] of_nat_usize_inj)
  finally show ?thesis .
qed

lemma queue_pop_empty: "q_items q = [] \<Longrightarrow> queue_pop q = Some (None, q)"
  by (auto simp: q_items_def q_count_def unat_eq_zero queue_pop.simps Let_def)

lemma queue_pop_cons:
  assumes "q_inv q" "q_items q = v # vs"
  shows "\<exists>q'. queue_pop q = Some (Some v, q') \<and> q_inv q' \<and> q_items q' = vs"
proof -
  let ?n = "q_count q" and ?h = "q_head q"
  let ?q' = "q\<lparr>q_head := ?h + 1, q_slots := (q_slots q)(?h := None)\<rparr>"
  have n: "0 < ?n" using assms(2) q_items_length [of q] by (metis length_greater_0_conv list.simps(3))
  then have up: "[0..<?n] = 0 # [1..<?n]" by (simp add: upt_conv_Cons)
  have v: "the (q_slots q ?h) = v" and vs: "vs = map (\<lambda>i. the (q_slots q (?h + of_nat i))) [1..<?n]"
    using assms(2) by (simp_all add: q_items_def up)
  have "?h \<in> dom (q_slots q)" using assms(1) n by (force simp: q_inv_def)
  with v have hit: "q_slots q ?h = Some v" by auto
  have ne: "?h \<noteq> q_tail q" using n by (auto simp: q_count_def)
  have pop: "queue_pop q = Some (Some v, ?q')"
    using hit ne
    by (simp add: queue_pop.simps [of q] head_compare_exchange_def spin_pop_by_offset.simps Let_def)
  have cnt: "q_count ?q' = ?n - 1"
    using n unat_sub [of 1 "q_tail q - q_head q"]
    by (simp add: q_count_def word_le_nat_alt diff_diff_eq)
  have sh: "?h + 1 + of_nat i = ?h + of_nat (Suc i)" for i by simp
  have ne0: "?h + of_nat (Suc i) \<noteq> ?h" if "Suc i < 2 ^ 64" for i
    using of_nat_usize_inj [of "Suc i" 0] that by (auto simp del: of_nat_Suc)
  have "q_items ?q' = map (\<lambda>i. the (q_slots q (?h + of_nat (Suc i)))) [0..<?n - 1]"
    unfolding q_items_def cnt using q_count_less [of q] ne0
    by (auto simp: sh simp del: of_nat_Suc)
  also have "\<dots> = vs"
    unfolding vs by (rule nth_equalityI) simp_all
  finally have items: "q_items ?q' = vs" .
  have "dom (q_slots ?q') = (\<lambda>i. ?h + of_nat i) ` {0..<?n} - {?h}"
    using assms(1) by (simp add: q_inv_def)
  also have "{0..<?n} = insert 0 (Suc ` {0..<?n - 1})" using n by (auto simp: image_iff)
  also have "(\<lambda>i. ?h + of_nat i) ` insert 0 (Suc ` {0..<?n - 1}) =
      insert ?h ((\<lambda>i. ?h + of_nat (Suc i)) ` {0..<?n - 1})"
    by (simp only: image_insert image_image) simp
  also have "\<dots> - {?h} = (\<lambda>i. ?h + of_nat (Suc i)) ` {0..<?n - 1}"
    using q_count_less [of q] ne0 by (auto simp del: of_nat_Suc)
  also have "\<dots> = (\<lambda>i. q_head ?q' + of_nat i) ` {0..<q_count ?q'}"
    by (simp add: cnt add.assoc)
  finally have "q_inv ?q'" by (simp only: q_inv_def)
  with pop items show ?thesis by blast
qed

interpretation lq: fifo queue_new queue_push queue_pop q_inv q_items "2 ^ 64 - 1"
proof unfold_locales
  show "q_inv queue_new" "q_items queue_new = []"
    by (simp_all add: q_inv_def q_items_def queue_new_def q_count_def)
qed (auto intro: queue_push_inv queue_push_items queue_pop_empty queue_pop_cons)

section \<open>Concurrent executions\<close>

text \<open>
  Any number of threads run \<open>push\<close> and \<open>pop\<close> on one queue. A thread's program counter names the
  next atomic access and the locals it needs; every access of a counter or of the map is one
  step (sequentially consistent interleaving). Two history variables record the values in the order
  of their tickets and the values handed out with their tickets.
\<close>

datatype 'a thread_pc =
    Idle
  | PushInsert usize 'a
  | PopLoadTail usize
  | PopCas usize
  | SpinPop usize

record 'a cqueue =
  cq :: "'a queue"
  cq_pc :: "nat \<Rightarrow> 'a thread_pc"
  cq_pushed :: "'a list"
  cq_popped :: "(usize \<times> 'a) list"

definition cq_init :: "'a cqueue" where
  "cq_init = \<lparr>cq = queue_new, cq_pc = (\<lambda>_. Idle), cq_pushed = [], cq_popped = []\<rparr>"

inductive cq_step :: "'a cqueue \<Rightarrow> 'a cqueue \<Rightarrow> bool" where
  push_fetch_add: "cq_pc s t = Idle \<Longrightarrow>
    cq_step s (s\<lparr>cq := (cq s)\<lparr>q_tail := q_tail (cq s) + 1\<rparr>,
                 cq_pc := (cq_pc s)(t := PushInsert (q_tail (cq s)) v), cq_pushed := cq_pushed s @ [v]\<rparr>)"
| push_insert: "cq_pc s t = PushInsert offset v \<Longrightarrow>
    cq_step s (s\<lparr>cq := (cq s)\<lparr>q_slots := (q_slots (cq s))(offset \<mapsto> v)\<rparr>, cq_pc := (cq_pc s)(t := Idle)\<rparr>)"
| pop_load_head: "cq_pc s t = Idle \<Longrightarrow>
    cq_step s (s\<lparr>cq_pc := (cq_pc s)(t := PopLoadTail (q_head (cq s)))\<rparr>)"
| pop_empty: "\<lbrakk> cq_pc s t = PopLoadTail header; header = q_tail (cq s) \<rbrakk> \<Longrightarrow>
    cq_step s (s\<lparr>cq_pc := (cq_pc s)(t := Idle)\<rparr>)"
| pop_load_tail: "\<lbrakk> cq_pc s t = PopLoadTail header; header \<noteq> q_tail (cq s) \<rbrakk> \<Longrightarrow>
    cq_step s (s\<lparr>cq_pc := (cq_pc s)(t := PopCas header)\<rparr>)"
| pop_cas_ok: "\<lbrakk> cq_pc s t = PopCas header; head_compare_exchange header (header + 1) (cq s) = (True, q') \<rbrakk> \<Longrightarrow>
    cq_step s (s\<lparr>cq := q', cq_pc := (cq_pc s)(t := SpinPop header)\<rparr>)"
| pop_cas_fail: "\<lbrakk> cq_pc s t = PopCas header; head_compare_exchange header (header + 1) (cq s) = (False, q') \<rbrakk> \<Longrightarrow>
    cq_step s (s\<lparr>cq_pc := (cq_pc s)(t := PopLoadTail (q_head (cq s)))\<rparr>)"
| spin_hit: "\<lbrakk> cq_pc s t = SpinPop index; q_slots (cq s) index = Some v \<rbrakk> \<Longrightarrow>
    cq_step s (s\<lparr>cq := (cq s)\<lparr>q_slots := (q_slots (cq s))(index := None)\<rparr>,
                 cq_pc := (cq_pc s)(t := Idle), cq_popped := cq_popped s @ [(index, v)]\<rparr>)"
| spin_miss: "\<lbrakk> cq_pc s t = SpinPop index; q_slots (cq s) index = None \<rbrakk> \<Longrightarrow> cq_step s s"

inductive cq_reachable :: "'a cqueue \<Rightarrow> bool" where
  init: "cq_reachable cq_init"
| step: "\<lbrakk> cq_reachable s; cq_step s s' \<rbrakk> \<Longrightarrow> cq_reachable s'"

text \<open>
  The invariant, stated on tickets as machine words. It holds as long as fewer than \<open>2 ^ 64\<close>
  values have been pushed; a ticket is then the index of its value in the push history.
\<close>

definition inv_counters :: "'a cqueue \<Rightarrow> bool" where
  "inv_counters s \<longleftrightarrow> unat (q_tail (cq s)) = length (cq_pushed s) \<and> q_head (cq s) \<le> q_tail (cq s)"

definition inv_push :: "'a cqueue \<Rightarrow> bool" where
  "inv_push s \<longleftrightarrow>
     (\<forall>t offset v. cq_pc s t = PushInsert offset v \<longrightarrow>
        offset < q_tail (cq s) \<and> v = cq_pushed s ! unat offset \<and> q_slots (cq s) offset = None \<and>
        offset \<notin> fst ` set (cq_popped s)) \<and>
     (\<forall>t t' offset v v'. cq_pc s t = PushInsert offset v \<longrightarrow> cq_pc s t' = PushInsert offset v' \<longrightarrow> t = t')"

definition inv_slots :: "'a cqueue \<Rightarrow> bool" where
  "inv_slots s \<longleftrightarrow>
     (\<forall>offset v. q_slots (cq s) offset = Some v \<longrightarrow>
        offset < q_tail (cq s) \<and> v = cq_pushed s ! unat offset \<and> offset \<notin> fst ` set (cq_popped s)) \<and>
     (\<forall>offset. offset < q_tail (cq s) \<longrightarrow>
        offset \<in> fst ` set (cq_popped s) \<or> q_slots (cq s) offset \<noteq> None \<or>
        (\<exists>t v. cq_pc s t = PushInsert offset v))"

definition inv_pop :: "'a cqueue \<Rightarrow> bool" where
  "inv_pop s \<longleftrightarrow>
     (\<forall>t header. cq_pc s t = PopLoadTail header \<longrightarrow> header \<le> q_head (cq s)) \<and>
     (\<forall>t header. cq_pc s t = PopCas header \<longrightarrow> header \<le> q_head (cq s) \<and> header < q_tail (cq s)) \<and>
     (\<forall>t index. cq_pc s t = SpinPop index \<longrightarrow>
        index < q_head (cq s) \<and> index \<notin> fst ` set (cq_popped s)) \<and>
     (\<forall>t t' index. cq_pc s t = SpinPop index \<longrightarrow> cq_pc s t' = SpinPop index \<longrightarrow> t = t')"

definition inv_popped :: "'a cqueue \<Rightarrow> bool" where
  "inv_popped s \<longleftrightarrow>
     (\<forall>(offset, v) \<in> set (cq_popped s). offset < q_head (cq s) \<and> v = cq_pushed s ! unat offset) \<and>
     distinct (map fst (cq_popped s)) \<and>
     (\<forall>offset. offset < q_head (cq s) \<longrightarrow>
        offset \<in> fst ` set (cq_popped s) \<or> (\<exists>t. cq_pc s t = SpinPop offset))"

definition cq_inv :: "'a cqueue \<Rightarrow> bool" where
  "cq_inv s \<longleftrightarrow> inv_counters s \<and> inv_push s \<and> inv_slots s \<and> inv_pop s \<and> inv_popped s"

lemmas cq_inv_defs = cq_inv_def inv_counters_def inv_push_def inv_slots_def inv_pop_def inv_popped_def

lemma word_le_add_one:
  fixes x y :: usize
  assumes "y < z"
  shows "x < y + 1 \<longleftrightarrow> x \<le> y" "unat (y + 1) = unat y + 1" "y + 1 \<le> z"
  using assms by (unat_arith; auto)+

text \<open>A step of one thread leaves the program counters of the others alone.\<close>

lemma pc_kept:
  "\<lbrakk> pc t = p; p \<noteq> r; \<exists>t'. pc t' = r \<rbrakk> \<Longrightarrow> \<exists>t'. (pc(t := p')) t' = r"
  by (metis fun_upd_apply)

lemma pc_push_kept:
  "\<lbrakk> pc t = p; \<And>v. p \<noteq> PushInsert x v; \<exists>t' v. pc t' = PushInsert x v \<rbrakk>
   \<Longrightarrow> \<exists>t' v. (pc(t := p')) t' = PushInsert x v"
  by (metis fun_upd_apply)

lemma cq_inv_push_fetch_add:
  assumes inv: "cq_inv s" and idle: "cq_pc s t = Idle" and bound: "length (cq_pushed s) + 1 < 2 ^ 64"
  shows "cq_inv (s\<lparr>cq := (cq s)\<lparr>q_tail := q_tail (cq s) + 1\<rparr>,
      cq_pc := (cq_pc s)(t := PushInsert (q_tail (cq s)) v), cq_pushed := cq_pushed s @ [v]\<rparr>)"
    (is "cq_inv ?s")
proof -
  let ?tail = "q_tail (cq s)"
  have len: "unat ?tail = length (cq_pushed s)" and ht: "q_head (cq s) \<le> ?tail"
    using inv by (auto simp: cq_inv_defs)
  have "?tail < - 1" using bound len
    by (simp add: word_less_nat_alt unsigned_minus_1_eq_mask mask_eq_exp_minus_1)
  note w = word_le_add_one [OF this]
  have lt: "x < ?tail + 1" "unat x < length (cq_pushed s)" if "x < ?tail" for x
    using that len by (auto simp: w word_less_nat_alt)
  note i = inv [unfolded cq_inv_def]
  have f1: "q_slots (cq s) ?tail = None"
    using i by (cases "q_slots (cq s) ?tail") (auto simp: inv_slots_def)
  have f2: "?tail \<notin> fst ` set (cq_popped s)" using i ht by (fastforce simp: inv_popped_def)
  have f3: "cq_pc s t' \<noteq> PushInsert ?tail v'" for t' v' using i by (force simp: inv_push_def)
  have "inv_counters ?s"
    using len w(1) [of "q_head (cq s)"] ht by (simp add: inv_counters_def w(2) less_imp_le)
  moreover have "inv_push ?s"
    using i f1 f2 f3 lt w(1) by (auto simp: inv_push_def nth_append len)
  moreover have "inv_slots ?s"
    unfolding inv_slots_def
  proof (intro conjI allI impI)
    fix x assume "x < q_tail (cq ?s)"
    then have "x = ?tail \<or> x < ?tail" using w(1) [of x] by (simp add: order_le_less disj_commute)
    then show "x \<in> fst ` set (cq_popped ?s) \<or> q_slots (cq ?s) x \<noteq> None \<or> (\<exists>t w. cq_pc ?s t = PushInsert x w)"
    proof
      assume "x = ?tail"
      then show ?thesis by auto
    next
      assume "x < ?tail"
      then show ?thesis
        using i pc_push_kept [of "cq_pc s" t, OF idle] unfolding inv_slots_def
        by (simp del: fun_upd_apply) blast
    qed
  qed (use i lt in \<open>auto simp: inv_slots_def nth_append\<close>)
  moreover have "inv_pop ?s" using i lt by (auto simp: inv_pop_def)
  moreover have "inv_popped ?s"
    unfolding inv_popped_def
  proof (intro conjI allI impI)
    fix x assume "x < q_head (cq ?s)"
    then show "x \<in> fst ` set (cq_popped ?s) \<or> (\<exists>t. cq_pc ?s t = SpinPop x)"
      using i pc_kept [of "cq_pc s" t, OF idle] unfolding inv_popped_def
      by (simp del: fun_upd_apply) blast
  qed (use i lt(2) order_less_le_trans [OF _ ht] in \<open>auto simp: inv_popped_def nth_append\<close>)
  ultimately show ?thesis by (simp add: cq_inv_def)
qed

lemma cq_inv_push_insert:
  assumes inv: "cq_inv s" and pc: "cq_pc s t = PushInsert offset v"
  shows "cq_inv (s\<lparr>cq := (cq s)\<lparr>q_slots := (q_slots (cq s))(offset \<mapsto> v)\<rparr>, cq_pc := (cq_pc s)(t := Idle)\<rparr>)"
    (is "cq_inv ?s")
proof -
  note i = inv [unfolded cq_inv_def]
  have "inv_counters ?s" "inv_pop ?s" using inv by (auto simp: cq_inv_defs)
  moreover have "inv_push ?s" using i pc unfolding inv_push_def by simp blast
  moreover have "inv_slots ?s"
    unfolding inv_slots_def
  proof (intro conjI allI impI)
    fix x assume "x < q_tail (cq ?s)"
    then show "x \<in> fst ` set (cq_popped ?s) \<or> q_slots (cq ?s) x \<noteq> None \<or> (\<exists>t w. cq_pc ?s t = PushInsert x w)"
      using i pc by (cases "x = offset") (auto simp: inv_slots_def, metis thread_pc.inject(1))
  qed (use i pc in \<open>auto simp: inv_slots_def inv_push_def split: if_splits\<close>)
  moreover have "inv_popped ?s"
    using i pc_kept [of "cq_pc s" t, OF pc] unfolding inv_popped_def
    by (simp del: fun_upd_apply) blast
  ultimately show ?thesis by (simp add: cq_inv_def)
qed

lemma cq_inv_pop_step:
  assumes inv: "cq_inv s" and pc: "cq_pc s t = pc0"
    and "\<And>x v. pc0 \<noteq> PushInsert x v" "\<And>x. pc0 \<noteq> SpinPop x"
    and "pc1 = Idle \<or> pc1 = PopLoadTail (q_head (cq s)) \<or> (\<exists>h. pc0 = PopLoadTail h \<and> h \<noteq> q_tail (cq s) \<and> pc1 = PopCas h)"
  shows "cq_inv (s\<lparr>cq_pc := (cq_pc s)(t := pc1)\<rparr>)"
    (is "cq_inv ?s")
proof -
  have other: "pc1 \<noteq> PushInsert x v" "pc1 \<noteq> SpinPop x" for x v using assms(5) by auto
  note i = inv [unfolded cq_inv_def]
  have cas: "h < q_tail (cq s)" if "cq_pc s t = PopLoadTail h" "h \<noteq> q_tail (cq s)" for h
    using i that unfolding inv_pop_def inv_counters_def by (meson order_le_less order_trans)
  have "inv_counters ?s" using i by (auto simp: inv_counters_def)
  moreover have "inv_push ?s" using i other unfolding inv_push_def by auto
  moreover have "inv_slots ?s"
    using i pc_push_kept [of "cq_pc s" t, OF pc] assms(3) unfolding inv_slots_def by (simp del: fun_upd_apply) blast
  moreover have "inv_pop ?s"
    using i assms(5) other pc cas unfolding inv_pop_def by auto
  moreover have "inv_popped ?s"
    using i pc_kept [of "cq_pc s" t, OF pc] assms(4) unfolding inv_popped_def
    by (simp del: fun_upd_apply) blast
  ultimately show ?thesis by (simp add: cq_inv_def)
qed

lemma cq_inv_cas_ok:
  assumes inv: "cq_inv s" and pc: "cq_pc s t = PopCas (q_head (cq s))"
  shows "cq_inv (s\<lparr>cq := (cq s)\<lparr>q_head := q_head (cq s) + 1\<rparr>,
                   cq_pc := (cq_pc s)(t := SpinPop (q_head (cq s)))\<rparr>)"
    (is "cq_inv ?s")
proof -
  let ?h = "q_head (cq s)"
  note i = inv [unfolded cq_inv_def]
  have "?h < q_tail (cq s)" using i pc by (simp add: inv_pop_def)
  note w = word_le_add_one [OF this]
  have lt: "x < ?h + 1" if "x < ?h" for x using w(1) [of x] that by simp
  have le: "x \<le> ?h + 1" if "x \<le> ?h" for x using w(1) [of x] that by simp
  have pop: "cq_pc s t' = SpinPop x \<Longrightarrow> x \<noteq> ?h" "?h \<notin> fst ` set (cq_popped s)" for t' x
    using i by (auto simp: inv_pop_def inv_popped_def)
  have "inv_counters ?s" using i w(3) by (simp add: inv_counters_def)
  moreover have "inv_push ?s" using i by (auto simp: inv_push_def)
  moreover have "inv_slots ?s"
    using i pc_push_kept [of "cq_pc s" t, OF pc] unfolding inv_slots_def
    by (simp del: fun_upd_apply) blast
  moreover have "inv_pop ?s"
    using i pop lt le w(1) [of ?h] unfolding inv_pop_def by auto
  moreover have "inv_popped ?s"
    unfolding inv_popped_def
  proof (intro conjI allI impI)
    fix x assume "x < q_head (cq ?s)"
    then have "x = ?h \<or> x < ?h" using w(1) [of x] by (simp add: order_le_less disj_commute)
    then show "x \<in> fst ` set (cq_popped ?s) \<or> (\<exists>t. cq_pc ?s t = SpinPop x)"
    proof
      assume "x = ?h"
      then show ?thesis by auto
    next
      assume "x < ?h"
      then show ?thesis
        using i pc_kept [of "cq_pc s" t, OF pc] unfolding inv_popped_def
        by (simp del: fun_upd_apply) blast
    qed
  qed (use i lt in \<open>auto simp: inv_popped_def\<close>)
  ultimately show ?thesis by (simp add: cq_inv_def)
qed

lemma cq_inv_spin_hit:
  assumes inv: "cq_inv s" and pc: "cq_pc s t = SpinPop index" and hit: "q_slots (cq s) index = Some v"
  shows "cq_inv (s\<lparr>cq := (cq s)\<lparr>q_slots := (q_slots (cq s))(index := None)\<rparr>,
                   cq_pc := (cq_pc s)(t := Idle), cq_popped := cq_popped s @ [(index, v)]\<rparr>)"
    (is "cq_inv ?s")
proof -
  note i = inv [unfolded cq_inv_def]
  have idx: "index < q_head (cq s)" "index \<notin> fst ` set (cq_popped s)" "v = cq_pushed s ! unat index"
    using i pc hit by (auto simp: inv_pop_def inv_slots_def)
  have one: "t' = t" if "cq_pc s t' = SpinPop index" for t' using i pc that unfolding inv_pop_def by blast
  have noins: "cq_pc s t' \<noteq> PushInsert index v'" for t' v' using i hit by (force simp: inv_push_def)
  have "inv_counters ?s" using i by (simp add: inv_counters_def)
  moreover have "inv_push ?s" using i noins unfolding inv_push_def by auto
  moreover have "inv_slots ?s"
    unfolding inv_slots_def
  proof (intro conjI allI impI)
    fix x assume "x < q_tail (cq ?s)"
    then have "x \<in> fst ` set (cq_popped s) \<or> q_slots (cq s) x \<noteq> None \<or> (\<exists>t w. cq_pc s t = PushInsert x w)"
      using i by (simp add: inv_slots_def)
    then show "x \<in> fst ` set (cq_popped ?s) \<or> q_slots (cq ?s) x \<noteq> None \<or> (\<exists>t w. cq_pc ?s t = PushInsert x w)"
    proof (elim disjE)
      assume "\<exists>t w. cq_pc s t = PushInsert x w"
      then show ?thesis using pc_push_kept [of "cq_pc s" t, OF pc] by (simp del: fun_upd_apply)
    qed (cases "x = index"; simp)+
  qed (use i in \<open>auto simp: inv_slots_def split: if_splits\<close>)
  moreover have "inv_pop ?s" using i one unfolding inv_pop_def by auto
  moreover have "inv_popped ?s"
    unfolding inv_popped_def
  proof (intro conjI allI impI)
    fix x assume "x < q_head (cq ?s)"
    then have "x \<in> fst ` set (cq_popped s) \<or> (\<exists>t. cq_pc s t = SpinPop x)"
      using i by (simp add: inv_popped_def)
    then show "x \<in> fst ` set (cq_popped ?s) \<or> (\<exists>t. cq_pc ?s t = SpinPop x)"
      using pc_kept [of "cq_pc s" t "SpinPop index" "SpinPop x" Idle] pc
      by (cases "x = index") (auto simp del: fun_upd_apply)
  qed (use i idx in \<open>auto simp: inv_popped_def\<close>)
  ultimately show ?thesis by (simp add: cq_inv_def)
qed

lemma cq_step_inv:
  assumes "cq_step s s'" "cq_inv s" "length (cq_pushed s') < 2 ^ 64"
  shows "cq_inv s'"
  using assms(1)
proof (cases rule: cq_step.cases)
  case (push_fetch_add t v)
  then have "length (cq_pushed s) + 1 < 2 ^ 64" using assms(3) by simp
  then show ?thesis
    unfolding push_fetch_add(1) by (rule cq_inv_push_fetch_add [OF assms(2) push_fetch_add(2)])
next
  case (push_insert t offset v)
  show ?thesis unfolding push_insert(1) by (rule cq_inv_push_insert [OF assms(2) push_insert(2)])
next
  case (pop_load_head t)
  then show ?thesis
    using cq_inv_pop_step [OF assms(2), of t Idle "PopLoadTail (q_head (cq s))"] by simp
next
  case (pop_empty t header)
  then show ?thesis
    using cq_inv_pop_step [OF assms(2), of t "PopLoadTail header" Idle] by simp
next
  case (pop_load_tail t header)
  then show ?thesis
    using cq_inv_pop_step [OF assms(2), of t "PopLoadTail header" "PopCas header"] by simp
next
  case (pop_cas_ok t header q')
  then show ?thesis
    using assms(2) cq_inv_cas_ok [of s t] by (auto simp: head_compare_exchange_def split: if_splits)
next
  case (pop_cas_fail t header q')
  then show ?thesis
    using cq_inv_pop_step [OF assms(2), of t "PopCas header" "PopLoadTail (q_head (cq s))"] by simp
next
  case (spin_hit t index v)
  show ?thesis unfolding spin_hit(1) by (rule cq_inv_spin_hit [OF assms(2) spin_hit(2,3)])
qed (simp add: assms(2))

lemma cq_step_pushed: "cq_step s s' \<Longrightarrow> length (cq_pushed s) \<le> length (cq_pushed s')"
  by (induction rule: cq_step.induct) auto

lemma cq_reachable_inv: "cq_reachable s \<Longrightarrow> length (cq_pushed s) < 2 ^ 64 \<Longrightarrow> cq_inv s"
proof (induction rule: cq_reachable.induct)
  case init
  show ?case by (simp add: cq_inv_defs cq_init_def queue_new_def)
next
  case (step s s')
  then show ?case using cq_step_inv [OF step.hyps(2)] cq_step_pushed [OF step.hyps(2)] by simp
qed

lemma cq_quiescent_slots:
  assumes "cq_inv s" "\<forall>t. cq_pc s t = Idle"
  shows "q_slots (cq s) x =
     (if q_head (cq s) \<le> x \<and> x < q_tail (cq s) then Some (cq_pushed s ! unat x) else None)"
proof -
  note i = assms(1) [unfolded cq_inv_def]
  have popped: "x \<in> fst ` set (cq_popped s) \<longleftrightarrow> x < q_head (cq s)"
    using i assms(2) by (auto simp: inv_popped_def)
  show ?thesis
  proof (cases "q_slots (cq s) x")
    case None
    then show ?thesis using i assms(2) popped by (auto simp: inv_slots_def)
  next
    case (Some v)
    then show ?thesis using i assms(2) popped by (auto simp: inv_slots_def)
  qed
qed

lemma cq_quiescent_queue:
  assumes "cq_inv s" "\<forall>t. cq_pc s t = Idle"
  shows "q_inv (cq s)" "q_items (cq s) = drop (unat (q_head (cq s))) (cq_pushed s)"
proof -
  let ?h = "q_head (cq s)" and ?t = "q_tail (cq s)"
  have len: "unat ?t = length (cq_pushed s)" "?h \<le> ?t"
    using assms(1) by (auto simp: cq_inv_def inv_counters_def)
  then have n: "q_count (cq s) = length (cq_pushed s) - unat ?h" and le: "unat ?h \<le> unat ?t"
    by (auto simp: q_count_def unat_sub word_le_nat_alt)
  have un: "unat (?h + of_nat i) = unat ?h + i" if "i < q_count (cq s)" for i
    using that usize_bound [of ?t] n len(1) by (simp add: unat_word_ariths unat_of_nat)
  have in_range: "?h \<le> ?h + of_nat i \<and> ?h + of_nat i < ?t" if "i < q_count (cq s)" for i
    using un [OF that] that n len(1) by (simp add: word_le_nat_alt word_less_nat_alt)
  have index_of: "x = ?h + of_nat (unat (x - ?h)) \<and> unat (x - ?h) < q_count (cq s)" if "?h \<le> x" "x < ?t" for x
    using that by (simp add: q_count_def unat_sub word_le_nat_alt word_less_nat_alt)
  have "dom (q_slots (cq s)) = {x. ?h \<le> x \<and> x < ?t}"
    using cq_quiescent_slots [OF assms] by (auto simp: domIff split: if_splits)
  also have "\<dots> = (\<lambda>i. ?h + of_nat i) ` {0..<q_count (cq s)}"
  proof (intro equalityI subsetI)
    fix x assume "x \<in> {x. ?h \<le> x \<and> x < ?t}"
    then show "x \<in> (\<lambda>i. ?h + of_nat i) ` {0..<q_count (cq s)}"
      using index_of [of x] by (intro image_eqI [of _ _ "unat (x - ?h)"]) simp_all
  qed (use in_range in auto)
  finally show "q_inv (cq s)" by (simp only: q_inv_def)
  show "q_items (cq s) = drop (unat ?h) (cq_pushed s)"
    by (rule nth_equalityI)
       (use n in \<open>auto simp: q_items_def cq_quiescent_slots [OF assms] in_range un\<close>)
qed

text \<open>A concrete run: one thread has drawn a ticket for 7, another has claimed it and waits.\<close>

definition sample_cq :: "nat cqueue" where
  "sample_cq = \<lparr>cq = \<lparr>q_head = 1, q_tail = 1, q_slots = Map.empty\<rparr>,
     cq_pc = (\<lambda>_. Idle)(0 := PushInsert 0 7, 1 := SpinPop 0), cq_pushed = [7], cq_popped = []\<rparr>"

lemma sample_cq_reachable: "cq_reachable sample_cq"
proof -
  let ?q = "\<lparr>q_head = 0, q_tail = 1, q_slots = Map.empty\<rparr> :: nat queue"
  let ?s = "\<lambda>pc. \<lparr>cq = ?q, cq_pc = (\<lambda>_. Idle)(0 := PushInsert 0 7, 1 := pc), cq_pushed = [7], cq_popped = []\<rparr>"
  have "cq_reachable (?s Idle)"
    using cq_reachable.step [OF cq_reachable.init cq_step.push_fetch_add [of _ 0 "7 :: nat"]]
    by (simp add: cq_init_def queue_new_def fun_upd_twist fun_upd_idem)
  then have "cq_reachable (?s (PopLoadTail 0))"
    using cq_reachable.step [OF _ cq_step.pop_load_head [of "?s Idle" 1]] by simp
  then have "cq_reachable (?s (PopCas 0))"
    using cq_reachable.step [OF _ cq_step.pop_load_tail [of "?s (PopLoadTail 0)" 1 0]] by simp
  then show ?thesis
    using cq_reachable.step [OF _ cq_step.pop_cas_ok [of "?s (PopCas 0)" 1 0 "\<lparr>q_head = 1, q_tail = 1, q_slots = Map.empty\<rparr>"]]
    by (simp add: head_compare_exchange_def sample_cq_def)
qed

section \<open>Properties\<close>

text \<open>
  Sequential refinement. On one thread the ring of tickets behaves as a FIFO queue across every
  wrap-around of the two counters: after pushing \<open>vs\<close> a pop returns the oldest value and leaves
  the others in order, and a pop on an empty queue returns \<open>None\<close>; the loops of \<open>pop\<close> return.
\<close>

theorem queue_fifo:
  assumes "q_inv q" "length (q_items q) + length vs \<le> 2 ^ 64 - 1"
  shows "\<exists>q'. queue_pop (foldl (\<lambda>q v. queue_push v q) q vs) =
       Some (case q_items q @ vs of [] \<Rightarrow> None | v # _ \<Rightarrow> Some v, q') \<and>
     q_inv q' \<and> q_items q' = tl (q_items q @ vs)"
  using lq.pop_total lq.push_all [OF assms] by metis

theorem queue_fifo_witness:
  "\<exists>q'. queue_pop (foldl (\<lambda>q v. queue_push v q)
        \<lparr>q_head = - 1, q_tail = - 1, q_slots = Map.empty\<rparr> [10 :: nat, 20, 30]) = Some (Some 10, q') \<and>
     q_inv q' \<and> q_items q' = [20, 30]"
  using queue_fifo [of "\<lparr>q_head = - 1, q_tail = - 1, q_slots = Map.empty\<rparr>" "[10 :: nat, 20, 30]"]
  by (simp add: q_inv_def q_items_def q_count_def del: foldl_Cons)

text \<open>
  C3: concurrent safety. In every interleaving of pushes and pops by any number of threads, while
  fewer than \<open>2 ^ 64\<close> values have been pushed: a pop returns the value that was pushed with its
  ticket, no ticket is handed out twice, only tickets below \<open>head\<close> are handed out, and every pushed
  value is handed out already, or in the map, or about to be inserted by its pusher.
\<close>

theorem queue_concurrent_safe:
  assumes "cq_reachable s" "length (cq_pushed s) < 2 ^ 64"
  shows "(\<forall>(offset, v) \<in> set (cq_popped s).
            offset < q_head (cq s) \<and> unat offset < length (cq_pushed s) \<and> v = cq_pushed s ! unat offset) \<and>
     distinct (map fst (cq_popped s)) \<and>
     (\<forall>offset. unat offset < length (cq_pushed s) \<longrightarrow>
        offset \<in> fst ` set (cq_popped s) \<or>
        q_slots (cq s) offset = Some (cq_pushed s ! unat offset) \<or>
        (\<exists>t. cq_pc s t = PushInsert offset (cq_pushed s ! unat offset)))"
proof -
  note i = cq_reachable_inv [OF assms, unfolded cq_inv_def]
  then have tail: "unat (q_tail (cq s)) = length (cq_pushed s)" "q_head (cq s) \<le> q_tail (cq s)"
    by (auto simp: inv_counters_def)
  have lt: "x < q_tail (cq s) \<longleftrightarrow> unat x < length (cq_pushed s)" for x
    by (simp add: word_less_nat_alt tail)
  have "(\<forall>(offset, v) \<in> set (cq_popped s).
      offset < q_head (cq s) \<and> unat offset < length (cq_pushed s) \<and> v = cq_pushed s ! unat offset)"
    using i order_less_le_trans [OF _ tail(2)] lt by (auto simp: inv_popped_def)
  moreover have "distinct (map fst (cq_popped s))" using i by (simp add: inv_popped_def)
  moreover have "offset \<in> fst ` set (cq_popped s) \<or> q_slots (cq s) offset = Some (cq_pushed s ! unat offset) \<or>
      (\<exists>t. cq_pc s t = PushInsert offset (cq_pushed s ! unat offset))" if "unat offset < length (cq_pushed s)" for offset
    using i that lt [of offset] unfolding inv_slots_def inv_push_def by (metis not_Some_eq)
  ultimately show ?thesis by blast
qed

theorem queue_concurrent_safe_witness:
  "\<exists>t. cq_pc sample_cq t = PushInsert 0 7"
  using queue_concurrent_safe [OF sample_cq_reachable]
  by (auto simp: sample_cq_def dest: spec [of _ 0])

text \<open>
  The spin ends. A thread that waits for its slot in \<open>spin_pop_by_offset\<close> finds the value there,
  or the thread that drew the same ticket in \<open>push\<close> has the insertion as its next step, after which
  the value is there.
\<close>

theorem queue_spin_served:
  assumes "cq_reachable s" "length (cq_pushed s) < 2 ^ 64" "cq_pc s t = SpinPop index"
  shows "q_slots (cq s) index = Some (cq_pushed s ! unat index) \<or>
     (\<exists>t' s'. cq_pc s t' = PushInsert index (cq_pushed s ! unat index) \<and>
        cq_step s s' \<and> cq_pc s' t = SpinPop index \<and> q_slots (cq s') index = Some (cq_pushed s ! unat index))"
proof -
  note i = cq_reachable_inv [OF assms(1,2), unfolded cq_inv_def]
  have "index < q_tail (cq s)" "index \<notin> fst ` set (cq_popped s)"
    using i assms(3) unfolding inv_pop_def inv_counters_def by (blast intro: order_less_le_trans)+
  then have "q_slots (cq s) index = Some (cq_pushed s ! unat index) \<or>
      (\<exists>t'. cq_pc s t' = PushInsert index (cq_pushed s ! unat index))"
    using i unfolding inv_slots_def inv_push_def by (metis not_Some_eq)
  moreover have ?thesis if pc: "cq_pc s t' = PushInsert index (cq_pushed s ! unat index)" for t'
    using cq_step.push_insert [OF pc] pc assms(3) by fastforce
  ultimately show ?thesis by blast
qed

theorem queue_spin_served_witness:
  "\<exists>s'. cq_step sample_cq s' \<and> q_slots (cq s') 0 = Some 7"
  using queue_spin_served [OF sample_cq_reachable, of 1 0] by (auto simp: sample_cq_def)

text \<open>
  C4: quiescence. When no operation is under way, the shared queue is a well-formed sequential queue
  that holds exactly the values pushed and not yet popped, in push order.
\<close>

theorem queue_quiescent:
  assumes "cq_reachable s" "length (cq_pushed s) < 2 ^ 64" "\<forall>t. cq_pc s t = Idle"
  shows "q_inv (cq s) \<and> q_items (cq s) = drop (unat (q_head (cq s))) (cq_pushed s)"
  using cq_quiescent_queue [OF cq_reachable_inv [OF assms(1,2)] assms(3)] by simp

theorem queue_quiescent_witness: 
  "q_inv (cq (cq_init :: nat cqueue)) \<and> q_items (cq (cq_init :: nat cqueue)) = []"
  using queue_quiescent [OF cq_reachable.init] by (simp add: cq_init_def)

end
