(* ===== verification/Future_Batcher.thy ===== *)
theory Future_Batcher
  imports Lockfree_Queue
begin

text \<open>
  \<open>FutureBatcher\<close> of \<open>crates/future/src/batching.rs\<close>: futures of one type polled as a batch. It is
  a client of the lock-free queue, through the interface \<open>fifo\<close>. The futures are the caller's: a
  future is a value of type \<open>'f\<close> and the parameter \<open>fut_poll\<close> is its \<open>poll\<close> with the waker of its
  identifier, on a state \<open>'s\<close> that the futures share. It gives the result, the future afterwards, and
  whether it woke its own waker while it ran, or \<open>None\<close> when it panics.
\<close>

section \<open>Wakers\<close>

text \<open>\<open>WakerHost\<close>: at most one system waker, a task; the tasks woken are logged.\<close>

record 'f batcher =
  fb_idgen :: usize
  fb_pending :: "usize \<rightharpoonup> 'f"
  fb_wakeups :: "usize queue"
  fb_raw_waker :: "nat option"
  fb_await_counter :: usize
  fb_closed :: bool
  fb_log :: "nat list"

definition remove_waker :: "'f batcher \<Rightarrow> nat option \<times> 'f batcher" where
  "remove_waker b = (fb_raw_waker b, b\<lparr>fb_raw_waker := None\<rparr>)"

definition raw_wake :: "'f batcher \<Rightarrow> 'f batcher" where
  "raw_wake b =
     (case remove_waker b of
        (Some t, b') \<Rightarrow> b'\<lparr>fb_log := fb_log b' @ [t]\<rparr>
      | (None, b') \<Rightarrow> b')"

definition add_waker :: "nat \<Rightarrow> 'f batcher \<Rightarrow> 'f batcher" where
  "add_waker t b = b\<lparr>fb_raw_waker := Some t\<rparr>"

text \<open>\<open>batch_future_waker_wake\<close> and \<open>batch_future_waker_wake_by_ref\<close>\<close>

definition batcher_wake :: "usize \<Rightarrow> 'f batcher \<Rightarrow> 'f batcher" where
  "batcher_wake future_id b = raw_wake (b\<lparr>fb_wakeups := queue_push future_id (fb_wakeups b)\<rparr>)"

section \<open>The batcher\<close>

type_synonym ('f, 'r, 's) fut_poll = "usize \<Rightarrow> 'f \<Rightarrow> 's \<Rightarrow> ('r poll \<times> 'f \<times> bool) option \<times> 's"

definition batcher_new :: "'f batcher" where
  "batcher_new = \<lparr>fb_idgen = 0, fb_pending = Map.empty, fb_wakeups = queue_new, fb_raw_waker = None,
     fb_await_counter = 0, fb_closed = False, fb_log = []\<rparr>"

definition pending_insert :: "usize \<Rightarrow> 'f \<Rightarrow> 'f batcher \<Rightarrow> 'f batcher" where
  "pending_insert i fut b = b\<lparr>fb_pending := (fb_pending b)(i \<mapsto> fut)\<rparr>"

definition pending_remove :: "usize \<Rightarrow> 'f batcher \<Rightarrow> 'f option \<times> 'f batcher" where
  "pending_remove i b = (fst (map_remove i (fb_pending b)), b\<lparr>fb_pending := snd (map_remove i (fb_pending b))\<rparr>)"

definition batcher_push :: "'f \<Rightarrow> 'f batcher \<Rightarrow> usize \<times> 'f batcher" where
  "batcher_push fut b =
     (let i = fb_idgen b;
          b1 = pending_insert i fut (b\<lparr>fb_idgen := i + 1\<rparr>);
          b2 = b1\<lparr>fb_wakeups := queue_push i (fb_wakeups b1)\<rparr>
      in (i, raw_wake b2))"

definition batcher_close :: "'f batcher \<Rightarrow> 'f batcher" where
  "batcher_close b = (if fb_closed b then b else raw_wake (b\<lparr>fb_closed := True\<rparr>))"

text \<open>\<open>fetch_sub\<close> with the assertion on the old value that both exits share.\<close>

definition leave_poll :: "'f batcher \<Rightarrow> 'f batcher io_result" where
  "leave_poll b =
     and_then (assert_true (fb_await_counter b = 1)) (\<lambda>_. Ok (b\<lparr>fb_await_counter := fb_await_counter b - 1\<rparr>))"

text \<open>The \<open>while let Some(future_id) = self.wakeup_futures.pop()\<close> of \<open>Wait::poll\<close>.\<close>

partial_function (option) poll_loop ::
  "('f, 'r, 's) fut_poll \<Rightarrow> 'f batcher \<Rightarrow> 's \<Rightarrow> (('r option poll \<times> 'f batcher) io_result \<times> 's) option" where
  "poll_loop fut_poll b s =
     Option.bind (queue_pop (fb_wakeups b)) (\<lambda>(popped, q).
     let b1 = b\<lparr>fb_wakeups := q\<rparr> in
     case popped of
       None \<Rightarrow>
         Some (and_then (leave_poll b1) (\<lambda>b2.
           if fb_closed b2 then Ok (Ready None, b2) else Ok (Pending, b2)), s)
     | Some future_id \<Rightarrow>
         if fb_closed b1 then Some (Ok (Ready None, b1), s)
         else
           let (fut, b2) = pending_remove future_id b1 in
           case fut of
             None \<Rightarrow> poll_loop fut_poll b2 s
           | Some f \<Rightarrow>
               (case fut_poll future_id f s of
                  (None, s') \<Rightarrow> Some (Panic, s')
                | (Some (res, f', woke), s') \<Rightarrow>
                    let b3 = (if woke then batcher_wake future_id b2 else b2)
                    in case res of
                         Pending \<Rightarrow> poll_loop fut_poll (pending_insert future_id f' b3) s'
                       | Ready r \<Rightarrow>
                           Some (and_then (leave_poll (snd (remove_waker b3))) (\<lambda>b4. Ok (Ready (Some r), b4)), s')))"

definition batcher_poll ::
  "('f, 'r, 's) fut_poll \<Rightarrow> nat \<Rightarrow> 'f batcher \<Rightarrow> 's \<Rightarrow> (('r option poll \<times> 'f batcher) io_result \<times> 's) option" where
  "batcher_poll fut_poll t b s =
     (let old = fb_await_counter b; b1 = b\<lparr>fb_await_counter := old + 1\<rparr> in
      if old \<noteq> 0 then Some (Panic, s)
      else if fb_closed b1 then Some (Ok (Ready None, b1), s)
      else poll_loop fut_poll (add_waker t b1) s)"

section \<open>The reference: poll the woken futures in order\<close>

text \<open>
  The futures \<open>ids\<close> were woken, in that order. Poll each that is still pending until one is ready:
  its result, the identifiers not looked at, and the pending futures afterwards.
\<close>

fun poll_ids ::
  "('f, 'r, 's) fut_poll \<Rightarrow> usize list \<Rightarrow> (usize \<rightharpoonup> 'f) \<Rightarrow> 's \<Rightarrow> ('r option \<times> usize list \<times> (usize \<rightharpoonup> 'f)) option \<times> 's" where
  "poll_ids fut_poll [] p s = (Some (None, [], p), s)"
| "poll_ids fut_poll (i # is) p s =
     (case p i of
        None \<Rightarrow> poll_ids fut_poll is p s
      | Some f \<Rightarrow>
          (case fut_poll i f s of
             (None, s') \<Rightarrow> (None, s')
           | (Some (Pending, f', _), s') \<Rightarrow> poll_ids fut_poll is (p(i \<mapsto> f')) s'
           | (Some (Ready r, _, _), s') \<Rightarrow> (Some (Some r, is, p(i := None)), s')))"

text \<open>A future that does not wake itself while it is polled, which would queue it again at once.\<close>

definition quiet :: "('f, 'r, 's) fut_poll \<Rightarrow> bool" where
  "quiet fut_poll \<longleftrightarrow> (\<forall>i f s r f' woke s'. fut_poll i f s = (Some (r, f', woke), s') \<longrightarrow> \<not> woke)"

lemma leave_poll_Ok: "fb_await_counter b = 1 \<Longrightarrow> leave_poll b = Ok (b\<lparr>fb_await_counter := 0\<rparr>)"
  by (simp add: leave_poll_def assert_true_def)

text \<open>The answer of a poll and the batcher it leaves, from the result of the reference.\<close>

definition settle :: "'r option \<Rightarrow> usize queue \<Rightarrow> (usize \<rightharpoonup> 'f) \<Rightarrow> 'f batcher \<Rightarrow> 'r option poll \<times> 'f batcher" where
  "settle r q p b =
     (if r = None then Pending else Ready r,
      b\<lparr>fb_wakeups := q, fb_pending := p, fb_await_counter := 0,
        fb_raw_waker := (if r = None then fb_raw_waker b else None)\<rparr>)"

lemma settle_update [simp]: "settle r q p (b\<lparr>fb_wakeups := q0, fb_pending := p0\<rparr>) = settle r q p b"
  by (simp add: settle_def)

lemma poll_loop_refines:
  assumes "quiet fut_poll"
  shows "\<lbrakk> q_inv (fb_wakeups b); q_items (fb_wakeups b) = ids; fb_await_counter b = 1; \<not> fb_closed b;
     poll_ids fut_poll ids (fb_pending b) s = (Some (r, rest, p'), s') \<rbrakk> \<Longrightarrow>
   \<exists>q'. poll_loop fut_poll b s = Some (Ok (settle r q' p' b), s') \<and> q_inv q' \<and> q_items q' = rest"
proof (induction ids arbitrary: b s)
  case Nil
  have pop: "queue_pop (fb_wakeups b) = Some (None, fb_wakeups b)"
    using lq.pop_empty Nil.prems(1,2) by blast
  have "poll_loop fut_poll b s = Some (Ok (Pending, b\<lparr>fb_await_counter := 0\<rparr>), s)"
    using Nil.prems(3,4) by (simp add: poll_loop.simps [of _ b] pop leave_poll_Ok)
  then show ?case using Nil.prems by (intro exI [of _ "fb_wakeups b"]) (cases b; simp add: settle_def)
next
  case (Cons i "is")
  obtain q where pop: "queue_pop (fb_wakeups b) = Some (Some i, q)" "q_inv q" "q_items q = is"
    using lq.pop_cons [OF Cons.prems(1,2)] by blast
  show ?case
  proof (cases "fb_pending b i")
    case None
    let ?b = "b\<lparr>fb_wakeups := q, fb_pending := (fb_pending b)(i := None)\<rparr>"
    have p: "(fb_pending b)(i := None) = fb_pending b" using None by auto
    have "poll_loop fut_poll b s = poll_loop fut_poll ?b s"
      using Cons.prems(4) None by (simp add: poll_loop.simps [of _ b] pop pending_remove_def)
    moreover have "\<exists>q'. poll_loop fut_poll ?b s = Some (Ok (settle r q' p' ?b), s') \<and> q_inv q' \<and> q_items q' = rest"
      by (rule Cons.IH) (use Cons.prems pop None p in simp_all)
    ultimately show ?thesis by simp
  next
    case (Some f)
    obtain res f' woke s1 where fp: "fut_poll i f s = (Some (res, f', woke), s1)"
      using Cons.prems(5) Some by (auto split: prod.splits option.splits)
    have woke: "\<not> woke" using assms fp unfolding quiet_def by blast
    show ?thesis
    proof (cases res)
      case Pending
      let ?b = "b\<lparr>fb_wakeups := q, fb_pending := (fb_pending b)(i \<mapsto> f')\<rparr>"
      have "poll_loop fut_poll b s = poll_loop fut_poll ?b s1"
        using Cons.prems(4) Some fp woke Pending
        by (simp add: poll_loop.simps [of _ b] pop pending_remove_def pending_insert_def)
      moreover have "\<exists>q'. poll_loop fut_poll ?b s1 = Some (Ok (settle r q' p' ?b), s') \<and> q_inv q' \<and> q_items q' = rest"
        by (rule Cons.IH) (use Cons.prems pop Some fp Pending in \<open>simp_all del: fun_upd_apply\<close>)
      ultimately show ?thesis by simp
    next
      case (Ready x)
      then show ?thesis
        using Cons.prems Some fp woke pop
        by (auto simp: poll_loop.simps [of _ b] pending_remove_def remove_waker_def leave_poll_Ok settle_def
              intro!: exI [of _ q])
    qed
  qed
qed

section \<open>What is kept between polls\<close>

text \<open>
  Every pushed and unfinished future is pending, identifiers are fresh, and no poll is under way.
\<close>

definition fb_inv :: "'f batcher \<Rightarrow> bool" where
  "fb_inv b \<longleftrightarrow> q_inv (fb_wakeups b) \<and> fb_await_counter b = 0 \<and>
     (\<forall>i \<in> dom (fb_pending b). i < fb_idgen b)"

lemma raw_wake_simps [simp]:
  "fb_idgen (raw_wake b) = fb_idgen b" "fb_pending (raw_wake b) = fb_pending b"
  "fb_wakeups (raw_wake b) = fb_wakeups b" "fb_await_counter (raw_wake b) = fb_await_counter b"
  "fb_closed (raw_wake b) = fb_closed b" "fb_raw_waker (raw_wake b) = None"
  by (simp_all add: raw_wake_def remove_waker_def split: option.splits)

lemma batcher_push_simps:
  "batcher_push fut b = (i, b') \<Longrightarrow> i = fb_idgen b \<and> fb_idgen b' = fb_idgen b + 1 \<and>
     fb_pending b' = (fb_pending b)(i \<mapsto> fut) \<and> fb_wakeups b' = queue_push i (fb_wakeups b) \<and>
     fb_await_counter b' = fb_await_counter b \<and> fb_closed b' = fb_closed b"
  by (auto simp: batcher_push_def pending_insert_def Let_def)

lemma batcher_push_inv:
  assumes "fb_inv b" "fb_idgen b < - 1" "q_count (fb_wakeups b) < 2 ^ 64 - 1" "batcher_push fut b = (i, b')"
  shows "fb_inv b'"
proof -
  have lt: "j < fb_idgen b + 1" if "j \<le> fb_idgen b" for j
    using word_le_add_one(1) [OF assms(2)] that by blast
  show ?thesis
    using assms(1,3) batcher_push_simps [OF assms(4)] lq.inv_push [of "fb_wakeups b" i] lt
    by (auto simp: fb_inv_def less_imp_le)
qed

text \<open>A poll removes at most the future whose result it returns.\<close>

lemma poll_ids_dom:
  "poll_ids fut_poll ids p s = (Some (r, rest, p'), s') \<Longrightarrow>
   dom p' \<subseteq> dom p \<and> (r = None \<longrightarrow> dom p' = dom p \<and> rest = [])"
proof (induction ids arbitrary: p s)
  case (Cons i "is")
  show ?case
  proof (cases "p i")
    case None
    then show ?thesis using Cons.IH [of p s] Cons.prems by simp
  next
    case (Some f)
    then have d: "dom (p(i \<mapsto> x)) = dom p" for x by auto
    obtain res f' woke s1 where fp: "fut_poll i f s = (Some (res, f', woke), s1)"
      using Cons.prems Some by (auto split: prod.splits option.splits)
    show ?thesis
    proof (cases res)
      case Pending
      then have "poll_ids fut_poll is (p(i \<mapsto> f')) s1 = (Some (r, rest, p'), s')" using Cons.prems Some fp by simp
      from Cons.IH [OF this] show ?thesis unfolding d .
    next
      case (Ready x)
      then show ?thesis using Cons.prems Some fp by (auto split: if_splits)
    qed
  qed
qed simp

lemma batcher_poll_refines:
  assumes "quiet fut_poll" "fb_inv b" "\<not> fb_closed b"
    and "poll_ids fut_poll (q_items (fb_wakeups b)) (fb_pending b) s = (Some (r, rest, p'), s')"
  shows "\<exists>q'. batcher_poll fut_poll t b s = Some (Ok (settle r q' p' (add_waker t b)), s') \<and>
     q_inv q' \<and> q_items q' = rest"
proof -
  let ?b = "add_waker t (b\<lparr>fb_await_counter := 1\<rparr>)"
  have "batcher_poll fut_poll t b s = poll_loop fut_poll ?b s"
    using assms(2,3) by (simp add: batcher_poll_def fb_inv_def)
  moreover have "\<exists>q'. poll_loop fut_poll ?b s = Some (Ok (settle r q' p' ?b), s') \<and> q_inv q' \<and> q_items q' = rest"
    by (rule poll_loop_refines [OF assms(1)]) (use assms in \<open>simp_all add: add_waker_def fb_inv_def\<close>)
  moreover have "settle r q' p' ?b = settle r q' p' (add_waker t b)" for q'
    by (simp add: settle_def add_waker_def)
  ultimately show ?thesis by simp
qed

lemma batcher_poll_settles:
  assumes "quiet fut_poll" "fb_inv b" "\<not> fb_closed b"
    and "poll_ids fut_poll (q_items (fb_wakeups b)) (fb_pending b) s = (Some (r, rest, p'), s')"
  shows "\<exists>b'. batcher_poll fut_poll t b s = Some (Ok (case r of None \<Rightarrow> Pending | Some x \<Rightarrow> Ready (Some x), b'), s') \<and>
     fb_inv b' \<and> fb_pending b' = p' \<and> q_items (fb_wakeups b') = rest \<and> fb_closed b' = fb_closed b \<and>
     fb_idgen b' = fb_idgen b \<and> (r = None \<longrightarrow> fb_raw_waker b' = Some t \<and> dom p' = dom (fb_pending b))"
proof -
  obtain q' where q': "batcher_poll fut_poll t b s = Some (Ok (settle r q' p' (add_waker t b)), s')"
      "q_inv q'" "q_items q' = rest"
    using batcher_poll_refines [OF assms] by blast
  have "\<forall>i \<in> dom p'. i < fb_idgen b" using poll_ids_dom [OF assms(4)] assms(2) by (auto simp: fb_inv_def)
  then have "fb_inv (snd (settle r q' p' (add_waker t b)))"
    using q'(2) by (simp add: fb_inv_def settle_def add_waker_def)
  then show ?thesis
    using q' poll_ids_dom [OF assms(4)]
    by (intro exI [of _ "snd (settle r q' p' (add_waker t b))"])
       (auto simp: settle_def add_waker_def split: option.splits)
qed

section \<open>Properties\<close>


text \<open>Sample futures for the witness: a countdown that is ready at 0.\<close>

definition countdown :: "(nat, nat, unit) fut_poll" where
  "countdown i n s = (Some (if n = 0 then (Ready 42, 0, False) else (Pending, n - 1, False)), s)"


text \<open>
  A poll of a closed batcher breaks the batcher. It answers \<open>Ready(None)\<close> but leaves the poll
  counter at one, so the next poll fails the assertion "Only one thread can call this batch poll"
  although no other thread is polling.
\<close>

theorem batcher_closed_second_poll_panics:
  assumes "fb_inv b" "fb_closed b"
  shows "\<exists>b'. batcher_poll fut_poll t b s = Some (Ok (Ready None, b'), s) \<and> batcher_poll fut_poll u b' s = Some (Panic, s)"
  using assms by (auto simp: batcher_poll_def fb_inv_def)

theorem batcher_closed_second_poll_panics_witness:
  "\<exists>b'. batcher_poll countdown 1 (batcher_close batcher_new) () = Some (Ok (Ready None, b'), ()) \<and>
     batcher_poll countdown 2 b' () = Some (Panic, ())"
  by (rule batcher_closed_second_poll_panics)
     (simp_all add: fb_inv_def batcher_close_def batcher_new_def raw_wake_def remove_waker_def lq.inv_new)

end
