(* ===== verification/Time_Wheel.thy ===== *)
theory Time_Wheel
  imports Hala_Prelude "HOL-Library.Multiset"
begin

text \<open>
  \<open>HashedTimeWheel\<close> of \<open>crates/lockfree/src/timewheel.rs\<close>. A duration is its number of
  nanoseconds; \<open>Instant::now() - start_instant\<close> is the argument \<open>elapsed\<close> of an operation. First
  the operations as one thread runs them, with the conservation and the punctuality of timers; then
  the same operations as interleaved atomic steps, where a timer can be lost.
\<close>

section \<open>The wheel and its operations\<close>

record 't time_wheel =
  tw_timers :: "u64 \<rightharpoonup> 't list"
  tw_ticks :: u64
  tw_tick_duration :: nat
  tw_timer_count :: u64

definition as_micros :: "nat \<Rightarrow> nat" where
  "as_micros nanos = nanos div 1000"

definition tw_new :: "nat \<Rightarrow> 't time_wheel" where
  "tw_new tick_duration =
     \<lparr>tw_timers = Map.empty, tw_ticks = 0, tw_tick_duration = as_micros tick_duration, tw_timer_count = 0\<rparr>"

definition tw_timers_count :: "'t time_wheel \<Rightarrow> u64" where
  "tw_timers_count w = tw_timer_count w"

text \<open>The integer division panics when the tick is shorter than a microsecond.\<close>

definition ticks_of :: "nat \<Rightarrow> 't time_wheel \<Rightarrow> u64 io_result" where
  "ticks_of nanos w =
     (if tw_tick_duration w = 0 then Panic else Ok (of_nat (as_micros nanos div tw_tick_duration w)))"

definition slot :: "(u64 \<rightharpoonup> 't list) \<Rightarrow> u64 \<Rightarrow> 't list" where
  "slot m k = (case m k of None \<Rightarrow> [] | Some ts \<Rightarrow> ts)"

text \<open>\<open>timers.entry(ticks).or_default().push(timer)\<close>\<close>

definition slot_push :: "u64 \<Rightarrow> 't \<Rightarrow> (u64 \<rightharpoonup> 't list) \<Rightarrow> (u64 \<rightharpoonup> 't list)" where
  "slot_push k timer m = m(k \<mapsto> slot m k @ [timer])"

definition new_timer ::
  "nat \<Rightarrow> 't \<Rightarrow> nat \<Rightarrow> 't time_wheel \<Rightarrow> (u64 option \<times> 't time_wheel) io_result" where
  "new_timer elapsed timer duration w =
     and_then (ticks_of (elapsed + duration) w) (\<lambda>ticks.
     if tw_ticks w > ticks then Ok (None, w)
     else
       let w1 = w\<lparr>tw_timers := slot_push ticks timer (tw_timers w)\<rparr>;
           (removed, timers2) =
             (if tw_ticks w1 > ticks then map_remove ticks (tw_timers w1) else (None, tw_timers w1))
       in if removed \<noteq> None then Ok (None, w1\<lparr>tw_timers := timers2\<rparr>)
          else
            let w2 = w1\<lparr>tw_timers := timers2\<rparr>;
                (removed', timers3) =
                  (if tw_ticks w2 > ticks then map_remove ticks (tw_timers w2) else (None, tw_timers w2))
            in if removed' \<noteq> None then Ok (None, w2\<lparr>tw_timers := timers3\<rparr>)
               else Ok (Some ticks, w2\<lparr>tw_timers := timers3, tw_timer_count := tw_timer_count w2 + 1\<rparr>))"

text \<open>The \<open>for i in current..ticks\<close> of \<open>next_tick\<close>.\<close>

fun drain_slots :: "u64 list \<Rightarrow> (u64 \<rightharpoonup> 't list) \<Rightarrow> 't list \<Rightarrow> 't list \<times> (u64 \<rightharpoonup> 't list)" where
  "drain_slots [] m acc = (acc, m)"
| "drain_slots (i # is) m acc =
     (case map_remove i m of
        (Some queue, m') \<Rightarrow> drain_slots is m' (acc @ queue)
      | (None, m') \<Rightarrow> drain_slots is m' acc)"

definition tick_range :: "u64 \<Rightarrow> u64 \<Rightarrow> u64 list" where
  "tick_range current ticks = map of_nat [unat current..<unat ticks]"

definition ticks_compare_exchange :: "u64 \<Rightarrow> u64 \<Rightarrow> 't time_wheel \<Rightarrow> bool \<times> 't time_wheel" where
  "ticks_compare_exchange current new w =
     (if tw_ticks w = current then (True, w\<lparr>tw_ticks := new\<rparr>) else (False, w))"

text \<open>\<open>None\<close> stands for a loop that does not return.\<close>

partial_function (option) next_tick ::
  "nat \<Rightarrow> 't time_wheel \<Rightarrow> ('t list option \<times> 't time_wheel) io_result option" where
  "next_tick elapsed w =
     (let current = tw_ticks w in
      case ticks_of elapsed w of
        Panic \<Rightarrow> Some Panic
      | Err e \<Rightarrow> Some (Err e)
      | Ok ticks \<Rightarrow>
          if \<not> current \<le> ticks then Some Panic
          else if current = ticks then Some (Ok (None, w))
          else let (ok, w1) = ticks_compare_exchange current ticks w in
            if ok then
              let (timeout_timers, m) = drain_slots (tick_range current ticks) (tw_timers w1) []
              in Some (Ok (Some timeout_timers, w1\<lparr>tw_timers := m\<rparr>))
            else next_tick elapsed w1)"

section \<open>What the operations do\<close>

text \<open>Timers sit in slots that the wheel has not passed.\<close>

definition tw_inv :: "'t time_wheel \<Rightarrow> bool" where
  "tw_inv w \<longleftrightarrow> (\<forall>k \<in> dom (tw_timers w). tw_ticks w \<le> k) \<and> 0 < tw_tick_duration w"

definition due :: "'t time_wheel \<Rightarrow> nat \<Rightarrow> u64" where
  "due w nanos = of_nat (as_micros nanos div tw_tick_duration w)"

lemma ticks_of_Ok: "0 < tw_tick_duration w \<Longrightarrow> ticks_of nanos w = Ok (due w nanos)"
  by (simp add: ticks_of_def due_def)

lemma new_timer_eq:
  assumes "0 < tw_tick_duration w"
  shows "new_timer elapsed timer duration w =
     (if tw_ticks w > due w (elapsed + duration) then Ok (None, w)
      else Ok (Some (due w (elapsed + duration)),
        w\<lparr>tw_timers := slot_push (due w (elapsed + duration)) timer (tw_timers w),
          tw_timer_count := tw_timer_count w + 1\<rparr>))"
  by (simp add: new_timer_def ticks_of_Ok [OF assms] Let_def)

lemma next_tick_eq:
  assumes "0 < tw_tick_duration w" "tw_ticks w \<le> due w elapsed"
  shows "next_tick elapsed w =
     Some (Ok (if tw_ticks w = due w elapsed then (None, w)
       else let (ts, m) = drain_slots (tick_range (tw_ticks w) (due w elapsed)) (tw_timers w) []
            in (Some ts, w\<lparr>tw_ticks := due w elapsed, tw_timers := m\<rparr>)))"
  using assms
  by (subst next_tick.simps)
     (auto simp: ticks_of_Ok ticks_compare_exchange_def Let_def split: prod.splits)

lemma slot_upd [simp]: "slot (m(i := x)) k = (if k = i then (case x of None \<Rightarrow> [] | Some ts \<Rightarrow> ts) else slot m k)"
  by (simp add: slot_def)

lemma slot_push_slot [simp]: "slot (slot_push k t m) j = (if j = k then slot m k @ [t] else slot m j)"
  by (simp add: slot_push_def)

lemma drain_slots_eq:
  "distinct is \<Longrightarrow> drain_slots is m acc = (acc @ concat (map (slot m) is), m |` (- set is))"
proof (induction "is" arbitrary: m acc)
  case (Cons i "is")
  have m1: "map (slot (m(i := None))) is = map (slot m) is" using Cons.prems by (intro map_cong) auto
  have m2: "(m(i := None)) |` (- set is) = m |` (- set (i # is))"
    by (auto simp: restrict_map_def fun_eq_iff)
  have "drain_slots (i # is) m acc = drain_slots is (m(i := None)) (acc @ slot m i)"
    by (cases "m i") (simp_all add: map_remove_def slot_def)
  also have "\<dots> = ((acc @ slot m i) @ concat (map (slot (m(i := None))) is), (m(i := None)) |` (- set is))"
    by (rule Cons.IH) (use Cons.prems in simp)
  finally show ?case by (simp only: m1 m2) simp
qed (simp add: restrict_map_def)

lemma tick_range_distinct: "distinct (tick_range a b)"
proof -
  have "inj_on (of_nat :: nat \<Rightarrow> u64) {unat a..<unat b}"
    using unsigned_less [of b, where ?'a = nat]
    by (auto simp: inj_on_def of_nat_eq_iff word_of_nat_eq_iff take_bit_eq_mod)
  then show ?thesis by (simp add: tick_range_def distinct_map)
qed

lemma tick_range_set: "set (tick_range a b) = {k. a \<le> k \<and> k < b}"
proof (intro equalityI subsetI)
  fix k assume "k \<in> set (tick_range a b)"
  then obtain n where n: "unat a \<le> n" "n < unat b" "k = of_nat n"
    by (auto simp: tick_range_def)
  then have "unat k = n" using unsigned_less [of b, where ?'a = nat] by (simp add: unat_of_nat)
  with n show "k \<in> {k. a \<le> k \<and> k < b}" by (simp add: word_le_nat_alt word_less_nat_alt)
next
  fix k assume "k \<in> {k. a \<le> k \<and> k < b}"
  then have "k = of_nat (unat k)" "unat k \<in> {unat a..<unat b}"
    by (auto simp: word_le_nat_alt word_less_nat_alt)
  then show "k \<in> set (tick_range a b)" unfolding tick_range_def set_map set_upt by blast
qed

section \<open>Runs of one thread\<close>

definition pending :: "'t time_wheel \<Rightarrow> 't multiset" where
  "pending w = (\<Sum>k \<in> dom (tw_timers w). mset (slot (tw_timers w) k))"

lemma sum_mset_slot_extend:
  "\<lbrakk> finite A; dom m \<subseteq> A \<rbrakk> \<Longrightarrow> (\<Sum>k \<in> dom m. mset (slot m k)) = (\<Sum>k \<in> A. mset (slot m k))"
  by (rule sum.mono_neutral_left) (auto simp: slot_def split: option.splits)

lemma pending_slot_push:
  assumes "finite (dom m)"
  shows "(\<Sum>j \<in> dom (slot_push k t m). mset (slot (slot_push k t m) j)) =
     (\<Sum>j \<in> dom m. mset (slot m j)) + {#t#}"
proof -
  let ?A = "insert k (dom m)"
  have "(\<Sum>j \<in> dom (slot_push k t m). mset (slot (slot_push k t m) j)) =
      (\<Sum>j \<in> ?A. mset (slot m j) + (if j = k then {#t#} else {#}))"
    by (rule sum.cong) (auto simp: slot_push_def slot_def split: option.splits)
  also have "\<dots> = (\<Sum>j \<in> ?A. mset (slot m j)) + {#t#}"
    using assms by (simp add: sum.distrib sum.delta)
  also have "(\<Sum>j \<in> ?A. mset (slot m j)) = (\<Sum>j \<in> dom m. mset (slot m j))"
    by (rule sum_mset_slot_extend [symmetric]) (use assms in auto)
  finally show ?thesis .
qed

lemma mset_concat_slots:
  "distinct is \<Longrightarrow> mset (concat (map (slot m) is)) = (\<Sum>k \<in> set is. mset (slot m k))"
  by (induction "is") auto

lemma pending_restrict:
  assumes "finite (dom m)"
  shows "(\<Sum>k \<in> dom m. mset (slot m k)) =
     (\<Sum>k \<in> B. mset (slot m k)) + (\<Sum>k \<in> dom (m |` (- B)). mset (slot (m |` (- B)) k))"
proof -
  have B: "(\<Sum>k \<in> B. mset (slot m k)) = (\<Sum>k \<in> dom m \<inter> B. mset (slot m k))"
    by (rule sum.mono_neutral_right) (auto simp: slot_def split: option.splits)
  have "(\<Sum>k \<in> dom (m |` (- B)). mset (slot (m |` (- B)) k)) = (\<Sum>k \<in> dom m - B. mset (slot m k))"
    by (rule sum.cong) (auto simp: slot_def restrict_map_def split: if_splits)
  then show ?thesis using B sum.Int_Diff [OF assms, of "\<lambda>k. mset (slot m k)" B] by simp
qed

datatype 't tw_op = NewTimer 't nat | NextTick

record 't tw_trace =
  tr_wheel :: "'t time_wheel"
  tr_accepted :: "('t \<times> nat) list"
  tr_fired :: "('t \<times> nat) list"

text \<open>
  One operation at a time since the start. The trace records the accepted timers with their
  deadlines and the fired ones with the time of the tick that returned them.
\<close>

fun tw_apply :: "nat \<Rightarrow> 't tw_op \<Rightarrow> 't tw_trace \<Rightarrow> 't tw_trace io_result option" where
  "tw_apply elapsed (NewTimer t d) tr =
     Some (map_ok (\<lambda>(r, w). tr\<lparr>tr_wheel := w,
        tr_accepted := tr_accepted tr @ (if r = None then [] else [(t, elapsed + d)])\<rparr>)
       (new_timer elapsed t d (tr_wheel tr)))"
| "tw_apply elapsed NextTick tr =
     map_option (map_ok (\<lambda>(r, w). tr\<lparr>tr_wheel := w,
        tr_fired := tr_fired tr @ map (\<lambda>t. (t, elapsed)) (case r of None \<Rightarrow> [] | Some ts \<Rightarrow> ts)\<rparr>))
       (next_tick elapsed (tr_wheel tr))"

fun tw_exec :: "(nat \<times> 't tw_op) list \<Rightarrow> 't tw_trace \<Rightarrow> 't tw_trace io_result option" where
  "tw_exec [] tr = Some (Ok tr)"
| "tw_exec ((elapsed, op) # ops) tr =
     (case tw_apply elapsed op tr of
        Some (Ok tr') \<Rightarrow> tw_exec ops tr'
      | r \<Rightarrow> r)"

definition tw_start :: "nat \<Rightarrow> 't tw_trace" where
  "tw_start tick_duration = \<lparr>tr_wheel = tw_new tick_duration, tr_accepted = [], tr_fired = []\<rparr>"

text \<open>
  A schedule: times do not decrease, and neither the clock nor a deadline reaches tick \<open>2 ^ 64\<close>.
\<close>

fun tw_schedule :: "nat \<Rightarrow> nat \<Rightarrow> (nat \<times> 't tw_op) list \<Rightarrow> bool" where
  "tw_schedule td now [] = True"
| "tw_schedule td now ((elapsed, op) # ops) =
     (now \<le> elapsed \<and> as_micros elapsed div td < 2 ^ 64 \<and>
      (case op of NewTimer t d \<Rightarrow> as_micros (elapsed + d) div td < 2 ^ 64 | NextTick \<Rightarrow> True) \<and>
      tw_schedule td elapsed ops)"

definition tr_inv :: "nat \<Rightarrow> nat \<Rightarrow> 't tw_trace \<Rightarrow> bool" where
  "tr_inv td now tr \<longleftrightarrow>
     tw_inv (tr_wheel tr) \<and> finite (dom (tw_timers (tr_wheel tr))) \<and> tw_tick_duration (tr_wheel tr) = td \<and>
     unat (tw_ticks (tr_wheel tr)) \<le> as_micros now div td \<and>
     mset (map fst (tr_accepted tr)) = mset (map fst (tr_fired tr)) + pending (tr_wheel tr) \<and>
     (\<forall>k. \<forall>t \<in> set (slot (tw_timers (tr_wheel tr)) k).
        \<exists>dl. (t, dl) \<in> set (tr_accepted tr) \<and> unat k = as_micros dl div td) \<and>
     (\<forall>(t, at) \<in> set (tr_fired tr). \<exists>dl. (t, dl) \<in> set (tr_accepted tr) \<and> as_micros dl < as_micros at)"

lemma unat_due:
  "as_micros nanos div tw_tick_duration w < 2 ^ 64 \<Longrightarrow> unat (due w nanos) = as_micros nanos div tw_tick_duration w"
  by (simp add: due_def unat_of_nat)

lemma as_micros_mono: "a \<le> b \<Longrightarrow> as_micros a \<le> as_micros b"
  by (simp add: as_micros_def div_le_mono)

lemma tw_apply_new_timer:
  assumes inv: "tr_inv td now tr" and t: "now \<le> elapsed" "as_micros (elapsed + d) div td < 2 ^ 64"
  shows "\<exists>tr'. tw_apply elapsed (NewTimer t d) tr = Some (Ok tr') \<and> tr_inv td elapsed tr'"
proof -
  let ?w = "tr_wheel tr" and ?k = "due (tr_wheel tr) (elapsed + d)"
  have td: "0 < tw_tick_duration ?w" "tw_tick_duration ?w = td"
    using inv by (auto simp: tr_inv_def tw_inv_def)
  have k: "unat ?k = as_micros (elapsed + d) div td" using unat_due td t(2) by metis
  have now: "as_micros now div td \<le> as_micros elapsed div td"
    using t(1) as_micros_mono div_le_mono by blast
  have le: "\<not> ?k < tw_ticks ?w"
  proof -
    have "unat (tw_ticks ?w) \<le> as_micros elapsed div td" using inv now by (simp add: tr_inv_def)
    also have "\<dots> \<le> unat ?k" unfolding k by (intro div_le_mono as_micros_mono) simp
    finally show ?thesis by (simp add: word_less_nat_alt)
  qed
  let ?w' = "?w\<lparr>tw_timers := slot_push ?k t (tw_timers ?w), tw_timer_count := tw_timer_count ?w + 1\<rparr>"
  let ?tr = "tr\<lparr>tr_wheel := ?w', tr_accepted := tr_accepted tr @ [(t, elapsed + d)]\<rparr>"
  have "tw_apply elapsed (NewTimer t d) tr = Some (Ok ?tr)"
    using le by (simp add: new_timer_eq [OF td(1)])
  moreover have "tr_inv td elapsed ?tr"
    unfolding tr_inv_def
  proof (intro conjI)
    show "tw_inv (tr_wheel ?tr)" using inv le by (auto simp: tr_inv_def tw_inv_def slot_push_def)
    show "mset (map fst (tr_accepted ?tr)) = mset (map fst (tr_fired ?tr)) + pending (tr_wheel ?tr)"
      using inv by (simp add: tr_inv_def pending_def pending_slot_push del: slot_push_slot)
    show "\<forall>k. \<forall>x \<in> set (slot (tw_timers (tr_wheel ?tr)) k).
        \<exists>dl. (x, dl) \<in> set (tr_accepted ?tr) \<and> unat k = as_micros dl div td"
    proof (intro allI ballI)
      fix j x assume "x \<in> set (slot (tw_timers (tr_wheel ?tr)) j)"
      then have "x = t \<and> j = ?k \<or> x \<in> set (slot (tw_timers ?w) j)" by (auto split: if_splits)
      then show "\<exists>dl. (x, dl) \<in> set (tr_accepted ?tr) \<and> unat j = as_micros dl div td"
      proof
        assume "x \<in> set (slot (tw_timers ?w) j)"
        then obtain dl where "(x, dl) \<in> set (tr_accepted tr)" "unat j = as_micros dl div td"
          using inv unfolding tr_inv_def by blast
        then show ?thesis by auto
      qed (use k in auto)
    qed
  qed (use inv now td in \<open>fastforce simp: tr_inv_def slot_push_def\<close>)+
  ultimately show ?thesis by blast
qed

lemma div_less_imp_less: "(a :: nat) div n < b div n \<Longrightarrow> a < b"
  by (meson div_le_mono linorder_not_le)

lemma tw_apply_next_tick:
  assumes inv: "tr_inv td now tr" and t: "now \<le> elapsed" "as_micros elapsed div td < 2 ^ 64"
  shows "\<exists>tr'. tw_apply elapsed NextTick tr = Some (Ok tr') \<and> tr_inv td elapsed tr' \<and>
     (\<forall>k \<in> dom (tw_timers (tr_wheel tr')). as_micros elapsed div td \<le> unat k)"
proof -
  let ?w = "tr_wheel tr" and ?n = "due (tr_wheel tr) elapsed"
  let ?m = "tw_timers (tr_wheel tr)"
  have td: "0 < tw_tick_duration ?w" "tw_tick_duration ?w = td"
    using inv by (auto simp: tr_inv_def tw_inv_def)
  have n: "unat ?n = as_micros elapsed div td" using unat_due td t(2) by metis
  have "as_micros now div td \<le> as_micros elapsed div td"
    using t(1) as_micros_mono div_le_mono by blast
  then have le: "tw_ticks ?w \<le> ?n" using inv n by (simp add: tr_inv_def word_le_nat_alt)
  define B where "B = {k. tw_ticks ?w \<le> k \<and> k < ?n}"
  define ts where "ts = concat (map (slot ?m) (tick_range (tw_ticks ?w) ?n))"
  let ?w' = "?w\<lparr>tw_ticks := ?n, tw_timers := ?m |` (- B)\<rparr>"
  let ?tr = "tr\<lparr>tr_wheel := ?w', tr_fired := tr_fired tr @ map (\<lambda>t. (t, elapsed)) ts\<rparr>"
  have low: "tw_ticks ?w \<le> k" if "k \<in> dom ?m" for k using inv that by (auto simp: tr_inv_def tw_inv_def)
  have same: "?w' = ?w \<and> ts = []" if "tw_ticks ?w = ?n"
  proof -
    have "B = {}" using that by (auto simp: B_def)
    then show ?thesis using that by (cases ?w) (simp add: ts_def tick_range_def restrict_map_def)
  qed
  have "tw_apply elapsed NextTick tr = Some (Ok ?tr)"
    using same by (auto simp: next_tick_eq [OF td(1) le] drain_slots_eq tick_range_distinct tick_range_set
        ts_def B_def split: if_splits)
  moreover have high: "?n \<le> k" if "k \<in> dom (?m |` (- B))" for k
    using low that by (auto simp: B_def)
  moreover have "tr_inv td elapsed ?tr"
    unfolding tr_inv_def
  proof (intro conjI)
    show "tw_inv (tr_wheel ?tr)" using high td by (auto simp: tw_inv_def)
    show "mset (map fst (tr_accepted ?tr)) = mset (map fst (tr_fired ?tr)) + pending (tr_wheel ?tr)"
      using inv pending_restrict [of ?m B] mset_concat_slots [OF tick_range_distinct, of ?m "tw_ticks ?w" ?n]
      by (simp add: tr_inv_def pending_def ts_def tick_range_set B_def comp_def)
    show "\<forall>(x, at) \<in> set (tr_fired ?tr). \<exists>dl. (x, dl) \<in> set (tr_accepted ?tr) \<and> as_micros dl < as_micros at"
    proof -
      have "\<exists>dl. (x, dl) \<in> set (tr_accepted tr) \<and> as_micros dl < as_micros elapsed" if x: "x \<in> set ts" for x
      proof -
        obtain k where k: "k < ?n" "x \<in> set (slot ?m k)" using x by (auto simp: ts_def tick_range_set)
        then obtain dl where "(x, dl) \<in> set (tr_accepted tr)" "unat k = as_micros dl div td"
          using inv unfolding tr_inv_def by blast
        then show ?thesis using k(1) n by (auto simp: word_less_nat_alt dest: div_less_imp_less)
      qed
      then show ?thesis using inv by (auto simp: tr_inv_def)
    qed
    show "\<forall>k. \<forall>x \<in> set (slot (tw_timers (tr_wheel ?tr)) k).
        \<exists>dl. (x, dl) \<in> set (tr_accepted ?tr) \<and> unat k = as_micros dl div td"
      using inv by (auto simp: tr_inv_def slot_def restrict_map_def split: option.splits if_splits)
  qed (use inv n td in \<open>auto simp: tr_inv_def\<close>)
  ultimately show ?thesis using n by (intro exI [of _ ?tr]) (auto simp: word_le_nat_alt)
qed

lemma tw_apply_inv:
  assumes "tr_inv td now tr" "tw_schedule td now [(elapsed, op)]"
  shows "\<exists>tr1. tw_apply elapsed op tr = Some (Ok tr1) \<and> tr_inv td elapsed tr1"
proof (cases op)
  case (NewTimer t d)
  then show ?thesis using assms tw_apply_new_timer [of td now tr elapsed d t] by simp
next
  case NextTick
  then show ?thesis using assms tw_apply_next_tick [of td now tr elapsed] by auto
qed

lemma tw_exec_inv:
  "\<lbrakk> tr_inv td now tr; tw_schedule td now ops \<rbrakk> \<Longrightarrow>
   \<exists>tr' now'. tw_exec ops tr = Some (Ok tr') \<and> tr_inv td now' tr'"
proof (induction ops arbitrary: now tr)
  case Nil
  then show ?case by auto
next
  case (Cons p ops)
  obtain elapsed op where p: "p = (elapsed, op)" by fastforce
  have "tw_schedule td now [(elapsed, op)]" using Cons.prems(2) by (simp add: p)
  then obtain tr1 where "tw_apply elapsed op tr = Some (Ok tr1)" "tr_inv td elapsed tr1"
    using tw_apply_inv [OF Cons.prems(1)] by blast
  then show ?case using Cons.IH [of elapsed tr1] Cons.prems(2) by (simp add: p)
qed

lemma tw_start_inv: "1000 \<le> tick_duration \<Longrightarrow> tr_inv (as_micros tick_duration) 0 (tw_start tick_duration)"
  by (auto simp: tr_inv_def tw_start_def tw_inv_def tw_new_def pending_def slot_def as_micros_def)

lemma tw_exec_last_tick:
  "\<lbrakk> tr_inv td now tr; tw_schedule td now (ops @ [(elapsed, NextTick)]) \<rbrakk> \<Longrightarrow>
   \<exists>tr'. tw_exec (ops @ [(elapsed, NextTick)]) tr = Some (Ok tr') \<and> tr_inv td elapsed tr' \<and>
     (\<forall>k \<in> dom (tw_timers (tr_wheel tr')). as_micros elapsed div td \<le> unat k)"
proof (induction ops arbitrary: now tr)
  case Nil
  then have "now \<le> elapsed" "as_micros elapsed div td < 2 ^ 64" by simp_all
  from tw_apply_next_tick [OF Nil.prems(1) this] show ?case by (auto simp del: tw_apply.simps)
next
  case (Cons p ops)
  obtain e op where p: "p = (e, op)" by fastforce
  have "tw_schedule td now [(e, op)]" using Cons.prems(2) by (simp add: p)
  then obtain tr1 where "tw_apply e op tr = Some (Ok tr1)" "tr_inv td e tr1"
    using tw_apply_inv [OF Cons.prems(1)] by blast
  then show ?case using Cons.IH [of e tr1] Cons.prems(2) by (simp add: p)
qed

section \<open>Concurrent executions\<close>

text \<open>
  Threads share one wheel; every access of the tick counter or of the timer map is one step. The
  clock is the current tick number, which only grows. \<open>fetch_update\<close> is its load followed by its
  compare-and-swap, with the removal that the closure performs in between. A program counter
  carries the locals that the rest of the call needs. History variables: the timers pushed into
  the map, the timers for which \<open>new_timer\<close> returned \<open>Some\<close>, and the timers taken out by a
  tick, with their slot and the clock at that moment.
\<close>

datatype 't tw_pc =
    TwIdle
  | NtUpdate u64 't
  | NtUpdateCas u64 't u64
  | NtPush u64 't
  | NtLoad u64 't
  | NtRemove u64 't
  | NtUpdate2 u64 't
  | NtUpdate2Remove u64 't u64
  | NtUpdate2Cas u64 't u64
  | NtCount u64 't
  | TickClock u64
  | TickCas u64 u64
  | TickDrain "u64 list"

record 't tw_conc =
  tc_wheel :: "'t time_wheel"
  tc_now :: u64
  tc_pc :: "nat \<Rightarrow> 't tw_pc"
  tc_pushed :: "'t list"
  tc_accepted :: "'t list"
  tc_fired :: "(u64 \<times> 't \<times> u64) list"

definition tc_goto :: "nat \<Rightarrow> 't tw_pc \<Rightarrow> 't tw_conc \<Rightarrow> 't tw_conc" where
  "tc_goto i p s = s\<lparr>tc_pc := (tc_pc s)(i := p)\<rparr>"

definition tc_set_timers :: "(u64 \<rightharpoonup> 't list) \<Rightarrow> 't tw_conc \<Rightarrow> 't tw_conc" where
  "tc_set_timers m s = s\<lparr>tc_wheel := (tc_wheel s)\<lparr>tw_timers := m\<rparr>\<rparr>"

abbreviation tc_ticks :: "'t tw_conc \<Rightarrow> u64" where
  "tc_ticks s \<equiv> tw_ticks (tc_wheel s)"

abbreviation tc_timers :: "'t tw_conc \<Rightarrow> (u64 \<rightharpoonup> 't list)" where
  "tc_timers s \<equiv> tw_timers (tc_wheel s)"

definition tc_init :: "nat \<Rightarrow> 't tw_conc" where
  "tc_init td = \<lparr>tc_wheel = tw_new td, tc_now = 0, tc_pc = (\<lambda>_. TwIdle),
     tc_pushed = [], tc_accepted = [], tc_fired = []\<rparr>"

inductive tc_step :: "'t tw_conc \<Rightarrow> 't tw_conc \<Rightarrow> bool" where
  clock: "tc_now s \<le> n \<Longrightarrow> tc_step s (s\<lparr>tc_now := n\<rparr>)"
| nt_call: "\<lbrakk> tc_pc s i = TwIdle; tc_now s \<le> k \<rbrakk> \<Longrightarrow> tc_step s (tc_goto i (NtUpdate k t) s)"
| nt_late: "\<lbrakk> tc_pc s i = NtUpdate k t; tc_ticks s > k \<rbrakk> \<Longrightarrow> tc_step s (tc_goto i TwIdle s)"
| nt_update: "\<lbrakk> tc_pc s i = NtUpdate k t; \<not> tc_ticks s > k \<rbrakk> \<Longrightarrow>
    tc_step s (tc_goto i (NtUpdateCas k t (tc_ticks s)) s)"
| nt_update_cas: "tc_pc s i = NtUpdateCas k t current \<Longrightarrow>
    tc_step s (tc_goto i (if tc_ticks s = current then NtPush k t else NtUpdate k t) s)"
| nt_push: "tc_pc s i = NtPush k t \<Longrightarrow>
    tc_step s (tc_set_timers (slot_push k t (tc_timers s))
                 (tc_goto i (NtLoad k t) (s\<lparr>tc_pushed := tc_pushed s @ [t]\<rparr>)))"
| nt_load: "tc_pc s i = NtLoad k t \<Longrightarrow>
    tc_step s (tc_goto i (if tc_ticks s > k then NtRemove k t else NtUpdate2 k t) s)"
| nt_remove: "tc_pc s i = NtRemove k t \<Longrightarrow>
    tc_step s (tc_set_timers (snd (map_remove k (tc_timers s)))
                 (tc_goto i (if fst (map_remove k (tc_timers s)) \<noteq> None then TwIdle else NtUpdate2 k t) s))"
| nt_update2: "tc_pc s i = NtUpdate2 k t \<Longrightarrow>
    tc_step s (tc_goto i (if tc_ticks s > k then NtUpdate2Remove k t (tc_ticks s)
                          else NtUpdate2Cas k t (tc_ticks s)) s)"
| nt_update2_remove: "tc_pc s i = NtUpdate2Remove k t current \<Longrightarrow>
    tc_step s (tc_set_timers (snd (map_remove k (tc_timers s)))
                 (tc_goto i (if fst (map_remove k (tc_timers s)) \<noteq> None then TwIdle
                             else NtUpdate2Cas k t current) s))"
| nt_update2_cas: "tc_pc s i = NtUpdate2Cas k t current \<Longrightarrow>
    tc_step s (tc_goto i (if tc_ticks s = current then NtCount k t else NtUpdate2 k t) s)"
| nt_count: "tc_pc s i = NtCount k t \<Longrightarrow>
    tc_step s (tc_goto i TwIdle (s\<lparr>tc_wheel := (tc_wheel s)\<lparr>tw_timer_count := tw_timer_count (tc_wheel s) + 1\<rparr>,
                                   tc_accepted := tc_accepted s @ [t]\<rparr>))"
| tick_call: "tc_pc s i = TwIdle \<Longrightarrow> tc_step s (tc_goto i (TickClock (tc_ticks s)) s)"
| tick_clock: "\<lbrakk> tc_pc s i = TickClock current; current \<le> tc_now s \<rbrakk> \<Longrightarrow>
    tc_step s (tc_goto i (if current = tc_now s then TwIdle else TickCas current (tc_now s)) s)"
| tick_cas: "tc_pc s i = TickCas current ticks \<Longrightarrow>
    tc_step s (if tc_ticks s = current
               then tc_goto i (TickDrain (tick_range current ticks))
                      (s\<lparr>tc_wheel := (tc_wheel s)\<lparr>tw_ticks := ticks\<rparr>\<rparr>)
               else tc_goto i (TickClock (tc_ticks s)) s)"
| tick_drain: "tc_pc s i = TickDrain (k # ks) \<Longrightarrow>
    tc_step s (tc_set_timers (snd (map_remove k (tc_timers s)))
                 (tc_goto i (TickDrain ks)
                    (s\<lparr>tc_fired := tc_fired s @ map (\<lambda>t. (k, t, tc_now s)) (slot (tc_timers s) k)\<rparr>)))"
| tick_return: "tc_pc s i = TickDrain [] \<Longrightarrow> tc_step s (tc_goto i TwIdle s)"

inductive tc_reachable :: "nat \<Rightarrow> 't tw_conc \<Rightarrow> bool" where
  init: "tc_reachable td (tc_init td)"
| step: "\<lbrakk> tc_reachable td s; tc_step s s' \<rbrakk> \<Longrightarrow> tc_reachable td s'"

lemma tc_simps [simp]:
  "tc_wheel (tc_goto i p s) = tc_wheel s" "tc_now (tc_goto i p s) = tc_now s"
  "tc_pc (tc_goto i p s) = (tc_pc s)(i := p)" "tc_pushed (tc_goto i p s) = tc_pushed s"
  "tc_accepted (tc_goto i p s) = tc_accepted s" "tc_fired (tc_goto i p s) = tc_fired s"
  "tc_wheel (tc_set_timers m s) = (tc_wheel s)\<lparr>tw_timers := m\<rparr>" "tc_now (tc_set_timers m s) = tc_now s"
  "tc_pc (tc_set_timers m s) = tc_pc s" "tc_pushed (tc_set_timers m s) = tc_pushed s"
  "tc_accepted (tc_set_timers m s) = tc_accepted s" "tc_fired (tc_set_timers m s) = tc_fired s"
  by (simp_all add: tc_goto_def tc_set_timers_def)

text \<open>
  What every interleaving keeps: the counter never overtakes the clock, the slots a tick still has
  to drain are already past, and nothing is taken out that was not put in.
\<close>

definition tc_inv :: "'t tw_conc \<Rightarrow> bool" where
  "tc_inv s \<longleftrightarrow>
     tc_ticks s \<le> tc_now s \<and> finite (dom (tc_timers s)) \<and>
     (\<forall>i current. tc_pc s i = TickClock current \<longrightarrow> current \<le> tc_now s) \<and>
     (\<forall>i current ticks. tc_pc s i = TickCas current ticks \<longrightarrow> ticks \<le> tc_now s) \<and>
     (\<forall>i ks. tc_pc s i = TickDrain ks \<longrightarrow> (\<forall>k \<in> set ks. k < tc_now s)) \<and>
     (\<forall>(k, t, at) \<in> set (tc_fired s). k < at) \<and>
     mset (map (fst \<circ> snd) (tc_fired s)) + pending (tc_wheel s) \<subseteq># mset (tc_pushed s)"

lemma pending_set_timers [simp]:
  "pending (w\<lparr>tw_timers := m\<rparr>) = (\<Sum>k \<in> dom m. mset (slot m k))"
  by (simp add: pending_def)

lemma pending_remove:
  assumes "finite (dom m)"
  shows "(\<Sum>j \<in> dom m. mset (slot m j)) =
     mset (slot m k) + (\<Sum>j \<in> dom (m(k := None)). mset (slot (m(k := None)) j))"
proof -
  have "m |` (- {k}) = m(k := None)" by (auto simp: restrict_map_def fun_eq_iff)
  then show ?thesis using pending_restrict [OF assms, of "{k}"] by simp
qed

lemma tc_set_timers_goto: "tc_set_timers m (tc_goto i p s) = tc_goto i p (tc_set_timers m s)"
  by (cases s) (simp add: tc_goto_def tc_set_timers_def)

lemma tc_inv_goto:
  assumes "tc_inv s"
    and "\<And>c. p = TickClock c \<Longrightarrow> c \<le> tc_now s" "\<And>c n. p = TickCas c n \<Longrightarrow> n \<le> tc_now s"
    and "\<And>ks k. p = TickDrain ks \<Longrightarrow> k \<in> set ks \<Longrightarrow> k < tc_now s"
  shows "tc_inv (tc_goto i p s)"
  using assms unfolding tc_inv_def by auto

lemma tc_inv_remove:
  assumes "tc_inv s"
  shows "tc_inv (tc_set_timers (snd (map_remove k (tc_timers s))) s)"
proof -
  let ?m = "tc_timers s"
  have fin: "finite (dom ?m)" using assms by (simp add: tc_inv_def)
  let ?A = "mset (map (fst \<circ> snd) (tc_fired s))"
  let ?B = "\<Sum>j \<in> dom (?m(k := None)). mset (slot (?m(k := None)) j)"
  have "?A + ?B \<subseteq># ?A + (mset (slot ?m k) + ?B)" by simp
  also have "\<dots> = ?A + pending (tc_wheel s)"
    unfolding pending_def by (simp only: pending_remove [OF fin, of k])
  also have "\<dots> \<subseteq># mset (tc_pushed s)" using assms by (simp add: tc_inv_def)
  finally have "?A + ?B \<subseteq># mset (tc_pushed s)" .
  then show ?thesis using assms fin unfolding tc_inv_def by (simp del: slot_upd)
qed

lemma tc_inv_push:
  assumes "tc_inv s"
  shows "tc_inv (tc_set_timers (slot_push k t (tc_timers s)) (s\<lparr>tc_pushed := tc_pushed s @ [t]\<rparr>))"
  using assms unfolding tc_inv_def
  by (simp add: pending_slot_push pending_def del: slot_push_slot) (simp add: slot_push_def)?

lemma tc_inv_drain:
  assumes "tc_inv s" "k < tc_now s"
  shows "tc_inv (tc_set_timers (snd (map_remove k (tc_timers s)))
     (s\<lparr>tc_fired := tc_fired s @ map (\<lambda>t. (k, t, tc_now s)) (slot (tc_timers s) k)\<rparr>))"
proof -
  let ?m = "tc_timers s"
  have fin: "finite (dom ?m)" using assms by (simp add: tc_inv_def)
  have "pending (tc_wheel s) = mset (slot ?m k) + (\<Sum>j \<in> dom (?m(k := None)). mset (slot (?m(k := None)) j))"
    unfolding pending_def by (rule pending_remove [OF fin])
  then show ?thesis
    using assms fin unfolding tc_inv_def
    by (auto simp: comp_def add.assoc simp del: slot_upd fun_upd_apply)
qed

lemma tc_step_inv: "\<lbrakk> tc_step s s'; tc_inv s \<rbrakk> \<Longrightarrow> tc_inv s'"
proof (induction rule: tc_step.induct)
  case (clock s n)
  then have "x \<le> tc_now s \<Longrightarrow> x \<le> n" "x < tc_now s \<Longrightarrow> x < n" for x by auto
  then show ?case using clock.prems unfolding tc_inv_def by simp
next
  case (nt_push s i k t)
  have "tc_inv (tc_goto i (NtLoad k t) (tc_set_timers (slot_push k t (tc_timers s)) (s\<lparr>tc_pushed := tc_pushed s @ [t]\<rparr>)))"
    by (rule tc_inv_goto [OF tc_inv_push [OF nt_push.prems]]) auto
  then show ?case by (simp add: tc_set_timers_goto)
next
  case (nt_remove s i k t)
  have "tc_inv (tc_goto i p (tc_set_timers (snd (map_remove k (tc_timers s))) s))"
    if "p = TwIdle \<or> p = NtUpdate2 k t" for p
    by (rule tc_inv_goto [OF tc_inv_remove [OF nt_remove.prems]]) (use that in auto)
  then show ?case by (simp add: tc_set_timers_goto)
next
  case (nt_update2_remove s i k t current)
  have "tc_inv (tc_goto i p (tc_set_timers (snd (map_remove k (tc_timers s))) s))"
    if "p = TwIdle \<or> p = NtUpdate2Cas k t current" for p
    by (rule tc_inv_goto [OF tc_inv_remove [OF nt_update2_remove.prems]]) (use that in auto)
  then show ?case by (simp add: tc_set_timers_goto)
next
  case (tick_cas s i current ticks)
  have n: "ticks \<le> tc_now s" using tick_cas by (auto simp: tc_inv_def)
  then have "tc_inv (s\<lparr>tc_wheel := (tc_wheel s)\<lparr>tw_ticks := ticks\<rparr>\<rparr>)"
    using tick_cas.prems unfolding tc_inv_def by (simp add: pending_def)
  then have "tc_inv (tc_goto i (TickDrain (tick_range current ticks)) (s\<lparr>tc_wheel := (tc_wheel s)\<lparr>tw_ticks := ticks\<rparr>\<rparr>))"
    by (rule tc_inv_goto) (use n in \<open>auto simp: tick_range_set intro: order_less_le_trans\<close>)
  moreover have "tc_inv (tc_goto i (TickClock (tc_ticks s)) s)"
    by (rule tc_inv_goto [OF tick_cas.prems]) (use tick_cas.prems in \<open>auto simp: tc_inv_def\<close>)
  ultimately show ?case by simp
next
  case (tick_drain s i k ks)
  have k: "k < tc_now s" "\<forall>j \<in> set ks. j < tc_now s" using tick_drain by (auto simp: tc_inv_def)
  have "tc_inv (tc_goto i (TickDrain ks) (tc_set_timers (snd (map_remove k (tc_timers s)))
      (s\<lparr>tc_fired := tc_fired s @ map (\<lambda>t. (k, t, tc_now s)) (slot (tc_timers s) k)\<rparr>)))"
    by (rule tc_inv_goto [OF tc_inv_drain [OF tick_drain.prems k(1)]]) (use k(2) in auto)
  then show ?case by (simp add: tc_set_timers_goto)
next
  case (nt_count s i k t)
  then have "tc_inv (s\<lparr>tc_wheel := (tc_wheel s)\<lparr>tw_timer_count := tw_timer_count (tc_wheel s) + 1\<rparr>,
      tc_accepted := tc_accepted s @ [t]\<rparr>)"
    unfolding tc_inv_def by (simp add: pending_def)
  then show ?case by (rule tc_inv_goto) auto
next
  case (tick_call s i)
  then show ?case by (intro tc_inv_goto) (auto simp: tc_inv_def)
qed (auto intro!: tc_inv_goto split: if_splits)

lemma tc_reachable_inv: "tc_reachable td s \<Longrightarrow> tc_inv s"
proof (induction rule: tc_reachable.induct)
  case (init td)
  show ?case by (simp add: tc_inv_def tc_init_def tw_new_def pending_def)
next
  case (step td s s')
  then show ?case by (blast intro: tc_step_inv)
qed

text \<open>An executable scheduler for concrete interleavings: each command is at most one step.\<close>

datatype 't tc_cmd = ClockTo u64 | CallNewTimer nat u64 't | CallNextTick nat | Run nat

fun tc_run :: "nat \<Rightarrow> 't tw_conc \<Rightarrow> 't tw_conc" where
  "tc_run i s =
     (case tc_pc s i of
        TwIdle \<Rightarrow> s
      | NtUpdate k t \<Rightarrow>
          tc_goto i (if tc_ticks s > k then TwIdle else NtUpdateCas k t (tc_ticks s)) s
      | NtUpdateCas k t current \<Rightarrow>
          tc_goto i (if tc_ticks s = current then NtPush k t else NtUpdate k t) s
      | NtPush k t \<Rightarrow>
          tc_set_timers (slot_push k t (tc_timers s))
            (tc_goto i (NtLoad k t) (s\<lparr>tc_pushed := tc_pushed s @ [t]\<rparr>))
      | NtLoad k t \<Rightarrow> tc_goto i (if tc_ticks s > k then NtRemove k t else NtUpdate2 k t) s
      | NtRemove k t \<Rightarrow>
          tc_set_timers (snd (map_remove k (tc_timers s)))
            (tc_goto i (if fst (map_remove k (tc_timers s)) \<noteq> None then TwIdle else NtUpdate2 k t) s)
      | NtUpdate2 k t \<Rightarrow>
          tc_goto i (if tc_ticks s > k then NtUpdate2Remove k t (tc_ticks s) else NtUpdate2Cas k t (tc_ticks s)) s
      | NtUpdate2Remove k t current \<Rightarrow>
          tc_set_timers (snd (map_remove k (tc_timers s)))
            (tc_goto i (if fst (map_remove k (tc_timers s)) \<noteq> None then TwIdle else NtUpdate2Cas k t current) s)
      | NtUpdate2Cas k t current \<Rightarrow>
          tc_goto i (if tc_ticks s = current then NtCount k t else NtUpdate2 k t) s
      | NtCount k t \<Rightarrow>
          tc_goto i TwIdle (s\<lparr>tc_wheel := (tc_wheel s)\<lparr>tw_timer_count := tw_timer_count (tc_wheel s) + 1\<rparr>,
                              tc_accepted := tc_accepted s @ [t]\<rparr>)
      | TickClock current \<Rightarrow>
          if current \<le> tc_now s
          then tc_goto i (if current = tc_now s then TwIdle else TickCas current (tc_now s)) s else s
      | TickCas current ticks \<Rightarrow>
          if tc_ticks s = current
          then tc_goto i (TickDrain (tick_range current ticks)) (s\<lparr>tc_wheel := (tc_wheel s)\<lparr>tw_ticks := ticks\<rparr>\<rparr>)
          else tc_goto i (TickClock (tc_ticks s)) s
      | TickDrain [] \<Rightarrow> tc_goto i TwIdle s
      | TickDrain (k # ks) \<Rightarrow>
          tc_set_timers (snd (map_remove k (tc_timers s)))
            (tc_goto i (TickDrain ks)
               (s\<lparr>tc_fired := tc_fired s @ map (\<lambda>t. (k, t, tc_now s)) (slot (tc_timers s) k)\<rparr>)))"

fun tc_do :: "'t tc_cmd \<Rightarrow> 't tw_conc \<Rightarrow> 't tw_conc" where
  "tc_do (ClockTo n) s = (if tc_now s \<le> n then s\<lparr>tc_now := n\<rparr> else s)"
| "tc_do (CallNewTimer i k t) s =
     (if tc_pc s i = TwIdle \<and> tc_now s \<le> k then tc_goto i (NtUpdate k t) s else s)"
| "tc_do (CallNextTick i) s = (if tc_pc s i = TwIdle then tc_goto i (TickClock (tc_ticks s)) s else s)"
| "tc_do (Run i) s = tc_run i s"

lemma tc_run_step: "tc_run i s = s \<or> tc_step s (tc_run i s)"
proof (cases "tc_pc s i")
  case (NtUpdate k t)
  then show ?thesis using tc_step.nt_late [OF NtUpdate] tc_step.nt_update [OF NtUpdate] by auto
next
  case (NtUpdateCas k t c)
  then show ?thesis using tc_step.nt_update_cas [OF NtUpdateCas] by simp
next
  case (NtPush k t)
  then show ?thesis using tc_step.nt_push [OF NtPush] by simp
next
  case (NtLoad k t)
  then show ?thesis using tc_step.nt_load [OF NtLoad] by simp
next
  case (NtRemove k t)
  then show ?thesis using tc_step.nt_remove [OF NtRemove] by simp
next
  case (NtUpdate2 k t)
  then show ?thesis using tc_step.nt_update2 [OF NtUpdate2] by simp
next
  case (NtUpdate2Remove k t c)
  then show ?thesis using tc_step.nt_update2_remove [OF NtUpdate2Remove] by simp
next
  case (NtUpdate2Cas k t c)
  then show ?thesis using tc_step.nt_update2_cas [OF NtUpdate2Cas] by simp
next
  case (NtCount k t)
  then show ?thesis using tc_step.nt_count [OF NtCount] by simp
next
  case (TickClock c)
  then show ?thesis using tc_step.tick_clock [OF TickClock] by simp
next
  case (TickCas c n)
  then show ?thesis using tc_step.tick_cas [OF TickCas] by simp
next
  case (TickDrain ks)
  then show ?thesis
    using tc_step.tick_drain [of s i] tc_step.tick_return [of s i] by (cases ks) simp_all
qed simp

lemma tc_do_step: "tc_do c s = s \<or> tc_step s (tc_do c s)"
  using tc_run_step by (cases c) (auto intro: tc_step.intros simp del: tc_run.simps)

lemma tc_fold_reachable: "tc_reachable td s \<Longrightarrow> tc_reachable td (fold tc_do cmds s)"
  by (induction cmds arbitrary: s) (simp_all, metis tc_do_step tc_reachable.step)

text \<open>
  The racing schedule: timer \<open>a\<close> is accepted for slot 0; thread 1 passes its first check for a
  timer \<open>b\<close> of the same slot; the clock moves on and thread 2 advances the counter; thread 1 pushes
  \<open>b\<close>, sees that it is late and removes the slot; thread 2 then finds the slot empty.
\<close>

definition race :: "char tc_cmd list" where
  "race = [CallNewTimer 0 0 CHR ''a'', Run 0, Run 0, Run 0, Run 0, Run 0, Run 0, Run 0,
     CallNewTimer 1 0 CHR ''b'', Run 1, Run 1, ClockTo 1, CallNextTick 2, Run 2, Run 2,
     Run 1, Run 1, Run 1, Run 2, Run 2]"

text \<open>An undisturbed schedule: the timer is accepted and the tick hands it out.\<close>

definition fires :: "char tc_cmd list" where
  "fires = [CallNewTimer 0 0 CHR ''a'', Run 0, Run 0, Run 0, Run 0, Run 0, Run 0, Run 0,
     ClockTo 1, CallNextTick 2, Run 2, Run 2, Run 2, Run 2]"

section \<open>Properties\<close>

text \<open>
  C12: timers are neither lost nor duplicated nor early. In every run of operations by one thread,
  with a clock that does not go back and a tick of at least a microsecond, no operation panics or
  hangs; the accepted timers are exactly the fired ones together with those still in the wheel,
  with multiplicity; and a timer fires only at a tick whose time is later than its deadline.
\<close>

theorem timewheel_run:
  assumes "1000 \<le> tick_duration" "tw_schedule (as_micros tick_duration) 0 ops"
  shows "\<exists>tr. tw_exec ops (tw_start tick_duration) = Some (Ok tr) \<and>
     mset (map fst (tr_accepted tr)) = mset (map fst (tr_fired tr)) + pending (tr_wheel tr) \<and>
     (\<forall>(t, at) \<in> set (tr_fired tr). \<exists>dl. (t, dl) \<in> set (tr_accepted tr) \<and> as_micros dl < as_micros at)"
  using tw_exec_inv [OF tw_start_inv [OF assms(1)] assms(2)] by (auto simp: tr_inv_def)

theorem timewheel_run_witness:
  "\<exists>tr. tw_exec [(0, NewTimer CHR ''a'' 5000), (3000, NewTimer CHR ''b'' 1000), (9000, NextTick)]
       (tw_start 1000) = Some (Ok tr) \<and>
     mset (map fst (tr_accepted tr)) = mset (map fst (tr_fired tr)) + pending (tr_wheel tr)"
  using timewheel_run [of 1000 "[(0, NewTimer CHR ''a'' 5000), (3000, NewTimer CHR ''b'' 1000), (9000, NextTick)]"]
  by (auto simp: as_micros_def simp del: tw_exec.simps)

text \<open>
  A tick returns everything that is due. After \<open>next_tick\<close> at time \<open>elapsed\<close>, every timer
  left in the wheel has a deadline whose tick is not before the tick of \<open>elapsed\<close>.
\<close>

theorem timewheel_tick_complete:
  assumes "1000 \<le> tick_duration" "tw_schedule (as_micros tick_duration) 0 (ops @ [(elapsed, NextTick)])"
  shows "\<exists>tr. tw_exec (ops @ [(elapsed, NextTick)]) (tw_start tick_duration) = Some (Ok tr) \<and>
     (\<forall>k. \<forall>t \<in> set (slot (tw_timers (tr_wheel tr)) k).
        \<exists>dl. (t, dl) \<in> set (tr_accepted tr) \<and>
             as_micros elapsed div as_micros tick_duration \<le> as_micros dl div as_micros tick_duration)"
proof -
  obtain tr where tr: "tw_exec (ops @ [(elapsed, NextTick)]) (tw_start tick_duration) = Some (Ok tr)"
      "tr_inv (as_micros tick_duration) elapsed tr"
      "\<forall>k \<in> dom (tw_timers (tr_wheel tr)). as_micros elapsed div as_micros tick_duration \<le> unat k"
    using tw_exec_last_tick [OF tw_start_inv [OF assms(1)] assms(2)] by blast
  have "k \<in> dom (tw_timers (tr_wheel tr))" if "t \<in> set (slot (tw_timers (tr_wheel tr)) k)" for k t
    using that by (cases "tw_timers (tr_wheel tr) k") (auto simp: slot_def)
  then show ?thesis
    using tr unfolding tr_inv_def by (intro exI [of _ tr]) (metis (no_types, lifting))
qed

theorem timewheel_tick_complete_witness:
  "\<exists>tr. tw_exec ([(0, NewTimer CHR ''a'' 20000)] @ [(9000, NextTick)]) (tw_start 1000) = Some (Ok tr) \<and>
     (slot (tw_timers (tr_wheel tr)) 3 = [])"
proof -
  obtain tr where tr: "tw_exec ([(0, NewTimer CHR ''a'' 20000)] @ [(9000, NextTick)]) (tw_start 1000) = Some (Ok tr)"
    using timewheel_tick_complete [of 1000 "[(0, NewTimer CHR ''a'' 20000)]" 9000] by (auto simp: as_micros_def)
  moreover have "slot (tw_timers (tr_wheel tr)) 3 = []"
    using tr by (auto simp: tw_start_def tw_new_def as_micros_def new_timer_eq due_def next_tick_eq drain_slots_eq
        tick_range_distinct slot_def restrict_map_def slot_push_def split: if_splits)
  ultimately show ?thesis by blast
qed

text \<open>
  Concurrent ticks are safe. Whatever the threads do, a timer is handed out by a tick only when
  the clock has passed its slot, and no timer is handed out more often than it was pushed.
\<close>

theorem timewheel_concurrent_safe:
  assumes "tc_reachable td s"
  shows "(\<forall>(k, t, at) \<in> set (tc_fired s). k < at) \<and>
     mset (map (fst \<circ> snd) (tc_fired s)) \<subseteq># mset (tc_pushed s)"
  using tc_reachable_inv [OF assms] unfolding tc_inv_def
  by (meson mset_subset_eq_add_left subset_mset.order_trans)

theorem timewheel_concurrent_safe_witness:
  "tc_fired (fold tc_do fires (tc_init 1000)) = [(0, CHR ''a'', 1)] \<and>
   mset (map (fst \<circ> snd) (tc_fired (fold tc_do fires (tc_init 1000)))) \<subseteq># mset (tc_pushed (fold tc_do fires (tc_init 1000)))"
  using timewheel_concurrent_safe [OF tc_fold_reachable [OF tc_reachable.init], of fires 1000]
  by (simp add: fires_def tc_init_def tw_new_def slot_push_def tick_range_def slot_def)

text \<open>
  An accepted timer can be lost. There is an interleaving of two \<open>new_timer\<close> calls and one
  \<open>next_tick\<close> after which all three calls have returned, \<open>new_timer\<close> has returned \<open>Some\<close> for the
  timer \<open>a\<close>, and \<open>a\<close> neither has been handed out by a tick nor is in the map any more: the
  late \<open>new_timer\<close> of another thread removed the whole slot.
\<close>

theorem timewheel_timer_lost:
  "\<exists>s :: char tw_conc. tc_reachable 1000 s \<and> tc_accepted s = [CHR ''a''] \<and> tc_fired s = [] \<and>
     tc_timers s 0 = None \<and> tc_ticks s = 1 \<and> (\<forall>i. tc_pc s i = TwIdle)"
proof (intro exI conjI)
  show "tc_reachable 1000 (fold tc_do race (tc_init 1000))"
    by (rule tc_fold_reachable [OF tc_reachable.init])
qed (simp_all add: race_def tc_init_def tw_new_def slot_push_def tick_range_def slot_def)

end
