(* ===== verification/Spin_Mutex.thy ===== *)
theory Spin_Mutex
  imports Hala_Prelude
begin

text \<open>
  \<open>SpinMutex\<close> of \<open>crates/sync/src/spin.rs\<close>: the flag, the guard word and the protected data.
  First the trait operations as one thread runs them, against the contract of the trait
  \<open>Lockable\<close> (\<open>crates/sync/src/api.rs\<close>, locale \<open>lockable\<close>); then the same operations as
  interleaved atomic steps, with mutual exclusion and the absence of the two \<open>expect\<close> panics.
\<close>

section \<open>The mutex and its operations\<close>

record 'd spin_mutex =
  sm_flag :: bool
  sm_guard :: usize
  sm_data :: 'd

text \<open>A guard is the address it had when it was created.\<close>

record spin_guard =
  sg_ptr :: usize

definition spin_new :: "'d \<Rightarrow> 'd spin_mutex" where
  "spin_new d = \<lparr>sm_flag = False, sm_guard = 0, sm_data = d\<rparr>"

definition spin_const_new :: "'d \<Rightarrow> 'd spin_mutex" where
  "spin_const_new d = \<lparr>sm_flag = False, sm_guard = 0, sm_data = d\<rparr>"

definition flag_cas :: "bool \<Rightarrow> bool \<Rightarrow> 'd spin_mutex \<Rightarrow> bool \<times> 'd spin_mutex" where
  "flag_cas current new l = (if sm_flag l = current then (True, l\<lparr>sm_flag := new\<rparr>) else (False, l))"

definition guard_cas :: "usize \<Rightarrow> usize \<Rightarrow> 'd spin_mutex \<Rightarrow> bool \<times> 'd spin_mutex" where
  "guard_cas current new l = (if sm_guard l = current then (True, l\<lparr>sm_guard := new\<rparr>) else (False, l))"

text \<open>
  The part \<open>lock\<close> and \<open>try_lock\<close> share: create the guard at address \<open>addr\<close> and publish it,
  panicking when another guard is published.
\<close>

definition publish_guard :: "usize \<Rightarrow> 'd spin_mutex \<Rightarrow> (spin_guard \<times> 'd spin_mutex) io_result" where
  "publish_guard addr l =
     (let (ok, l') = guard_cas 0 addr l in if ok then Ok (\<lparr>sg_ptr = addr\<rparr>, l') else Panic)"

definition spin_try_lock :: "usize \<Rightarrow> 'd spin_mutex \<Rightarrow> (spin_guard option \<times> 'd spin_mutex) io_result" where
  "spin_try_lock addr l =
     (let (ok, l1) = flag_cas False True l in
      if ok then map_ok (\<lambda>(g, l2). (Some g, l2)) (publish_guard addr l1) else Ok (None, l1))"

text \<open>\<open>None\<close> stands for a loop that does not return.\<close>

partial_function (option) spin_lockable :: "'d spin_mutex \<Rightarrow> unit option" where
  "spin_lockable l = (if sm_flag l then spin_lockable l else Some ())"

partial_function (option) spin_lock ::
  "usize \<Rightarrow> 'd spin_mutex \<Rightarrow> (spin_guard \<times> 'd spin_mutex) io_result option" where
  "spin_lock addr l =
     (let (ok, l1) = flag_cas False True l in
      if ok then Some (publish_guard addr l1)
      else Option.bind (spin_lockable l1) (\<lambda>_. spin_lock addr l1))"

definition spin_guard_drop :: "spin_guard \<Rightarrow> 'd spin_mutex \<Rightarrow> 'd spin_mutex io_result" where
  "spin_guard_drop g l =
     (let (ok, l1) = guard_cas (sg_ptr g) 0 l in if ok then Ok (l1\<lparr>sm_flag := False\<rparr>) else Panic)"

definition spin_unlock :: "spin_guard \<Rightarrow> 'd spin_mutex \<Rightarrow> 'd spin_mutex io_result" where
  "spin_unlock g l = spin_guard_drop g l"

definition spin_deref :: "spin_guard \<Rightarrow> 'd spin_mutex \<Rightarrow> 'd" where
  "spin_deref g l = sm_data l"

definition spin_deref_mut :: "spin_guard \<Rightarrow> ('d \<Rightarrow> 'd) \<Rightarrow> 'd spin_mutex \<Rightarrow> 'd spin_mutex" where
  "spin_deref_mut g f l = l\<lparr>sm_data := f (sm_data l)\<rparr>"

section \<open>The contract of a lock\<close>

text \<open>
  \<open>held l\<close> is the guard that owns the lock, if any. The trait promises that \<open>try_lock\<close> gives a
  guard exactly when nobody owns one, and that unlocking with the owner's guard frees the lock.
\<close>

locale lockable =
  fixes new :: "'d \<Rightarrow> 'l"
    and try_lock :: "'a \<Rightarrow> 'l \<Rightarrow> ('g option \<times> 'l) io_result"
    and unlock :: "'g \<Rightarrow> 'l \<Rightarrow> 'l io_result"
    and deref :: "'g \<Rightarrow> 'l \<Rightarrow> 'd"
    and valid_addr :: "'a \<Rightarrow> bool"
    and inv :: "'l \<Rightarrow> bool"
    and held :: "'l \<Rightarrow> 'g option"
  assumes inv_new: "inv (new d)"
    and held_new: "held (new d) = None"
    and deref_new: "\<lbrakk> valid_addr a; try_lock a (new d) = Ok (Some g, l) \<rbrakk> \<Longrightarrow> deref g l = d"
    and try_lock_free: "\<lbrakk> inv l; held l = None; valid_addr a \<rbrakk> \<Longrightarrow>
          \<exists>g l'. try_lock a l = Ok (Some g, l') \<and> inv l' \<and> held l' = Some g"
    and try_lock_held: "\<lbrakk> inv l; held l = Some h \<rbrakk> \<Longrightarrow> try_lock a l = Ok (None, l)"
    and unlock_held: "\<lbrakk> inv l; held l = Some g \<rbrakk> \<Longrightarrow> \<exists>l'. unlock g l = Ok l' \<and> inv l' \<and> held l' = None"
begin

text \<open>
  Owners of a lock shared by many tasks: \<open>h p\<close> is the guard that a task in state \<open>p\<close> owns.
  Exactly one task owns the guard of a held lock, and none owns one of a free lock.
\<close>

definition owner_ok :: "('p \<Rightarrow> 'g option) \<Rightarrow> 'l \<Rightarrow> (nat \<Rightarrow> 'p) \<Rightarrow> bool" where
  "owner_ok h l pc \<longleftrightarrow>
     inv l \<and> (\<forall>t g. h (pc t) = Some g \<longrightarrow> held l = Some g) \<and>
     (\<forall>t u. h (pc t) \<noteq> None \<longrightarrow> h (pc u) \<noteq> None \<longrightarrow> t = u) \<and>
     (held l \<noteq> None \<longrightarrow> (\<exists>t. h (pc t) \<noteq> None))"

lemma owner_keep:
  assumes "owner_ok h l pc" "h p = h (pc t)"
  shows "owner_ok h l (pc(t := p))"
proof -
  have "h ((pc(t := p)) u) = h (pc u)" for u using assms(2) by simp
  then show ?thesis using assms(1) unfolding owner_ok_def by simp
qed

lemma owner_acquire:
  assumes "owner_ok h l pc" "try_lock a l = Ok (Some g, l')" "valid_addr a" "h p = Some g"
  shows "owner_ok h l' (pc(t := p))"
proof -
  have free: "held l = None" and l': "inv l'" "held l' = Some g"
    using assms(1-3) try_lock_held [of l] try_lock_free [of l a]
    unfolding owner_ok_def by (cases "held l"; force)+
  then have "h (pc u) = None" for u using assms(1) unfolding owner_ok_def by force
  then show ?thesis using l' assms(4) unfolding owner_ok_def by auto
qed

lemma owner_refused:
  assumes "owner_ok h l pc" "try_lock a l = Ok (None, l')" "valid_addr a"
  shows "l' = l \<and> (\<exists>t. h (pc t) \<noteq> None)"
  using assms try_lock_free [of l a] try_lock_held [of l] unfolding owner_ok_def
  by (cases "held l") auto

lemma owner_release:
  assumes "owner_ok h l pc" "h (pc t) = Some g" "h p = None"
  shows "\<exists>l'. unlock g l = Ok l' \<and> owner_ok h l' (pc(t := p))"
proof -
  have "inv l" "held l = Some g" using assms(1,2) unfolding owner_ok_def by blast+
  then obtain l' where l': "unlock g l = Ok l'" "inv l'" "held l' = None" using unlock_held by blast
  have "h (pc u) = None" if "u \<noteq> t" for u
    using assms(1,2) that unfolding owner_ok_def by (metis option.distinct(1))
  then show ?thesis using l' assms(3) unfolding owner_ok_def by auto
qed

lemma try_lock_total: "\<lbrakk> inv l; valid_addr a \<rbrakk> \<Longrightarrow> \<exists>r l'. try_lock a l = Ok (r, l') \<and> inv l'"
  using try_lock_free try_lock_held by (cases "held l") (metis, blast)

lemma exclusive:
  "\<lbrakk> inv l; valid_addr a; try_lock a l = Ok (Some g, l'); valid_addr b \<rbrakk> \<Longrightarrow> try_lock b l' = Ok (None, l')"
  using try_lock_free [of l a] try_lock_held [of l] try_lock_held [of l'] by (cases "held l") auto

lemma relock:
  "\<lbrakk> inv l; valid_addr a; try_lock a l = Ok (Some g, l'); unlock g l' = Ok l''; valid_addr b \<rbrakk> \<Longrightarrow>
   \<exists>g' l3. try_lock b l'' = Ok (Some g', l3) \<and> held l3 = Some g'"
  using try_lock_free [of l a] try_lock_held [of l] unlock_held [of l' g] try_lock_free [of l'' b]
  by (cases "held l") auto

end

definition sm_inv :: "'d spin_mutex \<Rightarrow> bool" where
  "sm_inv l \<longleftrightarrow> (sm_flag l \<longleftrightarrow> sm_guard l \<noteq> 0)"

definition sm_held :: "'d spin_mutex \<Rightarrow> spin_guard option" where
  "sm_held l = (if sm_guard l = 0 then None else Some \<lparr>sg_ptr = sm_guard l\<rparr>)"

interpretation spin: lockable spin_new spin_try_lock spin_unlock spin_deref "\<lambda>a. a \<noteq> 0" sm_inv sm_held
  by unfold_locales
     (auto simp: sm_inv_def sm_held_def spin_new_def spin_try_lock_def spin_unlock_def spin_guard_drop_def
        publish_guard_def flag_cas_def guard_cas_def spin_deref_def Let_def split: if_splits)

text \<open>On a free mutex \<open>lock\<close> is \<open>try_lock\<close>; on a held one the calling thread spins.\<close>

lemma spin_lock_free:
  "\<lbrakk> sm_inv l; \<not> sm_flag l; a \<noteq> 0 \<rbrakk> \<Longrightarrow>
   spin_lock a l = Some (Ok (\<lparr>sg_ptr = a\<rparr>, l\<lparr>sm_flag := True, sm_guard := a\<rparr>))"
  by (auto simp: spin_lock.simps flag_cas_def publish_guard_def guard_cas_def sm_inv_def Let_def)

section \<open>Concurrent executions\<close>

text \<open>
  Threads call \<open>lock\<close>, \<open>try_lock\<close> and drop their guards. The address of a guard is any nonzero
  word: guards of different threads may even have the same one. \<open>compare_exchange_weak\<close> may fail
  spuriously.
\<close>

datatype sm_pc =
    SmIdle | SmLockCas | SmLockSpin | SmPublish usize | SmHeld usize | SmStore | SmPanic

record 'd sm_conc =
  sc_lock :: "'d spin_mutex"
  sc_pc :: "nat \<Rightarrow> sm_pc"

definition sc_goto :: "nat \<Rightarrow> sm_pc \<Rightarrow> 'd sm_conc \<Rightarrow> 'd sm_conc" where
  "sc_goto i p s = s\<lparr>sc_pc := (sc_pc s)(i := p)\<rparr>"

definition sc_init :: "'d \<Rightarrow> 'd sm_conc" where
  "sc_init d = \<lparr>sc_lock = spin_new d, sc_pc = (\<lambda>_. SmIdle)\<rparr>"

inductive sc_step :: "'d sm_conc \<Rightarrow> 'd sm_conc \<Rightarrow> bool" where
  lock_call: "sc_pc s i = SmIdle \<Longrightarrow> sc_step s (sc_goto i SmLockCas s)"
| lock_cas_ok: "\<lbrakk> sc_pc s i = SmLockCas; flag_cas False True (sc_lock s) = (True, l); a \<noteq> 0 \<rbrakk> \<Longrightarrow>
    sc_step s (sc_goto i (SmPublish a) (s\<lparr>sc_lock := l\<rparr>))"
| lock_cas_fail: "sc_pc s i = SmLockCas \<Longrightarrow> sc_step s (sc_goto i SmLockSpin s)"
| lock_spin: "sc_pc s i = SmLockSpin \<Longrightarrow>
    sc_step s (sc_goto i (if sm_flag (sc_lock s) then SmLockSpin else SmLockCas) s)"
| try_ok: "\<lbrakk> sc_pc s i = SmIdle; flag_cas False True (sc_lock s) = (True, l); a \<noteq> 0 \<rbrakk> \<Longrightarrow>
    sc_step s (sc_goto i (SmPublish a) (s\<lparr>sc_lock := l\<rparr>))"
| publish: "\<lbrakk> sc_pc s i = SmPublish a; guard_cas 0 a (sc_lock s) = (ok, l) \<rbrakk> \<Longrightarrow>
    sc_step s (sc_goto i (if ok then SmHeld a else SmPanic) (s\<lparr>sc_lock := l\<rparr>))"
| mutate: "sc_pc s i = SmHeld a \<Longrightarrow> sc_step s (s\<lparr>sc_lock := spin_deref_mut \<lparr>sg_ptr = a\<rparr> f (sc_lock s)\<rparr>)"
| unpublish: "\<lbrakk> sc_pc s i = SmHeld a; guard_cas a 0 (sc_lock s) = (ok, l) \<rbrakk> \<Longrightarrow>
    sc_step s (sc_goto i (if ok then SmStore else SmPanic) (s\<lparr>sc_lock := l\<rparr>))"
| store: "sc_pc s i = SmStore \<Longrightarrow>
    sc_step s (sc_goto i SmIdle (s\<lparr>sc_lock := (sc_lock s)\<lparr>sm_flag := False\<rparr>\<rparr>))"

inductive sc_reachable :: "'d sm_conc \<Rightarrow> bool" where
  init: "sc_reachable (sc_init d)"
| step: "\<lbrakk> sc_reachable s; sc_step s s' \<rbrakk> \<Longrightarrow> sc_reachable s'"

definition sm_inside :: "sm_pc \<Rightarrow> bool" where
  "sm_inside p \<longleftrightarrow> (\<exists>a. p = SmPublish a \<or> p = SmHeld a) \<or> p = SmStore"

lemma sm_inside_simps [simp]:
  "sm_inside (SmPublish a)" "sm_inside (SmHeld a)" "sm_inside SmStore" "\<not> sm_inside SmIdle"
  "\<not> sm_inside SmLockCas" "\<not> sm_inside SmLockSpin" "\<not> sm_inside SmPanic"
  by (auto simp: sm_inside_def)

text \<open>The guard word that the program counter of the owner announces.\<close>

fun sm_guard_of :: "sm_pc \<Rightarrow> usize" where
  "sm_guard_of (SmHeld a) = a"
| "sm_guard_of _ = 0"

definition sc_inv :: "'d sm_conc \<Rightarrow> bool" where
  "sc_inv s \<longleftrightarrow>
     (\<forall>i. sc_pc s i \<noteq> SmPanic) \<and>
     (\<forall>i j. sm_inside (sc_pc s i) \<longrightarrow> sm_inside (sc_pc s j) \<longrightarrow> i = j) \<and>
     (\<forall>i. sm_inside (sc_pc s i) \<longrightarrow> sm_flag (sc_lock s) \<and> sm_guard (sc_lock s) = sm_guard_of (sc_pc s i)) \<and>
     (sm_flag (sc_lock s) \<longrightarrow> (\<exists>i. sm_inside (sc_pc s i))) \<and>
     (\<not> sm_flag (sc_lock s) \<longrightarrow> sm_guard (sc_lock s) = 0)"

lemma sc_simps [simp]:
  "sc_lock (sc_goto i p s) = sc_lock s" "sc_pc (sc_goto i p s) = (sc_pc s)(i := p)"
  by (simp_all add: sc_goto_def)

text \<open>A step outside the critical section changes nothing the invariant speaks about.\<close>

lemma sc_inv_outside:
  assumes "sc_inv s" "\<not> sm_inside (sc_pc s i)" "\<not> sm_inside p" "p \<noteq> SmPanic"
  shows "sc_inv (sc_goto i p s)"
  using assms unfolding sc_inv_def by (simp; metis)

lemma sc_inv_enter:
  assumes "sc_inv s" "\<not> sm_flag (sc_lock s)"
  shows "sc_inv (sc_goto i (SmPublish a) (s\<lparr>sc_lock := (sc_lock s)\<lparr>sm_flag := True\<rparr>\<rparr>))"
  using assms unfolding sc_inv_def by auto

lemma sc_inv_publish:
  assumes "sc_inv s" "sc_pc s i = SmPublish a"
  shows "guard_cas 0 a (sc_lock s) = (True, (sc_lock s)\<lparr>sm_guard := a\<rparr>) \<and>
     sc_inv (sc_goto i (SmHeld a) (s\<lparr>sc_lock := (sc_lock s)\<lparr>sm_guard := a\<rparr>\<rparr>))"
proof -
  have one: "\<not> sm_inside (sc_pc s j)" if "j \<noteq> i" for j
    using assms that unfolding sc_inv_def by (metis sm_inside_simps(1))
  have l: "sm_flag (sc_lock s)" "sm_guard (sc_lock s) = 0"
    using assms unfolding sc_inv_def by (metis sm_inside_simps(1) sm_guard_of.simps)+
  then show ?thesis using assms one unfolding sc_inv_def by (auto simp: guard_cas_def)
qed

lemma sc_inv_unpublish:
  assumes "sc_inv s" "sc_pc s i = SmHeld a"
  shows "guard_cas a 0 (sc_lock s) = (True, (sc_lock s)\<lparr>sm_guard := 0\<rparr>) \<and>
     sc_inv (sc_goto i SmStore (s\<lparr>sc_lock := (sc_lock s)\<lparr>sm_guard := 0\<rparr>\<rparr>))"
proof -
  have one: "\<not> sm_inside (sc_pc s j)" if "j \<noteq> i" for j
    using assms that unfolding sc_inv_def by (metis sm_inside_simps(2))
  have l: "sm_flag (sc_lock s)" "sm_guard (sc_lock s) = a"
    using assms unfolding sc_inv_def by (metis sm_inside_simps(2) sm_guard_of.simps(1))+
  then show ?thesis using assms one unfolding sc_inv_def by (auto simp: guard_cas_def)
qed

lemma sc_inv_store:
  assumes "sc_inv s" "sc_pc s i = SmStore"
  shows "sc_inv (sc_goto i SmIdle (s\<lparr>sc_lock := (sc_lock s)\<lparr>sm_flag := False\<rparr>\<rparr>))"
proof -
  have one: "\<not> sm_inside (sc_pc s j)" if "j \<noteq> i" for j
    using assms that unfolding sc_inv_def by (metis sm_inside_simps(3))
  have "sm_guard (sc_lock s) = 0"
    using assms unfolding sc_inv_def by (metis sm_inside_simps(3) sm_guard_of.simps)
  then show ?thesis using assms one unfolding sc_inv_def by auto
qed

lemma sc_step_inv: "\<lbrakk> sc_step s s'; sc_inv s \<rbrakk> \<Longrightarrow> sc_inv s'"
proof (induction rule: sc_step.induct)
  case (publish s i a ok l)
  then show ?case using sc_inv_publish [OF publish.prems publish.hyps(1)] by simp
next
  case (unpublish s i a ok l)
  then show ?case using sc_inv_unpublish [OF unpublish.prems unpublish.hyps(1)] by simp
next
  case (mutate s i a f)
  then show ?case unfolding sc_inv_def by (simp add: spin_deref_mut_def)
qed (auto intro: sc_inv_outside sc_inv_enter sc_inv_store simp: flag_cas_def split: if_splits)

lemma sc_reachable_inv: "sc_reachable s \<Longrightarrow> sc_inv s"
proof (induction rule: sc_reachable.induct)
  case (init d)
  show ?case by (simp add: sc_inv_def sc_init_def spin_new_def)
next
  case (step s s')
  then show ?case by (blast intro: sc_step_inv)
qed

text \<open>A concrete run: thread 0 holds the lock, thread 1 has called \<open>lock\<close>.\<close>

definition sample_sc :: "nat sm_conc" where
  "sample_sc = \<lparr>sc_lock = \<lparr>sm_flag = True, sm_guard = 8, sm_data = 0\<rparr>,
     sc_pc = (\<lambda>_. SmIdle)(0 := SmHeld 8, 1 := SmLockCas)\<rparr>"

lemma sample_sc_reachable: "sc_reachable sample_sc"
proof -
  let ?s = "\<lambda>g p. \<lparr>sc_lock = \<lparr>sm_flag = True, sm_guard = g, sm_data = 0 :: nat\<rparr>, sc_pc = (\<lambda>_. SmIdle)(0 := p)\<rparr>"
  have "sc_reachable (?s 0 (SmPublish 8))"
    using sc_reachable.step [OF sc_reachable.init sc_step.try_ok [of "sc_init 0" 0 _ 8]]
    by (simp add: sc_init_def spin_new_def flag_cas_def sc_goto_def)
  then have "sc_reachable (?s 8 (SmHeld 8))"
    using sc_reachable.step [OF _ sc_step.publish [of "?s 0 (SmPublish 8)" 0 8]]
    by (simp add: guard_cas_def sc_goto_def)
  then show ?thesis
    using sc_reachable.step [OF _ sc_step.lock_call [of "?s 8 (SmHeld 8)" 1]]
    by (simp add: sc_goto_def sample_sc_def)
qed

section \<open>Properties\<close>

text \<open>
  C10: mutual exclusion. In every interleaving of \<open>lock\<close>, \<open>try_lock\<close> and guard drops, with
  spuriously failing compare-and-swaps and any guard addresses, two threads are never both between
  winning the flag and releasing it, and neither \<open>expect\<close> on the guard word ever panics.
\<close>

theorem spin_mutual_exclusion:
  assumes "sc_reachable s"
  shows "(\<forall>i j a b. sc_pc s i = SmHeld a \<longrightarrow> sc_pc s j = SmHeld b \<longrightarrow> i = j) \<and> (\<forall>i. sc_pc s i \<noteq> SmPanic)"
  using sc_reachable_inv [OF assms] unfolding sc_inv_def by (metis sm_inside_simps(2))

theorem spin_mutual_exclusion_witness:
  "{i. \<exists>a. sc_pc sample_sc i = SmHeld a} = {0} \<and> SmPanic \<notin> range (sc_pc sample_sc)"
proof -
  have "sc_pc sample_sc 0 = SmHeld 8" by (simp add: sample_sc_def)
  moreover note m = spin_mutual_exclusion [OF sample_sc_reachable]
  ultimately have "{i. \<exists>a. sc_pc sample_sc i = SmHeld a} = {0}" by blast
  with m show ?thesis by (metis rangeE)
qed

end
