(* ===== verification/Async_Lock.thy ===== *)
theory Async_Lock
  imports Spin_Mutex
begin

text \<open>
  \<open>AsyncLockableMaker\<close> of \<open>crates/sync/src/maker.rs\<close>: the futures-aware lock made of an inner
  lock and a lock-protected mediator that keeps the wakers of the waiting tasks. Both locks are
  \<open>SpinMutex\<close>es, as in \<open>AsyncSpinMutex\<close>. The mediator's methods come first, then the poll of a
  lock future and the drop of a guard as interleaved steps of any number of tasks.
\<close>

section \<open>The mediator\<close>

type_synonym task = nat

record mediator =
  md_key_next :: usize
  md_wakers :: "usize \<rightharpoonup> task"

definition mediator_default :: mediator where
  "mediator_default = \<lparr>md_key_next = 0, md_wakers = Map.empty\<rparr>"

text \<open>\<open>key_next += 1\<close>: the key counter wraps as the release build does.\<close>

definition wait_lockable :: "task \<Rightarrow> mediator \<Rightarrow> usize \<times> mediator" where
  "wait_lockable waker md =
     (let key = md_key_next md in
      (key, \<lparr>md_key_next = key + 1, md_wakers = (md_wakers md)(key \<mapsto> waker)\<rparr>))"

definition cancel :: "usize \<Rightarrow> mediator \<Rightarrow> bool \<times> mediator" where
  "cancel key md = (md_wakers md key \<noteq> None, md\<lparr>md_wakers := (md_wakers md)(key := None)\<rparr>)"

text \<open>
  The methods that wake return the set of tasks they wake. \<open>keys().next()\<close> of the hash map is
  the parameter \<open>first_key\<close>.
\<close>

definition notify_one ::
  "((usize \<rightharpoonup> task) \<Rightarrow> usize option) \<Rightarrow> mediator \<Rightarrow> (task set \<times> mediator) io_result" where
  "notify_one first_key md =
     (case first_key (md_wakers md) of
        None \<Rightarrow> Ok ({}, md)
      | Some key \<Rightarrow>
          map_ok (\<lambda>w. ({w}, md\<lparr>md_wakers := (md_wakers md)(key := None)\<rparr>)) (unwrap (md_wakers md key)))"

definition notify_all :: "mediator \<Rightarrow> task set \<times> mediator" where
  "notify_all md = (ran (md_wakers md), md\<lparr>md_wakers := Map.empty\<rparr>)"

section \<open>Tasks\<close>

text \<open>
  The points of \<open>AsyncLockableMakerFuture::poll\<close> and \<open>AsyncLockableMakerGuard::drop\<close> at which a
  task can be interrupted. The guard of the mediator's lock is dropped when the block that holds it
  ends; that release is one step with the last action of the block.
\<close>

datatype al_pc =
    AlIdle
  | AlPoll
  | AlLockWakers
  | AlWait spin_guard
  | AlRetry spin_guard usize
  | AlCancel spin_guard spin_guard usize
  | AlParked usize
  | AlHolds spin_guard
  | AlNotifyLock
  | AlNotify spin_guard

record 'd async_lock =
  al_inner :: "'d spin_mutex"
  al_wakers :: "mediator spin_mutex"
  al_pc :: "task \<Rightarrow> al_pc"
  al_woken :: "task set"
  al_waits :: nat

definition async_lock_new :: "'d \<Rightarrow> 'd async_lock" where
  "async_lock_new d = \<lparr>al_inner = spin_new d, al_wakers = spin_new mediator_default,
     al_pc = (\<lambda>_. AlIdle), al_woken = {}, al_waits = 0\<rparr>"

definition al_goto :: "task \<Rightarrow> al_pc \<Rightarrow> 'd async_lock \<Rightarrow> 'd async_lock" where
  "al_goto t p s = s\<lparr>al_pc := (al_pc s)(t := p)\<rparr>"

inductive al_step :: "'d async_lock \<Rightarrow> 'd async_lock \<Rightarrow> bool" where
  lock: "al_pc s t = AlIdle \<Longrightarrow> al_step s (al_goto t AlPoll s)"
| poll: "al_pc s t = AlParked k \<Longrightarrow> al_step s (al_goto t AlPoll (s\<lparr>al_woken := al_woken s - {t}\<rparr>))"
| try_ok: "\<lbrakk> al_pc s t = AlPoll; a \<noteq> 0; spin_try_lock a (al_inner s) = Ok (Some g, l) \<rbrakk> \<Longrightarrow>
    al_step s (al_goto t (AlHolds g) (s\<lparr>al_inner := l\<rparr>))"
| try_fail: "\<lbrakk> al_pc s t = AlPoll; a \<noteq> 0; spin_try_lock a (al_inner s) = Ok (None, l) \<rbrakk> \<Longrightarrow>
    al_step s (al_goto t AlLockWakers (s\<lparr>al_inner := l\<rparr>))"
| lock_wakers: "\<lbrakk> al_pc s t = AlLockWakers; a \<noteq> 0; spin_try_lock a (al_wakers s) = Ok (Some w, l) \<rbrakk> \<Longrightarrow>
    al_step s (al_goto t (AlWait w) (s\<lparr>al_wakers := l\<rparr>))"
| wait: "\<lbrakk> al_pc s t = AlWait w; wait_lockable t (spin_deref w (al_wakers s)) = (key, md) \<rbrakk> \<Longrightarrow>
    al_step s (al_goto t (AlRetry w key)
                 (s\<lparr>al_wakers := spin_deref_mut w (\<lambda>_. md) (al_wakers s), al_waits := al_waits s + 1\<rparr>))"
| retry_ok: "\<lbrakk> al_pc s t = AlRetry w key; a \<noteq> 0; spin_try_lock a (al_inner s) = Ok (Some g, l) \<rbrakk> \<Longrightarrow>
    al_step s (al_goto t (AlCancel g w key) (s\<lparr>al_inner := l\<rparr>))"
| cancelled: "\<lbrakk> al_pc s t = AlCancel g w key; cancel key (spin_deref w (al_wakers s)) = (b, md);
      spin_unlock w (spin_deref_mut w (\<lambda>_. md) (al_wakers s)) = Ok l \<rbrakk> \<Longrightarrow>
    al_step s (al_goto t (AlHolds g) (s\<lparr>al_wakers := l\<rparr>))"
| pending: "\<lbrakk> al_pc s t = AlRetry w key; a \<noteq> 0; spin_try_lock a (al_inner s) = Ok (None, l);
      spin_unlock w (al_wakers s) = Ok wl \<rbrakk> \<Longrightarrow>
    al_step s (al_goto t (AlParked key) (s\<lparr>al_inner := l, al_wakers := wl\<rparr>))"
| unlock: "\<lbrakk> al_pc s t = AlHolds g; spin_unlock g (al_inner s) = Ok l \<rbrakk> \<Longrightarrow>
    al_step s (al_goto t AlNotifyLock (s\<lparr>al_inner := l\<rparr>))"
| notify_lock: "\<lbrakk> al_pc s t = AlNotifyLock; a \<noteq> 0; spin_try_lock a (al_wakers s) = Ok (Some w, l) \<rbrakk> \<Longrightarrow>
    al_step s (al_goto t (AlNotify w) (s\<lparr>al_wakers := l\<rparr>))"
| notify: "\<lbrakk> al_pc s t = AlNotify w; notify_all (spin_deref w (al_wakers s)) = (woken, md);
      spin_unlock w (spin_deref_mut w (\<lambda>_. md) (al_wakers s)) = Ok l \<rbrakk> \<Longrightarrow>
    al_step s (al_goto t AlIdle (s\<lparr>al_wakers := l, al_woken := al_woken s \<union> woken\<rparr>))"

inductive al_reachable :: "'d async_lock \<Rightarrow> bool" where
  init: "al_reachable (async_lock_new d)"
| step: "\<lbrakk> al_reachable s; al_step s s' \<rbrakk> \<Longrightarrow> al_reachable s'"

section \<open>The invariant\<close>

fun inner_guard :: "al_pc \<Rightarrow> spin_guard option" where
  "inner_guard (AlHolds g) = Some g"
| "inner_guard (AlCancel g w k) = Some g"
| "inner_guard _ = None"

fun wakers_guard :: "al_pc \<Rightarrow> spin_guard option" where
  "wakers_guard (AlWait w) = Some w"
| "wakers_guard (AlRetry w k) = Some w"
| "wakers_guard (AlCancel g w k) = Some w"
| "wakers_guard (AlNotify w) = Some w"
| "wakers_guard _ = None"

definition al_notifying :: "'d async_lock \<Rightarrow> bool" where
  "al_notifying s \<longleftrightarrow> (\<exists>u w. al_pc s u = AlNotifyLock \<or> al_pc s u = AlNotify w)"

text \<open>The key under which a task is registered: it waits for the retry, or it is parked and unwoken.\<close>

definition registered :: "'d async_lock \<Rightarrow> task \<Rightarrow> usize \<Rightarrow> bool" where
  "registered s t k \<longleftrightarrow>
     (\<exists>w. al_pc s t = AlRetry w k) \<or> (\<exists>g w. al_pc s t = AlCancel g w k) \<or>
     al_pc s t = AlParked k \<and> t \<notin> al_woken s"

definition al_locks :: "'d async_lock \<Rightarrow> bool" where
  "al_locks s \<longleftrightarrow> spin.owner_ok inner_guard (al_inner s) (al_pc s) \<and>
     spin.owner_ok wakers_guard (al_wakers s) (al_pc s)"

definition al_keys :: "'d async_lock \<Rightarrow> bool" where
  "al_keys s \<longleftrightarrow>
     unat (md_key_next (sm_data (al_wakers s))) = al_waits s \<and>
     (\<forall>k \<in> dom (md_wakers (sm_data (al_wakers s))). k < md_key_next (sm_data (al_wakers s))) \<and>
     (\<forall>t k. registered s t k \<longrightarrow> md_wakers (sm_data (al_wakers s)) k = Some t)"

definition al_live :: "'d async_lock \<Rightarrow> bool" where
  "al_live s \<longleftrightarrow> (\<forall>t k. al_pc s t = AlParked k \<longrightarrow> t \<notin> al_woken s \<longrightarrow>
     (\<exists>u. inner_guard (al_pc s u) \<noteq> None) \<or> al_notifying s)"

lemma al_simps [simp]:
  "al_inner (al_goto t p s) = al_inner s" "al_wakers (al_goto t p s) = al_wakers s"
  "al_pc (al_goto t p s) = (al_pc s)(t := p)" "al_woken (al_goto t p s) = al_woken s"
  "al_waits (al_goto t p s) = al_waits s"
  by (simp_all add: al_goto_def)

lemma spin_data_simps [simp]:
  "spin_try_lock a l = Ok (r, l') \<Longrightarrow> sm_data l' = sm_data l"
  "spin_unlock g l = Ok l' \<Longrightarrow> sm_data l' = sm_data l"
  by (auto simp: spin_try_lock_def spin_unlock_def spin_guard_drop_def publish_guard_def flag_cas_def
      guard_cas_def Let_def split: if_splits)

lemma owner_deref_mut:
  "spin.owner_ok h (spin_deref_mut g f l) pc \<longleftrightarrow> spin.owner_ok h l pc"
  by (simp add: spin.owner_ok_def spin_deref_mut_def sm_inv_def sm_held_def)

text \<open>The locks: every step acquires, releases or leaves alone each of the two.\<close>

lemma al_step_locks: "\<lbrakk> al_step s s'; al_locks s \<rbrakk> \<Longrightarrow> al_locks s'"
proof (induction rule: al_step.induct)
  case (try_ok s t a g l)
  then show ?case unfolding al_locks_def by (auto intro: spin.owner_acquire spin.owner_keep)
next
  case (try_fail s t a l)
  then show ?case
    unfolding al_locks_def using spin.owner_refused [of inner_guard "al_inner s" "al_pc s" a l]
    by (auto intro: spin.owner_keep)
next
  case (lock_wakers s t a w l)
  then show ?case unfolding al_locks_def by (auto intro: spin.owner_acquire spin.owner_keep)
next
  case (retry_ok s t w key a g l)
  then show ?case unfolding al_locks_def by (auto intro: spin.owner_acquire spin.owner_keep)
next
  case (cancelled s t g w key b md l)
  then show ?case
    unfolding al_locks_def
    using spin.owner_release [of wakers_guard "spin_deref_mut w (\<lambda>_. md) (al_wakers s)" "al_pc s" t w "AlHolds g"]
    by (auto intro: spin.owner_keep simp: owner_deref_mut)
next
  case (pending s t w key a l wl)
  then show ?case
    unfolding al_locks_def using spin.owner_refused [of inner_guard "al_inner s" "al_pc s" a l]
      spin.owner_release [of wakers_guard "al_wakers s" "al_pc s" t w "AlParked key"]
    by (auto intro: spin.owner_keep)
next
  case (unlock s t g l)
  then show ?case
    unfolding al_locks_def using spin.owner_release [of inner_guard "al_inner s" "al_pc s" t g AlNotifyLock]
    by (auto intro: spin.owner_keep)
next
  case (notify_lock s t a w l)
  then show ?case unfolding al_locks_def by (auto intro: spin.owner_acquire spin.owner_keep)
next
  case (notify s t w woken md l)
  then show ?case
    unfolding al_locks_def
    using spin.owner_release [of wakers_guard "spin_deref_mut w (\<lambda>_. md) (al_wakers s)" "al_pc s" t w AlIdle]
    by (auto intro: spin.owner_keep simp: owner_deref_mut)
qed (auto simp: al_locks_def owner_deref_mut intro: spin.owner_keep)

text \<open>The registrations: a step that leaves the mediator alone registers nobody new.\<close>

lemma al_keys_keep:
  assumes "al_keys s" "sm_data (al_wakers s') = sm_data (al_wakers s)" "al_waits s' = al_waits s"
    and "\<And>t k. registered s' t k \<Longrightarrow> registered s t k"
  shows "al_keys s'"
  using assms unfolding al_keys_def by metis

lemma registered_other: "u \<noteq> t \<Longrightarrow> registered (al_goto t p s) u k \<longleftrightarrow> registered s u k"
  by (simp add: registered_def)

lemma al_keys_wait:
  assumes "al_keys s" "al_pc s t = AlWait w" "al_waits s + 1 < 2 ^ 64"
    and "wait_lockable t (spin_deref w (al_wakers s)) = (key, md)"
  shows "al_keys (al_goto t (AlRetry w key)
     (s\<lparr>al_wakers := spin_deref_mut w (\<lambda>_. md) (al_wakers s), al_waits := al_waits s + 1\<rparr>))"
    (is "al_keys ?s")
proof -
  let ?md = "sm_data (al_wakers s)"
  have md: "key = md_key_next ?md" "md = \<lparr>md_key_next = key + 1, md_wakers = (md_wakers ?md)(key \<mapsto> t)\<rparr>"
    using assms(4) by (auto simp: wait_lockable_def spin_deref_def Let_def)
  have n: "unat key = al_waits s" using assms(1) md(1) by (simp add: al_keys_def)
  have n1: "unat (key + 1) = unat key + 1"
    using assms(3) n by (simp add: unat_word_ariths)
  then have lt: "k \<le> key \<Longrightarrow> k < key + 1" for k by (simp add: word_le_nat_alt word_less_nat_alt)
  have old: "md_wakers ?md k = Some u \<and> k \<noteq> key" if "registered s u k" for u k
    using assms(1) that md(1) unfolding al_keys_def by (metis domI order_less_irrefl)
  have "md_wakers (sm_data (al_wakers ?s)) k = Some u" if "registered ?s u k" for u k
  proof (cases "u = t")
    case True
    then show ?thesis using that by (simp add: registered_def spin_deref_mut_def md(2))
  next
    case False
    then have "registered s u k" using that by (simp add: registered_def)
    then show ?thesis using old by (simp add: spin_deref_mut_def md(2))
  qed
  moreover have "\<forall>k \<in> dom (md_wakers (sm_data (al_wakers ?s))). k < md_key_next (sm_data (al_wakers ?s))"
    using assms(1) md(1) lt by (auto simp: al_keys_def spin_deref_mut_def md(2) less_imp_le)
  ultimately show ?thesis
    using n n1 unfolding al_keys_def by (simp add: spin_deref_mut_def md(2))
qed

lemma al_keys_cancel:
  assumes "al_keys s" "al_pc s t = AlCancel g w key"
    and "cancel key (spin_deref w (al_wakers s)) = (b, md)"
    and "spin_unlock w (spin_deref_mut w (\<lambda>_. md) (al_wakers s)) = Ok l"
  shows "al_keys (al_goto t (AlHolds g) (s\<lparr>al_wakers := l\<rparr>))" (is "al_keys ?s")
proof -
  let ?md = "sm_data (al_wakers s)"
  have l: "sm_data l = ?md\<lparr>md_wakers := (md_wakers ?md)(key := None)\<rparr>"
    using spin_data_simps(2) [OF assms(4)] assms(3) by (auto simp: cancel_def spin_deref_def spin_deref_mut_def)
  have t: "registered s t key" using assms(2) by (simp add: registered_def)
  have "md_wakers ?md k = Some u \<and> k \<noteq> key" if r: "registered ?s u k" for u k
  proof -
    have ut: "u \<noteq> t" using r by (auto simp: registered_def)
    then have "registered s u k" using r by (simp add: registered_def)
    then show ?thesis using assms(1) t ut unfolding al_keys_def by (metis option.inject)
  qed
  then show ?thesis using assms(1) unfolding al_keys_def by (auto simp: l)
qed

lemma al_notify_registers_none:
  assumes "al_keys s" "al_locks s" "al_pc s t = AlNotify w"
    and "registered (al_goto t AlIdle (s\<lparr>al_wakers := l, al_woken := al_woken s \<union> ran (md_wakers (sm_data (al_wakers s)))\<rparr>)) u k"
  shows False
proof -
  have ut: "u \<noteq> t" using assms(4) by (auto simp: registered_def)
  have "wakers_guard (al_pc s u) = None"
    using assms(2,3) ut unfolding al_locks_def spin.owner_ok_def by (metis wakers_guard.simps(4) option.distinct(1))
  with assms(4) ut have r: "registered s u k" "u \<notin> ran (md_wakers (sm_data (al_wakers s)))"
    by (auto simp: registered_def)
  then show False using assms(1) unfolding al_keys_def by (metis ranI)
qed

lemma al_keys_notify:
  assumes "al_keys s" "al_locks s" "al_pc s t = AlNotify w"
    and "notify_all (spin_deref w (al_wakers s)) = (woken, md)"
    and "spin_unlock w (spin_deref_mut w (\<lambda>_. md) (al_wakers s)) = Ok l"
  shows "al_keys (al_goto t AlIdle (s\<lparr>al_wakers := l, al_woken := al_woken s \<union> woken\<rparr>))"
proof -
  have "sm_data l = (sm_data (al_wakers s))\<lparr>md_wakers := Map.empty\<rparr>"
    "woken = ran (md_wakers (sm_data (al_wakers s)))"
    using spin_data_simps(2) [OF assms(5)] assms(4) by (auto simp: notify_all_def spin_deref_def spin_deref_mut_def)
  then show ?thesis
    using al_notify_registers_none [OF assms(1-3)] assms(1) unfolding al_keys_def by auto
qed

lemma al_step_keys:
  "\<lbrakk> al_step s s'; al_keys s; al_locks s; al_waits s' < 2 ^ 64 \<rbrakk> \<Longrightarrow> al_keys s'"
proof (induction rule: al_step.induct)
  case (wait s t w key md)
  then show ?case using al_keys_wait [of s t w key md] by simp
next
  case (cancelled s t g w key b md l)
  then show ?case using al_keys_cancel by blast
next
  case (notify s t w woken md l)
  then show ?case using al_keys_notify by blast
qed (rule al_keys_keep, auto simp: registered_def split: if_splits)+

text \<open>Liveness: somebody owns the inner lock or is about to notify while a task is parked.\<close>

lemma al_liveI:
  "(\<exists>u. inner_guard (al_pc s u) \<noteq> None) \<or> al_notifying s \<Longrightarrow> al_live s"
  by (simp add: al_live_def)

lemma al_live_keep:
  assumes "al_live s" "inner_guard (al_pc s t) = None" "al_pc s t \<noteq> AlNotifyLock" "\<And>w. al_pc s t \<noteq> AlNotify w"
    and "al_pc s' = (al_pc s)(t := p)" "\<And>k. p \<noteq> AlParked k" "\<And>u. u \<noteq> t \<Longrightarrow> u \<in> al_woken s' \<longleftrightarrow> u \<in> al_woken s"
  shows "al_live s'"
  unfolding al_live_def
proof (intro allI impI)
  fix u k assume u: "al_pc s' u = AlParked k" "u \<notin> al_woken s'"
  then have "al_pc s u = AlParked k" "u \<notin> al_woken s" using assms(5-7) by (auto split: if_splits)
  then have "(\<exists>v. inner_guard (al_pc s v) \<noteq> None) \<or> al_notifying s" using assms(1) unfolding al_live_def by blast
  then show "(\<exists>v. inner_guard (al_pc s' v) \<noteq> None) \<or> al_notifying s'"
    using assms(2-5) unfolding al_notifying_def by (metis fun_upd_apply)
qed

lemma al_step_live: "\<lbrakk> al_step s s'; al_live s; al_keys s; al_locks s \<rbrakk> \<Longrightarrow> al_live s'"
proof (induction rule: al_step.induct)
  case (try_ok s t a g l)
  show ?case by (rule al_liveI, rule disjI1, rule exI [of _ t]) simp
next
  case (retry_ok s t w key a g l)
  show ?case by (rule al_liveI, rule disjI1, rule exI [of _ t]) simp
next
  case (cancelled s t g w key b md l)
  show ?case by (rule al_liveI, rule disjI1, rule exI [of _ t]) simp
next
  case (pending s t w key a l wl)
  then obtain u where u: "inner_guard (al_pc s u) \<noteq> None"
    using spin.owner_refused [of inner_guard "al_inner s" "al_pc s" a l] unfolding al_locks_def by blast
  then have "u \<noteq> t" using pending.hyps(1) by auto
  with u show ?case by (intro al_liveI disjI1 exI [of _ u]) simp
next
  case (unlock s t g l)
  show ?case by (rule al_liveI, rule disjI2) (auto simp: al_notifying_def)
next
  case (notify_lock s t a w l)
  show ?case by (rule al_liveI, rule disjI2) (auto simp: al_notifying_def)
next
  case (notify s t w woken md l)
  have w: "woken = ran (md_wakers (sm_data (al_wakers s)))"
    using notify.hyps(2) by (simp add: notify_all_def spin_deref_def)
  show ?case
    using al_notify_registers_none [OF notify.prems(2,3) notify.hyps(1), of l]
    unfolding w al_live_def registered_def by blast
next
  case (lock s t)
  then show ?case by - (rule al_live_keep [of s t], auto)
next
  case (poll s t k)
  then show ?case by - (rule al_live_keep [of s t], auto)
next
  case (try_fail s t a l)
  then show ?case by - (rule al_live_keep [of s t], auto)
next
  case (lock_wakers s t a w l)
  then show ?case by - (rule al_live_keep [of s t], auto)
next
  case (wait s t w key md)
  then show ?case by - (rule al_live_keep [of s t], auto)
qed

lemma al_step_waits: "al_step s s' \<Longrightarrow> al_waits s \<le> al_waits s'"
  by (induction rule: al_step.induct) auto

lemma al_reachable_locks: "al_reachable s \<Longrightarrow> al_locks s"
proof (induction rule: al_reachable.induct)
  case (init d)
  show ?case
    by (simp add: al_locks_def async_lock_new_def spin.owner_ok_def spin.inv_new spin.held_new)
next
  case (step s s')
  then show ?case by (blast intro: al_step_locks)
qed

lemma al_reachable_inv: "al_reachable s \<Longrightarrow> al_waits s < 2 ^ 64 \<Longrightarrow> al_keys s \<and> al_live s"
proof (induction rule: al_reachable.induct)
  case (init d)
  show ?case
    by (simp add: al_keys_def al_live_def async_lock_new_def spin_new_def mediator_default_def registered_def)
next
  case (step s s')
  then show ?case
    using al_step_keys al_step_live al_reachable_locks al_step_waits [OF step.hyps(2)] by (metis order_le_less_trans)
qed

text \<open>A concrete run: task 0 holds the lock, task 1 has found it locked and is parked.\<close>

definition sample_al :: "nat async_lock" where
  "sample_al = \<lparr>al_inner = \<lparr>sm_flag = True, sm_guard = 8, sm_data = 0\<rparr>,
     al_wakers = \<lparr>sm_flag = False, sm_guard = 0, sm_data = \<lparr>md_key_next = 1, md_wakers = [0 \<mapsto> 1]\<rparr>\<rparr>,
     al_pc = (\<lambda>_. AlIdle)(0 := AlHolds \<lparr>sg_ptr = 8\<rparr>, 1 := AlParked 0), al_woken = {}, al_waits = 1\<rparr>"

lemmas al_eval = al_goto_def spin_try_lock_def flag_cas_def publish_guard_def guard_cas_def Let_def
  spin_deref_def spin_deref_mut_def wait_lockable_def spin_unlock_def spin_guard_drop_def

lemma sample_al_reachable: "al_reachable sample_al"
proof -
  let ?in = "\<lparr>sm_flag = True, sm_guard = 8, sm_data = 0 :: nat\<rparr>" and ?g = "\<lparr>sg_ptr = 8\<rparr>"
  let ?m0 = "mediator_default" and ?m1 = "\<lparr>md_key_next = 1, md_wakers = [0 \<mapsto> 1]\<rparr>"
  let ?s = "\<lambda>b md p n. \<lparr>al_inner = ?in, al_wakers = \<lparr>sm_flag = b, sm_guard = if b then 8 else 0, sm_data = md\<rparr>,
     al_pc = (\<lambda>_. AlIdle)(0 := AlHolds ?g, 1 := p), al_woken = {}, al_waits = n\<rparr>"
  have "al_reachable (al_goto 0 AlPoll (async_lock_new (0 :: nat)))"
    by (rule al_reachable.step [OF al_reachable.init al_step.lock]) (simp add: async_lock_new_def)
  then have "al_reachable (?s False ?m0 AlIdle 0)"
    using al_reachable.step [OF _ al_step.try_ok [of "al_goto 0 AlPoll (async_lock_new 0)" 0 8 ?g ?in]]
    by (simp add: async_lock_new_def spin_new_def al_eval fun_upd_twist fun_upd_idem)
  then have "al_reachable (?s False ?m0 AlPoll 0)"
    using al_reachable.step [OF _ al_step.lock [of "?s False ?m0 AlIdle 0" 1]] by (simp add: al_eval)
  then have "al_reachable (?s False ?m0 AlLockWakers 0)"
    using al_reachable.step [OF _ al_step.try_fail [of "?s False ?m0 AlPoll 0" 1 8 ?in]] by (simp add: al_eval)
  then have "al_reachable (?s True ?m0 (AlWait ?g) 0)"
    using al_reachable.step [OF _ al_step.lock_wakers [of "?s False ?m0 AlLockWakers 0" 1 8 ?g]] by (simp add: al_eval)
  then have "al_reachable (?s True ?m1 (AlRetry ?g 0) 1)"
    using al_reachable.step [OF _ al_step.wait [of "?s True ?m0 (AlWait ?g) 0" 1 ?g 0 ?m1]]
    by (simp add: al_eval mediator_default_def)
  then show ?thesis
    using al_reachable.step [OF _ al_step.pending [of "?s True ?m1 (AlRetry ?g 0) 1" 1 ?g 0 8 ?in]]
    by (simp add: al_eval sample_al_def)
qed

section \<open>Properties\<close>

text \<open>
  The futures-aware lock excludes. However the polls and drops of any number of tasks
  interleave, at most one task owns a guard of the inner lock, and the guard it owns is the one
  that unlocks it.
\<close>

theorem async_lock_exclusive:
  assumes "al_reachable s" "al_pc s t = AlHolds g" "al_pc s u = AlHolds g'"
  shows "t = u \<and> (\<exists>l. spin_unlock g (al_inner s) = Ok l)"
proof -
  have o: "spin.owner_ok inner_guard (al_inner s) (al_pc s)"
    using al_reachable_locks [OF assms(1)] by (simp add: al_locks_def)
  have "inner_guard (al_pc s t) \<noteq> None" "inner_guard (al_pc s u) \<noteq> None" using assms(2,3) by simp_all
  then have "t = u" using o unfolding spin.owner_ok_def by blast
  then show ?thesis using spin.owner_release [OF o, of t g AlIdle] assms(2) by auto
qed

theorem async_lock_exclusive_witness:
  "\<exists>l. spin_unlock \<lparr>sg_ptr = 8\<rparr> (al_inner sample_al) = Ok l"
  using async_lock_exclusive [OF sample_al_reachable, of 0 "\<lparr>sg_ptr = 8\<rparr>" 0 "\<lparr>sg_ptr = 8\<rparr>"]
  by (simp add: sample_al_def)

text \<open>
  C9: no wake-up is lost. While fewer than \<open>2 ^ 64\<close> waits have been registered, a task that is parked
  and has not been woken is registered with the mediator, and some other task owns the lock or is on
  its way to \<open>notify_all\<close>; the second attempt after the registration is what makes this true.
\<close>

theorem async_lock_no_lost_wakeup:
  assumes "al_reachable s" "al_waits s < 2 ^ 64" "al_pc s t = AlParked k" "t \<notin> al_woken s"
  shows "md_wakers (sm_data (al_wakers s)) k = Some t \<and>
     (\<exists>u. u \<noteq> t \<and> (inner_guard (al_pc s u) \<noteq> None \<or> al_pc s u = AlNotifyLock \<or> (\<exists>w. al_pc s u = AlNotify w)))"
proof -
  have k: "al_keys s" "al_live s" using al_reachable_inv [OF assms(1,2)] by auto
  have "registered s t k" using assms(3,4) by (simp add: registered_def)
  then have "md_wakers (sm_data (al_wakers s)) k = Some t" using k(1) by (simp add: al_keys_def)
  moreover obtain u where u: "inner_guard (al_pc s u) \<noteq> None \<or> al_pc s u = AlNotifyLock \<or> (\<exists>w. al_pc s u = AlNotify w)"
    using k(2) assms(3,4) unfolding al_live_def al_notifying_def by blast
  moreover have "u \<noteq> t" using u assms(3) by auto
  ultimately show ?thesis by blast
qed

theorem async_lock_no_lost_wakeup_witness:
  "md_wakers (sm_data (al_wakers sample_al)) 0 = Some 1"
  using async_lock_no_lost_wakeup [OF sample_al_reachable, of 1 0] by (simp add: sample_al_def)

end
