(* ===== verification/Event_Map.thy ===== *)
theory Event_Map
  imports Hala_Prelude
begin

text \<open>
  \<open>EventMap\<close> of \<open>crates/future/src/event_map.rs\<close>: the mediator through which the QUIC state
  objects let futures wait for events. A waiter and the map share the \<open>Arc<AtomicU8>\<close> that holds the
  wake-up reason; the shared cells are an explicit store in the map's record. Waking a task appends
  it to a log.
\<close>

section \<open>Reasons\<close>

datatype event_map_error = CancelErr | DestroyErr

datatype reason = RNone | On | Cancel | Destroy

fun reason_into :: "reason \<Rightarrow> 8 word" where
  "reason_into RNone = 0"
| "reason_into On = 1"
| "reason_into Cancel = 2"
| "reason_into Destroy = 3"

lemma reason_into_inj: "reason_into r = reason_into r' \<longleftrightarrow> r = r'"
  by (cases r; cases r') simp_all

section \<open>The map\<close>

record waker_with_reason =
  wr_waker :: nat
  wr_reason :: nat

record 'e event_map =
  em_wakers :: "'e \<rightharpoonup> waker_with_reason"
  em_cells :: "nat \<Rightarrow> 8 word"
  em_next_cell :: nat
  em_log :: "nat list"

definition event_map_default :: "'e event_map" where
  "event_map_default = \<lparr>em_wakers = Map.empty, em_cells = (\<lambda>_. 0), em_next_cell = 0, em_log = []\<rparr>"

text \<open>\<open>WakerWithReason::wake\<close> and \<open>wake_by_ref\<close>: store the reason, then wake.\<close>

definition wr_wake :: "waker_with_reason \<Rightarrow> reason \<Rightarrow> 'e event_map \<Rightarrow> 'e event_map" where
  "wr_wake w r m =
     m\<lparr>em_cells := (em_cells m)(wr_reason w := reason_into r), em_log := em_log m @ [wr_waker w]\<rparr>"

definition wait_cancel :: "'e \<Rightarrow> 'e event_map \<Rightarrow> 'e event_map" where
  "wait_cancel event m = m\<lparr>em_wakers := (em_wakers m)(event := None)\<rparr>"

definition em_notify_one :: "'e \<Rightarrow> reason \<Rightarrow> 'e event_map \<Rightarrow> bool \<times> 'e event_map" where
  "em_notify_one event r m =
     (case map_remove event (em_wakers m) of
        (Some w, ws) \<Rightarrow> (True, wr_wake w r (m\<lparr>em_wakers := ws\<rparr>))
      | (None, ws) \<Rightarrow> (False, m))"

fun em_notify_all :: "'e list \<Rightarrow> reason \<Rightarrow> 'e event_map \<Rightarrow> 'e event_map" where
  "em_notify_all [] r m = m"
| "em_notify_all (event # events) r m = em_notify_all events r (snd (em_notify_one event r m))"

text \<open>
  \<open>notify_any\<close> collects the keys of the map in its iteration order, the parameter \<open>keys\<close>.
\<close>

definition keys_contract :: "(('e \<rightharpoonup> waker_with_reason) \<Rightarrow> 'e list) \<Rightarrow> bool" where
  "keys_contract keys \<longleftrightarrow> (\<forall>m. finite (dom m) \<longrightarrow> set (keys m) = dom m \<and> distinct (keys m))"

definition em_notify_any ::
  "(('e \<rightharpoonup> waker_with_reason) \<Rightarrow> 'e list) \<Rightarrow> reason \<Rightarrow> 'e event_map \<Rightarrow> 'e event_map" where
  "em_notify_any keys r m = em_notify_all (keys (em_wakers m)) r m"

text \<open>\<open>Drop\<close>: every registered waker is woken by reference, in iteration order.\<close>

fun em_wake_refs :: "'e list \<Rightarrow> 'e event_map \<Rightarrow> 'e event_map" where
  "em_wake_refs [] m = m"
| "em_wake_refs (event # events) m =
     em_wake_refs events
       (case em_wakers m event of Some w \<Rightarrow> wr_wake w Destroy m | None \<Rightarrow> m)"

definition em_drop :: "(('e \<rightharpoonup> waker_with_reason) \<Rightarrow> 'e list) \<Rightarrow> 'e event_map \<Rightarrow> 'e event_map" where
  "em_drop keys m = em_wake_refs (keys (em_wakers m)) m"

section \<open>Waiting\<close>

record ('e, 'g) wait_fut =
  wf_event :: 'e
  wf_guard :: "'g option"
  wf_reason :: nat

definition em_wait :: "'e \<Rightarrow> 'g \<Rightarrow> 'e event_map \<Rightarrow> ('e, 'g) wait_fut \<times> 'e event_map" where
  "em_wait event guard m =
     (\<lparr>wf_event = event, wf_guard = Some guard, wf_reason = em_next_cell m\<rparr>,
      m\<lparr>em_cells := (em_cells m)(em_next_cell m := reason_into RNone), em_next_cell := em_next_cell m + 1\<rparr>)"

text \<open>
  \<open>Wait::poll\<close> on behalf of task \<open>waker\<close>: the result, the guard that the call unlocks, the
  future and the map. The waker is in the map before the guard is unlocked.
\<close>

definition wait_poll ::
  "nat \<Rightarrow> ('e, 'g) wait_fut \<Rightarrow> 'e event_map \<Rightarrow>
   (event_map_error, unit) outcome poll \<times> 'g option \<times> ('e, 'g) wait_fut \<times> 'e event_map" where
  "wait_poll waker f m =
     (let (unlocked, f', m') =
        (case wf_guard f of
           Some guard \<Rightarrow>
             (Some guard, f\<lparr>wf_guard := None\<rparr>,
              m\<lparr>em_wakers := (em_wakers m)(wf_event f \<mapsto> \<lparr>wr_waker = waker, wr_reason = wf_reason f\<rparr>)\<rparr>)
         | None \<Rightarrow> (None, f, m));
       r = em_cells m' (wf_reason f')
      in (if r = reason_into RNone then Pending
          else if r = reason_into Cancel then Ready (Err CancelErr)
          else if r = reason_into Destroy then Ready (Err DestroyErr)
          else Ready (Ok ()),
          unlocked, f', m'))"

section \<open>Traces\<close>

text \<open>
  What other tasks do to the map between two polls of a waiter. \<open>WaitPoll\<close> is the creation and
  first poll of another waiter.
\<close>

datatype 'e em_op = NotifyOne 'e reason | NotifyAll "'e list" reason | WaitCancel 'e | WaitPoll 'e nat

fun em_apply :: "'e em_op \<Rightarrow> 'e event_map \<Rightarrow> 'e event_map" where
  "em_apply (NotifyOne e r) m = snd (em_notify_one e r m)"
| "em_apply (NotifyAll es r) m = em_notify_all es r m"
| "em_apply (WaitCancel e) m = wait_cancel e m"
| "em_apply (WaitPoll e t) m =
     (let (f, m1) = em_wait e () m in snd (snd (snd (wait_poll t f m1))))"

text \<open>The events an operation takes out of the map or overwrites.\<close>

fun em_touches :: "'e em_op \<Rightarrow> 'e set" where
  "em_touches (NotifyOne e r) = {e}"
| "em_touches (NotifyAll es r) = set es"
| "em_touches (WaitCancel e) = {e}"
| "em_touches (WaitPoll e t) = {e}"

definition em_wf :: "'e event_map \<Rightarrow> bool" where
  "em_wf m \<longleftrightarrow>
     (\<forall>e w. em_wakers m e = Some w \<longrightarrow> wr_reason w < em_next_cell m) \<and>
     (\<forall>e e' w w'. em_wakers m e = Some w \<longrightarrow> em_wakers m e' = Some w' \<longrightarrow> wr_reason w = wr_reason w' \<longrightarrow> e = e')"

lemma em_notify_one_simps:
  "em_wakers m e = Some w \<Longrightarrow> em_notify_one e r m =
     (True, wr_wake w r (m\<lparr>em_wakers := (em_wakers m)(e := None)\<rparr>))"
  "em_wakers m e = None \<Longrightarrow> em_notify_one e r m = (False, m)"
  by (simp_all add: em_notify_one_def map_remove_def)

lemma em_notify_one_wakers [simp]: "em_wakers (snd (em_notify_one e r m)) = (em_wakers m)(e := None)"
  by (cases "em_wakers m e") (auto simp: em_notify_one_simps wr_wake_def)

lemma em_notify_one_next [simp]: "em_next_cell (snd (em_notify_one e r m)) = em_next_cell m"
  by (cases "em_wakers m e") (simp_all add: em_notify_one_simps wr_wake_def)

lemma em_notify_one_cells:
  "em_cells (snd (em_notify_one e r m)) c =
     (case em_wakers m e of
        Some w \<Rightarrow> if c = wr_reason w then reason_into r else em_cells m c
      | None \<Rightarrow> em_cells m c)"
  by (cases "em_wakers m e") (simp_all add: em_notify_one_simps wr_wake_def)

lemma em_wf_notify_one: "em_wf m \<Longrightarrow> em_wf (snd (em_notify_one e r m))"
  unfolding em_wf_def by (auto split: if_splits)

text \<open>An operation on other events leaves a registered waiter registered and its reason unset.\<close>

definition waits_on :: "'e event_map \<Rightarrow> 'e \<Rightarrow> waker_with_reason \<Rightarrow> bool" where
  "waits_on m e w \<longleftrightarrow> em_wakers m e = Some w \<and> em_cells m (wr_reason w) = 0"

lemma waits_on_notify_one:
  "\<lbrakk> em_wf m; waits_on m e w; e \<noteq> e' \<rbrakk> \<Longrightarrow> waits_on (snd (em_notify_one e' r m)) e w"
  unfolding waits_on_def em_wf_def by (auto simp: em_notify_one_cells split: option.splits)

lemma waits_on_notify_all:
  "\<lbrakk> em_wf m; waits_on m e w; e \<notin> set es \<rbrakk> \<Longrightarrow>
   em_wf (em_notify_all es r m) \<and> waits_on (em_notify_all es r m) e w"
  by (induction es r m rule: em_notify_all.induct) (simp_all add: em_wf_notify_one waits_on_notify_one)

lemma em_wf_notify_all: "em_wf m \<Longrightarrow> em_wf (em_notify_all es r m)"
  by (induction es r m rule: em_notify_all.induct) (simp_all add: em_wf_notify_one)

lemma em_wf_wait_poll: "em_wf m \<Longrightarrow> em_wf (em_apply (WaitPoll e t) m)"
  unfolding em_wf_def by (auto simp: em_wait_def wait_poll_def Let_def split: if_splits) force+

lemma em_wf_apply: "em_wf m \<Longrightarrow> em_wf (em_apply op m)"
proof (cases op)
  case (WaitCancel e)
  assume "em_wf m"
  then show ?thesis using WaitCancel unfolding em_wf_def by (auto simp: wait_cancel_def split: if_splits)
qed (auto simp: em_wf_notify_one em_wf_notify_all simp del: em_apply.simps(4) intro: em_wf_wait_poll)

lemma waits_on_apply:
  assumes "em_wf m" "waits_on m e w" "e \<notin> em_touches op"
  shows "waits_on (em_apply op m) e w"
proof (cases op)
  case (WaitPoll e' t)
  have "wr_reason w < em_next_cell m" using assms(1,2) by (auto simp: em_wf_def waits_on_def)
  then show ?thesis using assms(2,3) WaitPoll
    by (simp add: waits_on_def em_wait_def wait_poll_def Let_def)
next
  case (NotifyOne e' r)
  then show ?thesis using assms waits_on_notify_one by auto
next
  case (NotifyAll es r)
  then show ?thesis using assms(3) waits_on_notify_all [OF assms(1,2), of es r] by simp
next
  case (WaitCancel e')
  then show ?thesis using assms by (auto simp: waits_on_def wait_cancel_def)
qed

lemma waits_on_fold:
  "\<lbrakk> em_wf m; waits_on m e w; \<forall>op \<in> set ops. e \<notin> em_touches op \<rbrakk> \<Longrightarrow>
   em_wf (fold em_apply ops m) \<and> waits_on (fold em_apply ops m) e w"
  by (induction ops arbitrary: m) (auto simp: em_wf_apply waits_on_apply)

lemma wait_poll_first:
  "wf_guard f = Some g \<Longrightarrow> em_cells m (wf_reason f) = 0 \<Longrightarrow>
   wait_poll t f m = (Pending, Some g, f\<lparr>wf_guard := None\<rparr>,
     m\<lparr>em_wakers := (em_wakers m)(wf_event f \<mapsto> \<lparr>wr_waker = t, wr_reason = wf_reason f\<rparr>)\<rparr>)"
  by (simp add: wait_poll_def)

fun reason_result :: "reason \<Rightarrow> (event_map_error, unit) outcome poll" where
  "reason_result RNone = Pending"
| "reason_result On = Ready (Ok ())"
| "reason_result Cancel = Ready (Err CancelErr)"
| "reason_result Destroy = Ready (Err DestroyErr)"

lemma wait_poll_again:
  "wf_guard f = None \<Longrightarrow> em_cells m (wf_reason f) = reason_into r \<Longrightarrow>
   wait_poll t f m = (reason_result r, None, f, m)"
  by (cases r) (simp_all add: wait_poll_def)

lemma em_wake_refs_wakers [simp]: "em_wakers (em_wake_refs es m) = em_wakers m"
proof (induction es m rule: em_wake_refs.induct)
  case (2 e es m)
  then show ?case by (cases "em_wakers m e") (simp_all add: wr_wake_def)
qed simp

lemma em_wake_refs_cells:
  "em_wf m \<Longrightarrow> em_wakers m e = Some w \<Longrightarrow>
   em_cells (em_wake_refs es m) (wr_reason w) = (if e \<in> set es then 3 else em_cells m (wr_reason w))"
proof (induction es m rule: em_wake_refs.induct)
  case (2 e' es m)
  show ?case
  proof (cases "em_wakers m e'")
    case None
    then show ?thesis using 2 by auto
  next
    case (Some w')
    have "em_wf (wr_wake w' Destroy m)" using "2.prems"(1) by (simp add: em_wf_def wr_wake_def)
    then have "em_cells (em_wake_refs es (wr_wake w' Destroy m)) (wr_reason w) =
        (if e \<in> set es then 3 else em_cells (wr_wake w' Destroy m) (wr_reason w))"
      using 2 Some by (simp add: wr_wake_def)
    moreover have eq: "wr_reason w = wr_reason w' \<longleftrightarrow> e = e'"
    proof
      show "e = e'" if "wr_reason w = wr_reason w'" using "2.prems" Some that unfolding em_wf_def by blast
      show "wr_reason w = wr_reason w'" if "e = e'" using "2.prems"(2) Some that by simp
    qed
    ultimately show ?thesis using Some by (auto simp: wr_wake_def)
  qed
qed simp

text \<open>
  A reason is settled when its cell holds it and no registered waker refers to the cell: later
  notifications cannot change it.
\<close>

definition settled :: "'e event_map \<Rightarrow> nat \<Rightarrow> reason \<Rightarrow> bool" where
  "settled m n r \<longleftrightarrow> em_cells m n = reason_into r \<and> (\<forall>e w. em_wakers m e = Some w \<longrightarrow> wr_reason w \<noteq> n)"

lemma notify_one_settles:
  "\<lbrakk> em_wf m; em_wakers m e = Some w \<rbrakk> \<Longrightarrow> settled (snd (em_notify_one e r m)) (wr_reason w) r"
  unfolding settled_def em_wf_def by (auto simp: em_notify_one_cells split: if_splits)

lemma settled_notify_one: "settled m n r \<Longrightarrow> settled (snd (em_notify_one e r' m)) n r"
  unfolding settled_def by (auto simp: em_notify_one_cells split: option.splits if_splits)

lemma settled_notify_all: "settled m n r \<Longrightarrow> settled (em_notify_all es r' m) n r"
  by (induction es r' m rule: em_notify_all.induct) (simp_all add: settled_notify_one)

lemma notify_all_settles:
  "\<lbrakk> em_wf m; em_wakers m e = Some w; e \<in> set es \<rbrakk> \<Longrightarrow> settled (em_notify_all es r m) (wr_reason w) r"
proof (induction es r m rule: em_notify_all.induct)
  case (2 e' es r m)
  show ?case
  proof (cases "e = e'")
    case True
    then show ?thesis using notify_one_settles [OF "2.prems"(1,2)] by (simp add: settled_notify_all)
  next
    case False
    then show ?thesis using 2 by (simp add: em_wf_notify_one)
  qed
qed simp

lemma settled_poll: "\<lbrakk> settled m (wf_reason f) r; wf_guard f = None \<rbrakk> \<Longrightarrow> wait_poll t f m = (reason_result r, None, f, m)"
  by (rule wait_poll_again) (simp_all add: settled_def)

section \<open>Properties\<close>

text \<open>
  A notification reaches the waiter. A waiter that is polled once is registered before its guard
  is unlocked; whatever other tasks then do to other events, \<open>notify_one\<close> on its event returns
  \<open>true\<close> and wakes its task, and its next poll returns the result of the reason: \<open>Ok\<close> for
  \<open>On\<close>, the matching error for \<open>Cancel\<close> and \<open>Destroy\<close>.
\<close>

theorem wait_then_notify:
  assumes "em_wf m" "em_wait e g m = (f, m1)" "wait_poll t f m1 = (res, unlocked, f', m2)"
    and "\<forall>op \<in> set ops. e \<notin> em_touches op" "em_notify_one e r (fold em_apply ops m2) = (found, m3)"
  shows "res = Pending \<and> unlocked = Some g \<and> found \<and> last (em_log m3) = t \<and>
     fst (wait_poll t f' m3) = reason_result r"
proof -
  have f: "wf_event f = e" "wf_guard f = Some g" "wf_reason f = em_next_cell m" "em_cells m1 (wf_reason f) = 0"
    and m1: "em_wakers m1 = em_wakers m"
    using assms(2) by (auto simp: em_wait_def)
  let ?w = "\<lparr>wr_waker = t, wr_reason = wf_reason f\<rparr>"
  have p: "res = Pending" "unlocked = Some g" "f' = f\<lparr>wf_guard := None\<rparr>"
      "m2 = m1\<lparr>em_wakers := (em_wakers m1)(e \<mapsto> ?w)\<rparr>"
    using assms(3) wait_poll_first [OF f(2,4), of t] f(1) by auto
  have "m2 = em_apply (WaitPoll e t) m"
    using assms(2) p(4) by (auto simp: em_wait_def wait_poll_def Let_def)
  then have wf: "em_wf m2" using em_wf_wait_poll [OF assms(1)] by simp
  have "waits_on m2 e ?w" using f(4) by (simp add: waits_on_def p(4))
  then have "waits_on (fold em_apply ops m2) e ?w" using waits_on_fold [OF wf _ assms(4)] by blast
  then have "em_wakers (fold em_apply ops m2) e = Some ?w" by (simp add: waits_on_def)
  then have m3: "found" "m3 = wr_wake ?w r ((fold em_apply ops m2)\<lparr>em_wakers := (em_wakers (fold em_apply ops m2))(e := None)\<rparr>)"
    using assms(5) by (auto simp: em_notify_one_simps)
  have "fst (wait_poll t f' m3) = reason_result r"
    using wait_poll_again [of f' m3 r t] by (simp add: p(3) m3(2) wr_wake_def)
  then show ?thesis using p(1,2) m3 by (simp add: wr_wake_def)
qed

theorem wait_then_notify_witness:
  "\<exists>f m1 res f' m2 m3. em_wait (5 :: nat) () event_map_default = (f, m1) \<and> wait_poll 9 f m1 = (res, Some (), f', m2) \<and>
     em_notify_one 5 On (fold em_apply [NotifyOne 6 On, WaitPoll 7 3] m2) = (True, m3) \<and>
     fst (wait_poll 9 f' m3) = Ready (Ok ())"
proof -
  obtain f m1 where 1: "em_wait (5 :: nat) () event_map_default = (f, m1)" by fastforce
  obtain res u f' m2 where 2: "wait_poll 9 f m1 = (res, u, f', m2)" by (metis prod_cases4)
  obtain b m3 where 3: "em_notify_one 5 On (fold em_apply [NotifyOne 6 On, WaitPoll 7 3] m2) = (b, m3)" by fastforce
  have "em_wf (event_map_default :: nat event_map)" by (simp add: em_wf_def event_map_default_def)
  from wait_then_notify [OF this 1 2 _ 3] show ?thesis using 1 2 3 by auto
qed

text \<open>
  Dropping the map releases every waiter. After \<open>Drop\<close>, the next poll of every future that is
  registered in the map returns the error \<open>Destroy\<close>.
\<close>

theorem drop_destroys_waiters:
  assumes "em_wf m" "keys_contract keys" "finite (dom (em_wakers m))"
    and "em_wakers m (wf_event f) = Some \<lparr>wr_waker = t, wr_reason = wf_reason f\<rparr>" "wf_guard f = None"
  shows "fst (wait_poll t f (em_drop keys m)) = Ready (Err DestroyErr)"
proof -
  have "wf_event f \<in> set (keys (em_wakers m))" using assms(2-4) by (auto simp: keys_contract_def)
  then have "em_cells (em_drop keys m) (wf_reason f) = reason_into Destroy"
    using em_wake_refs_cells [OF assms(1,4), of "keys (em_wakers m)"] by (simp add: em_drop_def)
  from wait_poll_again [OF assms(5) this, of t] show ?thesis by simp
qed

text \<open>Concrete parameters for the witnesses: one registered waiter, and a key order for it.\<close>

definition sample_em :: "bool event_map" where
  "sample_em = \<lparr>em_wakers = [True \<mapsto> \<lparr>wr_waker = 4, wr_reason = 0\<rparr>], em_cells = (\<lambda>_. 0), em_next_cell = 1, em_log = []\<rparr>"

definition sample_keys :: "(bool \<rightharpoonup> waker_with_reason) \<Rightarrow> bool list" where
  "sample_keys m = filter (\<lambda>b. m b \<noteq> None) [True, False]"

lemma sample_keys_contract: "keys_contract sample_keys"
proof -
  have "set (sample_keys m) = dom m" for m
    by (rule set_eqI, rename_tac b, case_tac b) (auto simp: sample_keys_def)
  then show ?thesis by (simp add: keys_contract_def) (simp add: sample_keys_def)
qed

theorem drop_destroys_waiters_witness:
  "fst (wait_poll 4 \<lparr>wf_event = True, wf_guard = None :: unit option, wf_reason = 0\<rparr> (em_drop sample_keys sample_em))
     = Ready (Err DestroyErr)"
  by (rule drop_destroys_waiters [OF _ sample_keys_contract]) (simp_all add: sample_em_def em_wf_def)

text \<open>
  One waiter per event. A second waiter on the same event replaces the first in the map: a
  notification then wakes only the second, and the first stays pending although the event it
  waited for has been notified.
\<close>

theorem second_waiter_replaces_first:
  assumes "em_wf m" "em_wait e g m = (f1, m1)" "wait_poll t1 f1 m1 = (r1, u1, f1', m2)"
    and "em_wait e g' m2 = (f2, m3)" "wait_poll t2 f2 m3 = (r2, u2, f2', m4)"
    and "em_notify_one e On m4 = (found, m5)"
  shows "found \<and> fst (wait_poll t2 f2' m5) = Ready (Ok ()) \<and> fst (wait_poll t1 f1' m5) = Pending \<and>
     em_wakers m5 e = None \<and> em_log m5 = em_log m @ [t2]"
proof -
  have f1: "f1 = \<lparr>wf_event = e, wf_guard = Some g, wf_reason = em_next_cell m\<rparr>"
    and m1: "m1 = m\<lparr>em_cells := (em_cells m)(em_next_cell m := 0), em_next_cell := em_next_cell m + 1\<rparr>"
    using assms(2) by (auto simp: em_wait_def)
  have p1: "f1' = f1\<lparr>wf_guard := None\<rparr>"
      "m2 = m1\<lparr>em_wakers := (em_wakers m1)(e \<mapsto> \<lparr>wr_waker = t1, wr_reason = em_next_cell m\<rparr>)\<rparr>"
    using assms(3) by (auto simp: wait_poll_def f1 m1)
  have f2: "f2 = \<lparr>wf_event = e, wf_guard = Some g', wf_reason = em_next_cell m + 1\<rparr>"
    and m3: "m3 = m2\<lparr>em_cells := (em_cells m2)(em_next_cell m + 1 := 0), em_next_cell := em_next_cell m + 2\<rparr>"
    using assms(4) by (auto simp: em_wait_def p1 m1)
  have p2: "f2' = f2\<lparr>wf_guard := None\<rparr>"
      "m4 = m3\<lparr>em_wakers := (em_wakers m3)(e \<mapsto> \<lparr>wr_waker = t2, wr_reason = em_next_cell m + 1\<rparr>)\<rparr>"
    using assms(5) by (auto simp: wait_poll_def f2 m3)
  have n: "found" "m5 = wr_wake \<lparr>wr_waker = t2, wr_reason = em_next_cell m + 1\<rparr> On (m4\<lparr>em_wakers := (em_wakers m4)(e := None)\<rparr>)"
    using assms(6) by (auto simp: em_notify_one_simps p2)
  show ?thesis
    using n(1) by (simp add: n(2) wr_wake_def wait_poll_def p1 p2 f1 f2 m1 m3)
qed

theorem second_waiter_replaces_first_witness:
  "\<exists>f1 m1 r1 u1 f1' m2 f2 m3 r2 u2 f2' m4 m5.
     em_wait (5 :: nat) () event_map_default = (f1, m1) \<and> wait_poll 1 f1 m1 = (r1, u1, f1', m2) \<and>
     em_wait 5 () m2 = (f2, m3) \<and> wait_poll 2 f2 m3 = (r2, u2, f2', m4) \<and>
     em_notify_one 5 On m4 = (True, m5) \<and> fst (wait_poll 1 f1' m5) = Pending \<and> em_log m5 = [2]"
proof -
  obtain f1 m1 where 1: "em_wait (5 :: nat) () event_map_default = (f1, m1)" by fastforce
  obtain r1 u1 f1' m2 where 2: "wait_poll 1 f1 m1 = (r1, u1, f1', m2)" by (metis prod_cases4)
  obtain f2 m3 where 3: "em_wait 5 () m2 = (f2, m3)" by fastforce
  obtain r2 u2 f2' m4 where 4: "wait_poll 2 f2 m3 = (r2, u2, f2', m4)" by (metis prod_cases4)
  obtain b m5 where 5: "em_notify_one 5 On m4 = (b, m5)" by fastforce
  have "em_wf (event_map_default :: nat event_map)" by (simp add: em_wf_def event_map_default_def)
  from second_waiter_replaces_first [OF this 1 2 3 4 5] have "b" "fst (wait_poll 1 f1' m5) = Pending" "em_log m5 = [2]"
    by (simp_all add: event_map_default_def)
  then show ?thesis using 1 2 3 4 5 by (intro exI conjI) simp_all
qed

end
