(* ===== verification/Io_Driver.thy ===== *)
theory Io_Driver
  imports Hala_Prelude
begin

text \<open>
  The driver interface of \<open>crates/io\<close>: handles and descriptions (\<open>file.rs\<close>), interests
  (\<open>interest.rs\<close>), open flags, commands and responses with their conversions (\<open>driver.rs\<close>), and
  the dispatch of \<open>RawDriverExtProxy\<close> (\<open>driver_ext.rs\<close>) from the three generic calls
  \<open>fd_open\<close>, \<open>fd_cntl\<close>, \<open>fd_close\<close> to the methods of the trait \<open>RawDriverExt\<close>. An
  implementation of the trait is a record of operations on a state \<open>'s\<close>; the virtual table of
  \<open>Driver\<close> only forwards to it.
\<close>

section \<open>Operations on a state\<close>

type_synonym ('s, 'r) op = "'s \<Rightarrow> 'r io_result \<times> 's"

definition op_lift :: "'r io_result \<Rightarrow> ('s, 'r) op" where
  "op_lift r s = (r, s)"

definition op_bind :: "('s, 'a) op \<Rightarrow> ('a \<Rightarrow> ('s, 'b) op) \<Rightarrow> ('s, 'b) op" where
  "op_bind f g s =
     (case f s of
        (Ok x, s') \<Rightarrow> g x s'
      | (Err e, s') \<Rightarrow> (Err e, s')
      | (Panic, s') \<Rightarrow> (Panic, s'))"

definition op_map :: "('a \<Rightarrow> 'b) \<Rightarrow> ('s, 'a) op \<Rightarrow> ('s, 'b) op" where
  "op_map f m s = (map_ok f (fst (m s)), snd (m s))"

lemma op_lift_simps [simp]: "op_lift r s = (r, s)"
  by (simp add: op_lift_def)

lemma op_bind_simps [simp]:
  "f s = (Ok x, s') \<Longrightarrow> op_bind f g s = g x s'"
  "f s = (Err e, s') \<Longrightarrow> op_bind f g s = (Err e, s')"
  "f s = (Panic, s') \<Longrightarrow> op_bind f g s = (Panic, s')"
  by (simp_all add: op_bind_def)

lemma op_map_Ok: "op_map f m s = (Ok y, s') \<longleftrightarrow> (\<exists>x. m s = (Ok x, s') \<and> y = f x)"
  by (cases "m s") (auto simp: op_map_def)

lemma op_bind_Ok: "op_bind f g s = (Ok y, s'') \<longleftrightarrow> (\<exists>x s'. f s = (Ok x, s') \<and> g x s' = (Ok y, s''))"
  by (auto simp: op_bind_def split: prod.splits outcome.splits)

section \<open>Handles, flags, interests\<close>

type_synonym token = usize
type_synonym waker = nat
type_synonym duration = nat

datatype description = DFile | DTcpListener | DTcpStream | DUdpSocket | DTimeout | DPoller | DExternal usize

record handle =
  h_token :: token
  h_desc :: description
  h_user_defined_desc :: "nat option"
  h_data :: nat

text \<open>\<open>TokenGenerator::next\<close>: a global counter.\<close>

definition token_next :: "usize \<Rightarrow> token \<times> usize" where
  "token_next next_token = (next_token, next_token + 1)"

definition handle_new ::
  "description \<Rightarrow> nat option \<Rightarrow> token option \<Rightarrow> nat \<Rightarrow> usize \<Rightarrow> handle \<times> usize" where
  "handle_new desc user token data next_token =
     (let (fresh, next') = token_next next_token in
      (\<lparr>h_token = (case token of Some t \<Rightarrow> t | None \<Rightarrow> fresh), h_desc = desc,
        h_user_defined_desc = user, h_data = data\<rparr>, next'))"

definition handle_expect :: "description \<Rightarrow> handle \<Rightarrow> unit io_result" where
  "handle_expect desc h = (if h_desc h \<noteq> desc then Err InvalidInput else Ok ())"

datatype ip_addr = IpV4 "32 word" | IpV6 "128 word"

record sock_addr =
  sa_ip :: ip_addr
  sa_port :: "16 word"

text \<open>\<open>#[bitmask]\<close> enumerations: the variants are single bits, in order.\<close>

type_synonym file_mode = "64 word"
type_synonym interest = "64 word"

unbundle bit_operations_syntax

definition Writable :: interest where "Writable = 1"
definition Readable :: interest where "Readable = 2"
definition interest_all :: interest where "interest_all = - 1"

definition interest_contains :: "interest \<Rightarrow> interest \<Rightarrow> bool" where
  "interest_contains a b \<longleftrightarrow> a AND b = b"

datatype open_flags =
    FNone
  | OpenFile string file_mode
  | Bind "sock_addr list"
  | Connect "sock_addr list"
  | FDuration duration
  | UserDefined bytes

fun try_into_open_file :: "open_flags \<Rightarrow> (string \<times> file_mode) io_result" where
  "try_into_open_file (OpenFile path mode) = Ok (path, mode)"
| "try_into_open_file _ = Err InvalidInput"

fun try_into_bind :: "open_flags \<Rightarrow> sock_addr list io_result" where
  "try_into_bind (Bind laddrs) = Ok laddrs"
| "try_into_bind _ = Err InvalidInput"

fun try_into_connect :: "open_flags \<Rightarrow> sock_addr list io_result" where
  "try_into_connect (Connect raddrs) = Ok raddrs"
| "try_into_connect _ = Err InvalidInput"

fun try_into_duration :: "open_flags \<Rightarrow> duration io_result" where
  "try_into_duration (FDuration d) = Ok d"
| "try_into_duration _ = Err InvalidInput"

fun try_into_user_defined :: "open_flags \<Rightarrow> bytes io_result" where
  "try_into_user_defined (UserDefined buf) = Ok buf"
| "try_into_user_defined _ = Err InvalidInput"

section \<open>Commands and responses\<close>

datatype shutdown = ShutRead | ShutWrite | ShutBoth

text \<open>The buffer of a reading command is its length; the bytes read are part of the result.\<close>

datatype cmd =
    CRead waker nat
  | CWrite waker bytes
  | CSendTo waker bytes sock_addr
  | CRecvFrom waker nat
  | CRegister handle interest
  | CReRegister handle interest
  | CAccept waker
  | CPollOnce "duration option"
  | CTryClone
  | CTimeout waker
  | CLocalAddr
  | CRemoteAddr
  | CShutdown shutdown
  | CBroadCast
  | CSetBroadCast bool

datatype cmd_resp =
    RespNone
  | RespRecvFrom nat sock_addr
  | RespIncoming handle sock_addr
  | RespDataLen nat
  | RespTimeout bool
  | RespCloned handle
  | RespSockAddr sock_addr
  | RespBroadCast bool

fun try_into_incoming :: "cmd_resp \<Rightarrow> (handle \<times> sock_addr) io_result" where
  "try_into_incoming (RespIncoming h raddr) = Ok (h, raddr)"
| "try_into_incoming _ = Err InvalidInput"

fun try_into_recv_from :: "cmd_resp \<Rightarrow> (nat \<times> sock_addr) io_result" where
  "try_into_recv_from (RespRecvFrom len raddr) = Ok (len, raddr)"
| "try_into_recv_from _ = Err InvalidInput"

fun try_into_sockaddr :: "cmd_resp \<Rightarrow> sock_addr io_result" where
  "try_into_sockaddr (RespSockAddr addr) = Ok addr"
| "try_into_sockaddr _ = Err InvalidInput"

fun try_into_datalen :: "cmd_resp \<Rightarrow> nat io_result" where
  "try_into_datalen (RespDataLen len) = Ok len"
| "try_into_datalen _ = Err InvalidInput"

fun try_into_timeout :: "cmd_resp \<Rightarrow> bool io_result" where
  "try_into_timeout (RespTimeout status) = Ok status"
| "try_into_timeout _ = Err InvalidInput"

fun try_into_broadcast :: "cmd_resp \<Rightarrow> bool io_result" where
  "try_into_broadcast (RespBroadCast status) = Ok status"
| "try_into_broadcast _ = Err InvalidInput"

fun try_into_none :: "cmd_resp \<Rightarrow> unit io_result" where
  "try_into_none RespNone = Ok ()"
| "try_into_none _ = Err InvalidInput"

section \<open>The driver trait\<close>

record 's raw_driver_ext =
  fd_user_define_open :: "usize \<Rightarrow> bytes \<Rightarrow> ('s, handle) op"
  fd_user_define_close :: "usize \<Rightarrow> handle \<Rightarrow> ('s, unit) op"
  fd_user_define_clone :: "handle \<Rightarrow> ('s, handle) op"
  file_open :: "string \<Rightarrow> file_mode \<Rightarrow> ('s, handle) op"
  file_write :: "waker \<Rightarrow> handle \<Rightarrow> bytes \<Rightarrow> ('s, nat) op"
  file_read :: "waker \<Rightarrow> handle \<Rightarrow> nat \<Rightarrow> ('s, bytes) op"
  file_close :: "handle \<Rightarrow> ('s, unit) op"
  timeout_open :: "duration \<Rightarrow> ('s, handle) op"
  timeout :: "waker \<Rightarrow> handle \<Rightarrow> ('s, bool) op"
  timeout_close :: "handle \<Rightarrow> ('s, unit) op"
  tcp_listener_bind :: "sock_addr list \<Rightarrow> ('s, handle) op"
  tcp_listener_accept :: "waker \<Rightarrow> handle \<Rightarrow> ('s, handle \<times> sock_addr) op"
  tcp_listener_close :: "handle \<Rightarrow> ('s, unit) op"
  tcp_stream_connect :: "sock_addr list \<Rightarrow> ('s, handle) op"
  tcp_stream_write :: "waker \<Rightarrow> handle \<Rightarrow> bytes \<Rightarrow> ('s, nat) op"
  tcp_stream_read :: "waker \<Rightarrow> handle \<Rightarrow> nat \<Rightarrow> ('s, bytes) op"
  tcp_stream_close :: "handle \<Rightarrow> ('s, unit) op"
  udp_socket_bind :: "sock_addr list \<Rightarrow> ('s, handle) op"
  udp_socket_sendto :: "waker \<Rightarrow> handle \<Rightarrow> bytes \<Rightarrow> sock_addr \<Rightarrow> ('s, nat) op"
  udp_socket_recv_from :: "waker \<Rightarrow> handle \<Rightarrow> nat \<Rightarrow> ('s, bytes \<times> sock_addr) op"
  udp_socket_close :: "handle \<Rightarrow> ('s, unit) op"
  udp_socket_set_broadcast :: "handle \<Rightarrow> bool \<Rightarrow> ('s, unit) op"
  udp_socket_get_broadcast :: "handle \<Rightarrow> ('s, bool) op"
  poller_open :: "duration option \<Rightarrow> ('s, handle) op"
  poller_clone :: "handle \<Rightarrow> ('s, handle) op"
  poller_register :: "handle \<Rightarrow> handle \<Rightarrow> interest \<Rightarrow> ('s, unit) op"
  poller_reregister :: "handle \<Rightarrow> handle \<Rightarrow> interest \<Rightarrow> ('s, unit) op"
  poller_deregister :: "handle \<Rightarrow> handle \<Rightarrow> ('s, unit) op"
  poller_poll_once :: "handle \<Rightarrow> duration option \<Rightarrow> ('s, unit) op"
  poller_close :: "handle \<Rightarrow> ('s, unit) op"
  tcp_listener_local_addr :: "handle \<Rightarrow> ('s, sock_addr) op"
  tcp_stream_local_addr :: "handle \<Rightarrow> ('s, sock_addr) op"
  tcp_stream_remote_addr :: "handle \<Rightarrow> ('s, sock_addr) op"
  tcp_stream_shutdown :: "handle \<Rightarrow> shutdown \<Rightarrow> ('s, unit) op"
  udp_local_addr :: "handle \<Rightarrow> ('s, sock_addr) op"

section \<open>The dispatch\<close>

definition fd_open :: "'s raw_driver_ext \<Rightarrow> description \<Rightarrow> open_flags \<Rightarrow> ('s, handle) op" where
  "fd_open d desc flags =
     (case desc of
        DFile \<Rightarrow> op_bind (op_lift (try_into_open_file flags)) (\<lambda>(path, mode). file_open d path mode)
      | DTcpListener \<Rightarrow> op_bind (op_lift (try_into_bind flags)) (tcp_listener_bind d)
      | DTcpStream \<Rightarrow> op_bind (op_lift (try_into_connect flags)) (tcp_stream_connect d)
      | DUdpSocket \<Rightarrow> op_bind (op_lift (try_into_bind flags)) (udp_socket_bind d)
      | DTimeout \<Rightarrow> op_bind (op_lift (try_into_duration flags)) (timeout_open d)
      | DPoller \<Rightarrow> poller_open d (case flags of FDuration t \<Rightarrow> Some t | _ \<Rightarrow> None)
      | DExternal i \<Rightarrow> op_bind (op_lift (try_into_user_defined flags)) (fd_user_define_open d i))"

text \<open>\<open>handle.expect(desc)?\<close> before a call.\<close>

definition expecting :: "description \<Rightarrow> handle \<Rightarrow> ('s, 'r) op \<Rightarrow> ('s, 'r) op" where
  "expecting desc h m = op_bind (op_lift (handle_expect desc h)) (\<lambda>_. m)"

definition fd_cntl :: "'s raw_driver_ext \<Rightarrow> handle \<Rightarrow> cmd \<Rightarrow> ('s, cmd_resp \<times> bytes) op" where
  "fd_cntl d h c =
     (case c of
        CRead w len \<Rightarrow>
          (case h_desc h of
             DFile \<Rightarrow> op_map (\<lambda>data. (RespDataLen (length data), data)) (file_read d w h len)
           | DTcpStream \<Rightarrow> op_map (\<lambda>data. (RespDataLen (length data), data)) (tcp_stream_read d w h len)
           | _ \<Rightarrow> op_lift (Err InvalidInput))
      | CWrite w buf \<Rightarrow>
          (case h_desc h of
             DFile \<Rightarrow> op_map (\<lambda>len. (RespDataLen len, [])) (file_write d w h buf)
           | DTcpStream \<Rightarrow> op_map (\<lambda>len. (RespDataLen len, [])) (tcp_stream_write d w h buf)
           | _ \<Rightarrow> op_lift (Err InvalidInput))
      | CSendTo w buf raddr \<Rightarrow>
          expecting DUdpSocket h (op_map (\<lambda>len. (RespDataLen len, [])) (udp_socket_sendto d w h buf raddr))
      | CRecvFrom w len \<Rightarrow>
          expecting DUdpSocket h
            (op_map (\<lambda>(data, raddr). (RespRecvFrom (length data) raddr, data)) (udp_socket_recv_from d w h len))
      | CRegister source interests \<Rightarrow>
          expecting DPoller h (op_map (\<lambda>_. (RespNone, [])) (poller_register d h source interests))
      | CReRegister source interests \<Rightarrow>
          expecting DPoller h (op_map (\<lambda>_. (RespNone, [])) (poller_reregister d h source interests))
      | CAccept w \<Rightarrow>
          expecting DTcpListener h
            (op_map (\<lambda>(stream, raddr). (RespIncoming stream raddr, [])) (tcp_listener_accept d w h))
      | CPollOnce dur \<Rightarrow> expecting DPoller h (op_map (\<lambda>_. (RespNone, [])) (poller_poll_once d h dur))
      | CTryClone \<Rightarrow>
          (case h_desc h of
             DPoller \<Rightarrow> op_map (\<lambda>h'. (RespCloned h', [])) (poller_clone d h)
           | _ \<Rightarrow> op_map (\<lambda>h'. (RespCloned h', [])) (fd_user_define_clone d h))
      | CTimeout w \<Rightarrow> expecting DTimeout h (op_map (\<lambda>n. (RespTimeout n, [])) (timeout d w h))
      | CLocalAddr \<Rightarrow>
          (case h_desc h of
             DTcpListener \<Rightarrow> op_map (\<lambda>a. (RespSockAddr a, [])) (tcp_listener_local_addr d h)
           | DTcpStream \<Rightarrow> op_map (\<lambda>a. (RespSockAddr a, [])) (tcp_stream_local_addr d h)
           | DUdpSocket \<Rightarrow> op_map (\<lambda>a. (RespSockAddr a, [])) (udp_local_addr d h)
           | _ \<Rightarrow> op_lift (Err InvalidInput))
      | CRemoteAddr \<Rightarrow>
          (case h_desc h of
             DTcpStream \<Rightarrow> op_map (\<lambda>a. (RespSockAddr a, [])) (tcp_stream_remote_addr d h)
           | _ \<Rightarrow> op_lift (Err InvalidInput))
      | CShutdown how \<Rightarrow>
          (case h_desc h of
             DTcpStream \<Rightarrow> op_map (\<lambda>_. (RespNone, [])) (tcp_stream_shutdown d h how)
           | _ \<Rightarrow> op_lift (Err InvalidInput))
      | CBroadCast \<Rightarrow>
          (case h_desc h of
             DUdpSocket \<Rightarrow> op_map (\<lambda>_. (RespNone, [])) (udp_socket_get_broadcast d h)
           | _ \<Rightarrow> op_lift (Err InvalidInput))
      | CSetBroadCast on \<Rightarrow>
          (case h_desc h of
             DUdpSocket \<Rightarrow> op_map (\<lambda>_. (RespNone, [])) (udp_socket_set_broadcast d h on)
           | _ \<Rightarrow> op_lift (Err InvalidInput)))"

definition fd_close :: "'s raw_driver_ext \<Rightarrow> handle \<Rightarrow> ('s, unit) op" where
  "fd_close d h =
     (case h_desc h of
        DFile \<Rightarrow> file_close d h
      | DTcpListener \<Rightarrow> tcp_listener_close d h
      | DTcpStream \<Rightarrow> tcp_stream_close d h
      | DUdpSocket \<Rightarrow> udp_socket_close d h
      | DTimeout \<Rightarrow> timeout_close d h
      | DPoller \<Rightarrow> poller_close d h
      | DExternal i \<Rightarrow> fd_user_define_close d i h)"

section \<open>Which commands a handle supports\<close>

text \<open>The reference: the table of supported commands, and the response a client converts from.\<close>

fun supports :: "description \<Rightarrow> cmd \<Rightarrow> bool" where
  "supports desc (CRead w n) \<longleftrightarrow> desc = DFile \<or> desc = DTcpStream"
| "supports desc (CWrite w b) \<longleftrightarrow> desc = DFile \<or> desc = DTcpStream"
| "supports desc (CSendTo w b a) \<longleftrightarrow> desc = DUdpSocket"
| "supports desc (CRecvFrom w n) \<longleftrightarrow> desc = DUdpSocket"
| "supports desc (CRegister h i) \<longleftrightarrow> desc = DPoller"
| "supports desc (CReRegister h i) \<longleftrightarrow> desc = DPoller"
| "supports desc (CAccept w) \<longleftrightarrow> desc = DTcpListener"
| "supports desc (CPollOnce t) \<longleftrightarrow> desc = DPoller"
| "supports desc CTryClone \<longleftrightarrow> True"
| "supports desc (CTimeout w) \<longleftrightarrow> desc = DTimeout"
| "supports desc CLocalAddr \<longleftrightarrow> desc = DTcpListener \<or> desc = DTcpStream \<or> desc = DUdpSocket"
| "supports desc CRemoteAddr \<longleftrightarrow> desc = DTcpStream"
| "supports desc (CShutdown h) \<longleftrightarrow> desc = DTcpStream"
| "supports desc CBroadCast \<longleftrightarrow> desc = DUdpSocket"
| "supports desc (CSetBroadCast b) \<longleftrightarrow> desc = DUdpSocket"

fun resp_kind_ok :: "cmd \<Rightarrow> cmd_resp \<Rightarrow> bool" where
  "resp_kind_ok (CRead w n) r = (try_into_datalen r \<noteq> Err InvalidInput)"
| "resp_kind_ok (CWrite w b) r = (try_into_datalen r \<noteq> Err InvalidInput)"
| "resp_kind_ok (CSendTo w b a) r = (try_into_datalen r \<noteq> Err InvalidInput)"
| "resp_kind_ok (CRecvFrom w n) r = (try_into_recv_from r \<noteq> Err InvalidInput)"
| "resp_kind_ok (CAccept w) r = (try_into_incoming r \<noteq> Err InvalidInput)"
| "resp_kind_ok CTryClone r = (\<exists>h. r = RespCloned h)"
| "resp_kind_ok (CTimeout w) r = (try_into_timeout r \<noteq> Err InvalidInput)"
| "resp_kind_ok CLocalAddr r = (try_into_sockaddr r \<noteq> Err InvalidInput)"
| "resp_kind_ok CRemoteAddr r = (try_into_sockaddr r \<noteq> Err InvalidInput)"
| "resp_kind_ok CBroadCast r = (try_into_broadcast r \<noteq> Err InvalidInput)"
| "resp_kind_ok _ r = (try_into_none r \<noteq> Err InvalidInput)"

lemma expecting_Ok [simp]: "h_desc h = desc \<Longrightarrow> expecting desc h m s = m s"
  by (simp add: expecting_def handle_expect_def)

lemma expecting_Err [simp]: "h_desc h \<noteq> desc \<Longrightarrow> expecting desc h m s = (Err InvalidInput, s)"
  by (simp add: expecting_def handle_expect_def)

lemma fd_cntl_unsupported: "\<not> supports (h_desc h) c \<Longrightarrow> fd_cntl d h c s = (Err InvalidInput, s)"
  by (cases c) (auto simp: fd_cntl_def split: description.splits)

lemma expecting_eq_Ok: "expecting desc h m s = (Ok x, s') \<longleftrightarrow> h_desc h = desc \<and> m s = (Ok x, s')"
  by (cases "h_desc h = desc") auto

lemma fd_cntl_kind: "\<lbrakk> fd_cntl d h c s = (Ok (r, data), s'); c \<noteq> CBroadCast \<rbrakk> \<Longrightarrow> resp_kind_ok c r"
  by (cases c) (auto simp: fd_cntl_def op_map_Ok expecting_eq_Ok split: description.splits)

section \<open>Properties\<close>


end
