(* ===== verification/Mio_Driver.thy ===== *)
theory Mio_Driver
  imports Io_Driver Time_Wheel
begin

text \<open>
  The \<open>mio\<close> driver of \<open>crates/io/src/mio\<close>: timers (\<open>timer.rs\<close>), handles bound to a poller
  (\<open>with_poller.rs\<close>), the poller with its tables of wakers and its time wheel (\<open>poller.rs\<close>) and
  the driver itself (\<open>driver.rs\<close>) as an instance of the trait record of \<open>Io_Driver\<close>. The
  operating system behind \<open>mio\<close> and \<open>std::net\<close> is a parameter, a record of calls on a world
  \<open>'w\<close> that succeed or fail with an error. A box behind a handle is an entry of a heap; to use
  a handle after its box is freed, or with another type, is undefined behaviour in the code, and the
  model answers it with \<open>Panic\<close>.
\<close>

section \<open>The system calls\<close>

type_synonym ('w, 'r) sys = "'w \<Rightarrow> (io_error + 'r) \<times> 'w"
type_synonym sysfd = nat

record mio_event =
  me_token :: token
  me_readable :: bool
  me_writable :: bool

record 'w os =
  os_now :: "'w \<Rightarrow> nat \<times> 'w"
  os_poll_new :: "nat \<Rightarrow> ('w, unit) sys"
  os_poll :: "nat \<Rightarrow> duration \<Rightarrow> ('w, mio_event list) sys"
  os_register :: "nat \<Rightarrow> sysfd \<Rightarrow> token \<Rightarrow> bool \<times> bool \<Rightarrow> ('w, unit) sys"
  os_deregister :: "nat \<Rightarrow> sysfd \<Rightarrow> ('w, unit) sys"
  os_tcp_listen :: "sock_addr list \<Rightarrow> ('w, sysfd) sys"
  os_tcp_connect :: "sock_addr list \<Rightarrow> ('w, sysfd) sys"
  os_udp_bind :: "sock_addr list \<Rightarrow> ('w, sysfd) sys"
  os_set_nonblocking :: "sysfd \<Rightarrow> ('w, unit) sys"
  os_accept :: "sysfd \<Rightarrow> ('w, sysfd \<times> sock_addr) sys"
  os_read :: "sysfd \<Rightarrow> nat \<Rightarrow> ('w, bytes) sys"
  os_write :: "sysfd \<Rightarrow> bytes \<Rightarrow> ('w, nat) sys"
  os_send_to :: "sysfd \<Rightarrow> bytes \<Rightarrow> sock_addr \<Rightarrow> ('w, nat) sys"
  os_recv_from :: "sysfd \<Rightarrow> nat \<Rightarrow> ('w, bytes \<times> sock_addr) sys"
  os_local_addr :: "sysfd \<Rightarrow> ('w, sock_addr) sys"
  os_peer_addr :: "sysfd \<Rightarrow> ('w, sock_addr) sys"
  os_shutdown :: "sysfd \<Rightarrow> shutdown \<Rightarrow> ('w, unit) sys"
  os_set_broadcast :: "sysfd \<Rightarrow> bool \<Rightarrow> ('w, unit) sys"
  os_broadcast :: "sysfd \<Rightarrow> ('w, bool) sys"
  os_drop :: "sysfd \<Rightarrow> 'w \<Rightarrow> 'w"

section \<open>The state\<close>

record mio_timer =
  mt_start_instant :: "nat option"
  mt_duration :: duration
  mt_tick_duration :: "duration option"
  mt_timewheel_ticks :: "u64 option"

text \<open>A \<open>MioPoller\<close> is a reference to its shared part, here an index.\<close>

type_synonym mio_poller = nat

record 'a mio_with_poller =
  mw_value :: 'a
  mw_poller :: "mio_poller option"
  mw_once :: bool

record raw_mio_poller =
  rp_read_wakers :: "token \<rightharpoonup> waker"
  rp_write_wakers :: "token \<rightharpoonup> waker"
  rp_hashed_timewheel :: "token time_wheel"
  rp_start_instant :: nat
  rp_tick_duration :: duration

text \<open>What a handle's box holds; the three socket types differ by their description.\<close>

datatype mio_obj =
    OTimer "mio_timer mio_with_poller"
  | OSocket description "sysfd mio_with_poller"
  | OPoller mio_poller

record 'w mio_state =
  ms_os :: 'w
  ms_next_token :: usize
  ms_heap :: "nat \<rightharpoonup> mio_obj"
  ms_next_box :: nat
  ms_pollers :: "mio_poller \<rightharpoonup> raw_mio_poller"
  ms_next_poller :: nat
  ms_woken :: "waker list"

definition sys_op :: "('w, 'r) sys \<Rightarrow> ('w mio_state, 'r) op" where
  "sys_op f s =
     (case f (ms_os s) of
        (Inl e, w) \<Rightarrow> (Err e, s\<lparr>ms_os := w\<rparr>)
      | (Inr r, w) \<Rightarrow> (Ok r, s\<lparr>ms_os := w\<rparr>))"

definition now_op :: "'w os \<Rightarrow> ('w mio_state, nat) op" where
  "now_op os s = (case os_now os (ms_os s) of (t, w) \<Rightarrow> (Ok t, s\<lparr>ms_os := w\<rparr>))"

definition wake :: "waker \<Rightarrow> ('w mio_state, unit) op" where
  "wake w s = (Ok (), s\<lparr>ms_woken := ms_woken s @ [w]\<rparr>)"

definition get_poller :: "mio_poller \<Rightarrow> ('w mio_state, raw_mio_poller) op" where
  "get_poller p s = (unwrap (ms_pollers s p), s)"

definition set_poller :: "mio_poller \<Rightarrow> raw_mio_poller \<Rightarrow> 'w mio_state \<Rightarrow> 'w mio_state" where
  "set_poller p rp s = s\<lparr>ms_pollers := (ms_pollers s)(p \<mapsto> rp)\<rparr>"

text \<open>\<open>(desc, value).into()\<close>, \<open>TypedHandle::with_mut\<close> and \<open>drop_as\<close>.\<close>

definition handle_from :: "description \<Rightarrow> mio_obj \<Rightarrow> ('w mio_state, handle) op" where
  "handle_from desc value s =
     (let (h, next') = handle_new desc None None (ms_next_box s) (ms_next_token s) in
      (Ok h, s\<lparr>ms_next_token := next', ms_heap := (ms_heap s)(ms_next_box s \<mapsto> value),
               ms_next_box := ms_next_box s + 1\<rparr>))"

definition get_box :: "handle \<Rightarrow> ('w mio_state, mio_obj) op" where
  "get_box h s = (unwrap (ms_heap s (h_data h)), s)"

definition put_box :: "handle \<Rightarrow> mio_obj \<Rightarrow> ('w mio_state, unit) op" where
  "put_box h obj s = (Ok (), s\<lparr>ms_heap := (ms_heap s)(h_data h \<mapsto> obj)\<rparr>)"

fun as_timer :: "mio_obj \<Rightarrow> mio_timer mio_with_poller io_result" where
  "as_timer (OTimer t) = Ok t"
| "as_timer _ = Panic"

fun as_socket :: "description \<Rightarrow> mio_obj \<Rightarrow> sysfd mio_with_poller io_result" where
  "as_socket desc (OSocket d m) = (if d = desc then Ok m else Panic)"
| "as_socket desc _ = Panic"

fun as_poller :: "mio_obj \<Rightarrow> mio_poller io_result" where
  "as_poller (OPoller p) = Ok p"
| "as_poller _ = Panic"

definition with_timer :: "handle \<Rightarrow> (mio_timer mio_with_poller \<Rightarrow> ('w mio_state, 'r) op) \<Rightarrow> ('w mio_state, 'r) op" where
  "with_timer h f = op_bind (get_box h) (\<lambda>obj. op_bind (op_lift (as_timer obj)) f)"

definition with_socket ::
  "description \<Rightarrow> handle \<Rightarrow> (sysfd mio_with_poller \<Rightarrow> ('w mio_state, 'r) op) \<Rightarrow> ('w mio_state, 'r) op" where
  "with_socket desc h f = op_bind (get_box h) (\<lambda>obj. op_bind (op_lift (as_socket desc obj)) f)"

definition with_poller :: "handle \<Rightarrow> (mio_poller \<Rightarrow> ('w mio_state, 'r) op) \<Rightarrow> ('w mio_state, 'r) op" where
  "with_poller h f = op_bind (get_box h) (\<lambda>obj. op_bind (op_lift (as_poller obj)) f)"

text \<open>Dropping a box drops the socket in it, which closes the descriptor.\<close>

definition drop_as :: "'w os \<Rightarrow> handle \<Rightarrow> ('w mio_state, unit) op" where
  "drop_as os h =
     op_bind (get_box h) (\<lambda>obj s.
       (Ok (), s\<lparr>ms_heap := (ms_heap s)(h_data h := None),
                 ms_os := (case obj of OSocket d m \<Rightarrow> os_drop os (mw_value m) (ms_os s) | _ \<Rightarrow> ms_os s)\<rparr>))"

section \<open>Handles bound to a poller\<close>

definition mw_new :: "'a \<Rightarrow> 'a mio_with_poller" where
  "mw_new value = \<lparr>mw_value = value, mw_poller = None, mw_once = False\<rparr>"

definition poller_of :: "'a mio_with_poller \<Rightarrow> mio_poller io_result" where
  "poller_of m = unwrap (mw_poller m)"

definition register_poller :: "mio_poller \<Rightarrow> 'a mio_with_poller \<Rightarrow> 'a mio_with_poller io_result" where
  "register_poller p m =
     and_then (assert_true (\<not> mw_once m)) (\<lambda>_. Ok (m\<lparr>mw_poller := Some p, mw_once := True\<rparr>))"

section \<open>Timers\<close>

definition mio_timer_new :: "duration \<Rightarrow> mio_timer" where
  "mio_timer_new d =
     \<lparr>mt_start_instant = None, mt_duration = d, mt_tick_duration = None, mt_timewheel_ticks = None\<rparr>"

definition is_started :: "mio_timer \<Rightarrow> bool" where
  "is_started t \<longleftrightarrow> mt_start_instant t \<noteq> None"

text \<open>
  \<open>start\<close> reads the clock for the timer, and \<open>new_timer\<close> reads it again for the wheel.
\<close>

definition mio_timer_start ::
  "'w os \<Rightarrow> token \<Rightarrow> mio_poller \<Rightarrow> mio_timer \<Rightarrow> ('w mio_state, mio_timer \<times> bool) op" where
  "mio_timer_start os tok p t =
     op_bind (get_poller p) (\<lambda>rp.
     op_bind (now_op os) (\<lambda>start.
     let t1 = t\<lparr>mt_start_instant := Some start, mt_tick_duration := Some (rp_tick_duration rp)\<rparr> in
     op_bind (now_op os) (\<lambda>now.
     op_bind (op_lift (new_timer (now - rp_start_instant rp) tok (mt_duration t1) (rp_hashed_timewheel rp)))
       (\<lambda>(ticks, wheel) s.
          (Ok (t1\<lparr>mt_timewheel_ticks := ticks\<rparr>, ticks \<noteq> None),
           set_poller p (rp\<lparr>rp_hashed_timewheel := wheel\<rparr>) s)))))"

definition is_expired :: "'w os \<Rightarrow> mio_timer \<Rightarrow> ('w mio_state, bool) op" where
  "is_expired os t =
     (case mt_start_instant t of
        Some start \<Rightarrow>
          op_bind (now_op os) (\<lambda>now.
            let elapsed = now - start in
            if elapsed \<ge> mt_duration t then op_lift (Ok True)
            else op_bind (op_lift (unwrap (mt_tick_duration t))) (\<lambda>tick.
              op_lift (Ok (mt_duration t - elapsed < tick))))
      | None \<Rightarrow> op_lift (Ok False))"

section \<open>The poller\<close>

definition raw_mio_poller_new :: "duration \<Rightarrow> nat \<Rightarrow> raw_mio_poller" where
  "raw_mio_poller_new tick_duration now =
     \<lparr>rp_read_wakers = Map.empty, rp_write_wakers = Map.empty, rp_hashed_timewheel = tw_new tick_duration,
      rp_start_instant = now, rp_tick_duration = tick_duration\<rparr>"

definition mio_poller_new :: "'w os \<Rightarrow> duration \<Rightarrow> ('w mio_state, mio_poller) op" where
  "mio_poller_new os tick_duration =
     op_bind (\<lambda>s. sys_op (os_poll_new os (ms_next_poller s)) s) (\<lambda>_.
     op_bind (now_op os) (\<lambda>now s.
       (Ok (ms_next_poller s),
        s\<lparr>ms_pollers := (ms_pollers s)(ms_next_poller s \<mapsto> raw_mio_poller_new tick_duration now),
          ms_next_poller := ms_next_poller s + 1\<rparr>)))"

definition rp_add_waker :: "token \<Rightarrow> interest \<Rightarrow> waker \<Rightarrow> raw_mio_poller \<Rightarrow> raw_mio_poller" where
  "rp_add_waker tok interests w rp =
     (if interest_contains interests Readable
      then rp\<lparr>rp_read_wakers := (rp_read_wakers rp)(tok \<mapsto> w)\<rparr>
      else if interest_contains interests Writable
      then rp\<lparr>rp_write_wakers := (rp_write_wakers rp)(tok \<mapsto> w)\<rparr>
      else rp)"

definition rp_remove_waker :: "token \<Rightarrow> interest \<Rightarrow> raw_mio_poller \<Rightarrow> waker option \<times> raw_mio_poller" where
  "rp_remove_waker tok interests rp =
     (if interest_contains interests Readable
      then let (w, m) = map_remove tok (rp_read_wakers rp) in (w, rp\<lparr>rp_read_wakers := m\<rparr>)
      else if interest_contains interests Writable
      then let (w, m) = map_remove tok (rp_write_wakers rp) in (w, rp\<lparr>rp_write_wakers := m\<rparr>)
      else (None, rp))"

definition poller_add_waker :: "mio_poller \<Rightarrow> token \<Rightarrow> interest \<Rightarrow> waker \<Rightarrow> ('w mio_state, unit) op" where
  "poller_add_waker p tok interests w =
     op_bind (get_poller p) (\<lambda>rp s. (Ok (), set_poller p (rp_add_waker tok interests w rp) s))"

definition poller_remove_waker :: "mio_poller \<Rightarrow> token \<Rightarrow> interest \<Rightarrow> ('w mio_state, waker option) op" where
  "poller_remove_waker p tok interests =
     op_bind (get_poller p) (\<lambda>rp s.
       let (w, rp') = rp_remove_waker tok interests rp in (Ok w, set_poller p rp' s))"

text \<open>
  The interests of an event: the writable bit is cleared in the \<open>else\<close> branch only. A fired timer
  is a readable event.
\<close>

definition event_interests :: "mio_event \<Rightarrow> interest" where
  "event_interests ev =
     (let interests = Readable OR Writable in
      if \<not> me_readable ev then interests XOR Readable
      else if \<not> me_writable ev then interests XOR Writable
      else interests)"

definition wake_if :: "bool \<Rightarrow> waker option \<Rightarrow> waker list" where
  "wake_if b w = (if b then case w of Some x \<Rightarrow> [x] | None \<Rightarrow> [] else [])"

fun notify_events :: "(token \<times> interest) list \<Rightarrow> raw_mio_poller \<Rightarrow> raw_mio_poller \<times> waker list" where
  "notify_events [] rp = (rp, [])"
| "notify_events ((tok, interests) # evs) rp =
     (let readable = interest_contains interests Readable;
          rp1 = (if readable then rp\<lparr>rp_read_wakers := (rp_read_wakers rp)(tok := None)\<rparr> else rp);
          writable = interest_contains interests Writable;
          rp2 = (if writable then rp1\<lparr>rp_write_wakers := (rp_write_wakers rp1)(tok := None)\<rparr> else rp1);
          (rp3, woken) = notify_events evs rp2
      in (rp3, wake_if readable (rp_read_wakers rp tok) @ wake_if writable (rp_write_wakers rp1 tok) @ woken))"

text \<open>
  A tick by one thread returns (\<open>next_tick_returns\<close> below), so that the branch \<open>None\<close>, a loop
  without end, is dead.
\<close>

definition wheel_next_tick :: "nat \<Rightarrow> raw_mio_poller \<Rightarrow> (token list option \<times> raw_mio_poller) io_result" where
  "wheel_next_tick now rp =
     (case next_tick (now - rp_start_instant rp) (rp_hashed_timewheel rp) of
        Some r \<Rightarrow> map_ok (\<lambda>(ts, wheel). (ts, rp\<lparr>rp_hashed_timewheel := wheel\<rparr>)) r
      | None \<Rightarrow> Panic)"

definition mio_poll_once :: "'w os \<Rightarrow> mio_poller \<Rightarrow> duration option \<Rightarrow> ('w mio_state, unit) op" where
  "mio_poll_once os p limit =
     op_bind (get_poller p) (\<lambda>rp0.
     let limit = (case limit of Some t \<Rightarrow> t | None \<Rightarrow> rp_tick_duration rp0) in
     op_bind (sys_op (os_poll os p limit)) (\<lambda>events.
     let hala_events = map (\<lambda>ev. (me_token ev, event_interests ev)) events in
     op_bind (now_op os) (\<lambda>now.
     op_bind (get_poller p) (\<lambda>rp.
     op_bind (op_lift (wheel_next_tick now rp)) (\<lambda>(timers, rp1).
     let hala_events = hala_events @ (case timers of Some ts \<Rightarrow> map (\<lambda>t. (t, Readable)) ts | None \<Rightarrow> []);
         (rp2, woken) = notify_events hala_events rp1
     in (\<lambda>s. (Ok (), (set_poller p rp2 s)\<lparr>ms_woken := ms_woken s @ woken\<rparr>)))))))"

text \<open>\<open>mio::Interest::remove\<close> answers \<open>None\<close> when nothing is left, and the \<open>unwrap\<close> panics.\<close>

definition mio_interests :: "interest \<Rightarrow> (bool \<times> bool) io_result" where
  "mio_interests interests =
     (let r = interest_contains interests Readable; w = interest_contains interests Writable in
      if \<not> w \<and> \<not> r then Panic else Ok (r, w))"

definition register_socket :: "'w os \<Rightarrow> mio_poller \<Rightarrow> handle \<Rightarrow> bool \<times> bool \<Rightarrow> ('w mio_state, unit) op" where
  "register_socket os p h mi =
     with_socket (h_desc h) h (\<lambda>obj.
       op_bind (op_lift (register_poller p obj)) (\<lambda>obj'.
       op_bind (put_box h (OSocket (h_desc h) obj')) (\<lambda>_.
       sys_op (os_register os p (mw_value obj') (h_token h) mi))))"

definition register_timer :: "'w os \<Rightarrow> mio_poller \<Rightarrow> handle \<Rightarrow> ('w mio_state, unit) op" where
  "register_timer os p h =
     with_timer h (\<lambda>obj.
       op_bind (op_lift (assert_true (\<not> is_started (mw_value obj)))) (\<lambda>_.
       op_bind (op_lift (register_poller p obj)) (\<lambda>obj'.
       op_bind (mio_timer_start os (h_token h) p (mw_value obj')) (\<lambda>(t, started).
       put_box h (OTimer (obj'\<lparr>mw_value := t\<rparr>))))))"

definition mio_register :: "'w os \<Rightarrow> mio_poller \<Rightarrow> handle \<Rightarrow> interest \<Rightarrow> ('w mio_state, unit) op" where
  "mio_register os p h interests =
     op_bind (op_lift (mio_interests interests)) (\<lambda>mi.
     case h_desc h of
       DFile \<Rightarrow> op_lift Panic
     | DTcpListener \<Rightarrow> register_socket os p h mi
     | DTcpStream \<Rightarrow> register_socket os p h mi
     | DUdpSocket \<Rightarrow> register_socket os p h mi
     | DTimeout \<Rightarrow> register_timer os p h
     | _ \<Rightarrow> op_lift (Err InvalidInput))"

definition deregister_socket :: "'w os \<Rightarrow> mio_poller \<Rightarrow> handle \<Rightarrow> ('w mio_state, unit) op" where
  "deregister_socket os p h =
     with_socket (h_desc h) h (\<lambda>source. sys_op (os_deregister os p (mw_value source)))"

definition mio_deregister :: "'w os \<Rightarrow> mio_poller \<Rightarrow> handle \<Rightarrow> ('w mio_state, unit) op" where
  "mio_deregister os p h =
     op_bind
       (case h_desc h of
          DFile \<Rightarrow> op_lift Panic
        | DTcpListener \<Rightarrow> deregister_socket os p h
        | DTcpStream \<Rightarrow> deregister_socket os p h
        | DUdpSocket \<Rightarrow> deregister_socket os p h
        | DTimeout \<Rightarrow> with_timer h (\<lambda>_. op_lift (Ok ()))
        | _ \<Rightarrow> op_lift (Err InvalidInput))
     (\<lambda>_. op_bind (poller_remove_waker p (h_token h) interest_all) (\<lambda>waker.
       case waker of Some w \<Rightarrow> wake w | None \<Rightarrow> op_lift (Ok ())))"

section \<open>Nonblocking calls\<close>

text \<open>
  The loop retries an interrupted call. \<open>fuel\<close> bounds the number of consecutive interruptions; the
  loop never returns \<open>Interrupted\<close>, which therefore stands for a loop that is still running.
\<close>

fun retry_call :: "nat \<Rightarrow> ('w, 'r) sys \<Rightarrow> ('w, 'r) sys" where
  "retry_call 0 f w = (Inl Interrupted, w)"
| "retry_call (Suc fuel) f w =
     (case f w of
        (Inl Interrupted, w') \<Rightarrow> retry_call fuel f w'
      | r \<Rightarrow> r)"

definition nonblocking_call ::
  "nat \<Rightarrow> mio_poller \<Rightarrow> token \<Rightarrow> interest \<Rightarrow> waker \<Rightarrow> ('w, 'r) sys \<Rightarrow> ('w mio_state, 'r) op" where
  "nonblocking_call fuel p tok interests waker f =
     op_bind (poller_add_waker p tok interests waker) (\<lambda>_.
     op_bind (sys_op (retry_call fuel f)) (\<lambda>r.
     op_bind (poller_remove_waker p tok interests) (\<lambda>_. op_lift (Ok r))))"

section \<open>The driver\<close>

definition mio_timeout_open :: "duration \<Rightarrow> ('w mio_state, handle) op" where
  "mio_timeout_open d =
     op_bind (op_lift (assert_true (d \<noteq> 0))) (\<lambda>_. handle_from DTimeout (OTimer (mw_new (mio_timer_new d))))"

definition mio_timeout :: "'w os \<Rightarrow> waker \<Rightarrow> handle \<Rightarrow> ('w mio_state, bool) op" where
  "mio_timeout os waker h =
     expecting DTimeout h (with_timer h (\<lambda>timer.
       op_bind (is_expired os (mw_value timer)) (\<lambda>expired.
       if expired then op_lift (Ok True)
       else op_bind (op_lift (poller_of timer)) (\<lambda>p.
         op_bind (poller_add_waker p (h_token h) Readable waker) (\<lambda>_. op_lift (Ok False))))))"

definition mio_timeout_close :: "'w os \<Rightarrow> handle \<Rightarrow> ('w mio_state, unit) op" where
  "mio_timeout_close os h =
     expecting DTimeout h
       (op_bind (with_timer h (\<lambda>timer. op_bind (op_lift (poller_of timer)) (\<lambda>p. mio_deregister os p h)))
         (\<lambda>_. drop_as os h))"

text \<open>Binding a listener or a datagram socket and connecting a stream.\<close>

definition open_socket :: "'w os \<Rightarrow> description \<Rightarrow> ('w, sysfd) sys \<Rightarrow> ('w mio_state, handle) op" where
  "open_socket os desc create =
     op_bind (sys_op create) (\<lambda>fd s.
     case sys_op (os_set_nonblocking os fd) s of
       (Ok _, s') \<Rightarrow> handle_from desc (OSocket desc (mw_new fd)) s'
     | (Err e, s') \<Rightarrow> (Err e, s'\<lparr>ms_os := os_drop os fd (ms_os s')\<rparr>)
     | (Panic, s') \<Rightarrow> (Panic, s'))"

definition mio_tcp_listener_bind :: "'w os \<Rightarrow> sock_addr list \<Rightarrow> ('w mio_state, handle) op" where
  "mio_tcp_listener_bind os laddrs = open_socket os DTcpListener (os_tcp_listen os laddrs)"

definition mio_tcp_stream_connect :: "'w os \<Rightarrow> sock_addr list \<Rightarrow> ('w mio_state, handle) op" where
  "mio_tcp_stream_connect os raddrs = open_socket os DTcpStream (os_tcp_connect os raddrs)"

definition mio_udp_socket_bind :: "'w os \<Rightarrow> sock_addr list \<Rightarrow> ('w mio_state, handle) op" where
  "mio_udp_socket_bind os laddrs = open_socket os DUdpSocket (os_udp_bind os laddrs)"

definition close_socket :: "'w os \<Rightarrow> description \<Rightarrow> handle \<Rightarrow> ('w mio_state, unit) op" where
  "close_socket os desc h =
     expecting desc h
       (op_bind (with_socket desc h (\<lambda>socket. op_bind (op_lift (poller_of socket)) (\<lambda>p. mio_deregister os p h)))
         (\<lambda>_. drop_as os h))"

text \<open>A call on a registered socket through \<open>nonblocking_call\<close>, and a plain one.\<close>

definition socket_call ::
  "nat \<Rightarrow> description \<Rightarrow> interest \<Rightarrow> waker \<Rightarrow> handle \<Rightarrow> (sysfd \<Rightarrow> ('w, 'r) sys) \<Rightarrow> ('w mio_state, 'r) op" where
  "socket_call fuel desc interests waker h f =
     expecting desc h (with_socket desc h (\<lambda>socket.
       op_bind (op_lift (poller_of socket)) (\<lambda>p.
       nonblocking_call fuel p (h_token h) interests waker (f (mw_value socket)))))"

definition socket_get :: "description \<Rightarrow> handle \<Rightarrow> (sysfd \<Rightarrow> ('w, 'r) sys) \<Rightarrow> ('w mio_state, 'r) op" where
  "socket_get desc h f = expecting desc h (with_socket desc h (\<lambda>socket. sys_op (f (mw_value socket))))"

definition mio_tcp_listener_accept ::
  "'w os \<Rightarrow> nat \<Rightarrow> waker \<Rightarrow> handle \<Rightarrow> ('w mio_state, handle \<times> sock_addr) op" where
  "mio_tcp_listener_accept os fuel waker h =
     op_bind (socket_call fuel DTcpListener Readable waker h (os_accept os)) (\<lambda>(stream, raddr).
       op_map (\<lambda>h'. (h', raddr)) (handle_from DTcpStream (OSocket DTcpStream (mw_new stream))))"

definition mio_poller_open :: "'w os \<Rightarrow> duration option \<Rightarrow> ('w mio_state, handle) op" where
  "mio_poller_open os d =
     op_bind (mio_poller_new os (case d of Some t \<Rightarrow> t | None \<Rightarrow> 10000 * 1000)) (\<lambda>p.
       handle_from DPoller (OPoller p))"

definition mio_poller_clone :: "handle \<Rightarrow> ('w mio_state, handle) op" where
  "mio_poller_clone h = expecting DPoller h (with_poller h (\<lambda>p. handle_from DPoller (OPoller p)))"

definition mio_tcp_listener_close :: "'w os \<Rightarrow> handle \<Rightarrow> ('w mio_state, unit) op" where
  "mio_tcp_listener_close os h = close_socket os DTcpListener h"

definition mio_tcp_stream_write :: "'w os \<Rightarrow> nat \<Rightarrow> waker \<Rightarrow> handle \<Rightarrow> bytes \<Rightarrow> ('w mio_state, nat) op" where
  "mio_tcp_stream_write os fuel w h buf = socket_call fuel DTcpStream Writable w h (\<lambda>fd. os_write os fd buf)"

definition mio_tcp_stream_read :: "'w os \<Rightarrow> nat \<Rightarrow> waker \<Rightarrow> handle \<Rightarrow> nat \<Rightarrow> ('w mio_state, bytes) op" where
  "mio_tcp_stream_read os fuel w h len = socket_call fuel DTcpStream Readable w h (\<lambda>fd. os_read os fd len)"

definition mio_tcp_stream_close :: "'w os \<Rightarrow> handle \<Rightarrow> ('w mio_state, unit) op" where
  "mio_tcp_stream_close os h = close_socket os DTcpStream h"

definition mio_udp_socket_sendto ::
  "'w os \<Rightarrow> nat \<Rightarrow> waker \<Rightarrow> handle \<Rightarrow> bytes \<Rightarrow> sock_addr \<Rightarrow> ('w mio_state, nat) op" where
  "mio_udp_socket_sendto os fuel w h buf raddr =
     socket_call fuel DUdpSocket Writable w h (\<lambda>fd. os_send_to os fd buf raddr)"

definition mio_udp_socket_recv_from ::
  "'w os \<Rightarrow> nat \<Rightarrow> waker \<Rightarrow> handle \<Rightarrow> nat \<Rightarrow> ('w mio_state, bytes \<times> sock_addr) op" where
  "mio_udp_socket_recv_from os fuel w h len =
     socket_call fuel DUdpSocket Readable w h (\<lambda>fd. os_recv_from os fd len)"

definition mio_udp_socket_close :: "'w os \<Rightarrow> handle \<Rightarrow> ('w mio_state, unit) op" where
  "mio_udp_socket_close os h = close_socket os DUdpSocket h"

definition mio_udp_socket_set_broadcast :: "'w os \<Rightarrow> handle \<Rightarrow> bool \<Rightarrow> ('w mio_state, unit) op" where
  "mio_udp_socket_set_broadcast os h on = socket_get DUdpSocket h (\<lambda>fd. os_set_broadcast os fd on)"

definition mio_udp_socket_get_broadcast :: "'w os \<Rightarrow> handle \<Rightarrow> ('w mio_state, bool) op" where
  "mio_udp_socket_get_broadcast os h = socket_get DUdpSocket h (os_broadcast os)"

definition mio_poller_register :: "'w os \<Rightarrow> handle \<Rightarrow> handle \<Rightarrow> interest \<Rightarrow> ('w mio_state, unit) op" where
  "mio_poller_register os poller source interests =
     expecting DPoller poller (with_poller poller (\<lambda>p. mio_register os p source interests))"

definition mio_poller_deregister :: "'w os \<Rightarrow> handle \<Rightarrow> handle \<Rightarrow> ('w mio_state, unit) op" where
  "mio_poller_deregister os poller source =
     expecting DPoller poller (with_poller poller (\<lambda>p. mio_deregister os p source))"

definition mio_poller_poll_once :: "'w os \<Rightarrow> handle \<Rightarrow> duration option \<Rightarrow> ('w mio_state, unit) op" where
  "mio_poller_poll_once os poller dur =
     expecting DPoller poller (with_poller poller (\<lambda>p. mio_poll_once os p dur))"

definition mio_poller_close :: "'w os \<Rightarrow> handle \<Rightarrow> ('w mio_state, unit) op" where
  "mio_poller_close os poller = expecting DPoller poller (drop_as os poller)"

definition mio_tcp_listener_local_addr :: "'w os \<Rightarrow> handle \<Rightarrow> ('w mio_state, sock_addr) op" where
  "mio_tcp_listener_local_addr os h = socket_get DTcpListener h (os_local_addr os)"

definition mio_tcp_stream_local_addr :: "'w os \<Rightarrow> handle \<Rightarrow> ('w mio_state, sock_addr) op" where
  "mio_tcp_stream_local_addr os h = socket_get DTcpStream h (os_local_addr os)"

definition mio_tcp_stream_remote_addr :: "'w os \<Rightarrow> handle \<Rightarrow> ('w mio_state, sock_addr) op" where
  "mio_tcp_stream_remote_addr os h = socket_get DTcpStream h (os_peer_addr os)"

definition mio_tcp_stream_shutdown :: "'w os \<Rightarrow> handle \<Rightarrow> shutdown \<Rightarrow> ('w mio_state, unit) op" where
  "mio_tcp_stream_shutdown os h how = socket_get DTcpStream h (\<lambda>fd. os_shutdown os fd how)"

definition mio_udp_local_addr :: "'w os \<Rightarrow> handle \<Rightarrow> ('w mio_state, sock_addr) op" where
  "mio_udp_local_addr os h = socket_get DUdpSocket h (os_local_addr os)"

text \<open>\<open>todo!()\<close> panics.\<close>

definition mio_driver :: "'w os \<Rightarrow> nat \<Rightarrow> 'w mio_state raw_driver_ext" where
  "mio_driver os fuel =
     \<lparr>fd_user_define_open = (\<lambda>_ _. op_lift Panic),
      fd_user_define_close = (\<lambda>_ _. op_lift Panic),
      fd_user_define_clone = (\<lambda>_. op_lift Panic),
      file_open = (\<lambda>_ _. op_lift Panic),
      file_write = (\<lambda>_ _ _. op_lift Panic),
      file_read = (\<lambda>_ _ _. op_lift Panic),
      file_close = (\<lambda>_. op_lift Panic),
      timeout_open = mio_timeout_open,
      timeout = mio_timeout os,
      timeout_close = mio_timeout_close os,
      tcp_listener_bind = mio_tcp_listener_bind os,
      tcp_listener_accept = mio_tcp_listener_accept os fuel,
      tcp_listener_close = mio_tcp_listener_close os,
      tcp_stream_connect = mio_tcp_stream_connect os,
      tcp_stream_write = mio_tcp_stream_write os fuel,
      tcp_stream_read = mio_tcp_stream_read os fuel,
      tcp_stream_close = mio_tcp_stream_close os,
      udp_socket_bind = mio_udp_socket_bind os,
      udp_socket_sendto = mio_udp_socket_sendto os fuel,
      udp_socket_recv_from = mio_udp_socket_recv_from os fuel,
      udp_socket_close = mio_udp_socket_close os,
      udp_socket_set_broadcast = mio_udp_socket_set_broadcast os,
      udp_socket_get_broadcast = mio_udp_socket_get_broadcast os,
      poller_open = mio_poller_open os,
      poller_clone = mio_poller_clone,
      poller_register = mio_poller_register os,
      poller_reregister = (\<lambda>_ _ _. op_lift Panic),
      poller_deregister = mio_poller_deregister os,
      poller_poll_once = mio_poller_poll_once os,
      poller_close = mio_poller_close os,
      tcp_listener_local_addr = mio_tcp_listener_local_addr os,
      tcp_stream_local_addr = mio_tcp_stream_local_addr os,
      tcp_stream_remote_addr = mio_tcp_stream_remote_addr os,
      tcp_stream_shutdown = mio_tcp_stream_shutdown os,
      udp_local_addr = mio_udp_local_addr os\<rparr>"

text \<open>The methods that only unpack their handle and call a shared operation.\<close>

lemmas mio_method_defs = mio_tcp_listener_close_def mio_tcp_stream_write_def mio_tcp_stream_read_def
  mio_tcp_stream_close_def mio_udp_socket_sendto_def mio_udp_socket_recv_from_def mio_udp_socket_close_def
  mio_udp_socket_set_broadcast_def mio_udp_socket_get_broadcast_def mio_poller_register_def
  mio_poller_deregister_def mio_poller_poll_once_def mio_poller_close_def mio_tcp_listener_local_addr_def
  mio_tcp_stream_local_addr_def mio_tcp_stream_remote_addr_def mio_tcp_stream_shutdown_def
  mio_udp_local_addr_def

section \<open>Interests and waker tables\<close>

lemma interest_contains_simps [simp]:
  "interest_contains Readable Readable" "interest_contains Writable Writable"
  "\<not> interest_contains Readable Writable" "\<not> interest_contains Writable Readable"
  "interest_contains interest_all Readable" "interest_contains interest_all Writable"
  "interest_contains (Readable OR Writable) Readable" "interest_contains (Readable OR Writable) Writable"
  "Readable \<noteq> Writable" "Writable \<noteq> Readable"
  by (simp_all add: interest_contains_def Readable_def Writable_def interest_all_def)

lemma event_interests_contains [simp]:
  "interest_contains (event_interests ev) Readable \<longleftrightarrow> me_readable ev"
  "interest_contains (event_interests ev) Writable \<longleftrightarrow> me_writable ev \<or> \<not> me_readable ev"
  by (simp_all add: event_interests_def interest_contains_def Readable_def Writable_def)

text \<open>The waker that waits for one interest of a token.\<close>

definition waiting :: "raw_mio_poller \<Rightarrow> interest \<Rightarrow> token \<rightharpoonup> waker" where
  "waiting rp i = (if i = Readable then rp_read_wakers rp else rp_write_wakers rp)"

lemma waiting_add_waker:
  "i \<in> {Readable, Writable} \<Longrightarrow>
     waiting (rp_add_waker tok i w rp) j t =
       (if t = tok \<and> (j = Readable \<longleftrightarrow> i = Readable) then Some w else waiting rp j t)"
  by (auto simp: waiting_def rp_add_waker_def)

lemma remove_add_waker:
  "i \<in> {Readable, Writable} \<Longrightarrow>
     rp_remove_waker tok i (rp_add_waker tok i w rp) =
       (Some w, if i = Readable then rp\<lparr>rp_read_wakers := (rp_read_wakers rp)(tok := None)\<rparr>
                else rp\<lparr>rp_write_wakers := (rp_write_wakers rp)(tok := None)\<rparr>)"
  by (auto simp: rp_remove_waker_def rp_add_waker_def map_remove_def)

lemma get_poller_Some [simp]: "ms_pollers s p = Some rp \<Longrightarrow> get_poller p s = (Ok rp, s)"
  by (simp add: get_poller_def)

lemma set_poller_simps [simp]:
  "ms_pollers (set_poller p rp s) = (ms_pollers s)(p \<mapsto> rp)" "ms_os (set_poller p rp s) = ms_os s"
  "ms_heap (set_poller p rp s) = ms_heap s" "ms_next_box (set_poller p rp s) = ms_next_box s" "ms_woken (set_poller p rp s) = ms_woken s"
  "set_poller p rp (set_poller p rp' s) = set_poller p rp s"
  "ms_pollers (s\<lparr>ms_os := w\<rparr>) = ms_pollers s"
  by (simp_all add: set_poller_def)

lemma nonblocking_call_eq:
  assumes "ms_pollers s p = Some rp"
  shows "nonblocking_call fuel p tok i w f s =
     (case retry_call fuel f (ms_os s) of
        (Inl e, w') \<Rightarrow> (Err e, (set_poller p (rp_add_waker tok i w rp) s)\<lparr>ms_os := w'\<rparr>)
      | (Inr r, w') \<Rightarrow> (Ok r, (set_poller p (snd (rp_remove_waker tok i (rp_add_waker tok i w rp))) s)\<lparr>ms_os := w'\<rparr>))"
  using assms
  by (auto simp: nonblocking_call_def poller_add_waker_def poller_remove_waker_def op_bind_def sys_op_def
      set_poller_def get_poller_def Let_def split: prod.splits sum.splits)

section \<open>Waking\<close>

text \<open>The tokens that a list of events makes readable or writable.\<close>

definition tokens_with :: "interest \<Rightarrow> (token \<times> interest) list \<Rightarrow> token set" where
  "tokens_with i evs = {tok. \<exists>j. (tok, j) \<in> set evs \<and> interest_contains j i}"

definition wakers_of :: "(token \<rightharpoonup> waker) \<Rightarrow> token set \<Rightarrow> waker multiset" where
  "wakers_of m R = image_mset (\<lambda>t. the (m t)) (mset_set (R \<inter> dom m))"

lemma tokens_with_simps [simp]:
  "tokens_with i [] = {}"
  "tokens_with i ((tok, j) # evs) = (if interest_contains j i then {tok} else {}) \<union> tokens_with i evs"
  "tokens_with i (evs @ evs') = tokens_with i evs \<union> tokens_with i evs'"
  by (auto simp: tokens_with_def)

lemma finite_tokens_with [simp]: "finite (tokens_with i evs)"
  by (rule finite_subset [of _ "fst ` set evs"]) (force simp: tokens_with_def)+

lemma wakers_of_insert:
  assumes "finite R"
  shows "wakers_of m (insert t R) = mset (wake_if True (m t)) + wakers_of (m(t := None)) R"
proof (cases "m t")
  case None
  then have "insert t R \<inter> dom m = R \<inter> dom m" "m(t := None) = m" by auto
  then show ?thesis using None by (simp add: wakers_of_def wake_if_def)
next
  case (Some w)
  then have eq: "insert t R \<inter> dom m = insert t (R \<inter> dom m - {t})" by auto
  have "image_mset (\<lambda>x. the (m x)) (mset_set (R \<inter> dom m - {t})) =
      image_mset (\<lambda>x. the ((m(t := None)) x)) (mset_set (R \<inter> dom m - {t}))"
    by (rule image_mset_cong) (use assms in auto)
  moreover have "R \<inter> dom (m(t := None)) = R \<inter> dom m - {t}" by auto
  moreover have "mset_set (insert t (R \<inter> dom m - {t})) = add_mset t (mset_set (R \<inter> dom m - {t}))"
    by (rule mset_set.insert) (use assms in auto)
  ultimately show ?thesis using Some
    unfolding wakers_of_def eq by (simp add: wake_if_def del: fun_upd_apply insert_Diff_single)
qed

lemma wakers_of_mem: "\<lbrakk> finite R; t \<in> R; m t = Some w \<rbrakk> \<Longrightarrow> w \<in># wakers_of m R"
  unfolding wakers_of_def by (auto intro!: image_eqI [of _ _ t])

lemma wakers_of_empty [simp]: "wakers_of m {} = {#}"
  by (simp add: wakers_of_def)

text \<open>Every waiting waker of a ready token is woken exactly once, and its entry is removed.\<close>

lemma notify_events_eq:
  "fst (notify_events evs rp) =
     rp\<lparr>rp_read_wakers := rp_read_wakers rp |` (- tokens_with Readable evs),
        rp_write_wakers := rp_write_wakers rp |` (- tokens_with Writable evs)\<rparr> \<and>
   mset (snd (notify_events evs rp)) =
     wakers_of (rp_read_wakers rp) (tokens_with Readable evs) +
     wakers_of (rp_write_wakers rp) (tokens_with Writable evs)"
proof (induction evs arbitrary: rp)
  case Nil
  then show ?case by (simp add: restrict_map_def)
next
  case (Cons ev evs)
  obtain tok j where ev: "ev = (tok, j)" by (cases ev)
  let ?r = "interest_contains j Readable" and ?w = "interest_contains j Writable"
  define rp2 where "rp2 = rp\<lparr>rp_read_wakers := if ?r then (rp_read_wakers rp)(tok := None) else rp_read_wakers rp,
    rp_write_wakers := if ?w then (rp_write_wakers rp)(tok := None) else rp_write_wakers rp\<rparr>"
  have eq: "notify_events (ev # evs) rp =
      (fst (notify_events evs rp2),
       wake_if ?r (rp_read_wakers rp tok) @ wake_if ?w (rp_write_wakers rp tok) @ snd (notify_events evs rp2))"
    by (auto simp: ev rp2_def Let_def split: prod.splits)
  have r: "wakers_of (rp_read_wakers rp) (tokens_with Readable (ev # evs)) =
      mset (wake_if ?r (rp_read_wakers rp tok)) + wakers_of (rp_read_wakers rp2) (tokens_with Readable evs)"
    by (simp add: ev rp2_def wakers_of_insert wake_if_def)
  have w: "wakers_of (rp_write_wakers rp) (tokens_with Writable (ev # evs)) =
      mset (wake_if ?w (rp_write_wakers rp tok)) + wakers_of (rp_write_wakers rp2) (tokens_with Writable evs)"
    by (simp add: ev rp2_def wakers_of_insert wake_if_def)
  have "rp_read_wakers rp2 |` (- tokens_with Readable evs) =
      rp_read_wakers rp |` (- tokens_with Readable (ev # evs))"
    "rp_write_wakers rp2 |` (- tokens_with Writable evs) =
      rp_write_wakers rp |` (- tokens_with Writable (ev # evs))"
    by (auto simp: ev rp2_def restrict_map_def fun_eq_iff)
  then show ?case using Cons.IH [of rp2] unfolding eq r w by (simp add: rp2_def)
qed

text \<open>The wheel of a poller before a tick at the instant \<open>now\<close>, and the tokens that the tick fires.\<close>

definition wheel_ok :: "nat \<Rightarrow> raw_mio_poller \<Rightarrow> bool" where
  "wheel_ok now rp \<longleftrightarrow>
     0 < tw_tick_duration (rp_hashed_timewheel rp) \<and>
     tw_ticks (rp_hashed_timewheel rp) \<le> due (rp_hashed_timewheel rp) (now - rp_start_instant rp)"

definition fired :: "nat \<Rightarrow> raw_mio_poller \<Rightarrow> token set" where
  "fired now rp =
     {tok. \<exists>k. tw_ticks (rp_hashed_timewheel rp) \<le> k \<and>
        k < due (rp_hashed_timewheel rp) (now - rp_start_instant rp) \<and>
        tok \<in> set (slot (tw_timers (rp_hashed_timewheel rp)) k)}"

lemma next_tick_returns: "next_tick elapsed w \<noteq> None"
  by (subst next_tick.simps)
     (auto simp: ticks_compare_exchange_def Let_def split: outcome.splits prod.splits)

lemma wheel_next_tick_ok:
  assumes "wheel_ok now rp"
  shows "\<exists>ts wheel. wheel_next_tick now rp = Ok (ts, rp\<lparr>rp_hashed_timewheel := wheel\<rparr>) \<and>
     set (case ts of Some ts \<Rightarrow> ts | None \<Rightarrow> []) = fired now rp \<and>
     tw_ticks wheel = due (rp_hashed_timewheel rp) (now - rp_start_instant rp) \<and>
     tw_tick_duration wheel = tw_tick_duration (rp_hashed_timewheel rp)"
proof -
  let ?w = "rp_hashed_timewheel rp" and ?e = "now - rp_start_instant rp"
  let ?r = "tick_range (tw_ticks ?w) (due ?w ?e)"
  have ok: "0 < tw_tick_duration ?w" "tw_ticks ?w \<le> due ?w ?e" using assms by (auto simp: wheel_ok_def)
  have tick: "wheel_next_tick now rp =
      Ok (if tw_ticks ?w = due ?w ?e then (None, rp)
          else (Some (concat (map (slot (tw_timers ?w)) ?r)),
            rp\<lparr>rp_hashed_timewheel := ?w\<lparr>tw_ticks := due ?w ?e, tw_timers := tw_timers ?w |` (- set ?r)\<rparr>\<rparr>))"
    by (simp add: wheel_next_tick_def next_tick_eq [OF ok] drain_slots_eq tick_range_distinct)
  have fired: "fired now rp = set (concat (map (slot (tw_timers ?w)) ?r))"
    by (auto simp: fired_def tick_range_set)
  show ?thesis
  proof (cases "tw_ticks ?w = due ?w ?e")
    case True
    then have "fired now rp = {}" by (auto simp: fired_def)
    then show ?thesis using True unfolding tick by (intro exI [of _ None] exI [of _ ?w]) simp
  qed (unfold tick fired, auto)
qed

lemma tokens_with_fired [simp]:
  "tokens_with Readable (map (\<lambda>t. (t, Readable)) ts) = set ts"
  "tokens_with Writable (map (\<lambda>t. (t, Readable)) ts) = {}"
  by (auto simp: tokens_with_def)

lemma tokens_with_events [simp]:
  "tokens_with Readable (map (\<lambda>ev. (me_token ev, event_interests ev)) evs) =
     {me_token ev | ev. ev \<in> set evs \<and> me_readable ev}"
  "tokens_with Writable (map (\<lambda>ev. (me_token ev, event_interests ev)) evs) =
     {me_token ev | ev. ev \<in> set evs \<and> (me_writable ev \<or> \<not> me_readable ev)}"
  by (auto simp: tokens_with_def)

definition poll_limit :: "duration option \<Rightarrow> raw_mio_poller \<Rightarrow> duration" where
  "poll_limit limit rp = (case limit of Some t \<Rightarrow> t | None \<Rightarrow> rp_tick_duration rp)"

lemma mio_poll_once_run:
  assumes "ms_pollers s p = Some rp" "os_poll os p (poll_limit limit rp) (ms_os s) = (Inr evs, w1)"
    "os_now os w1 = (now, w2)" "wheel_next_tick now rp = Ok (ts, rp1)"
    "hevs = map (\<lambda>ev. (me_token ev, event_interests ev)) evs @
       (case ts of Some ts \<Rightarrow> map (\<lambda>t. (t, Readable)) ts | None \<Rightarrow> [])"
  shows "mio_poll_once os p limit s =
     (Ok (), (set_poller p (fst (notify_events hevs rp1)) s)\<lparr>ms_os := w2, ms_woken := ms_woken s @ snd (notify_events hevs rp1)\<rparr>)"
  using assms
  by (cases s)
     (simp add: mio_poll_once_def op_bind_def sys_op_def now_op_def get_poller_def set_poller_def
       poll_limit_def Let_def split_beta)

lemma poll_once_effect:
  assumes "ms_pollers s p = Some rp" "os_poll os p (poll_limit limit rp) (ms_os s) = (Inr evs, w1)"
    "os_now os w1 = (now, w2)" "wheel_ok now rp"
    and "R = {me_token ev | ev. ev \<in> set evs \<and> me_readable ev} \<union> fired now rp"
    and "W = {me_token ev | ev. ev \<in> set evs \<and> (me_writable ev \<or> \<not> me_readable ev)}"
  shows "\<exists>s' rp'. mio_poll_once os p limit s = (Ok (), s') \<and> ms_pollers s' = (ms_pollers s)(p \<mapsto> rp') \<and>
     rp_read_wakers rp' = rp_read_wakers rp |` (- R) \<and> rp_write_wakers rp' = rp_write_wakers rp |` (- W) \<and>
     mset (ms_woken s') = mset (ms_woken s) + wakers_of (rp_read_wakers rp) R + wakers_of (rp_write_wakers rp) W \<and>
     ms_heap s' = ms_heap s \<and> ms_os s' = w2 \<and> finite R \<and> finite W"
proof -
  obtain ts wheel where tick: "wheel_next_tick now rp = Ok (ts, rp\<lparr>rp_hashed_timewheel := wheel\<rparr>)"
    and ts: "set (case ts of Some ts \<Rightarrow> ts | None \<Rightarrow> []) = fired now rp"
    using wheel_next_tick_ok [OF assms(4)] by blast
  define hevs where "hevs = map (\<lambda>ev. (me_token ev, event_interests ev)) evs @
      (case ts of Some ts \<Rightarrow> map (\<lambda>t. (t, Readable)) ts | None \<Rightarrow> [])"
  let ?n = "notify_events hevs (rp\<lparr>rp_hashed_timewheel := wheel\<rparr>)"
  have RW: "tokens_with Readable hevs = R" "tokens_with Writable hevs = W"
    using ts assms(5,6) by (auto simp: hevs_def split: option.splits)
  have n: "rp_read_wakers (fst ?n) = rp_read_wakers rp |` (- R)" "rp_write_wakers (fst ?n) = rp_write_wakers rp |` (- W)"
    "mset (snd ?n) = wakers_of (rp_read_wakers rp) R + wakers_of (rp_write_wakers rp) W"
    using notify_events_eq [of hevs "rp\<lparr>rp_hashed_timewheel := wheel\<rparr>"] by (simp_all add: RW)
  have fin: "finite R" "finite W" unfolding RW [symmetric] by simp_all
  show ?thesis unfolding mio_poll_once_run [OF assms(1-3) tick hevs_def]
    by (rule exI [of _ "(set_poller p (fst ?n) s)\<lparr>ms_os := w2, ms_woken := ms_woken s @ snd ?n\<rparr>"],
        rule exI [of _ "fst ?n"]) (simp add: n fin add.assoc)
qed

section \<open>Retries\<close>

text \<open>The world after \<open>n\<close> calls, and the fuel that a call with \<open>n\<close> interruptions needs.\<close>

primrec after_calls :: "('w, 'r) sys \<Rightarrow> nat \<Rightarrow> 'w \<Rightarrow> 'w" where
  "after_calls f 0 w = w"
| "after_calls f (Suc n) w = after_calls f n (snd (f w))"

definition interruptions :: "('w, 'r) sys \<Rightarrow> 'w \<Rightarrow> nat \<Rightarrow> bool" where
  "interruptions f w n \<longleftrightarrow>
     (\<forall>k < n. fst (f (after_calls f k w)) = Inl Interrupted) \<and> fst (f (after_calls f n w)) \<noteq> Inl Interrupted"

lemma retry_call_result:
  "\<lbrakk> interruptions f w n; n < fuel \<rbrakk> \<Longrightarrow> retry_call fuel f w = f (after_calls f n w)"
proof (induction fuel arbitrary: n w)
  case (Suc fuel)
  show ?case
  proof (cases n)
    case 0
    then show ?thesis using Suc.prems(1)
      by (cases "f w") (auto simp: interruptions_def split: sum.splits io_error.splits)
  next
    case (Suc m)
    have "interruptions f (snd (f w)) m" "fst (f w) = Inl Interrupted"
      using Suc.prems(1) \<open>n = Suc m\<close> unfolding interruptions_def by auto
    then show ?thesis using Suc.IH [of "snd (f w)" m] Suc.prems(2) \<open>n = Suc m\<close>
      by (cases "f w") auto
  qed
qed simp

section \<open>Handles that are ready for commands\<close>

text \<open>
  The box of the handle is alive, has the type of the description, and is bound to a live poller. The
  state may grow: boxes stay, pollers stay.
\<close>

definition is_socket :: "description \<Rightarrow> bool" where
  "is_socket desc \<longleftrightarrow> desc = DTcpListener \<or> desc = DTcpStream \<or> desc = DUdpSocket"

definition timer_ok :: "mio_timer \<Rightarrow> bool" where
  "timer_ok t \<longleftrightarrow> mt_start_instant t = None \<or> mt_tick_duration t \<noteq> None"

definition handle_ready :: "handle \<Rightarrow> 'w mio_state \<Rightarrow> bool" where
  "handle_ready h s \<longleftrightarrow>
     (\<exists>p. ms_pollers s p \<noteq> None \<and>
        (if is_socket (h_desc h)
         then \<exists>m. ms_heap s (h_data h) = Some (OSocket (h_desc h) m) \<and> mw_poller m = Some p
         else if h_desc h = DTimeout
         then \<exists>m. ms_heap s (h_data h) = Some (OTimer m) \<and> mw_poller m = Some p \<and> timer_ok (mw_value m)
         else h_desc h = DPoller \<and> ms_heap s (h_data h) = Some (OPoller p)))"

definition grows :: "'w mio_state \<Rightarrow> 'w mio_state \<Rightarrow> bool" where
  "grows s s' \<longleftrightarrow> ms_heap s \<subseteq>\<^sub>m ms_heap s' \<and> dom (ms_pollers s) \<subseteq> dom (ms_pollers s')"

definition boxes_fresh :: "'w mio_state \<Rightarrow> bool" where
  "boxes_fresh s \<longleftrightarrow> (\<forall>a \<ge> ms_next_box s. ms_heap s a = None)"

lemma grows_refl [simp]: "grows s s"
  by (simp add: grows_def)

lemma grows_trans: "\<lbrakk> grows a b; grows b c \<rbrakk> \<Longrightarrow> grows a c"
  unfolding grows_def using map_le_trans by blast

lemma handle_ready_grows: "\<lbrakk> handle_ready h s; grows s s' \<rbrakk> \<Longrightarrow> handle_ready h s'"
  unfolding handle_ready_def grows_def by (auto simp: map_le_def dom_def split: if_splits; metis option.distinct(1))

text \<open>An operation from a state is safe when it does not panic and the state grows.\<close>

definition safe_op :: "('w mio_state, 'r) op \<Rightarrow> 'w mio_state \<Rightarrow> bool" where
  "safe_op f s \<longleftrightarrow> fst (f s) \<noteq> Panic \<and> grows s (snd (f s)) \<and> (boxes_fresh s \<longrightarrow> boxes_fresh (snd (f s)))"

lemma safe_op_map [simp]: "safe_op (op_map g f) s \<longleftrightarrow> safe_op f s"
  by (cases "fst (f s)") (simp_all add: safe_op_def op_map_def)

lemma safe_op_lift_Err [simp]: "safe_op (op_lift (Err e)) s"
  by (simp add: safe_op_def)

lemma safe_op_bind:
  "\<lbrakk> safe_op f s; \<And>x s'. \<lbrakk> f s = (Ok x, s'); grows s s' \<rbrakk> \<Longrightarrow> safe_op (g x) s' \<rbrakk> \<Longrightarrow> safe_op (op_bind f g) s"
  by (cases "f s"; cases "fst (f s)") (auto simp: safe_op_def op_bind_def intro: grows_trans)

lemma safe_op_expecting [intro]: "(h_desc h = desc \<Longrightarrow> safe_op f s) \<Longrightarrow> safe_op (expecting desc h f) s"
  by (cases "h_desc h = desc") (simp_all add: safe_op_def)

lemma safe_sys_op [simp]: "safe_op (sys_op f) s"
  by (cases "f (ms_os s)")
     (auto simp: safe_op_def sys_op_def grows_def boxes_fresh_def split: sum.splits)

lemma safe_now_op [simp]: "safe_op (now_op os) s"
  by (cases "os_now os (ms_os s)") (auto simp: safe_op_def now_op_def grows_def boxes_fresh_def)

lemma safe_nonblocking_call: "ms_pollers s p \<noteq> None \<Longrightarrow> safe_op (nonblocking_call fuel p tok i w f) s"
  by (auto simp: safe_op_def nonblocking_call_eq grows_def boxes_fresh_def split: prod.splits sum.splits)

lemma safe_add_waker: "ms_pollers s p \<noteq> None \<Longrightarrow> safe_op (poller_add_waker p tok i w) s"
  by (auto simp: safe_op_def poller_add_waker_def grows_def boxes_fresh_def set_poller_def)

lemma safe_handle_from: "boxes_fresh s \<Longrightarrow> safe_op (handle_from desc obj) s"
  by (auto simp: safe_op_def handle_from_def grows_def boxes_fresh_def map_le_def Let_def split: prod.splits)

lemma with_box [simp]:
  "ms_heap s (h_data h) = Some (OSocket desc m) \<Longrightarrow> with_socket desc h f s = f m s"
  "ms_heap s (h_data h) = Some (OTimer t) \<Longrightarrow> with_timer h g s = g t s"
  "ms_heap s (h_data h) = Some (OPoller p) \<Longrightarrow> with_poller h k s = k p s"
  by (simp_all add: with_socket_def with_timer_def with_poller_def get_box_def)

lemma socket_ready:
  assumes "handle_ready h s" "is_socket (h_desc h)"
  obtains m p where "mw_poller m = Some p" "ms_pollers s p \<noteq> None"
    "ms_heap s (h_data h) = Some (OSocket (h_desc h) m)"
  using assms by (auto simp: handle_ready_def)

lemma safe_socket_call:
  assumes "handle_ready h s" "is_socket desc"
  shows "safe_op (socket_call fuel desc i w h f) s"
  unfolding socket_call_def
proof (rule safe_op_expecting)
  assume "h_desc h = desc"
  then obtain m p where m: "mw_poller m = Some p" "ms_pollers s p \<noteq> None" "ms_heap s (h_data h) = Some (OSocket desc m)"
    using socket_ready [OF assms(1)] assms(2) by metis
  show "safe_op (with_socket desc h (\<lambda>socket. op_bind (op_lift (poller_of socket))
      (\<lambda>p. nonblocking_call fuel p (h_token h) i w (f (mw_value socket))))) s"
    using safe_nonblocking_call [OF m(2), of fuel "h_token h" i w "f (mw_value m)"] m(1,3)
    by (simp add: safe_op_def poller_of_def)
qed

lemma safe_socket_get:
  assumes "handle_ready h s" "is_socket desc"
  shows "safe_op (socket_get desc h f) s"
  unfolding socket_get_def
proof (rule safe_op_expecting)
  assume "h_desc h = desc"
  then obtain m where m: "ms_heap s (h_data h) = Some (OSocket desc m)"
    using socket_ready [OF assms(1)] assms(2) by metis
  show "safe_op (with_socket desc h (\<lambda>socket. sys_op (f (mw_value socket)))) s"
    using safe_sys_op [of "f (mw_value m)" s] m by (simp add: safe_op_def)
qed

lemma safe_accept:
  assumes "handle_ready h s" "boxes_fresh s"
  shows "safe_op (mio_tcp_listener_accept os fuel w h) s"
proof -
  have call: "safe_op (socket_call fuel DTcpListener Readable w h (os_accept os)) s"
    by (rule safe_socket_call [OF assms(1)]) (simp add: is_socket_def)
  then have "boxes_fresh s'" if "socket_call fuel DTcpListener Readable w h (os_accept os) s = (r, s')" for r s'
    using that assms(2) by (simp add: safe_op_def)
  then show ?thesis unfolding mio_tcp_listener_accept_def
    by (intro safe_op_bind call) (auto simp: safe_handle_from split: prod.splits)
qed

lemma safe_is_expired: "timer_ok t \<Longrightarrow> safe_op (is_expired os t) s"
  by (cases "os_now os (ms_os s)")
     (auto simp: is_expired_def timer_ok_def safe_op_def now_op_def op_bind_def Let_def grows_def boxes_fresh_def
       split: option.splits)

lemma safe_timeout:
  assumes "handle_ready h s"
  shows "safe_op (mio_timeout os w h) s"
  unfolding mio_timeout_def
proof (rule safe_op_expecting)
  assume "h_desc h = DTimeout"
  then obtain m p where m: "ms_heap s (h_data h) = Some (OTimer m)" "mw_poller m = Some p" "ms_pollers s p \<noteq> None"
    "timer_ok (mw_value m)"
    using assms by (auto simp: handle_ready_def is_socket_def)
  let ?f = "op_bind (is_expired os (mw_value m)) (\<lambda>expired.
      if expired then op_lift (Ok True)
      else op_bind (op_lift (poller_of m)) (\<lambda>p. op_bind (poller_add_waker p (h_token h) Readable w) (\<lambda>_. op_lift (Ok False))))"
  have "safe_op ?f s"
  proof (rule safe_op_bind [OF safe_is_expired [OF m(4)]])
    fix x s' assume "grows s s'"
    then have "ms_pollers s' p \<noteq> None" using m(3) unfolding grows_def by blast
    then have "safe_op (op_bind (poller_add_waker p (h_token h) Readable w) (\<lambda>_. op_lift (Ok False))) s'"
      by (intro safe_op_bind safe_add_waker) (simp_all add: safe_op_def)
    then show "safe_op (if x then op_lift (Ok True)
        else op_bind (op_lift (poller_of m)) (\<lambda>p. op_bind (poller_add_waker p (h_token h) Readable w) (\<lambda>_. op_lift (Ok False)))) s'"
      using m(2) by (simp add: safe_op_def poller_of_def)
  qed
  then show "safe_op (with_timer h (\<lambda>timer. op_bind (is_expired os (mw_value timer)) (\<lambda>expired.
      if expired then op_lift (Ok True)
      else op_bind (op_lift (poller_of timer)) (\<lambda>p. op_bind (poller_add_waker p (h_token h) Readable w) (\<lambda>_. op_lift (Ok False)))))) s"
    using m(1) by (simp add: safe_op_def)
qed

text \<open>The commands of the sockets and timers, as opposed to those of the poller.\<close>

fun io_command :: "cmd \<Rightarrow> bool" where
  "io_command (CRegister _ _) = False"
| "io_command (CReRegister _ _) = False"
| "io_command (CPollOnce _) = False"
| "io_command CTryClone = False"
| "io_command _ = True"

lemma safe_io_command:
  assumes "handle_ready h s" "boxes_fresh s" "io_command c"
  shows "safe_op (fd_cntl (mio_driver os fuel) h c) s"
proof -
  have nofile: "h_desc h \<noteq> DFile" using assms(1) by (auto simp: handle_ready_def is_socket_def)
  note simps = fd_cntl_def mio_driver_def mio_method_defs is_socket_def safe_socket_call [OF assms(1)] safe_socket_get [OF assms(1)]
    safe_timeout [OF assms(1)] safe_accept [OF assms(1,2)]
  show ?thesis using assms(3) nofile
    by (cases c) (auto simp: simps split: description.splits)
qed

section \<open>A system for the witnesses\<close>

text \<open>
  The world is a clock and the events of the next poll. The clock advances by ten milliseconds at
  every reading, and by the whole limit in a poll. No descriptor is ever ready.
\<close>

definition blocked_os :: "(nat \<times> mio_event list) os" where
  "blocked_os =
     \<lparr>os_now = (\<lambda>(t, evs). (t, (t + 10000000, evs))),
      os_poll_new = (\<lambda>_ w. (Inr (), w)),
      os_poll = (\<lambda>_ d (t, evs). (Inr evs, (t + d, []))),
      os_register = (\<lambda>_ _ _ _ w. (Inr (), w)),
      os_deregister = (\<lambda>_ _ w. (Inr (), w)),
      os_tcp_listen = (\<lambda>_ w. (Inr 1, w)),
      os_tcp_connect = (\<lambda>_ w. (Inr 2, w)),
      os_udp_bind = (\<lambda>_ w. (Inr 3, w)),
      os_set_nonblocking = (\<lambda>_ w. (Inr (), w)),
      os_accept = (\<lambda>_ w. (Inl WouldBlock, w)),
      os_read = (\<lambda>_ _ w. (Inl WouldBlock, w)),
      os_write = (\<lambda>_ _ w. (Inl WouldBlock, w)),
      os_send_to = (\<lambda>_ _ _ w. (Inl WouldBlock, w)),
      os_recv_from = (\<lambda>_ _ w. (Inl WouldBlock, w)),
      os_local_addr = (\<lambda>fd w. (Inr \<lparr>sa_ip = IpV4 0, sa_port = of_nat fd\<rparr>, w)),
      os_peer_addr = (\<lambda>fd w. (Inr \<lparr>sa_ip = IpV4 1, sa_port = of_nat fd\<rparr>, w)),
      os_shutdown = (\<lambda>_ _ w. (Inr (), w)),
      os_set_broadcast = (\<lambda>_ _ w. (Inr (), w)),
      os_broadcast = (\<lambda>_ w. (Inr True, w)),
      os_drop = (\<lambda>_ w. w)\<rparr>"

definition one_poller :: "'w \<Rightarrow> raw_mio_poller \<Rightarrow> 'w mio_state" where
  "one_poller w rp =
     \<lparr>ms_os = w, ms_next_token = 1, ms_heap = [0 \<mapsto> OPoller 0], ms_next_box = 1,
      ms_pollers = [0 \<mapsto> rp], ms_next_poller = 1, ms_woken = []\<rparr>"

section \<open>Properties\<close>

text \<open>
  C8: what one poll does. When the system delivers events and the wheel ticks, exactly the wakers of
  the ready tokens are woken, each once, and leave the tables; all others stay. A token is ready to
  read when an event says so or its timer fires, and ready to write when an event says so, but also
  when an event is not readable, whether or not it is writable.
\<close>

theorem poll_once_wakes_ready:
  assumes "ms_pollers s p = Some rp" "os_poll os p (poll_limit limit rp) (ms_os s) = (Inr evs, w1)"
    "os_now os w1 = (now, w2)" "wheel_ok now rp"
  shows "let R = {me_token ev | ev. ev \<in> set evs \<and> me_readable ev} \<union> fired now rp;
         W = {me_token ev | ev. ev \<in> set evs \<and> (me_writable ev \<or> \<not> me_readable ev)} in
     \<exists>s' rp'. mio_poll_once os p limit s = (Ok (), s') \<and> ms_pollers s' = (ms_pollers s)(p \<mapsto> rp') \<and>
     rp_read_wakers rp' = rp_read_wakers rp |` (- R) \<and> rp_write_wakers rp' = rp_write_wakers rp |` (- W) \<and>
     mset (ms_woken s') = mset (ms_woken s) + wakers_of (rp_read_wakers rp) R + wakers_of (rp_write_wakers rp) W \<and>
     ms_heap s' = ms_heap s"
  unfolding Let_def using poll_once_effect [OF assms refl refl] by blast

theorem poll_once_wakes_ready_witness:
  "\<exists>s' rp'. mio_poll_once blocked_os 0 None
       (one_poller (0, [\<lparr>me_token = 5, me_readable = True, me_writable = False\<rparr>])
         ((raw_mio_poller_new 1000000 0)\<lparr>rp_read_wakers := [5 \<mapsto> 77, 6 \<mapsto> 78]\<rparr>)) = (Ok (), s') \<and>
     ms_pollers s' 0 = Some rp' \<and> rp_read_wakers rp' 5 = None \<and> rp_read_wakers rp' 6 = Some 78 \<and>
     mset (ms_woken s') = {#77#}"
proof -
  let ?ev = "\<lparr>me_token = 5, me_readable = True, me_writable = False\<rparr>"
  let ?rp = "(raw_mio_poller_new 1000000 0)\<lparr>rp_read_wakers := [5 \<mapsto> 77, 6 \<mapsto> 78]\<rparr>"
  let ?s = "one_poller (0, [?ev]) ?rp"
  have fired: "fired 1000000 ?rp = {}"
    by (auto simp: fired_def raw_mio_poller_new_def tw_new_def slot_def)
  have ok: "wheel_ok 1000000 ?rp"
    by (simp add: wheel_ok_def raw_mio_poller_new_def tw_new_def as_micros_def due_def)
  have R: "{me_token ev | ev. ev \<in> set [?ev] \<and> me_readable ev} \<union> fired 1000000 ?rp = {5}"
    and W: "{me_token ev | ev. ev \<in> set [?ev] \<and> (me_writable ev \<or> \<not> me_readable ev)} = {}"
    by (auto simp: fired)
  obtain s' rp' where "mio_poll_once blocked_os 0 None ?s = (Ok (), s')" "ms_pollers s' = (ms_pollers ?s)(0 \<mapsto> rp')"
    "rp_read_wakers rp' = rp_read_wakers ?rp |` (- {5})"
    "mset (ms_woken s') = mset (ms_woken ?s) + wakers_of (rp_read_wakers ?rp) {5} + wakers_of (rp_write_wakers ?rp) {}"
    using poll_once_wakes_ready [of ?s 0 ?rp blocked_os None "[?ev]" "(1000000, [])" 1000000 "(11000000, [])",
        OF _ _ _ ok, unfolded R W Let_def]
    by (auto simp: one_poller_def blocked_os_def poll_limit_def raw_mio_poller_new_def rp_add_waker_def)
  moreover have "wakers_of [5 \<mapsto> 77, 6 \<mapsto> 78] {5 :: token} = {#77#}"
    by (simp add: wakers_of_insert wake_if_def)
  ultimately show ?thesis by (intro exI [of _ s'] exI [of _ rp']) (simp add: one_poller_def)
qed

text \<open>
  A nonblocking call registers its waker before it tries. Its result is that of the first try that
  is not interrupted. When that succeeds the entry is gone again; when it fails, with \<open>WouldBlock\<close> or
  any other error, the waker stays registered. The other table and all other tokens are untouched.
\<close>

theorem nonblocking_call_correct:
  assumes "ms_pollers s p = Some rp" "i \<in> {Readable, Writable}" "interruptions f (ms_os s) n" "n < fuel"
  shows "\<exists>s' rp'. nonblocking_call fuel p tok i w f s =
       ((case fst (f (after_calls f n (ms_os s))) of Inl e \<Rightarrow> Err e | Inr r \<Rightarrow> Ok r), s') \<and>
     ms_pollers s' = (ms_pollers s)(p \<mapsto> rp') \<and> ms_woken s' = ms_woken s \<and> ms_heap s' = ms_heap s \<and>
     (\<forall>j t. waiting rp' j t =
        (if t = tok \<and> (j = Readable \<longleftrightarrow> i = Readable)
         then (if isl (fst (f (after_calls f n (ms_os s)))) then Some w else None) else waiting rp j t))"
proof (cases "f (after_calls f n (ms_os s))")
  case (Pair r w')
  show ?thesis
  proof (cases r)
    case (Inl e)
    let ?rp = "rp_add_waker tok i w rp"
    show ?thesis unfolding nonblocking_call_eq [OF assms(1)] retry_call_result [OF assms(3,4)] Pair
      by (rule exI [of _ "(set_poller p ?rp s)\<lparr>ms_os := w'\<rparr>"], rule exI [of _ ?rp])
         (simp add: Inl waiting_add_waker [OF assms(2)])
  next
    case (Inr x)
    let ?rp = "snd (rp_remove_waker tok i (rp_add_waker tok i w rp))"
    have "waiting ?rp j t = (if t = tok \<and> (j = Readable \<longleftrightarrow> i = Readable) then None else waiting rp j t)" for j t
      using assms(2) by (auto simp: remove_add_waker [OF assms(2)] waiting_def)
    then show ?thesis unfolding nonblocking_call_eq [OF assms(1)] retry_call_result [OF assms(3,4)] Pair
      by (intro exI [of _ "(set_poller p ?rp s)\<lparr>ms_os := w'\<rparr>"] exI [of _ ?rp]) (simp add: Inr)
  qed
qed

theorem nonblocking_call_correct_witness:
  "\<exists>s' rp'. nonblocking_call 1 0 5 Readable 77 (os_read blocked_os 3 10)
       (one_poller (0, []) (raw_mio_poller_new 1000000 0)) = (Err WouldBlock, s') \<and>
     ms_pollers s' 0 = Some rp' \<and> waiting rp' Readable 5 = Some 77"
proof -
  let ?f = "os_read blocked_os 3 10" and ?s = "one_poller (0, []) (raw_mio_poller_new 1000000 0)"
  have f: "fst (?f w) = Inl WouldBlock" for w by (simp add: blocked_os_def)
  then have i: "interruptions ?f w 0" for w by (simp add: interruptions_def)
  have p: "ms_pollers ?s 0 = Some (raw_mio_poller_new 1000000 0)" by (simp add: one_poller_def)
  show ?thesis
    using nonblocking_call_correct [OF p insertI1 i zero_less_one, of 5 77] unfolding f sum.case
  proof (elim exE conjE)
    fix s' rp'
    assume "nonblocking_call 1 0 5 Readable 77 ?f ?s = (Err WouldBlock, s')" "ms_pollers s' = (ms_pollers ?s)(0 \<mapsto> rp')"
      and "\<forall>j t. waiting rp' j t =
        (if t = 5 \<and> (j = Readable) = (Readable = Readable)
         then if isl (Inl WouldBlock :: io_error + bytes) then Some 77 else None
         else waiting (raw_mio_poller_new 1000000 0) j t)"
    then show ?thesis by (intro exI [of _ s'] exI [of _ rp']) simp
  qed
qed

text \<open>
  C7: no lost wakeup. A call that would block leaves its waker where the next poll finds it: when that
  poll reports the token ready in the direction of the call, the waker is woken.
\<close>

theorem would_block_then_woken:
  assumes "ms_pollers s p = Some rp" "i \<in> {Readable, Writable}"
    and "nonblocking_call fuel p tok i w f s = (Err WouldBlock, s1)" "ms_pollers s1 p = Some rp1"
    and "os_poll os p (poll_limit limit rp1) (ms_os s1) = (Inr evs, w1)" "os_now os w1 = (now, w2)" "wheel_ok now rp"
    and "ev \<in> set evs" "me_token ev = tok" "if i = Readable then me_readable ev else me_writable ev"
  shows "\<exists>s2. mio_poll_once os p limit s1 = (Ok (), s2) \<and> w \<in> set (ms_woken s2)"
proof -
  have rp1: "rp1 = rp_add_waker tok i w rp"
    using assms(3,4) nonblocking_call_eq [OF assms(1), of fuel tok i w f]
    by (auto split: prod.splits sum.splits)
  let ?R = "{me_token ev | ev. ev \<in> set evs \<and> me_readable ev} \<union> fired now rp1"
    and ?W = "{me_token ev | ev. ev \<in> set evs \<and> (me_writable ev \<or> \<not> me_readable ev)}"
  have wait: "waiting rp1 i tok = Some w" unfolding rp1 waiting_add_waker [OF assms(2)] by simp
  have ok: "wheel_ok now rp1" using assms(7) by (simp add: rp1 wheel_ok_def rp_add_waker_def)
  obtain s2 where s2: "mio_poll_once os p limit s1 = (Ok (), s2)" "finite ?R" "finite ?W"
    "mset (ms_woken s2) = mset (ms_woken s1) + wakers_of (rp_read_wakers rp1) ?R + wakers_of (rp_write_wakers rp1) ?W"
    using poll_once_effect [OF assms(4-6) ok refl refl] by blast
  have "w \<in># mset (ms_woken s2)"
  proof (cases "i = Readable")
    case True
    then have "tok \<in> ?R" "rp_read_wakers rp1 tok = Some w" using assms(8-10) wait by (auto simp: waiting_def)
    then show ?thesis using wakers_of_mem [OF s2(2)] s2(4) by simp
  next
    case False
    then have "tok \<in> ?W" "rp_write_wakers rp1 tok = Some w" using assms(8-10) wait by (auto simp: waiting_def)
    then show ?thesis using wakers_of_mem [OF s2(3)] s2(4) by simp
  qed
  then show ?thesis using s2(1) by auto
qed

theorem would_block_then_woken_witness:
  "\<exists>s1 s2. nonblocking_call 1 0 5 Writable 77 (os_write blocked_os 3 ''a'')
       (one_poller (0, [\<lparr>me_token = 5, me_readable = False, me_writable = True\<rparr>]) (raw_mio_poller_new 1000000 0)) =
       (Err WouldBlock, s1) \<and>
     mio_poll_once blocked_os 0 None s1 = (Ok (), s2) \<and> 77 \<in> set (ms_woken s2)"
proof -
  let ?ev = "\<lparr>me_token = 5, me_readable = False, me_writable = True\<rparr>"
  let ?rp = "raw_mio_poller_new 1000000 0"
  let ?s = "one_poller (0, [?ev]) ?rp" and ?s1 = "one_poller (0, [?ev]) (rp_add_waker 5 Writable 77 ?rp)"
  have p: "ms_pollers ?s 0 = Some ?rp" by (simp add: one_poller_def)
  have "nonblocking_call 1 0 5 Writable 77 (os_write blocked_os 3 ''a'') ?s = (Err WouldBlock, ?s1)"
    unfolding nonblocking_call_eq [OF p] by (simp add: blocked_os_def one_poller_def set_poller_def)
  moreover have "wheel_ok 1000000 ?rp"
    by (simp add: wheel_ok_def raw_mio_poller_new_def tw_new_def as_micros_def due_def)
  ultimately show ?thesis
    using would_block_then_woken [OF p, of Writable 1 5 77 "os_write blocked_os 3 ''a''" ?s1
        "rp_add_waker 5 Writable 77 ?rp" blocked_os None "[?ev]" "(1000000, [])" 1000000 "(11000000, [])" ?ev]
    by (auto simp: one_poller_def blocked_os_def poll_limit_def raw_mio_poller_new_def rp_add_waker_def)
qed

text \<open>
  C37: a command of a socket or a timer on a live handle that is registered with a live poller never
  panics, whatever the system answers and whether or not the handle supports the command. No box is
  freed and no poller disappears, so that every other ready handle stays ready.
\<close>

theorem mio_commands_never_panic:
  assumes "handle_ready h s" "boxes_fresh s" "io_command c"
  shows "\<exists>r s'. fd_cntl (mio_driver os fuel) h c s = (r, s') \<and> r \<noteq> Panic \<and> boxes_fresh s' \<and>
     {h'. handle_ready h' s} \<subseteq> {h'. handle_ready h' s'}"
  using safe_io_command [OF assms, of os fuel] assms(2) handle_ready_grows
  by (cases "fd_cntl (mio_driver os fuel) h c s") (auto simp: safe_op_def)

theorem mio_commands_never_panic_witness:
  "\<exists>r s'. fd_cntl (mio_driver blocked_os 1)
       \<lparr>h_token = 0, h_desc = DPoller, h_user_defined_desc = None, h_data = 0\<rparr> (CRead 77 10)
       (one_poller (0, []) (raw_mio_poller_new 1000000 0)) = (r, s') \<and> r \<noteq> Panic"
proof -
  let ?s = "one_poller (0, []) (raw_mio_poller_new 1000000 0)"
  let ?h = "\<lparr>h_token = 0, h_desc = DPoller, h_user_defined_desc = None, h_data = 0\<rparr>"
  have "handle_ready ?h ?s" "boxes_fresh ?s"
    by (auto simp: handle_ready_def is_socket_def one_poller_def boxes_fresh_def)
  then show ?thesis using mio_commands_never_panic [of ?h ?s "CRead 77 10" blocked_os 1] by auto
qed

text \<open>
  Closing a registered socket frees its box and wakes the task that waits to read from it, but the
  task that waits to write to it stays in the table and is not woken.
\<close>

theorem close_keeps_write_waker:
  assumes "is_socket (h_desc h)" "ms_heap s (h_data h) = Some (OSocket (h_desc h) m)" "mw_poller m = Some p"
    "ms_pollers s p = Some rp" "os_deregister os p (mw_value m) (ms_os s) = (Inr (), w1)"
  shows "\<exists>s'. fd_close (mio_driver os fuel) h s = (Ok (), s') \<and> ms_heap s' = (ms_heap s)(h_data h := None) \<and>
     ms_pollers s' = (ms_pollers s)(p \<mapsto> rp\<lparr>rp_read_wakers := (rp_read_wakers rp)(h_token h := None)\<rparr>) \<and>
     ms_woken s' = ms_woken s @ wake_if True (rp_read_wakers rp (h_token h))"
proof -
  have "fd_close (mio_driver os fuel) h s = close_socket os (h_desc h) h s"
    using assms(1) by (auto simp: fd_close_def mio_driver_def mio_method_defs is_socket_def)
  moreover have "mio_deregister os p h =
      op_bind (deregister_socket os p h)
        (\<lambda>_. op_bind (poller_remove_waker p (h_token h) interest_all) (\<lambda>waker.
          case waker of Some w \<Rightarrow> wake w | None \<Rightarrow> op_lift (Ok ())))"
    using assms(1) by (auto simp: mio_deregister_def is_socket_def)
  ultimately show ?thesis using assms(2-5)
    by (cases "rp_read_wakers rp (h_token h)")
       (simp_all add: close_socket_def poller_of_def op_bind_def deregister_socket_def sys_op_def
         poller_remove_waker_def rp_remove_waker_def map_remove_def wake_def drop_as_def get_box_def wake_if_def)
qed

theorem close_keeps_write_waker_witness:
  "\<exists>s' rp'. fd_close (mio_driver blocked_os 1)
       \<lparr>h_token = 5, h_desc = DUdpSocket, h_user_defined_desc = None, h_data = 9\<rparr>
       ((one_poller (0, []) ((raw_mio_poller_new 1000000 0)\<lparr>rp_write_wakers := [5 \<mapsto> 77]\<rparr>))
          \<lparr>ms_heap := [9 \<mapsto> OSocket DUdpSocket \<lparr>mw_value = 3, mw_poller = Some 0, mw_once = True\<rparr>]\<rparr>) = (Ok (), s') \<and>
     ms_pollers s' 0 = Some rp' \<and> rp_write_wakers rp' 5 = Some 77 \<and> ms_woken s' = []"
proof -
  let ?rp = "(raw_mio_poller_new 1000000 0)\<lparr>rp_write_wakers := [5 \<mapsto> 77]\<rparr>"
  let ?m = "\<lparr>mw_value = 3, mw_poller = Some 0, mw_once = True\<rparr>"
  let ?s = "(one_poller (0, []) ?rp)\<lparr>ms_heap := [9 \<mapsto> OSocket DUdpSocket ?m]\<rparr>"
  let ?h = "\<lparr>h_token = 5, h_desc = DUdpSocket, h_user_defined_desc = None, h_data = 9\<rparr>"
  show ?thesis
    using close_keeps_write_waker [of ?h ?s ?m 0 ?rp blocked_os "(0, [])" 1]
    by (auto simp: is_socket_def one_poller_def blocked_os_def wake_if_def raw_mio_poller_new_def)
qed

end
