(* ===== verification/Io_Client.thy ===== *)
theory Io_Client
  imports Mio_Driver
begin

text \<open>
  The clients of the driver: \<open>would_block\<close> (\<open>wouldblock.rs\<close>), the global context and its polling
  thread (\<open>context.rs\<close>), \<open>Sleep\<close> (\<open>sleep.rs\<close>), \<open>timeout\<close> (\<open>timeout.rs\<close>), \<open>TcpListener\<close> and
  \<open>TcpStream\<close> (\<open>crates/net/tcp\<close>) and \<open>UdpSocket\<close> (\<open>crates/net/udp/src/udp.rs\<close>). They work on any
  driver; the end-to-end property of \<open>Sleep\<close> is about the \<open>mio\<close> driver.

  One call of \<open>poll\<close> is an operation with a result of type \<open>'r poll\<close>: \<open>Ok Pending\<close>,
  \<open>Ok (Ready r)\<close> for \<open>Ready(Ok(r))\<close> and \<open>Err e\<close> for \<open>Ready(Err(e))\<close>. An \<open>async fn\<close> with one
  suspension point is its poll; one with a loop keeps its locals in an argument.
\<close>

section \<open>WouldBlock\<close>

definition poll_would_block :: "('s, 'r) op \<Rightarrow> ('s, 'r poll) op" where
  "poll_would_block f s =
     (case f s of
        (Ok r, s') \<Rightarrow> (Ok (Ready r), s')
      | (Err e, s') \<Rightarrow> (if e = WouldBlock then Ok Pending else Err e, s')
      | (Panic, s') \<Rightarrow> (Panic, s'))"

definition would_block_poll :: "(waker \<Rightarrow> ('s, 'r) op) \<Rightarrow> waker \<Rightarrow> ('s, 'r poll) op" where
  "would_block_poll f cx s =
     (case f cx s of
        (Ok r, s') \<Rightarrow> (Ok (Ready r), s')
      | (Err e, s') \<Rightarrow> (if e = WouldBlock then Ok Pending else Err e, s')
      | (Panic, s') \<Rightarrow> (Panic, s'))"

text \<open>The rest of an \<open>async fn\<close> after its only \<open>.await\<close>.\<close>

definition await_then :: "('s, 'a poll) op \<Rightarrow> ('a \<Rightarrow> ('s, 'b) op) \<Rightarrow> ('s, 'b poll) op" where
  "await_then m k =
     op_bind m (\<lambda>r. case r of Pending \<Rightarrow> op_lift (Ok Pending) | Ready x \<Rightarrow> op_map Ready (k x))"

section \<open>The context\<close>

text \<open>The context that \<open>REGISTER\<close> holds: a driver and its poller.\<close>

type_synonym 's io_context_reg = "('s raw_driver_ext \<times> handle) option"

definition mio_context_new :: "'s raw_driver_ext \<Rightarrow> ('s, 's raw_driver_ext \<times> handle) op" where
  "mio_context_new d = op_map (\<lambda>poller. (d, poller)) (fd_open d DPoller FNone)"

definition register_io_context ::
  "'s raw_driver_ext \<times> handle \<Rightarrow> 's io_context_reg \<Rightarrow> 's io_context_reg io_result" where
  "register_io_context c reg = (if reg \<noteq> None then Panic else Ok (Some c))"

text \<open>\<open>get_or_init\<close> of the default driver, with the \<open>unwrap\<close> of the initialisation.\<close>

definition io_context ::
  "'s raw_driver_ext \<Rightarrow> 's io_context_reg \<Rightarrow> ('s, ('s raw_driver_ext \<times> handle) \<times> 's io_context_reg) op" where
  "io_context d reg s =
     (case reg of
        Some c \<Rightarrow> (Ok (c, reg), s)
      | None \<Rightarrow> (case mio_context_new d s of
          (Ok c, s') \<Rightarrow> (Ok (c, Some c), s')
        | (_, s') \<Rightarrow> (Panic, s')))"

text \<open>The thread of \<open>MioContext\<close>, by the values that the flag has at each test.\<close>

fun context_thread :: "'s raw_driver_ext \<Rightarrow> handle \<Rightarrow> bool list \<Rightarrow> ('s, unit) op" where
  "context_thread d poller [] s = (Ok (), s)"
| "context_thread d poller (flag # flags) s =
     (if flag then (Ok (), s)
      else case fd_cntl d poller (CPollOnce None) s of
        (Ok _, s') \<Rightarrow> context_thread d poller flags s'
      | (_, s') \<Rightarrow> (Panic, s'))"

section \<open>Sleep\<close>

record sleep =
  sl_fd :: "handle option"
  sl_expired :: duration
  sl_poller :: handle

definition sleep_new_with :: "handle \<Rightarrow> duration \<Rightarrow> sleep" where
  "sleep_new_with poller expired = \<lparr>sl_fd = None, sl_expired = expired, sl_poller = poller\<rparr>"

definition sleep_start :: "'s raw_driver_ext \<Rightarrow> sleep \<Rightarrow> 's \<Rightarrow> unit io_result \<times> sleep \<times> 's" where
  "sleep_start d sl s =
     (case fd_open d DTimeout (FDuration (sl_expired sl)) s of
        (Err e, s1) \<Rightarrow> (Err e, sl, s1)
      | (Panic, s1) \<Rightarrow> (Panic, sl, s1)
      | (Ok fd, s1) \<Rightarrow>
          let sl1 = sl\<lparr>sl_fd := Some fd\<rparr> in
          case fd_cntl d (sl_poller sl) (CRegister fd Readable) s1 of
            (Err e, s2) \<Rightarrow> (Err e, sl1, s2)
          | (Panic, s2) \<Rightarrow> (Panic, sl1, s2)
          | (Ok _, s2) \<Rightarrow> (Ok (), sl1, s2))"

definition sleep_check :: "'s raw_driver_ext \<Rightarrow> waker \<Rightarrow> sleep \<Rightarrow> ('s, unit poll) op" where
  "sleep_check d cx sl =
     op_bind (op_lift (unwrap (sl_fd sl))) (\<lambda>fd.
     op_bind (fd_cntl d fd (CTimeout cx)) (\<lambda>(resp, _).
     op_bind (op_lift (try_into_timeout resp)) (\<lambda>status.
     op_lift (Ok (if status then Ready () else Pending)))))"

definition sleep_poll :: "'s raw_driver_ext \<Rightarrow> waker \<Rightarrow> sleep \<Rightarrow> 's \<Rightarrow> unit poll io_result \<times> sleep \<times> 's" where
  "sleep_poll d cx sl s =
     (case (if sl_fd sl = None then sleep_start d sl s else (Ok (), sl, s)) of
        (Ok _, sl1, s1) \<Rightarrow> (case sleep_check d cx sl1 s1 of (r, s2) \<Rightarrow> (r, sl1, s2))
      | (Err e, sl1, s1) \<Rightarrow> (Err e, sl1, s1)
      | (Panic, sl1, s1) \<Rightarrow> (Panic, sl1, s1))"

definition sleep_drop :: "'s raw_driver_ext \<Rightarrow> sleep \<Rightarrow> ('s, unit) op" where
  "sleep_drop d sl s =
     (case sl_fd sl of
        None \<Rightarrow> (Ok (), s)
      | Some fd \<Rightarrow> (case fd_close d fd s of (Ok _, s') \<Rightarrow> (Ok (), s') | (_, s') \<Rightarrow> (Panic, s')))"

section \<open>Timeout\<close>

text \<open>
  \<open>select!\<close> polls its branches in a random order, here the argument \<open>sleep_first\<close>. The result of the
  sleep is dropped, an error included; the futures are dropped when the function returns.
\<close>

definition sleep_branch :: "'s raw_driver_ext \<Rightarrow> waker \<Rightarrow> sleep \<Rightarrow> 's \<Rightarrow> 'r poll io_result \<times> sleep \<times> 's" where
  "sleep_branch d cx sl s =
     (case sleep_poll d cx sl s of
        (Ok Pending, sl', s') \<Rightarrow> (Ok Pending, sl', s')
      | (Panic, sl', s') \<Rightarrow> (Panic, sl', s')
      | (_, sl', s') \<Rightarrow> (Err TimedOut, sl', s'))"

definition select_poll ::
  "'s raw_driver_ext \<Rightarrow> bool \<Rightarrow> (waker \<Rightarrow> ('s, 'r poll) op) \<Rightarrow> waker \<Rightarrow> sleep \<Rightarrow> 's \<Rightarrow> 'r poll io_result \<times> sleep \<times> 's" where
  "select_poll d sleep_first fut cx sl s =
     (if sleep_first
      then (case sleep_branch d cx sl s of
              (Ok Pending, sl1, s1) \<Rightarrow> (case fut cx s1 of (r, s2) \<Rightarrow> (r, sl1, s2))
            | r \<Rightarrow> r)
      else (case fut cx s of
              (Ok Pending, s1) \<Rightarrow> sleep_branch d cx sl s1
            | (r, s1) \<Rightarrow> (r, sl, s1)))"

definition timeout_poll ::
  "'s raw_driver_ext \<Rightarrow> bool \<Rightarrow> (waker \<Rightarrow> ('s, 'r poll) op) \<Rightarrow> duration option \<Rightarrow> waker \<Rightarrow> sleep \<Rightarrow> 's \<Rightarrow>
     'r poll io_result \<times> sleep \<times> 's" where
  "timeout_poll d sleep_first fut expired cx sl s =
     (if expired \<noteq> None \<and> expired \<noteq> Some 0
      then (case select_poll d sleep_first fut cx sl s of
              (Ok Pending, sl', s') \<Rightarrow> (Ok Pending, sl', s')
            | (Panic, sl', s') \<Rightarrow> (Panic, sl', s')
            | (r, sl', s') \<Rightarrow> (case sleep_drop d sl' s' of
                (Ok _, s'') \<Rightarrow> (r, sl'\<lparr>sl_fd := None\<rparr>, s'')
              | (_, s'') \<Rightarrow> (Panic, sl', s'')))
      else (case fut cx s of (r, s') \<Rightarrow> (r, sl, s')))"

section \<open>TCP\<close>

text \<open>Opening a descriptor and registering it; a failed registration closes it again.\<close>

definition register_or_close ::
  "'s raw_driver_ext \<Rightarrow> handle \<Rightarrow> interest \<Rightarrow> handle \<Rightarrow> ('s, handle) op" where
  "register_or_close d poller interests fd s =
     (case fd_cntl d poller (CRegister fd interests) s of
        (Err e, s1) \<Rightarrow>
          (case fd_close d fd s1 of
             (Panic, s2) \<Rightarrow> (Panic, s2)
           | (_, s2) \<Rightarrow> (Err e, s2))
      | (Panic, s1) \<Rightarrow> (Panic, s1)
      | (Ok _, s1) \<Rightarrow> (Ok fd, s1))"

definition tcp_listener_bind_to ::
  "'s raw_driver_ext \<Rightarrow> handle \<Rightarrow> sock_addr list io_result \<Rightarrow> ('s, handle) op" where
  "tcp_listener_bind_to d poller laddrs =
     op_bind (op_lift laddrs) (\<lambda>laddrs.
     op_bind (fd_open d DTcpListener (Bind laddrs)) (register_or_close d poller Readable))"

definition tcp_stream_new_with :: "'s raw_driver_ext \<Rightarrow> handle \<Rightarrow> handle \<Rightarrow> ('s, handle) op" where
  "tcp_stream_new_with d fd poller = register_or_close d poller (Readable OR Writable) fd"

definition tcp_stream_connect_to ::
  "'s raw_driver_ext \<Rightarrow> handle \<Rightarrow> sock_addr list io_result \<Rightarrow> ('s, handle) op" where
  "tcp_stream_connect_to d poller raddrs =
     op_bind (op_lift raddrs) (\<lambda>raddrs.
     op_bind (fd_open d DTcpStream (Connect raddrs)) (\<lambda>fd. tcp_stream_new_with d fd poller))"

definition tcp_accept_poll ::
  "'s raw_driver_ext \<Rightarrow> handle \<Rightarrow> handle \<Rightarrow> waker \<Rightarrow> ('s, (handle \<times> sock_addr) poll) op" where
  "tcp_accept_poll d poller fd cx =
     await_then (would_block_poll (\<lambda>w. fd_cntl d fd (CAccept w)) cx) (\<lambda>(resp, _).
       op_bind (op_lift (try_into_incoming resp)) (\<lambda>(h, raddr).
       op_map (\<lambda>stream. (stream, raddr)) (tcp_stream_new_with d h poller)))"

definition local_addr :: "'s raw_driver_ext \<Rightarrow> handle \<Rightarrow> ('s, sock_addr) op" where
  "local_addr d fd =
     op_bind (fd_cntl d fd CLocalAddr) (\<lambda>(resp, _). op_lift (try_into_sockaddr resp))"

definition remote_addr :: "'s raw_driver_ext \<Rightarrow> handle \<Rightarrow> ('s, sock_addr) op" where
  "remote_addr d fd =
     op_bind (fd_cntl d fd CRemoteAddr) (\<lambda>(resp, _). op_lift (try_into_sockaddr resp))"

definition tcp_shutdown :: "'s raw_driver_ext \<Rightarrow> handle \<Rightarrow> shutdown \<Rightarrow> ('s, unit) op" where
  "tcp_shutdown d fd how = op_map (\<lambda>_. ()) (fd_cntl d fd (CShutdown how))"

definition tcp_poll_write :: "'s raw_driver_ext \<Rightarrow> handle \<Rightarrow> waker \<Rightarrow> bytes \<Rightarrow> ('s, nat poll) op" where
  "tcp_poll_write d fd cx buf =
     poll_would_block (op_bind (fd_cntl d fd (CWrite cx buf)) (\<lambda>(resp, _). op_lift (try_into_datalen resp)))"

definition tcp_poll_flush :: "('s, unit poll) op" where
  "tcp_poll_flush = op_lift (Ok (Ready ()))"

definition tcp_poll_close :: "'s raw_driver_ext \<Rightarrow> handle \<Rightarrow> ('s, unit poll) op" where
  "tcp_poll_close d fd = op_map Ready (tcp_shutdown d fd ShutBoth)"

text \<open>The bytes that the driver put into the buffer are part of the result.\<close>

definition tcp_poll_read :: "'s raw_driver_ext \<Rightarrow> handle \<Rightarrow> waker \<Rightarrow> nat \<Rightarrow> ('s, (nat \<times> bytes) poll) op" where
  "tcp_poll_read d fd cx len =
     poll_would_block (op_bind (fd_cntl d fd (CRead cx len)) (\<lambda>(resp, data).
       op_map (\<lambda>n. (n, data)) (op_lift (try_into_datalen resp))))"

definition socket_drop :: "'s raw_driver_ext \<Rightarrow> handle \<Rightarrow> ('s, unit) op" where
  "socket_drop d fd s = (case fd_close d fd s of (Ok _, s') \<Rightarrow> (Ok (), s') | (_, s') \<Rightarrow> (Panic, s'))"

section \<open>UDP\<close>

definition udp_bind_to ::
  "'s raw_driver_ext \<Rightarrow> handle \<Rightarrow> sock_addr list io_result \<Rightarrow> ('s, handle) op" where
  "udp_bind_to d poller laddrs =
     op_bind (op_lift laddrs) (\<lambda>laddrs.
     op_bind (fd_open d DUdpSocket (Bind laddrs)) (register_or_close d poller (Readable OR Writable)))"

text \<open>
  \<open>send_to\<close>: the locals are the addresses not yet tried, the current one first, and the last error.
  A pending poll returns them for the next.
\<close>

fun udp_send_to_poll ::
  "'s raw_driver_ext \<Rightarrow> handle \<Rightarrow> waker \<Rightarrow> bytes \<Rightarrow> sock_addr list \<Rightarrow> io_error option \<Rightarrow> 's \<Rightarrow>
     nat poll io_result \<times> (sock_addr list \<times> io_error option) \<times> 's" where
  "udp_send_to_poll d fd cx buf [] last_error s =
     ((case last_error of None \<Rightarrow> Panic | Some e \<Rightarrow> Err e), ([], last_error), s)"
| "udp_send_to_poll d fd cx buf (raddr # raddrs) last_error s =
     (case would_block_poll (\<lambda>w. op_bind (fd_cntl d fd (CSendTo w buf raddr))
              (\<lambda>(resp, _). op_lift (try_into_datalen resp))) cx s of
        (Ok Pending, s') \<Rightarrow> (Ok Pending, (raddr # raddrs, last_error), s')
      | (Ok (Ready n), s') \<Rightarrow> (Ok (Ready n), (raddr # raddrs, last_error), s')
      | (Err e, s') \<Rightarrow> udp_send_to_poll d fd cx buf raddrs (Some e) s'
      | (Panic, s') \<Rightarrow> (Panic, (raddr # raddrs, last_error), s'))"

definition udp_recv_from_poll ::
  "'s raw_driver_ext \<Rightarrow> handle \<Rightarrow> waker \<Rightarrow> nat \<Rightarrow> ('s, ((nat \<times> sock_addr) \<times> bytes) poll) op" where
  "udp_recv_from_poll d fd cx len =
     would_block_poll (\<lambda>w. op_bind (fd_cntl d fd (CRecvFrom w len)) (\<lambda>(resp, data).
       op_map (\<lambda>r. (r, data)) (op_lift (try_into_recv_from resp)))) cx"

definition udp_broadcast_poll :: "'s raw_driver_ext \<Rightarrow> handle \<Rightarrow> waker \<Rightarrow> ('s, bool poll) op" where
  "udp_broadcast_poll d fd cx =
     would_block_poll (\<lambda>_. op_bind (fd_cntl d fd CBroadCast) (\<lambda>(resp, _). op_lift (try_into_broadcast resp))) cx"

definition udp_set_broadcast_poll :: "'s raw_driver_ext \<Rightarrow> handle \<Rightarrow> waker \<Rightarrow> bool \<Rightarrow> ('s, unit poll) op" where
  "udp_set_broadcast_poll d fd cx on =
     would_block_poll (\<lambda>_. op_bind (fd_cntl d fd (CSetBroadCast on)) (\<lambda>(resp, _). op_lift (try_into_none resp))) cx"

section \<open>Sleep on the mio driver\<close>

text \<open>
  The clock of the world: a reading lies between the clock before and after it. This is what
  \<open>Instant\<close> promises.
\<close>

definition monotone_clock :: "'w os \<Rightarrow> ('w \<Rightarrow> nat) \<Rightarrow> bool" where
  "monotone_clock os clock \<longleftrightarrow>
     (\<forall>w. clock w \<le> fst (os_now os w) \<and> fst (os_now os w) \<le> clock (snd (os_now os w)))"

lemma monotone_clockD:
  "\<lbrakk> monotone_clock os clock; os_now os w = (t, w') \<rbrakk> \<Longrightarrow> clock w \<le> t \<and> t \<le> clock w'"
  unfolding monotone_clock_def by (metis fst_conv snd_conv)

text \<open>The wheel of a poller has not passed the instant \<open>now\<close>.\<close>

definition wheel_behind :: "nat \<Rightarrow> raw_mio_poller \<Rightarrow> bool" where
  "wheel_behind now rp \<longleftrightarrow>
     0 < tw_tick_duration (rp_hashed_timewheel rp) \<and>
     unat (tw_ticks (rp_hashed_timewheel rp)) \<le>
       as_micros (now - rp_start_instant rp) div tw_tick_duration (rp_hashed_timewheel rp)"

text \<open>The state after the first half of the first poll: the timer is open and registered.\<close>

definition started_timer :: "nat \<Rightarrow> duration \<Rightarrow> raw_mio_poller \<Rightarrow> u64 option \<Rightarrow> mio_timer" where
  "started_timer start d rp k =
     \<lparr>mt_start_instant = Some start, mt_duration = d, mt_tick_duration = Some (rp_tick_duration rp),
      mt_timewheel_ticks = k\<rparr>"

definition sleep_started ::
  "mio_poller \<Rightarrow> raw_mio_poller \<Rightarrow> duration \<Rightarrow> nat \<Rightarrow> u64 option \<Rightarrow> token time_wheel \<Rightarrow> 'w \<Rightarrow>
     'w mio_state \<Rightarrow> 'w mio_state" where
  "sleep_started p rp d start k wheel w s =
     s\<lparr>ms_os := w, ms_next_token := ms_next_token s + 1,
       ms_heap := (ms_heap s)(ms_next_box s \<mapsto>
         OTimer \<lparr>mw_value = started_timer start d rp k, mw_poller = Some p, mw_once = True\<rparr>),
       ms_next_box := ms_next_box s + 1,
       ms_pollers := (ms_pollers s)(p \<mapsto> rp\<lparr>rp_hashed_timewheel := wheel\<rparr>)\<rparr>"

definition sleep_handle :: "'w mio_state \<Rightarrow> handle" where
  "sleep_handle s =
     \<lparr>h_token = ms_next_token s, h_desc = DTimeout, h_user_defined_desc = None, h_data = ms_next_box s\<rparr>"

lemma fd_open_timeout: "fd_open (mio_driver os fuel) DTimeout (FDuration d) s = mio_timeout_open d s"
  by (simp add: fd_open_def mio_driver_def mio_method_defs op_bind_def)

lemma sleep_start_zero: "fst (sleep_start (mio_driver os fuel) (sleep_new_with ph 0) s) = Panic"
  by (simp add: sleep_start_def fd_open_timeout sleep_new_with_def mio_timeout_open_def op_bind_def assert_true_def)

lemma sleep_start_mio:
  assumes "h_desc ph = DPoller" "ms_heap s (h_data ph) = Some (OPoller p)" "ms_pollers s p = Some rp" "boxes_fresh s"
    and "d \<noteq> 0" "os_now os (ms_os s) = (start, w1)" "os_now os w1 = (now, w2)"
    and "new_timer (now - rp_start_instant rp) (ms_next_token s) d (rp_hashed_timewheel rp) = Ok (k, wheel)"
  shows "sleep_start (mio_driver os fuel) (sleep_new_with ph d) s =
     (Ok (), (sleep_new_with ph d)\<lparr>sl_fd := Some (sleep_handle s)\<rparr>, sleep_started p rp d start k wheel w2 s)"
proof -
  let ?h = "sleep_handle s"
  let ?s1 = "s\<lparr>ms_next_token := ms_next_token s + 1,
    ms_heap := (ms_heap s)(ms_next_box s \<mapsto> OTimer (mw_new (mio_timer_new d))), ms_next_box := ms_next_box s + 1\<rparr>"
  have ne: "h_data ph \<noteq> ms_next_box s" using assms(2,4) by (auto simp: boxes_fresh_def)
  have opened: "fd_open (mio_driver os fuel) DTimeout (FDuration d) s = (Ok ?h, ?s1)"
    using assms(5)
    by (simp add: fd_open_timeout mio_timeout_open_def op_bind_def assert_true_def handle_from_def
        handle_new_def token_next_def sleep_handle_def)
  have timer: "mio_timer_start os (ms_next_token s) p (mio_timer_new d) ?s1 =
      (Ok (started_timer start d rp k, k \<noteq> None), set_poller p (rp\<lparr>rp_hashed_timewheel := wheel\<rparr>) (?s1\<lparr>ms_os := w2\<rparr>))"
    using assms(3,6-8)
    by (simp add: mio_timer_start_def mio_timer_new_def op_bind_def now_op_def get_poller_def Let_def started_timer_def)
  have reg: "register_timer os p ?h ?s1 = (Ok (), sleep_started p rp d start k wheel w2 s)"
    using timer
    by (cases s) (simp add: register_timer_def sleep_handle_def mw_new_def is_started_def register_poller_def assert_true_def
        mio_timer_new_def op_bind_def put_box_def sleep_started_def set_poller_def)
  have "fd_cntl (mio_driver os fuel) ph (CRegister ?h Readable) ?s1 =
      (Ok (RespNone, []), sleep_started p rp d start k wheel w2 s)"
    using assms(1,2) ne reg
    by (simp add: fd_cntl_def mio_driver_def mio_method_defs op_map_def mio_register_def mio_interests_def Let_def op_bind_def)
       (simp add: sleep_handle_def)
  then show ?thesis by (simp add: sleep_start_def opened sleep_new_with_def)
qed

text \<open>A check of a started timer: it completes once less than a tick is left.\<close>

lemma sleep_check_mio:
  assumes "sl_fd sl = Some h" "h_desc h = DTimeout" "ms_heap s (h_data h) = Some (OTimer m)"
    and "mw_poller m = Some p" "ms_pollers s p = Some rp" "os_now os (ms_os s) = (now, w')"
    and "mt_start_instant (mw_value m) = Some start" "mt_tick_duration (mw_value m) = Some tick"
    and "d = mt_duration (mw_value m)"
  shows "sleep_check (mio_driver os fuel) cx sl s =
     (if d < (now - start) + tick \<or> d \<le> now - start then (Ok (Ready ()), s\<lparr>ms_os := w'\<rparr>)
      else (Ok Pending, (set_poller p (rp_add_waker (h_token h) Readable cx rp) s)\<lparr>ms_os := w'\<rparr>))"
proof -
  have exp: "is_expired os (mw_value m) s = (Ok (d < (now - start) + tick \<or> d \<le> now - start), s\<lparr>ms_os := w'\<rparr>)"
    using assms(6-9) by (auto simp: is_expired_def op_bind_def now_op_def Let_def)
  have "mio_timeout os cx h s =
      (if d < (now - start) + tick \<or> d \<le> now - start then (Ok True, s\<lparr>ms_os := w'\<rparr>)
       else (Ok False, (set_poller p (rp_add_waker (h_token h) Readable cx rp) s)\<lparr>ms_os := w'\<rparr>))"
    using assms(2-5) exp
    by (cases s) (simp add: mio_timeout_def op_bind_def poller_of_def poller_add_waker_def get_poller_def set_poller_def)
  then show ?thesis using assms(1,2)
    by (auto simp: sleep_check_def fd_cntl_def mio_driver_def mio_method_defs op_bind_def op_map_def)
qed

lemma due_less_imp_elapsed:
  assumes "as_micros (t1 - st + d) div td < as_micros (now - st) div td" "start \<le> t1" "now \<le> t4"
  shows "d \<le> t4 - start"
proof -
  have "t1 - st + d < now - st"
    using div_less_imp_less [OF assms(1)] unfolding as_micros_def by (rule div_less_imp_less)
  then show ?thesis using assms(2,3) by linarith
qed

text \<open>The first poll: the timer is checked at once.\<close>

lemma sleep_first_poll:
  assumes ph: "h_desc ph = DPoller" "ms_heap s (h_data ph) = Some (OPoller p)" "ms_pollers s p = Some rp" "boxes_fresh s"
    and d: "d \<noteq> 0" and now: "os_now os (ms_os s) = (start, w1)" "os_now os w1 = (t1, w2)" "os_now os w2 = (t2, w3)"
    and k: "new_timer (t1 - rp_start_instant rp) (ms_next_token s) d (rp_hashed_timewheel rp) = Ok (k, wheel)"
  shows "sleep_poll (mio_driver os fuel) cx (sleep_new_with ph d) s =
     (let sl1 = (sleep_new_with ph d)\<lparr>sl_fd := Some (sleep_handle s)\<rparr>; s1 = sleep_started p rp d start k wheel w2 s in
      if d < (t2 - start) + rp_tick_duration rp \<or> d \<le> t2 - start then (Ok (Ready ()), sl1, s1\<lparr>ms_os := w3\<rparr>)
      else (Ok Pending, sl1, (set_poller p
        (rp_add_waker (ms_next_token s) Readable cx (rp\<lparr>rp_hashed_timewheel := wheel\<rparr>)) s1)\<lparr>ms_os := w3\<rparr>))"
proof -
  let ?sl = "(sleep_new_with ph d)\<lparr>sl_fd := Some (sleep_handle s)\<rparr>"
  let ?s1 = "sleep_started p rp d start k wheel w2 s"
  have "sleep_check (mio_driver os fuel) cx ?sl ?s1 =
     (if d < (t2 - start) + rp_tick_duration rp \<or> d \<le> t2 - start then (Ok (Ready ()), ?s1\<lparr>ms_os := w3\<rparr>)
      else (Ok Pending, (set_poller p
        (rp_add_waker (h_token (sleep_handle s)) Readable cx (rp\<lparr>rp_hashed_timewheel := wheel\<rparr>)) ?s1)\<lparr>ms_os := w3\<rparr>))"
    by (rule sleep_check_mio [where m = "\<lparr>mw_value = started_timer start d rp k, mw_poller = Some p, mw_once = True\<rparr>"])
       (simp_all add: sleep_handle_def sleep_started_def started_timer_def now)
  moreover have "sl_fd (sleep_new_with ph d) = None" "h_token (sleep_handle s) = ms_next_token s"
    by (simp_all add: sleep_new_with_def sleep_handle_def)
  ultimately show ?thesis
    by (simp add: sleep_poll_def sleep_start_mio [OF ph d now(1,2) k] Let_def)
qed

text \<open>What a suspended first poll leaves behind, when the deadline fits the wheel.\<close>

lemma sleep_first_pending:
  assumes mono: "monotone_clock os clock"
    and ph: "h_desc ph = DPoller" "ms_heap s (h_data ph) = Some (OPoller p)" "ms_pollers s p = Some rp" "boxes_fresh s"
    and wheel: "wheel_behind (clock (ms_os s)) rp"
    and pend: "sleep_poll (mio_driver os fuel) cx (sleep_new_with ph d) s = (Ok Pending, sl1, s1)"
    and bound: "as_micros (clock (ms_os s1) - rp_start_instant rp + d) div tw_tick_duration (rp_hashed_timewheel rp) < 2 ^ 64"
  shows "\<exists>start t1 k rp1. start \<le> t1 \<and> t1 \<le> clock (ms_os s1) \<and>
     unat k = as_micros (t1 - rp_start_instant rp + d) div tw_tick_duration (rp_hashed_timewheel rp) \<and>
     tw_ticks (rp_hashed_timewheel rp) \<le> k \<and>
     sl_fd sl1 = Some (sleep_handle s) \<and> ms_pollers s1 p = Some rp1 \<and>
     rp_read_wakers rp1 (ms_next_token s) = Some cx \<and> rp_start_instant rp1 = rp_start_instant rp \<and>
     rp_tick_duration rp1 = rp_tick_duration rp \<and>
     tw_ticks (rp_hashed_timewheel rp1) = tw_ticks (rp_hashed_timewheel rp) \<and>
     tw_tick_duration (rp_hashed_timewheel rp1) = tw_tick_duration (rp_hashed_timewheel rp) \<and>
     ms_next_token s \<in> set (slot (tw_timers (rp_hashed_timewheel rp1)) k) \<and>
     ms_heap s1 (ms_next_box s) =
       Some (OTimer \<lparr>mw_value = started_timer start d rp (Some k), mw_poller = Some p, mw_once = True\<rparr>)"
proof -
  let ?w = "rp_hashed_timewheel rp" and ?st = "rp_start_instant rp"
  let ?td = "tw_tick_duration ?w"
  obtain start w1 t1 w2 t2 w3 where now: "os_now os (ms_os s) = (start, w1)" "os_now os w1 = (t1, w2)" "os_now os w2 = (t2, w3)"
    by (metis surj_pair)
  have le: "clock (ms_os s) \<le> start" "start \<le> clock w1" "clock w1 \<le> t1" "t1 \<le> clock w2" "clock w2 \<le> t2" "t2 \<le> clock w3"
    using monotone_clockD [OF mono] now by blast+
  have d: "d \<noteq> 0"
  proof
    assume "d = 0"
    then show False using pend sleep_start_zero [of os fuel ph s]
      by (simp add: sleep_poll_def sleep_new_with_def split: prod.splits)
  qed
  have td: "0 < ?td" using wheel by (simp add: wheel_behind_def)
  define k where "k = due ?w (t1 - ?st + d)"
  obtain ko wheel' where nt: "new_timer (t1 - ?st) (ms_next_token s) d ?w = Ok (ko, wheel')"
    unfolding new_timer_eq [OF td] by (cases "due ?w (t1 - ?st + d) < tw_ticks ?w") auto
  note first = sleep_first_poll [OF ph d now nt, of fuel cx, unfolded pend]
  have s1: "s1 = (set_poller p (rp_add_waker (ms_next_token s) Readable cx (rp\<lparr>rp_hashed_timewheel := wheel'\<rparr>))
      (sleep_started p rp d start ko wheel' w2 s))\<lparr>ms_os := w3\<rparr>"
    and sl1: "sl1 = (sleep_new_with ph d)\<lparr>sl_fd := Some (sleep_handle s)\<rparr>"
    using first by (auto simp: Let_def split: if_splits)
  have "as_micros (t1 - ?st + d) div ?td \<le> as_micros (clock (ms_os s1) - ?st + d) div ?td"
    by (intro div_le_mono as_micros_mono add_le_mono diff_le_mono) (use le in \<open>auto simp: s1\<close>)
  then have k: "unat k = as_micros (t1 - ?st + d) div ?td" unfolding k_def using bound by (intro unat_due) simp
  have "as_micros (clock (ms_os s) - ?st) div ?td \<le> as_micros (t1 - ?st + d) div ?td"
    by (intro div_le_mono as_micros_mono) (use le in linarith)
  then have ticks: "tw_ticks ?w \<le> k" using wheel k by (simp add: wheel_behind_def word_le_nat_alt)
  then have ko: "ko = Some k" "wheel' = ?w\<lparr>tw_timers := slot_push k (ms_next_token s) (tw_timers ?w),
      tw_timer_count := tw_timer_count ?w + 1\<rparr>"
    using nt unfolding new_timer_eq [OF td] k_def [symmetric] by (auto simp: linorder_not_less [symmetric])
  show ?thesis
    by (rule exI [of _ start], rule exI [of _ t1], rule exI [of _ k],
        rule exI [of _ "rp_add_waker (ms_next_token s) Readable cx (rp\<lparr>rp_hashed_timewheel := wheel'\<rparr>)"])
       (use le k ticks in \<open>simp add: s1 sl1 ko rp_add_waker_def sleep_started_def\<close>)
qed

section \<open>Properties\<close>

text \<open>
  C6: a sleeping task is woken, and is then done. When the first poll of a \<open>Sleep\<close> suspends, its timer
  is in the wheel and its waker in the table; a poll of the driver at an instant whose tick lies after
  that of the deadline wakes it; and the poll of the \<open>Sleep\<close> that follows completes. The clock is
  monotone, the wheel has not overtaken it, and the instants fit the 64-bit ticks.
\<close>

theorem sleep_woken_when_due:
  assumes "monotone_clock os clock"
    and "h_desc ph = DPoller" "ms_heap s (h_data ph) = Some (OPoller p)" "ms_pollers s p = Some rp" "boxes_fresh s"
    and "wheel_behind (clock (ms_os s)) rp"
    and "sleep_poll (mio_driver os fuel) cx (sleep_new_with ph d) s = (Ok Pending, sl1, s1)"
    and "os_poll os p (poll_limit limit rp) (ms_os s1) = (Inr evs, w1)" "os_now os w1 = (now, w2)"
    and "as_micros (clock (ms_os s1) - rp_start_instant rp + d) div tw_tick_duration (rp_hashed_timewheel rp)
       < as_micros (now - rp_start_instant rp) div tw_tick_duration (rp_hashed_timewheel rp)"
    and "as_micros (now - rp_start_instant rp) div tw_tick_duration (rp_hashed_timewheel rp) < 2 ^ 64"
  shows "\<exists>s2 s3. mio_poll_once os p limit s1 = (Ok (), s2) \<and> cx \<in> set (ms_woken s2) \<and>
     sleep_poll (mio_driver os fuel) cx' sl1 s2 = (Ok (Ready ()), sl1, s3)"
proof -
  let ?w = "rp_hashed_timewheel rp" and ?st = "rp_start_instant rp" and ?tok = "ms_next_token s"
  let ?td = "tw_tick_duration ?w"
  have bound: "as_micros (clock (ms_os s1) - ?st + d) div ?td < 2 ^ 64" using assms(10,11) by linarith
  obtain start t1 k rp1 where st: "start \<le> t1" "t1 \<le> clock (ms_os s1)" and k: "unat k = as_micros (t1 - ?st + d) div ?td"
    "tw_ticks ?w \<le> k" and sl: "sl_fd sl1 = Some (sleep_handle s)"
    and rp1: "ms_pollers s1 p = Some rp1" "rp_read_wakers rp1 ?tok = Some cx" "rp_start_instant rp1 = ?st"
      "rp_tick_duration rp1 = rp_tick_duration rp" "tw_ticks (rp_hashed_timewheel rp1) = tw_ticks ?w"
      "tw_tick_duration (rp_hashed_timewheel rp1) = ?td" "?tok \<in> set (slot (tw_timers (rp_hashed_timewheel rp1)) k)"
    and heap: "ms_heap s1 (ms_next_box s) =
       Some (OTimer \<lparr>mw_value = started_timer start d rp (Some k), mw_poller = Some p, mw_once = True\<rparr>)"
    using sleep_first_pending [OF assms(1-7) bound] by (elim exE conjE)
  have "as_micros (t1 - ?st + d) div ?td \<le> as_micros (clock (ms_os s1) - ?st + d) div ?td"
    by (intro div_le_mono as_micros_mono add_le_mono diff_le_mono) (use st in auto)
  then have late: "as_micros (t1 - ?st + d) div ?td < as_micros (now - ?st) div ?td" using assms(10) by linarith
  have due: "due (rp_hashed_timewheel rp1) = due ?w" by (simp add: due_def rp1 fun_eq_iff)
  have "unat (due ?w (now - ?st)) = as_micros (now - ?st) div ?td" by (rule unat_due) (rule assms(11))
  then have kd: "k < due ?w (now - ?st)" using late k by (simp add: word_less_nat_alt)
  then have fired: "?tok \<in> fired now rp1" using rp1 k(2) due by (auto simp: fired_def)
  have ok: "wheel_ok now rp1" using assms(6) kd k(2) by (auto simp: wheel_ok_def wheel_behind_def rp1 due)
  have limit: "poll_limit limit rp1 = poll_limit limit rp" by (cases limit) (simp_all add: poll_limit_def rp1)
  let ?R = "{me_token ev | ev. ev \<in> set evs \<and> me_readable ev} \<union> fired now rp1"
    and ?W = "{me_token ev | ev. ev \<in> set evs \<and> (me_writable ev \<or> \<not> me_readable ev)}"
  obtain s2 rp2 where s2: "mio_poll_once os p limit s1 = (Ok (), s2)" "ms_pollers s2 = (ms_pollers s1)(p \<mapsto> rp2)"
    "mset (ms_woken s2) = mset (ms_woken s1) + wakers_of (rp_read_wakers rp1) ?R + wakers_of (rp_write_wakers rp1) ?W"
    "ms_heap s2 = ms_heap s1" "ms_os s2 = w2" "finite ?R"
    using poll_once_effect [OF rp1(1) assms(8) [folded limit] assms(9) ok refl refl] by (elim exE conjE)
  have "cx \<in># mset (ms_woken s2)" using wakers_of_mem [of ?R ?tok "rp_read_wakers rp1" cx] s2(6) rp1(2) fired
    unfolding s2(3) by simp
  moreover obtain t4 w4 where now4: "os_now os w2 = (t4, w4)" by (cases "os_now os w2")
  have "now \<le> t4" using monotone_clockD [OF assms(1) assms(9)] monotone_clockD [OF assms(1) now4] by linarith
  then have "d \<le> t4 - start" using due_less_imp_elapsed [OF late st(1)] by blast
  then have "sleep_poll (mio_driver os fuel) cx' sl1 s2 = (Ok (Ready ()), sl1, s2\<lparr>ms_os := w4\<rparr>)"
    using sleep_check_mio [OF sl, of s2
        "\<lparr>mw_value = started_timer start d rp (Some k), mw_poller = Some p, mw_once = True\<rparr>" p rp2 os t4 w4 start "rp_tick_duration rp" d fuel cx'] heap s2 now4
    by (simp add: sleep_poll_def sl sleep_handle_def started_timer_def)
  ultimately show ?thesis using s2(1) by auto
qed

lemma blocked_os_monotone: "monotone_clock blocked_os fst"
  by (auto simp: monotone_clock_def blocked_os_def)

theorem sleep_woken_when_due_witness:
  "\<exists>sl1 s1 s2 s3.
     sleep_poll (mio_driver blocked_os 1) 77
       (sleep_new_with \<lparr>h_token = 0, h_desc = DPoller, h_user_defined_desc = None, h_data = 0\<rparr> 100000000)
       (one_poller (0, [] :: mio_event list) (raw_mio_poller_new 1000000 0)) = (Ok Pending, sl1, s1) \<and>
     mio_poll_once blocked_os 0 (Some 1000000000) s1 = (Ok (), s2) \<and> 77 \<in> set (ms_woken s2) \<and>
     sleep_poll (mio_driver blocked_os 1) 78 sl1 s2 = (Ok (Ready ()), sl1, s3)"
proof -
  let ?ph = "\<lparr>h_token = 0, h_desc = DPoller, h_user_defined_desc = None, h_data = 0\<rparr>"
  let ?rp = "raw_mio_poller_new 1000000 0" and ?s = "one_poller (0 :: nat, [] :: mio_event list) (raw_mio_poller_new 1000000 0)"
  let ?wheel = "rp_hashed_timewheel ?rp"
  have td: "tw_tick_duration ?wheel = 1000" "rp_start_instant ?rp = 0" "rp_tick_duration ?rp = 1000000" "tw_ticks ?wheel = 0"
    by (simp_all add: raw_mio_poller_new_def tw_new_def as_micros_def)
  have ph: "h_desc ?ph = DPoller" "ms_heap ?s (h_data ?ph) = Some (OPoller 0)" "ms_pollers ?s 0 = Some ?rp" "boxes_fresh ?s"
    "wheel_behind (fst (ms_os ?s)) ?rp"
    by (auto simp: one_poller_def boxes_fresh_def wheel_behind_def td)
  have now: "os_now blocked_os (ms_os ?s) = (0, (10000000, []))"
    "os_now blocked_os (10000000, []) = (10000000, (20000000, []))"
    "os_now blocked_os (20000000, []) = (20000000, (30000000, []))"
    by (simp_all add: blocked_os_def one_poller_def)
  obtain k wheel where nt: "new_timer (10000000 - rp_start_instant ?rp) (ms_next_token ?s) 100000000 ?wheel = Ok (k, wheel)"
    using new_timer_eq [of ?wheel] td by simp
  obtain sl1 s1 where first: "sleep_poll (mio_driver blocked_os 1) 77 (sleep_new_with ?ph 100000000) ?s = (Ok Pending, sl1, s1)"
    and os: "ms_os s1 = (30000000, [])"
    using sleep_first_poll [OF ph(1-4) _ now nt, of 1 77] by (simp add: Let_def td)
  show ?thesis
    using sleep_woken_when_due [OF blocked_os_monotone ph first,
        of "Some 1000000000" "[]" "(1030000000, [])" 1030000000 "(1040000000, [])" 78] first
    by (auto simp: os td poll_limit_def blocked_os_def as_micros_def)
qed

text \<open>
  A sleep shorter than the tick of its poller never suspends. Its first poll opens the timer, puts
  it into the wheel and completes at once, since less than a tick is left.
\<close>

theorem sleep_shorter_than_tick:
  assumes "h_desc ph = DPoller" "ms_heap s (h_data ph) = Some (OPoller p)" "ms_pollers s p = Some rp" "boxes_fresh s"
    and "0 < tw_tick_duration (rp_hashed_timewheel rp)" "0 < d" "d < rp_tick_duration rp"
  shows "\<exists>sl' s'. sleep_poll (mio_driver os fuel) cx (sleep_new_with ph d) s = (Ok (Ready ()), sl', s') \<and>
     sl_fd sl' = Some (sleep_handle s) \<and> ms_woken s' = ms_woken s"
proof -
  obtain start w1 t1 w2 t2 w3 where now: "os_now os (ms_os s) = (start, w1)" "os_now os w1 = (t1, w2)" "os_now os w2 = (t2, w3)"
    by (metis surj_pair)
  obtain k wheel where nt: "new_timer (t1 - rp_start_instant rp) (ms_next_token s) d (rp_hashed_timewheel rp) = Ok (k, wheel)"
    unfolding new_timer_eq [OF assms(5)] by (metis (full_types))
  have "d \<noteq> 0" using assms(6) by simp
  from sleep_first_poll [OF assms(1-4) this now nt, of fuel cx] show ?thesis
    using assms(7) by (simp add: Let_def sleep_started_def)
qed

theorem sleep_shorter_than_tick_witness:
  "\<exists>sl' s'. sleep_poll (mio_driver blocked_os 1) 77
       (sleep_new_with \<lparr>h_token = 0, h_desc = DPoller, h_user_defined_desc = None, h_data = 0\<rparr> 5000000)
       (one_poller (0, []) (raw_mio_poller_new 10000000 0)) = (Ok (Ready ()), sl', s')"
  using sleep_shorter_than_tick [of "\<lparr>h_token = 0, h_desc = DPoller, h_user_defined_desc = None, h_data = 0\<rparr>"
      "one_poller (0, []) (raw_mio_poller_new 10000000 0)" 0 "raw_mio_poller_new 10000000 0" 5000000 blocked_os 1 77]
  by (auto simp: one_poller_def boxes_fresh_def raw_mio_poller_new_def tw_new_def as_micros_def)

text \<open>
  \<open>UdpSocket::broadcast\<close> never returns a value: whatever the driver, the future is pending or fails.
\<close>

theorem udp_broadcast_never_ready: "fst (udp_broadcast_poll d fd cx s) \<noteq> Ok (Ready b)"
proof -
  let ?f = "op_bind (fd_cntl d fd CBroadCast) (\<lambda>(resp, _). op_lift (try_into_broadcast resp))"
  have no: "?f s \<noteq> (Ok x, s')" for x s'
    unfolding op_bind_Ok by (auto simp: fd_cntl_def op_map_Ok split: description.splits)
  show ?thesis
  proof (cases "?f s")
    case (Pair r s')
    then show ?thesis using no
      by (cases r) (auto simp: udp_broadcast_poll_def would_block_poll_def)
  qed
qed

lemma send_step_no_panic:
  assumes "handle_ready fd s" "boxes_fresh s" "h_desc fd = DUdpSocket"
    and "would_block_poll (\<lambda>w. op_bind (fd_cntl (mio_driver os fuel) fd (CSendTo w buf raddr))
       (\<lambda>(resp, _). op_lift (try_into_datalen resp))) cx s = (r, s')"
  shows "r \<noteq> Panic \<and> handle_ready fd s' \<and> boxes_fresh s'"
proof -
  have io: "io_command (CSendTo cx buf raddr)" by simp
  have safe: "safe_op (fd_cntl (mio_driver os fuel) fd (CSendTo cx buf raddr)) s"
    by (rule safe_io_command [OF assms(1,2) io])
  have kind: "resp_kind_ok (CSendTo cx buf raddr) resp"
    if "fd_cntl (mio_driver os fuel) fd (CSendTo cx buf raddr) s = (Ok (resp, data), s'')" for resp data s''
    by (rule fd_cntl_kind [OF that]) simp
  have "\<exists>n. try_into_datalen resp = Ok n"
    if "fd_cntl (mio_driver os fuel) fd (CSendTo cx buf raddr) s = (Ok (resp, data), s'')" for resp data s''
    using kind [OF that] by (cases resp) auto
  then show ?thesis using safe assms handle_ready_grows [of fd s]
    by (auto simp: would_block_poll_def safe_op_def op_bind_def split: prod.splits outcome.splits if_splits)
qed

text \<open>
  A poll of \<open>UdpSocket::send_to\<close> on a ready handle panics exactly when there is no address to send
  to; with at least one address it returns, whatever the system answers.
\<close>

theorem udp_send_to_panics_iff:
  assumes "handle_ready fd s" "boxes_fresh s" "h_desc fd = DUdpSocket"
  shows "fst (udp_send_to_poll (mio_driver os fuel) fd cx buf raddrs None s) = Panic \<longleftrightarrow> raddrs = []"
proof -
  have "fst (udp_send_to_poll (mio_driver os fuel) fd cx buf raddrs last s) \<noteq> Panic"
    if "raddrs \<noteq> [] \<or> last \<noteq> None" for last
    using assms that
  proof (induction raddrs arbitrary: last s)
    case (Cons a as)
    show ?case
    proof (cases "would_block_poll (\<lambda>w. op_bind (fd_cntl (mio_driver os fuel) fd (CSendTo w buf a))
        (\<lambda>(resp, _). op_lift (try_into_datalen resp))) cx s")
      case (Pair r s')
      note step = send_step_no_panic [OF Cons.prems(1-3) Pair]
      show ?thesis using step Cons.IH [of s'] Cons.prems(3) Pair
        by (auto split: outcome.splits poll.splits)
    qed
  qed auto
  then show ?thesis by auto
qed

theorem udp_send_to_panics_iff_witness:
  "fst (udp_send_to_poll (mio_driver blocked_os 1)
     \<lparr>h_token = 5, h_desc = DUdpSocket, h_user_defined_desc = None, h_data = 0\<rparr> 77 ''a'' [] None
     ((one_poller (0, []) (raw_mio_poller_new 1000000 0))
        \<lparr>ms_heap := [0 \<mapsto> OSocket DUdpSocket \<lparr>mw_value = 3, mw_poller = Some 0, mw_once = True\<rparr>]\<rparr>)) = Panic"
  by (subst udp_send_to_panics_iff) (auto simp: handle_ready_def is_socket_def one_poller_def boxes_fresh_def)

text \<open>
  A pending read of a \<open>TcpStream\<close> on the \<open>mio\<close> driver has registered the waker of the task for
  readability of the stream, and only that entry changed.
\<close>

theorem tcp_read_pending_registers:
  assumes "h_desc fd = DTcpStream" "ms_heap s (h_data fd) = Some (OSocket DTcpStream m)" "mw_poller m = Some p"
    and "ms_pollers s p = Some rp" "tcp_poll_read (mio_driver os fuel) fd cx len s = (Ok Pending, s')"
  shows "ms_pollers s' = (ms_pollers s)(p \<mapsto> rp\<lparr>rp_read_wakers := (rp_read_wakers rp)(h_token fd \<mapsto> cx)\<rparr>)"
proof -
  have call: "fd_cntl (mio_driver os fuel) fd (CRead cx len) s =
      op_map (\<lambda>data. (RespDataLen (length data), data))
        (nonblocking_call fuel p (h_token fd) Readable cx (os_read os (mw_value m) len)) s"
    using assms(1-3) by (simp add: fd_cntl_def mio_driver_def mio_method_defs socket_call_def poller_of_def op_map_def)
  show ?thesis using assms(5)
    by (auto simp: tcp_poll_read_def poll_would_block_def op_bind_def call op_map_def
        nonblocking_call_eq [OF assms(4)] rp_add_waker_def split: prod.splits outcome.splits sum.splits if_splits)
qed

theorem tcp_read_pending_registers_witness:
  "\<exists>s' rp. tcp_poll_read (mio_driver blocked_os 1)
       \<lparr>h_token = 5, h_desc = DTcpStream, h_user_defined_desc = None, h_data = 0\<rparr> 77 10
       ((one_poller (0, []) (raw_mio_poller_new 1000000 0))
          \<lparr>ms_heap := [0 \<mapsto> OSocket DTcpStream \<lparr>mw_value = 3, mw_poller = Some 0, mw_once = True\<rparr>]\<rparr>) =
       (Ok Pending, s') \<and> ms_pollers s' 0 = Some rp \<and> rp_read_wakers rp 5 = Some 77"
proof -
  let ?m = "\<lparr>mw_value = 3, mw_poller = Some 0, mw_once = True\<rparr>" and ?rp = "raw_mio_poller_new 1000000 0"
  let ?s = "(one_poller (0 :: nat, [] :: mio_event list) ?rp)\<lparr>ms_heap := [0 \<mapsto> OSocket DTcpStream ?m]\<rparr>"
  let ?fd = "\<lparr>h_token = 5, h_desc = DTcpStream, h_user_defined_desc = None, h_data = 0\<rparr>"
  have p: "ms_pollers ?s 0 = Some ?rp" by (simp add: one_poller_def)
  obtain s' where s': "tcp_poll_read (mio_driver blocked_os 1) ?fd 77 10 ?s = (Ok Pending, s')"
    by (simp add: tcp_poll_read_def poll_would_block_def op_bind_def fd_cntl_def mio_driver_def mio_method_defs socket_call_def
        poller_of_def op_map_def nonblocking_call_eq [OF p] blocked_os_def)
  then show ?thesis using tcp_read_pending_registers [of ?fd ?s ?m 0 ?rp blocked_os 1 77 10 s'] p by auto
qed

end
