(* ===== verification/Quic_Conn.thy ===== *)
theory Quic_Conn
  imports Io_Driver Event_Map
begin

text \<open>
  The connection state of \<open>crates/net/quic\<close>: \<open>errors.rs\<close>, \<open>state/conn.rs\<close> and
  \<open>state/connector.rs\<close>. The transport is the crate \<open>quiche\<close>, a parameter: a record of operations
  on its connection \<open>'q\<close>. Waiting and waking go through the event map of the theory
  \<open>Event_Map\<close>.

  The state of a connection is behind a lock (theory \<open>Async_Lock\<close>). An \<open>async fn\<close> is modelled by its
  critical sections: the section from the acquisition of the lock to the return or to the
  \<open>wait\<close> that releases it. A section either answers or asks to wait for an event; a task that is
  woken runs the section again. Readings of the clock in one section are one instant, \<open>now\<close>.
\<close>

section \<open>Errors\<close>

datatype quiche_error = Done | StreamStopped u64 | InvalidStreamState u64 | StreamLimit | OtherQuiche nat

datatype hala_io_error =
    StdIoError io_error
  | SendError
  | QuicheError quiche_error
  | EventMapError event_map_error
  | Unspecified

fun hala_io_error_into :: "hala_io_error \<Rightarrow> io_error" where
  "hala_io_error_into SendError = BrokenPipe"
| "hala_io_error_into (StdIoError e) = e"
| "hala_io_error_into (QuicheError (StreamStopped _)) = BrokenPipe"
| "hala_io_error_into (QuicheError (InvalidStreamState _)) = BrokenPipe"
| "hala_io_error_into (QuicheError _) = OtherError"
| "hala_io_error_into Unspecified = OtherError"
| "hala_io_error_into (EventMapError CancelErr) = UnexpectedEof"
| "hala_io_error_into (EventMapError DestroyErr) = UnexpectedEof"

definition quiche_into_io_error :: "quiche_error \<Rightarrow> io_error" where
  "quiche_into_io_error e = hala_io_error_into (QuicheError e)"

definition event_into_io_error :: "event_map_error \<Rightarrow> io_error" where
  "event_into_io_error e = hala_io_error_into (EventMapError e)"

section \<open>The transport\<close>

type_synonym conn_id = bytes
type_synonym stream_id = u64

record send_info =
  si_from :: sock_addr
  si_to :: sock_addr
  si_at :: nat

record recv_info =
  ri_from :: sock_addr
  ri_to :: sock_addr

datatype conn_event =
    EvReadable conn_id
  | EvWritable conn_id
  | EvStreamReadable conn_id stream_id
  | EvStreamWritable conn_id stream_id
  | EvAccept conn_id

text \<open>
  The operations of \<open>quiche::Connection\<close>. A reading operation gets the length of the caller's buffer
  and answers the bytes it put there. \<open>q_event_keys\<close> and \<open>q_stream_order\<close> are the iteration
  orders of the hash maps that the code walks over.
\<close>

record 'q quiche =
  q_is_closed :: "'q \<Rightarrow> bool"
  q_is_draining :: "'q \<Rightarrow> bool"
  q_is_timed_out :: "'q \<Rightarrow> bool"
  q_is_established :: "'q \<Rightarrow> bool"
  q_is_server :: "'q \<Rightarrow> bool"
  q_source_id :: "'q \<Rightarrow> conn_id"
  q_destination_id :: "'q \<Rightarrow> conn_id"
  q_readable :: "'q \<Rightarrow> stream_id list"
  q_stream_readable_next :: "'q \<Rightarrow> stream_id option \<times> 'q"
  q_stream_writable_next :: "'q \<Rightarrow> stream_id option \<times> 'q"
  q_stream_send :: "stream_id \<Rightarrow> bytes \<Rightarrow> bool \<Rightarrow> 'q \<Rightarrow> (quiche_error + nat) \<times> 'q"
  q_stream_recv :: "stream_id \<Rightarrow> nat \<Rightarrow> 'q \<Rightarrow> (quiche_error + bytes \<times> bool) \<times> 'q"
  q_stream_shutdown :: "stream_id \<Rightarrow> u64 \<Rightarrow> 'q \<Rightarrow> (quiche_error + unit) \<times> 'q"
  q_stream_finished :: "stream_id \<Rightarrow> 'q \<Rightarrow> bool"
  q_send :: "nat \<Rightarrow> 'q \<Rightarrow> (quiche_error + bytes \<times> send_info) \<times> 'q"
  q_recv :: "bytes \<Rightarrow> recv_info \<Rightarrow> 'q \<Rightarrow> (quiche_error + nat) \<times> 'q"
  q_send_ack_eliciting :: "'q \<Rightarrow> (quiche_error + unit) \<times> 'q"
  q_timeout :: "nat \<Rightarrow> 'q \<Rightarrow> duration option"
  q_timeout_instant :: "'q \<Rightarrow> nat option"
  q_on_timeout :: "'q \<Rightarrow> 'q"
  q_close :: "bool \<Rightarrow> u64 \<Rightarrow> bytes \<Rightarrow> 'q \<Rightarrow> (quiche_error + unit) \<times> 'q"
  q_send_quantum :: "'q \<Rightarrow> nat"
  q_peer_streams_left_bidi :: "'q \<Rightarrow> u64"
  q_peer_initial_max_streams_bidi :: "'q \<Rightarrow> u64 option"
  q_event_keys :: "(conn_event \<rightharpoonup> waker_with_reason) \<Rightarrow> conn_event list"
  q_stream_order :: "(stream_id \<rightharpoonup> nat) \<Rightarrow> stream_id list"

section \<open>The state\<close>

text \<open>A half-closed stream is its identifier, the key of the map, and its start instant.\<close>

record 'q conn_state =
  cs_quiche :: 'q
  cs_send_ack_eliciting_instant :: nat
  cs_ping_timeout :: duration
  cs_register_incoming :: "stream_id set"
  cs_register_outgoing :: "stream_id set"
  cs_latest_outgoing :: stream_id
  cs_incoming :: "stream_id list"
  cs_dropping :: "stream_id list"
  cs_half_closed :: "stream_id \<rightharpoonup> nat"
  cs_mediator :: "conn_event event_map"
  cs_scid :: conn_id
  cs_dcid :: conn_id
  cs_is_server :: bool

definition half_closed_is_timeout :: "nat \<Rightarrow> nat \<Rightarrow> duration \<Rightarrow> bool" where
  "half_closed_is_timeout now start_instant limit \<longleftrightarrow> now - start_instant \<ge> limit"

text \<open>The streams that are readable when the connection is created.\<close>

fun register_initial :: "stream_id \<Rightarrow> stream_id list \<Rightarrow> 'q conn_state \<Rightarrow> 'q conn_state" where
  "register_initial first [] c = c"
| "register_initial first (i # ids) c =
     register_initial first ids
       (let c1 = (if i mod 2 \<noteq> first mod 2 then c\<lparr>cs_register_incoming := insert i (cs_register_incoming c)\<rparr> else c)
        in c1\<lparr>cs_incoming := cs_incoming c1 @ [i]\<rparr>)"

definition conn_new :: "'q quiche \<Rightarrow> nat \<Rightarrow> 'q \<Rightarrow> duration \<Rightarrow> stream_id \<Rightarrow> 'q conn_state" where
  "conn_new api now q ping_timeout first =
     register_initial first (q_readable api q)
       \<lparr>cs_quiche = q, cs_send_ack_eliciting_instant = now, cs_ping_timeout = ping_timeout,
        cs_register_incoming = {}, cs_register_outgoing = {}, cs_latest_outgoing = first, cs_incoming = [],
        cs_dropping = [], cs_half_closed = Map.empty, cs_mediator = event_map_default,
        cs_scid = q_source_id api q, cs_dcid = q_destination_id api q, cs_is_server = q_is_server api q\<rparr>"

section \<open>Shared parts of the operations\<close>

definition conn_notify :: "conn_event \<Rightarrow> reason \<Rightarrow> 'q conn_state \<Rightarrow> 'q conn_state" where
  "conn_notify ev r c = c\<lparr>cs_mediator := snd (em_notify_one ev r (cs_mediator c))\<rparr>"

definition conn_broken :: "'q quiche \<Rightarrow> 'q \<Rightarrow> bool" where
  "conn_broken api q \<longleftrightarrow> q_is_closed api q \<or> q_is_draining api q \<or> q_is_timed_out api q"

definition handle_quic_conn_status :: "'q quiche \<Rightarrow> ('q conn_state, unit) op" where
  "handle_quic_conn_status api c =
     (if conn_broken api (cs_quiche c)
      then (Err BrokenPipe, c\<lparr>cs_mediator := em_notify_any (q_event_keys api) Cancel (cs_mediator c)\<rparr>)
      else (Ok (), c))"

definition handle_quic_incoming_stream :: "stream_id \<Rightarrow> 'q conn_state \<Rightarrow> 'q conn_state" where
  "handle_quic_incoming_stream i c =
     (if cs_latest_outgoing c mod 2 \<noteq> i mod 2 \<and> i \<notin> cs_register_incoming c
      then conn_notify (EvAccept (cs_scid c)) On
             (c\<lparr>cs_register_incoming := insert i (cs_register_incoming c), cs_incoming := cs_incoming c @ [i]\<rparr>)
      else c)"

definition notify_readable :: "'q quiche \<Rightarrow> ('q conn_state, unit) op" where
  "notify_readable api =
     op_bind (handle_quic_conn_status api) (\<lambda>_ c. (Ok (), conn_notify (EvReadable (cs_scid c)) On c))"

definition handle_stream_status :: "stream_id \<Rightarrow> ('q conn_state, unit) op" where
  "handle_stream_status i c = (if cs_half_closed c i \<noteq> None then (Err BrokenPipe, c) else (Ok (), c))"

text \<open>Each \<open>while let\<close> returns in its first round.\<close>

definition handle_stream_events :: "'q quiche \<Rightarrow> 'q conn_state \<Rightarrow> 'q conn_state" where
  "handle_stream_events api c =
     (case q_stream_readable_next api (cs_quiche c) of
        (Some i, q) \<Rightarrow>
          conn_notify (EvStreamReadable (cs_scid c) i) On (handle_quic_incoming_stream i (c\<lparr>cs_quiche := q\<rparr>))
      | (None, q) \<Rightarrow>
          (case q_stream_writable_next api q of
             (Some i, q') \<Rightarrow> conn_notify (EvStreamWritable (cs_scid c) i) On (c\<lparr>cs_quiche := q'\<rparr>)
           | (None, q') \<Rightarrow> c\<lparr>cs_quiche := q'\<rparr>))"

text \<open>A call of the transport whose error is mapped with \<open>into_io_error\<close>.\<close>

definition quiche_op :: "('q \<Rightarrow> (quiche_error + 'r) \<times> 'q) \<Rightarrow> 'q conn_state \<Rightarrow> (quiche_error + 'r) \<times> 'q conn_state" where
  "quiche_op f c = (case f (cs_quiche c) of (r, q) \<Rightarrow> (r, c\<lparr>cs_quiche := q\<rparr>))"

definition send_ping :: "'q quiche \<Rightarrow> nat \<Rightarrow> ('q conn_state, unit) op" where
  "send_ping api now c =
     (case quiche_op (q_send_ack_eliciting api) c of
        (Inl e, c') \<Rightarrow> (Err (quiche_into_io_error e), c')
      | (Inr _, c') \<Rightarrow> (Ok (), c'\<lparr>cs_send_ack_eliciting_instant := now\<rparr>))"

definition handle_send_timeout :: "'q quiche \<Rightarrow> nat \<Rightarrow> ('q conn_state, duration option) op" where
  "handle_send_timeout api now c =
     (let elapsed = now - cs_send_ack_eliciting_instant c in
      if elapsed > cs_ping_timeout c then op_map (\<lambda>_. None) (send_ping api now) c
      else
        let ping_timeout = cs_ping_timeout c - elapsed in
        (Ok (Some (case q_timeout api now (cs_quiche c) of
               Some t \<Rightarrow> if t < ping_timeout \<and> t > 10 * 1000000 then t else ping_timeout
             | None \<Rightarrow> ping_timeout)), c))"

text \<open>One round of the loop over the dropping queue, and the loop; \<open>pending\<close> is \<open>send_fin_pending\<close>.\<close>

definition drop_stream :: "'q quiche \<Rightarrow> nat \<Rightarrow> stream_id \<Rightarrow> 'q conn_state \<Rightarrow> bool \<times> 'q conn_state" where
  "drop_stream api now i c =
     (case quiche_op (q_stream_send api i [] True) c of
        (Inl Done, c1) \<Rightarrow> (False, c1)
      | (_, c1) \<Rightarrow>
          (True, c1\<lparr>cs_mediator := em_notify_all
                      [EvStreamWritable (cs_scid c1) i, EvStreamReadable (cs_scid c1) i] Cancel (cs_mediator c1),
                    cs_half_closed := (cs_half_closed c1)(i \<mapsto> now)\<rparr>))"

fun drop_streams :: "'q quiche \<Rightarrow> nat \<Rightarrow> stream_id list \<Rightarrow> stream_id list \<Rightarrow> 'q conn_state \<Rightarrow> 'q conn_state" where
  "drop_streams api now [] pending c = c\<lparr>cs_dropping := pending\<rparr>"
| "drop_streams api now (i # ids) pending c =
     (case drop_stream api now i c of
        (True, c') \<Rightarrow> drop_streams api now ids pending c'
      | (False, c') \<Rightarrow> drop_streams api now ids (pending @ [i]) c')"

definition handle_dropping_streams :: "'q quiche \<Rightarrow> nat \<Rightarrow> 'q conn_state \<Rightarrow> 'q conn_state" where
  "handle_dropping_streams api now c = drop_streams api now (cs_dropping c) [] c"

text \<open>
  The answer of the peer on a half-closed stream is read and dropped; \<open>None\<close> stands for a loop that
  does not return.
\<close>

partial_function (option) handle_half_closed_stream_resp ::
  "'q quiche \<Rightarrow> stream_id \<Rightarrow> nat \<Rightarrow> 'q \<Rightarrow> (bool \<times> 'q) option" where
  "handle_half_closed_stream_resp api i len q =
     (case q_stream_recv api i len q of
        (Inr (data, fin), q') \<Rightarrow>
          if \<not> fin then handle_half_closed_stream_resp api i len q' else Some (True, q')
      | (Inl e, q') \<Rightarrow> Some (e \<noteq> Done, q'))"

fun half_closed_loop ::
  "'q quiche \<Rightarrow> nat \<Rightarrow> (stream_id \<times> nat) list \<Rightarrow> 'q conn_state \<Rightarrow> 'q conn_state option" where
  "half_closed_loop api len [] c = Some c"
| "half_closed_loop api len ((i, start) # streams) c =
     (case handle_half_closed_stream_resp api i len (cs_quiche c) of
        None \<Rightarrow> None
      | Some (closed, q) \<Rightarrow>
          half_closed_loop api len streams
            (if closed then c\<lparr>cs_quiche := q\<rparr>
             else c\<lparr>cs_quiche := q, cs_half_closed := (cs_half_closed c)(i \<mapsto> start)\<rparr>))"

definition handle_half_closed_streams :: "'q quiche \<Rightarrow> 'q conn_state \<Rightarrow> 'q conn_state option" where
  "handle_half_closed_streams api c =
     half_closed_loop api (q_send_quantum api (cs_quiche c))
       (map (\<lambda>i. (i, the (cs_half_closed c i))) (q_stream_order api (cs_half_closed c)))
       (c\<lparr>cs_half_closed := Map.empty\<rparr>)"

section \<open>The operations\<close>

text \<open>What a critical section ends with: an answer, a wait with an optional limit, or another round.\<close>

datatype 'r attempt = Answer 'r | WaitFor conn_event "duration option" | Again

definition read_section :: "'q quiche \<Rightarrow> nat \<Rightarrow> nat \<Rightarrow> ('q conn_state, (bytes \<times> send_info) attempt) op" where
  "read_section api now len =
     op_bind (handle_quic_conn_status api) (\<lambda>_ c.
     case quiche_op (q_send api len) (handle_dropping_streams api now c) of
       (Inr r, c') \<Rightarrow> (Ok (Answer r), c'\<lparr>cs_send_ack_eliciting_instant := now\<rparr>)
     | (Inl Done, c') \<Rightarrow>
         op_map (\<lambda>t. case t of None \<Rightarrow> Again | Some t \<Rightarrow> WaitFor (EvReadable (cs_scid c)) (Some t))
           (handle_send_timeout api now) c'
     | (Inl e, c') \<Rightarrow> op_bind (handle_quic_conn_status api) (\<lambda>_. op_lift (Err (quiche_into_io_error e))) c')"

text \<open>The branch of \<open>read\<close> for a wait that timed out, in a critical section of its own.\<close>

definition read_timed_out :: "'q quiche \<Rightarrow> nat \<Rightarrow> ('q conn_state, unit) op" where
  "read_timed_out api now c =
     (if now - cs_send_ack_eliciting_instant c > cs_ping_timeout c then send_ping api now c
      else
        (Ok (), case q_timeout_instant api (cs_quiche c) of
           Some t \<Rightarrow> if t \<le> now then c\<lparr>cs_quiche := q_on_timeout api (cs_quiche c)\<rparr> else c
         | None \<Rightarrow> c))"

text \<open>\<open>write\<close>: \<open>None\<close> when the loop over the half-closed streams does not return.\<close>

definition conn_write :: "'q quiche \<Rightarrow> bytes \<Rightarrow> recv_info \<Rightarrow> 'q conn_state \<Rightarrow> (nat io_result \<times> 'q conn_state) option" where
  "conn_write api buf info c =
     (case handle_quic_conn_status api c of
        (Ok _, c0) \<Rightarrow>
          (case quiche_op (q_recv api buf info) c0 of
             (Inr n, c1) \<Rightarrow>
               map_option (\<lambda>c2. (Ok n, c2)) (handle_half_closed_streams api (handle_stream_events api c1))
           | (Inl e, c1) \<Rightarrow>
               Some (op_bind (handle_quic_conn_status api) (\<lambda>_. op_lift (Err (quiche_into_io_error e))) c1))
      | (Err e, c0) \<Rightarrow> Some (Err e, c0)
      | (Panic, c0) \<Rightarrow> Some (Panic, c0))"

definition stream_send_section ::
  "'q quiche \<Rightarrow> stream_id \<Rightarrow> bytes \<Rightarrow> bool \<Rightarrow> ('q conn_state, nat attempt) op" where
  "stream_send_section api i buf fin =
     op_bind (handle_quic_conn_status api) (\<lambda>_.
     op_bind (handle_stream_status i) (\<lambda>_ c.
     case quiche_op (q_stream_send api i buf fin) c of
       (Inr n, c1) \<Rightarrow>
         op_map (\<lambda>_. Answer n) (notify_readable api)
           (handle_stream_events api
             (if cs_latest_outgoing c1 mod 2 = i mod 2
              then c1\<lparr>cs_register_outgoing := cs_register_outgoing c1 - {i}\<rparr> else c1))
     | (Inl Done, c1) \<Rightarrow>
         op_map (\<lambda>_. WaitFor (EvStreamWritable (cs_scid c1) i) None) (notify_readable api)
           (handle_stream_events api c1)
     | (Inl e, c1) \<Rightarrow> op_bind (handle_quic_conn_status api) (\<lambda>_. op_lift (Err (quiche_into_io_error e))) c1))"

text \<open>\<open>stream_recv_wait\<close> up to the wait.\<close>

definition stream_recv_wait :: "'q quiche \<Rightarrow> stream_id \<Rightarrow> ('q conn_state, 'r attempt) op" where
  "stream_recv_wait api i c =
     op_map (\<lambda>_. WaitFor (EvStreamReadable (cs_scid c) i) None) (notify_readable api) c"

definition stream_recv_section ::
  "'q quiche \<Rightarrow> stream_id \<Rightarrow> nat \<Rightarrow> ('q conn_state, (bytes \<times> bool) attempt) op" where
  "stream_recv_section api i len =
     op_bind (handle_quic_conn_status api) (\<lambda>_.
     op_bind (handle_stream_status i) (\<lambda>_ c.
     case quiche_op (q_stream_recv api i len) c of
       (Inr r, c1) \<Rightarrow> op_map (\<lambda>_. Answer r) (notify_readable api) (handle_stream_events api c1)
     | (Inl Done, c1) \<Rightarrow> stream_recv_wait api i (handle_stream_events api c1)
     | (Inl (InvalidStreamState _), c1) \<Rightarrow>
         if i \<in> cs_register_outgoing c1 then stream_recv_wait api i c1
         else (Err (quiche_into_io_error (InvalidStreamState i)), c1)
     | (Inl e, c1) \<Rightarrow> (Err (quiche_into_io_error e), handle_stream_events api c1)))"

definition accept_section :: "'q quiche \<Rightarrow> ('q conn_state, stream_id option attempt) op" where
  "accept_section api c =
     (case handle_quic_conn_status api c of
        (Ok _, c1) \<Rightarrow>
          (case cs_incoming c1 of
             i # rest \<Rightarrow> (Ok (Answer (Some i)), c1\<lparr>cs_incoming := rest\<rparr>)
           | [] \<Rightarrow> (Ok (WaitFor (EvAccept (cs_scid c1)) None), c1))
      | (_, c1) \<Rightarrow> (Ok (Answer None), c1))"

text \<open>Arithmetic on \<open>u64\<close> with overflow checks, as in a build where they are on.\<close>

definition sub_checked :: "u64 \<Rightarrow> u64 \<Rightarrow> u64 io_result" where
  "sub_checked a b = (if b \<le> a then Ok (a - b) else Panic)"

definition add_checked :: "u64 \<Rightarrow> u64 \<Rightarrow> u64 io_result" where
  "add_checked a b = (if unat a + unat b < 2 ^ 64 then Ok (a + b) else Panic)"

definition open_stream :: "'q quiche \<Rightarrow> ('q conn_state, stream_id) op" where
  "open_stream api =
     op_bind (handle_quic_conn_status api) (\<lambda>_ c.
     op_bind (op_lift (add_checked (cs_latest_outgoing c) 4)) (\<lambda>next c.
       (Ok (cs_latest_outgoing c),
        c\<lparr>cs_latest_outgoing := next,
          cs_register_outgoing := insert (cs_latest_outgoing c) (cs_register_outgoing c)\<rparr>)) c)"

definition close_stream :: "'q quiche \<Rightarrow> stream_id \<Rightarrow> ('q conn_state, unit) op" where
  "close_stream api i =
     op_bind (handle_quic_conn_status api) (\<lambda>_ c.
       if i \<in> cs_register_outgoing c
       then (Ok (), c\<lparr>cs_register_outgoing := cs_register_outgoing c - {i}\<rparr>)
       else notify_readable api
              (c\<lparr>cs_dropping := cs_dropping c @ [i],
                 cs_mediator := em_notify_all [EvStreamReadable (cs_scid c) i, EvStreamWritable (cs_scid c) i]
                   Cancel (cs_mediator c)\<rparr>))"

definition stream_shutdown :: "'q quiche \<Rightarrow> stream_id \<Rightarrow> u64 \<Rightarrow> ('q conn_state, unit) op" where
  "stream_shutdown api i err c =
     (case quiche_op (q_stream_shutdown api i err) c of
        (r, c1) \<Rightarrow>
          ((case r of Inr _ \<Rightarrow> Ok () | Inl e \<Rightarrow> Err (quiche_into_io_error e)),
           conn_notify (EvStreamReadable (cs_scid c1) i) Cancel c1))"

definition conn_close :: "'q quiche \<Rightarrow> bool \<Rightarrow> u64 \<Rightarrow> bytes \<Rightarrow> ('q conn_state, unit) op" where
  "conn_close api app err reason c =
     (case quiche_op (q_close api app err reason) c of
        (Inr _, c1) \<Rightarrow> (Ok (), c1)
      | (Inl Done, c1) \<Rightarrow> (Ok (), c1)
      | (Inl e, c1) \<Rightarrow> (Err (quiche_into_io_error e), c1))"

definition stream_finished :: "'q quiche \<Rightarrow> stream_id \<Rightarrow> 'q conn_state \<Rightarrow> bool" where
  "stream_finished api i c = q_stream_finished api i (cs_quiche c)"

definition conn_is_closed :: "'q quiche \<Rightarrow> 'q conn_state \<Rightarrow> bool" where
  "conn_is_closed api c \<longleftrightarrow> q_is_closed api (cs_quiche c) \<or> q_is_draining api (cs_quiche c)"

definition conn_is_established :: "'q quiche \<Rightarrow> 'q conn_state \<Rightarrow> bool" where
  "conn_is_established api c = q_is_established api (cs_quiche c)"

definition peer_streams_left_bidi :: "'q quiche \<Rightarrow> 'q conn_state \<Rightarrow> u64 io_result" where
  "peer_streams_left_bidi api c =
     (let left = q_peer_streams_left_bidi api (cs_quiche c);
          outgoing_cached = (of_nat (card (cs_register_outgoing c)) :: u64) in
      and_then (unwrap (q_peer_initial_max_streams_bidi api (cs_quiche c))) (\<lambda>initial.
      if left > outgoing_cached
      then if initial = left
           then and_then (sub_checked left outgoing_cached) (\<lambda>d. sub_checked d 1)
           else sub_checked left outgoing_cached
      else Ok 0))"

section \<open>Polling an operation\<close>

text \<open>
  A task inside \<open>stream_send\<close>, \<open>stream_recv\<close> or \<open>accept\<close> is at the lock or in the wait that the
  section asked for. One poll of it runs from there to the next suspension: a wait that is over runs
  the section again. \<open>on_err\<close> is what the operation makes of a cancelled wait.
\<close>

datatype conn_phase = AtLock | InWait "(conn_event, unit) wait_fut"

definition poll_section ::
  "('q conn_state, 'r attempt) op \<Rightarrow> waker \<Rightarrow> 'q conn_state \<Rightarrow> 'r poll io_result \<times> conn_phase \<times> 'q conn_state" where
  "poll_section f cx c =
     (case f c of
        (Ok (Answer r), c1) \<Rightarrow> (Ok (Ready r), AtLock, c1)
      | (Ok (WaitFor ev _), c1) \<Rightarrow>
          (let (w, m) = em_wait ev () (cs_mediator c1); (_, _, w', m') = wait_poll cx w m
           in (Ok Pending, InWait w', c1\<lparr>cs_mediator := m'\<rparr>))
      | (Ok Again, c1) \<Rightarrow> (Ok Pending, AtLock, c1)
      | (Err e, c1) \<Rightarrow> (Err e, AtLock, c1)
      | (Panic, c1) \<Rightarrow> (Panic, AtLock, c1))"

definition conn_poll ::
  "('q conn_state, 'r attempt) op \<Rightarrow> (event_map_error \<Rightarrow> 'r poll io_result) \<Rightarrow> waker \<Rightarrow> conn_phase \<Rightarrow> 'q conn_state \<Rightarrow>
     'r poll io_result \<times> conn_phase \<times> 'q conn_state" where
  "conn_poll f on_err cx ph c =
     (case ph of
        AtLock \<Rightarrow> poll_section f cx c
      | InWait w \<Rightarrow>
          (case wait_poll cx w (cs_mediator c) of
             (Ready (Ok _), _, _, m) \<Rightarrow> poll_section f cx (c\<lparr>cs_mediator := m\<rparr>)
           | (Ready (Err e), _, _, m) \<Rightarrow> (on_err e, AtLock, c\<lparr>cs_mediator := m\<rparr>)
           | (_, _, w', m) \<Rightarrow> (Ok Pending, InWait w', c\<lparr>cs_mediator := m\<rparr>)))"

definition stream_send_poll ::
  "'q quiche \<Rightarrow> stream_id \<Rightarrow> bytes \<Rightarrow> bool \<Rightarrow> waker \<Rightarrow> conn_phase \<Rightarrow> 'q conn_state \<Rightarrow>
     nat poll io_result \<times> conn_phase \<times> 'q conn_state" where
  "stream_send_poll api i buf fin = conn_poll (stream_send_section api i buf fin) (\<lambda>e. Err (event_into_io_error e))"

definition stream_recv_poll ::
  "'q quiche \<Rightarrow> stream_id \<Rightarrow> nat \<Rightarrow> waker \<Rightarrow> conn_phase \<Rightarrow> 'q conn_state \<Rightarrow>
     (bytes \<times> bool) poll io_result \<times> conn_phase \<times> 'q conn_state" where
  "stream_recv_poll api i len = conn_poll (stream_recv_section api i len) (\<lambda>e. Err (event_into_io_error e))"

definition accept_poll ::
  "'q quiche \<Rightarrow> waker \<Rightarrow> conn_phase \<Rightarrow> 'q conn_state \<Rightarrow> stream_id option poll io_result \<times> conn_phase \<times> 'q conn_state" where
  "accept_poll api = conn_poll (accept_section api) (\<lambda>_. Ok (Ready None))"

section \<open>What the operations leave alone\<close>

lemma op_map_snd [simp]: "snd (op_map f m s) = snd (m s)"
  by (simp add: op_map_def)

lemma conn_notify_sel [simp]:
  "cs_quiche (conn_notify ev r c) = cs_quiche c" "cs_scid (conn_notify ev r c) = cs_scid c"
  "cs_register_incoming (conn_notify ev r c) = cs_register_incoming c"
  "cs_register_outgoing (conn_notify ev r c) = cs_register_outgoing c"
  "cs_latest_outgoing (conn_notify ev r c) = cs_latest_outgoing c"
  "cs_incoming (conn_notify ev r c) = cs_incoming c" "cs_dropping (conn_notify ev r c) = cs_dropping c"
  "cs_half_closed (conn_notify ev r c) = cs_half_closed c"
  "cs_mediator (conn_notify ev r c) = snd (em_notify_one ev r (cs_mediator c))"
  by (simp_all add: conn_notify_def)

lemma status_cases:
  obtains "conn_broken api (cs_quiche c)" "handle_quic_conn_status api c =
      (Err BrokenPipe, c\<lparr>cs_mediator := em_notify_any (q_event_keys api) Cancel (cs_mediator c)\<rparr>)"
  | "\<not> conn_broken api (cs_quiche c)" "handle_quic_conn_status api c = (Ok (), c)"
  unfolding handle_quic_conn_status_def by (cases "conn_broken api (cs_quiche c)") auto

text \<open>
  The part of the state that the stream identifiers depend on: the registered incoming streams, the next
  outgoing stream and the queue of incoming streams.
\<close>

definition stream_ids :: "'q conn_state \<Rightarrow> stream_id set \<times> stream_id \<times> stream_id list" where
  "stream_ids c = (cs_register_incoming c, cs_latest_outgoing c, cs_incoming c)"

definition ids_grow :: "'q conn_state \<Rightarrow> 'q conn_state \<Rightarrow> bool" where
  "ids_grow c c' \<longleftrightarrow> stream_ids c' = stream_ids c \<or>
     (\<exists>i. cs_latest_outgoing c mod 2 \<noteq> i mod 2 \<and> i \<notin> cs_register_incoming c \<and>
        stream_ids c' = (insert i (cs_register_incoming c), cs_latest_outgoing c, cs_incoming c @ [i]))"

named_theorems keeps_ids

lemma ids_grow_keep: "stream_ids c' = stream_ids c \<Longrightarrow> ids_grow c c'"
  by (simp add: ids_grow_def)

lemma ids_grow_cong:
  "\<lbrakk> stream_ids c1 = stream_ids c; stream_ids c2 = stream_ids c' \<rbrakk> \<Longrightarrow> ids_grow c1 c2 = ids_grow c c'"
  by (auto simp: ids_grow_def stream_ids_def)

lemma stream_ids_upd [keeps_ids]:
  "stream_ids (c\<lparr>cs_mediator := m\<rparr>) = stream_ids c" "stream_ids (c\<lparr>cs_quiche := q\<rparr>) = stream_ids c"
  "stream_ids (c\<lparr>cs_half_closed := h\<rparr>) = stream_ids c" "stream_ids (c\<lparr>cs_dropping := d\<rparr>) = stream_ids c"
  "stream_ids (c\<lparr>cs_send_ack_eliciting_instant := t\<rparr>) = stream_ids c"
  "stream_ids (c\<lparr>cs_register_outgoing := r\<rparr>) = stream_ids c"
  "stream_ids (conn_notify ev reason c) = stream_ids c"
  by (simp_all add: stream_ids_def)

lemma handle_quic_conn_status_ids [keeps_ids]: "stream_ids (snd (handle_quic_conn_status api c)) = stream_ids c"
  by (simp add: handle_quic_conn_status_def keeps_ids)

lemma notify_readable_ids [keeps_ids]: "stream_ids (snd (notify_readable api c)) = stream_ids c"
  by (cases rule: status_cases [of api c]) (simp_all add: notify_readable_def keeps_ids)

lemma quiche_op_ids [keeps_ids]: "quiche_op f c = (r, c') \<Longrightarrow> stream_ids c' = stream_ids c"
  by (auto simp: quiche_op_def keeps_ids split: prod.splits)

lemma status_then_ids [keeps_ids]:
  "stream_ids (snd (op_bind (handle_quic_conn_status api) (\<lambda>_. op_lift r) c)) = stream_ids c"
  by (cases rule: status_cases [of api c]) (simp_all add: keeps_ids)

lemma send_ping_ids [keeps_ids]: "stream_ids (snd (send_ping api now c)) = stream_ids c"
  by (auto simp: send_ping_def quiche_op_def keeps_ids split: prod.splits sum.splits)

lemma handle_send_timeout_ids [keeps_ids]: "stream_ids (snd (handle_send_timeout api now c)) = stream_ids c"
  by (simp add: handle_send_timeout_def keeps_ids Let_def)

lemma drop_stream_ids: "drop_stream api now i c = (b, c') \<Longrightarrow> stream_ids c' = stream_ids c"
  by (auto simp: drop_stream_def quiche_op_def keeps_ids
      split: prod.splits sum.splits quiche_error.splits)

lemma drop_streams_ids: "stream_ids (drop_streams api now ids pending c) = stream_ids c"
  by (induction api now ids pending c rule: drop_streams.induct)
    (auto simp: keeps_ids split: prod.splits bool.splits dest: drop_stream_ids)

lemma handle_dropping_streams_ids [keeps_ids]: "stream_ids (handle_dropping_streams api now c) = stream_ids c"
  by (simp add: handle_dropping_streams_def drop_streams_ids)

lemma half_closed_loop_ids: "half_closed_loop api len xs c = Some c' \<Longrightarrow> stream_ids c' = stream_ids c"
  by (induction api len xs c rule: half_closed_loop.induct)
    (auto simp: keeps_ids split: option.splits prod.splits if_splits)

lemma handle_half_closed_streams_ids:
  "handle_half_closed_streams api c = Some c' \<Longrightarrow> stream_ids c' = stream_ids c"
  by (auto simp: handle_half_closed_streams_def keeps_ids dest: half_closed_loop_ids)

lemma handle_quic_incoming_stream_grows: "ids_grow c (handle_quic_incoming_stream i c)"
  by (auto simp: handle_quic_incoming_stream_def ids_grow_def stream_ids_def)

lemma handle_stream_events_grows: "ids_grow c (handle_stream_events api c)"
proof (cases "q_stream_readable_next api (cs_quiche c)")
  case (Pair r q)
  show ?thesis
  proof (cases r)
    case None
    then show ?thesis
      using Pair by (auto simp: handle_stream_events_def keeps_ids intro!: ids_grow_keep split: prod.split option.split)
  next
    case (Some i)
    have "stream_ids (handle_stream_events api c) = stream_ids (handle_quic_incoming_stream i (c\<lparr>cs_quiche := q\<rparr>))"
      using Pair Some by (simp add: handle_stream_events_def keeps_ids)
    then show ?thesis
      using handle_quic_incoming_stream_grows [of "c\<lparr>cs_quiche := q\<rparr>" i]
      by (metis ids_grow_cong stream_ids_upd(2))
  qed
qed

lemma read_section_ids: "stream_ids (snd (read_section api now len c)) = stream_ids c"
proof (cases rule: status_cases [of api c])
  case 2
  obtain r c' where q: "quiche_op (q_send api len) (handle_dropping_streams api now c) = (r, c')" by fastforce
  have "stream_ids c' = stream_ids c" using quiche_op_ids [OF q] by (simp add: keeps_ids)
  then show ?thesis
    using 2 q by (auto simp: read_section_def keeps_ids split: sum.split quiche_error.split)
qed (simp add: read_section_def keeps_ids)

lemma read_timed_out_ids: "stream_ids (snd (read_timed_out api now c)) = stream_ids c"
  by (auto simp: read_timed_out_def keeps_ids split: option.splits)

lemma close_stream_ids: "stream_ids (snd (close_stream api i c)) = stream_ids c"
  by (cases rule: status_cases [of api c]) (auto simp: close_stream_def keeps_ids)

lemma stream_shutdown_ids: "stream_ids (snd (stream_shutdown api i e c)) = stream_ids c"
  by (auto simp: stream_shutdown_def keeps_ids split: prod.splits dest: quiche_op_ids)

lemma conn_close_ids: "stream_ids (snd (conn_close api app e reason c)) = stream_ids c"
  by (auto simp: conn_close_def quiche_op_def keeps_ids split: prod.splits sum.splits quiche_error.splits)

lemma conn_write_grows:
  assumes "conn_write api buf info c = Some (r, c')"
  shows "ids_grow c c'"
proof (cases rule: status_cases [of api c])
  case 1
  then show ?thesis using assms by (auto simp: conn_write_def keeps_ids intro!: ids_grow_keep)
next
  case 2
  obtain res c1 where q: "quiche_op (q_recv api buf info) c = (res, c1)" by fastforce
  show ?thesis
  proof (cases res)
    case (Inl e)
    have "c' = snd (op_bind (handle_quic_conn_status api) (\<lambda>_. op_lift (Err (quiche_into_io_error e) :: nat io_result)) c1)"
      using assms 2 q Inl by (simp add: conn_write_def)
    then show ?thesis using quiche_op_ids [OF q] status_then_ids by (metis ids_grow_keep)
  next
    case (Inr n)
    then have "handle_half_closed_streams api (handle_stream_events api c1) = Some c'"
      using assms 2 q by (auto simp: conn_write_def)
    from handle_half_closed_streams_ids [OF this] show ?thesis
      using handle_stream_events_grows [of c1 api] quiche_op_ids [OF q] by (metis ids_grow_cong)
  qed
qed

lemma stream_send_section_grows: "ids_grow c (snd (stream_send_section api i buf fin c))"
proof (cases rule: status_cases [of api c])
  case 1
  then show ?thesis by (simp add: stream_send_section_def keeps_ids ids_grow_keep)
next
  case 2
  obtain r c1 where q: "quiche_op (q_stream_send api i buf fin) c = (r, c1)" by fastforce
  have grow: "ids_grow c (handle_stream_events api c2)" if "stream_ids c2 = stream_ids c" for c2
    using handle_stream_events_grows [of c2 api] that by (metis ids_grow_cong)
  have after: "ids_grow c (snd (notify_readable api (handle_stream_events api c2)))"
    if "stream_ids c2 = stream_ids c" for c2
    using grow [OF that] notify_readable_ids by (metis ids_grow_cong)
  have ids: "stream_ids c1 = stream_ids c" by (rule quiche_op_ids [OF q])
  show ?thesis
    using 2 q ids
    by (auto simp: stream_send_section_def handle_stream_status_def keeps_ids op_bind_def [of "handle_stream_status i"] after
        intro: ids_grow_keep split: sum.split quiche_error.split)
qed

lemma stream_recv_section_grows: "ids_grow c (snd (stream_recv_section api i len c))"
proof (cases rule: status_cases [of api c])
  case 1
  then show ?thesis by (simp add: stream_recv_section_def keeps_ids ids_grow_keep)
next
  case 2
  obtain r c1 where q: "quiche_op (q_stream_recv api i len) c = (r, c1)" by fastforce
  have ids: "stream_ids c1 = stream_ids c" by (rule quiche_op_ids [OF q])
  have grow: "ids_grow c (handle_stream_events api c1)"
    using handle_stream_events_grows [of c1 api] ids by (metis ids_grow_cong)
  have after: "ids_grow c (snd (notify_readable api (handle_stream_events api c1)))"
    using grow notify_readable_ids by (metis ids_grow_cong)
  show ?thesis
    using 2 q ids grow
    by (auto simp: stream_recv_section_def handle_stream_status_def keeps_ids stream_recv_wait_def
        op_bind_def [of "handle_stream_status i"] after intro: ids_grow_keep
        split: sum.split quiche_error.split)
qed

section \<open>Interleaved tasks\<close>

text \<open>
  Any interleaving of critical sections, by any number of tasks: \<open>accepted\<close> lists the streams that
  \<open>accept\<close> has returned and \<open>opened\<close> those that \<open>open_stream\<close> has returned, in order. The
  waits and the notifications outside the lock change the event map only.
\<close>

inductive conn_reach ::
  "'q quiche \<Rightarrow> 'q conn_state \<Rightarrow> stream_id list \<Rightarrow> stream_id list \<Rightarrow> 'q conn_state \<Rightarrow> bool" for api c0 where
  reach_start: "conn_reach api c0 [] [] c0"
| reach_wait: "conn_reach api c0 acc opn c \<Longrightarrow> conn_reach api c0 acc opn (c\<lparr>cs_mediator := m\<rparr>)"
| reach_read: "conn_reach api c0 acc opn c \<Longrightarrow> conn_reach api c0 acc opn (snd (read_section api now len c))"
| reach_timed_out: "conn_reach api c0 acc opn c \<Longrightarrow> conn_reach api c0 acc opn (snd (read_timed_out api now c))"
| reach_write: "\<lbrakk> conn_reach api c0 acc opn c; conn_write api buf info c = Some (r, c') \<rbrakk> \<Longrightarrow> conn_reach api c0 acc opn c'"
| reach_send: "conn_reach api c0 acc opn c \<Longrightarrow> conn_reach api c0 acc opn (snd (stream_send_section api i buf fin c))"
| reach_recv: "conn_reach api c0 acc opn c \<Longrightarrow> conn_reach api c0 acc opn (snd (stream_recv_section api i len c))"
| reach_close_stream: "conn_reach api c0 acc opn c \<Longrightarrow> conn_reach api c0 acc opn (snd (close_stream api i c))"
| reach_shutdown: "conn_reach api c0 acc opn c \<Longrightarrow> conn_reach api c0 acc opn (snd (stream_shutdown api i e c))"
| reach_close: "conn_reach api c0 acc opn c \<Longrightarrow> conn_reach api c0 acc opn (snd (conn_close api app e rsn c))"
| reach_accept: "\<lbrakk> conn_reach api c0 acc opn c; accept_section api c = (Ok (Answer (Some i)), c') \<rbrakk> \<Longrightarrow>
    conn_reach api c0 (acc @ [i]) opn c'"
| reach_no_accept: "\<lbrakk> conn_reach api c0 acc opn c; accept_section api c = (r, c'); \<forall>i. r \<noteq> Ok (Answer (Some i)) \<rbrakk> \<Longrightarrow>
    conn_reach api c0 acc opn c'"
| reach_open: "\<lbrakk> conn_reach api c0 acc opn c; open_stream api c = (Ok i, c') \<rbrakk> \<Longrightarrow> conn_reach api c0 acc (opn @ [i]) c'"
| reach_no_open: "\<lbrakk> conn_reach api c0 acc opn c; open_stream api c = (r, c'); \<forall>i. r \<noteq> Ok i \<rbrakk> \<Longrightarrow>
    conn_reach api c0 acc opn c'"

definition ids_inv :: "stream_id \<Rightarrow> stream_id list \<Rightarrow> stream_id list \<Rightarrow> 'q conn_state \<Rightarrow> bool" where
  "ids_inv first acc opn c \<longleftrightarrow>
     distinct (acc @ cs_incoming c) \<and>
     (\<forall>i \<in> set (acc @ cs_incoming c). unat i mod 2 \<noteq> unat first mod 2 \<and> i \<in> cs_register_incoming c) \<and>
     unat (cs_latest_outgoing c) = unat first + 4 * length opn \<and>
     map unat opn = map (\<lambda>k. unat first + 4 * k) [0..<length opn]"

lemma ids_inv_cong: "stream_ids c' = stream_ids c \<Longrightarrow> ids_inv first acc opn c' = ids_inv first acc opn c"
  by (simp add: ids_inv_def stream_ids_def)

lemma word_parity: "(i :: u64) mod 2 \<noteq> j mod 2 \<longleftrightarrow> unat i mod 2 \<noteq> unat j mod 2"
  by (simp add: word_unat_eq_iff unat_mod_distrib)

lemma ids_inv_grow: "\<lbrakk> ids_inv first acc opn c; ids_grow c c' \<rbrakk> \<Longrightarrow> ids_inv first acc opn c'"
proof -
  assume inv: "ids_inv first acc opn c" and grow: "ids_grow c c'"
  have par: "unat (cs_latest_outgoing c) mod 2 = unat first mod 2" using inv by (simp add: ids_inv_def) presburger
  from grow consider "stream_ids c' = stream_ids c" | (new) i where "cs_latest_outgoing c mod 2 \<noteq> i mod 2"
      "i \<notin> cs_register_incoming c"
      "stream_ids c' = (insert i (cs_register_incoming c), cs_latest_outgoing c, cs_incoming c @ [i])"
    unfolding ids_grow_def by blast
  then show ?thesis
  proof cases
    case new
    then have "unat i mod 2 \<noteq> unat first mod 2" using par by (simp add: word_parity)
    then show ?thesis using new inv by (auto simp: ids_inv_def stream_ids_def)
  qed (use inv ids_inv_cong in blast)
qed

lemma ids_inv_accept:
  assumes "ids_inv first acc opn c" "accept_section api c = (Ok (Answer (Some i)), c')"
  shows "ids_inv first (acc @ [i]) opn c'"
  using assms by (cases rule: status_cases [of api c])
    (auto simp: accept_section_def ids_inv_def split: list.splits)

lemma accept_section_other:
  assumes "accept_section api c = (r, c')" "\<forall>i. r \<noteq> Ok (Answer (Some i))"
  shows "stream_ids c' = stream_ids c"
  using assms by (cases rule: status_cases [of api c])
    (auto simp: accept_section_def keeps_ids split: list.splits)

lemma ids_inv_open:
  assumes inv: "ids_inv first acc opn c" and "open_stream api c = (Ok i, c')"
  shows "ids_inv first acc (opn @ [i]) c'"
proof (cases rule: status_cases [of api c])
  case 2
  have lt: "unat (cs_latest_outgoing c) + 4 < 2 ^ 64" and i: "i = cs_latest_outgoing c"
    and c': "stream_ids c' = (cs_register_incoming c, cs_latest_outgoing c + 4, cs_incoming c)"
    using assms(2) 2(2) by (auto simp: open_stream_def op_bind_Ok add_checked_def stream_ids_def split: if_splits)
  have "unat (cs_latest_outgoing c + 4) = unat (cs_latest_outgoing c) + 4"
    using lt by (subst unat_plus_if') simp
  then show ?thesis using inv i c' by (auto simp: ids_inv_def stream_ids_def)
qed (use assms(2) in \<open>simp add: open_stream_def op_bind_Ok\<close>)

lemma open_stream_other:
  assumes "open_stream api c = (r, c')" "\<forall>i. r \<noteq> Ok i"
  shows "stream_ids c' = stream_ids c"
  using assms by (cases rule: status_cases [of api c])
    (auto simp: open_stream_def keeps_ids add_checked_def split: if_splits)

lemmas keeps_inv = read_section_ids [THEN ids_inv_cong] read_timed_out_ids [THEN ids_inv_cong]
  close_stream_ids [THEN ids_inv_cong] stream_shutdown_ids [THEN ids_inv_cong] conn_close_ids [THEN ids_inv_cong]
  stream_ids_upd(1) [THEN ids_inv_cong]

lemma conn_reach_ids_inv:
  assumes "conn_reach api c0 acc opn c" "ids_inv first [] [] c0"
  shows "ids_inv first acc opn c"
  using assms(1)
proof (induction rule: conn_reach.induct)
  case (reach_accept acc opn c i c')
  then show ?case by (blast intro: ids_inv_accept)
next
  case (reach_no_accept acc opn c r c')
  then show ?case using ids_inv_cong [OF accept_section_other] by blast
next
  case (reach_open acc opn c i c')
  then show ?case by (blast intro: ids_inv_open)
next
  case (reach_no_open acc opn c r c')
  then show ?case using ids_inv_cong [OF open_stream_other] by blast
qed (auto simp: keeps_inv assms(2)
      intro: ids_inv_grow [OF _ conn_write_grows] ids_inv_grow [OF _ stream_send_section_grows]
        ids_inv_grow [OF _ stream_recv_section_grows])

lemma register_initial_peer:
  "\<forall>i \<in> set ids. i mod 2 \<noteq> first mod 2 \<Longrightarrow>
   stream_ids (register_initial first ids c) =
     (cs_register_incoming c \<union> set ids, cs_latest_outgoing c, cs_incoming c @ ids)"
  by (induction first ids c rule: register_initial.induct) (auto simp: stream_ids_def)

lemma conn_new_ids_inv:
  assumes "distinct (q_readable api q)" "\<forall>i \<in> set (q_readable api q). i mod 2 \<noteq> first mod 2"
  shows "ids_inv first [] [] (conn_new api now q ping first)"
proof -
  have "stream_ids (conn_new api now q ping first) = (set (q_readable api q), first, q_readable api q)"
    by (simp add: conn_new_def register_initial_peer [OF assms(2)])
  then show ?thesis using assms by (auto simp: ids_inv_def stream_ids_def word_parity)
qed

section \<open>Dropped streams\<close>

lemma drop_stream_effect:
  assumes "drop_stream api now i c = (b, c')"
  shows "cs_dropping c' = cs_dropping c" "cs_half_closed c' = (if b then (cs_half_closed c)(i \<mapsto> now) else cs_half_closed c)"
  using assms by (auto simp: drop_stream_def quiche_op_def split: prod.splits sum.splits quiche_error.splits)

lemma drop_streams_effect:
  "set (cs_dropping (drop_streams api now ids pending c)) \<subseteq> set pending \<union> set ids \<and>
   set pending \<subseteq> set (cs_dropping (drop_streams api now ids pending c)) \<and>
   dom (cs_half_closed c) \<subseteq> dom (cs_half_closed (drop_streams api now ids pending c)) \<and>
   set ids \<subseteq> set (cs_dropping (drop_streams api now ids pending c)) \<union>
     dom (cs_half_closed (drop_streams api now ids pending c))"
proof (induction api now ids pending c rule: drop_streams.induct)
  case (2 api now i ids pending c)
  obtain b c' where d: "drop_stream api now i c = (b, c')" by fastforce
  show ?case
  proof (cases b)
    case True
    then have dom: "dom (cs_half_closed c') = insert i (dom (cs_half_closed c))" using drop_stream_effect [OF d] by simp
    have eq: "drop_streams api now (i # ids) pending c = drop_streams api now ids pending c'" using True by (simp add: d)
    from 2(1) [OF d [symmetric]] True dom show ?thesis unfolding eq by auto
  next
    case False
    then have eq: "drop_streams api now (i # ids) pending c = drop_streams api now ids (pending @ [i]) c'"
      "cs_half_closed c' = cs_half_closed c" using drop_stream_effect [OF d] by (simp_all add: d)
    from 2(2) [OF d [symmetric]] False show ?thesis unfolding eq by auto
  qed
qed simp

lemma keep_drop_state:
  "cs_dropping (snd (handle_quic_conn_status api c)) = cs_dropping c"
  "cs_half_closed (snd (handle_quic_conn_status api c)) = cs_half_closed c"
  "cs_dropping (snd (send_ping api now c)) = cs_dropping c"
  "cs_half_closed (snd (send_ping api now c)) = cs_half_closed c"
  by (auto simp: handle_quic_conn_status_def send_ping_def quiche_op_def split: prod.splits sum.splits)

lemma read_section_drops:
  assumes "\<not> conn_broken api (cs_quiche c)"
  shows "cs_dropping (snd (read_section api now len c)) = cs_dropping (handle_dropping_streams api now c) \<and>
    cs_half_closed (snd (read_section api now len c)) = cs_half_closed (handle_dropping_streams api now c)"
proof -
  obtain r c' where q: "quiche_op (q_send api len) (handle_dropping_streams api now c) = (r, c')" by fastforce
  then have c': "cs_dropping c' = cs_dropping (handle_dropping_streams api now c)"
      "cs_half_closed c' = cs_half_closed (handle_dropping_streams api now c)"
    by (auto simp: quiche_op_def split: prod.splits)
  have "handle_quic_conn_status api c = (Ok (), c)" using assms by (simp add: handle_quic_conn_status_def)
  then have "snd (read_section api now len c) =
      (case r of Inr _ \<Rightarrow> c'\<lparr>cs_send_ack_eliciting_instant := now\<rparr>
       | Inl Done \<Rightarrow> snd (handle_send_timeout api now c')
       | Inl e \<Rightarrow> snd (handle_quic_conn_status api c'))"
    by (cases rule: status_cases [of api c']) (auto simp: read_section_def q split: sum.split quiche_error.split)
  then show ?thesis
    using c' by (auto simp: keep_drop_state handle_send_timeout_def Let_def split: sum.split quiche_error.split)
qed

lemma half_closed_refused:
  assumes "\<not> conn_broken api (cs_quiche c)" "cs_half_closed c i \<noteq> None"
  shows "stream_send_section api i buf fin c = (Err BrokenPipe, c)" "stream_recv_section api i len c = (Err BrokenPipe, c)"
proof -
  have "handle_quic_conn_status api c = (Ok (), c)" using assms(1) by (simp add: handle_quic_conn_status_def)
  moreover have "handle_stream_status i c = (Err BrokenPipe, c)" using assms(2) by (simp add: handle_stream_status_def)
  ultimately show "stream_send_section api i buf fin c = (Err BrokenPipe, c)"
      "stream_recv_section api i len c = (Err BrokenPipe, c)"
    by (simp_all add: stream_send_section_def stream_recv_section_def)
qed

lemma close_stream_Ok:
  assumes "close_stream api i c = (Ok (), c1)" "i \<notin> cs_register_outgoing c"
  shows "\<not> conn_broken api (cs_quiche c)" "cs_dropping c1 = cs_dropping c @ [i]" "cs_quiche c1 = cs_quiche c"
    "cs_mediator c1 = snd (em_notify_one (EvReadable (cs_scid c)) On
       (em_notify_all [EvStreamReadable (cs_scid c) i, EvStreamWritable (cs_scid c) i] Cancel (cs_mediator c)))"
proof -
  show nb: "\<not> conn_broken api (cs_quiche c)"
    using assms(1) by (auto simp: close_stream_def handle_quic_conn_status_def op_bind_Ok split: if_splits)
  then show "cs_dropping c1 = cs_dropping c @ [i]" "cs_quiche c1 = cs_quiche c"
    "cs_mediator c1 = snd (em_notify_one (EvReadable (cs_scid c)) On
       (em_notify_all [EvStreamReadable (cs_scid c) i, EvStreamWritable (cs_scid c) i] Cancel (cs_mediator c)))"
    using assms by (auto simp: close_stream_def notify_readable_def handle_quic_conn_status_def op_bind_Ok)
qed

section \<open>Waiting readers\<close>

lemma em_wf_notify_any: "em_wf m \<Longrightarrow> em_wf (em_notify_any keys r m)"
  by (simp add: em_notify_any_def em_wf_notify_all)

named_theorems keeps_wf

lemma conn_notify_wf [keeps_wf]: "em_wf (cs_mediator c) \<Longrightarrow> em_wf (cs_mediator (conn_notify ev r c))"
  by (simp add: em_wf_notify_one)

lemma status_wf [keeps_wf]: "em_wf (cs_mediator c) \<Longrightarrow> em_wf (cs_mediator (snd (handle_quic_conn_status api c)))"
  by (simp add: handle_quic_conn_status_def em_wf_notify_any)

lemma incoming_wf [keeps_wf]: "em_wf (cs_mediator c) \<Longrightarrow> em_wf (cs_mediator (handle_quic_incoming_stream i c))"
  by (simp add: handle_quic_incoming_stream_def em_wf_notify_one)

lemma handle_stream_events_wf [keeps_wf]: "em_wf (cs_mediator c) \<Longrightarrow> em_wf (cs_mediator (handle_stream_events api c))"
  by (auto simp: handle_stream_events_def em_wf_notify_one incoming_wf split: prod.split option.split)

lemma handle_stream_events_scid [simp]: "cs_scid (handle_stream_events api c) = cs_scid c"
  by (auto simp: handle_stream_events_def handle_quic_incoming_stream_def split: prod.split option.split)

lemma stream_recv_wait_Ok:
  assumes "stream_recv_wait api i c = (Ok a, c')"
  shows "a = WaitFor (EvStreamReadable (cs_scid c) i) None \<and> cs_scid c' = cs_scid c \<and>
    (em_wf (cs_mediator c) \<longrightarrow> em_wf (cs_mediator c'))"
  using assms by (cases rule: status_cases [of api c])
    (auto simp: stream_recv_wait_def notify_readable_def op_map_Ok em_wf_notify_one)

lemma stream_recv_section_waits:
  assumes "stream_recv_section api i len c = (Ok (WaitFor ev d), c')"
  shows "ev = EvStreamReadable (cs_scid c) i \<and> cs_scid c' = cs_scid c \<and>
    (em_wf (cs_mediator c) \<longrightarrow> em_wf (cs_mediator c'))"
proof -
  have st: "handle_quic_conn_status api c = (Ok (), c)" "handle_stream_status i c = (Ok (), c)"
    using assms by (auto simp: stream_recv_section_def op_bind_Ok handle_quic_conn_status_def handle_stream_status_def
        split: if_splits)
  obtain r c1 where q: "quiche_op (q_stream_recv api i len) c = (r, c1)" by fastforce
  then have c1: "cs_scid c1 = cs_scid c" "cs_mediator c1 = cs_mediator c"
    by (auto simp: quiche_op_def split: prod.splits)
  let ?r = "(Ok (WaitFor ev d) :: (bytes \<times> bool) attempt io_result, c')"
  from assms st q consider "stream_recv_wait api i (handle_stream_events api c1) = ?r" | "stream_recv_wait api i c1 = ?r"
    by (auto simp: stream_recv_section_def op_map_Ok split: sum.splits quiche_error.splits if_splits)
  then show ?thesis
  proof cases
    case 1
    from stream_recv_wait_Ok [OF this] show ?thesis using c1 handle_stream_events_wf [of c1 api] by simp
  next
    case 2
    from stream_recv_wait_Ok [OF this] show ?thesis using c1 by simp
  qed
qed

text \<open>A pending \<open>stream_recv\<close> is registered for its stream.\<close>

lemma stream_recv_registered:
  assumes "em_wf (cs_mediator c)" "stream_recv_poll api i len t AtLock c = (Ok Pending, InWait w, c1)"
  shows "em_wf (cs_mediator c1)" "cs_scid c1 = cs_scid c" "wf_guard w = None"
    "waits_on (cs_mediator c1) (EvStreamReadable (cs_scid c) i) \<lparr>wr_waker = t, wr_reason = wf_reason w\<rparr>"
proof -
  obtain ev d c' where sec: "stream_recv_section api i len c = (Ok (WaitFor ev d), c')"
    using assms(2) by (auto simp: stream_recv_poll_def conn_poll_def poll_section_def
        split: prod.splits outcome.splits attempt.splits)
  note waits = stream_recv_section_waits [OF sec]
  have w: "w = \<lparr>wf_event = ev, wf_guard = None, wf_reason = em_next_cell (cs_mediator c')\<rparr>"
    and c1: "c1 = c'\<lparr>cs_mediator := em_apply (WaitPoll ev t) (cs_mediator c')\<rparr>"
    using assms(2) sec by (auto simp: stream_recv_poll_def conn_poll_def poll_section_def em_wait_def wait_poll_def Let_def)
  show "em_wf (cs_mediator c1)" using waits assms(1) by (simp add: c1 em_wf_apply del: em_apply.simps)
  show "cs_scid c1 = cs_scid c" using waits c1 by simp
  show "wf_guard w = None" by (simp add: w)
  show "waits_on (cs_mediator c1) (EvStreamReadable (cs_scid c) i) \<lparr>wr_waker = t, wr_reason = wf_reason w\<rparr>"
    using waits by (simp add: c1 w waits_on_def em_wait_def wait_poll_def Let_def)
qed

lemma half_closed_loop_mediator: "half_closed_loop api len xs c = Some c' \<Longrightarrow> cs_mediator c' = cs_mediator c"
  by (induction api len xs c rule: half_closed_loop.induct) (auto split: option.splits prod.splits if_splits)

lemma conn_write_mediator:
  assumes "conn_write api buf info c = Some (Ok n, c')" "q_recv api buf info (cs_quiche c) = (Inr n, q)"
  shows "cs_mediator c' = cs_mediator (handle_stream_events api (c\<lparr>cs_quiche := q\<rparr>))"
proof (cases rule: status_cases [of api c])
  case 2
  then have "handle_half_closed_streams api (handle_stream_events api (c\<lparr>cs_quiche := q\<rparr>)) = Some c'"
    using assms by (auto simp: conn_write_def quiche_op_def)
  then show ?thesis by (auto simp: handle_half_closed_streams_def dest: half_closed_loop_mediator)
qed (use assms in \<open>simp add: conn_write_def\<close>)

lemma waits_on_incoming:
  assumes "em_wf (cs_mediator c)" "waits_on (cs_mediator c) (EvStreamReadable s i) w"
  shows "waits_on (cs_mediator (handle_quic_incoming_stream j c)) (EvStreamReadable s i) w"
  using assms by (simp add: handle_quic_incoming_stream_def waits_on_notify_one)

lemma waits_on_pending:
  assumes "waits_on (cs_mediator c) e \<lparr>wr_waker = t, wr_reason = wf_reason w\<rparr>" "wf_guard w = None"
  shows "conn_poll f on_err t' (InWait w) c = (Ok Pending, InWait w, c)"
  using wait_poll_again [of w "cs_mediator c" RNone t'] assms by (simp add: conn_poll_def waits_on_def)

lemma settled_On_resumes:
  assumes "settled (cs_mediator c) (wf_reason w) On" "wf_guard w = None"
  shows "conn_poll f on_err t' (InWait w) c = poll_section f t' c"
  using settled_poll [OF assms, of t'] by (simp add: conn_poll_def)

section \<open>Loops that return\<close>

text \<open>
  The transport's promise that the loop over a half-closed stream rests on: reading a part of a stream
  into a nonempty buffer leaves less to read, for some measure of what is left.
\<close>

definition recv_drains :: "'q quiche \<Rightarrow> ('q \<Rightarrow> nat) \<Rightarrow> bool" where
  "recv_drains api \<mu> \<longleftrightarrow>
     (\<forall>i len q data q'. 0 < len \<longrightarrow> q_stream_recv api i len q = (Inr (data, False), q') \<longrightarrow> \<mu> q' < \<mu> q)"

lemma half_closed_resp_returns:
  assumes "recv_drains api \<mu>" "0 < len"
  shows "\<exists>r. handle_half_closed_stream_resp api i len q = Some r"
proof (induction q rule: measure_induct_rule [where f = \<mu>])
  case (less q)
  obtain r q' where q: "q_stream_recv api i len q = (r, q')" by fastforce
  show ?case
  proof (cases r)
    case (Inr x)
    obtain data fin where x: "x = (data, fin)" by fastforce
    have "\<not> fin \<longrightarrow> \<mu> q' < \<mu> q" using assms q Inr x by (auto simp: recv_drains_def)
    then show ?thesis using less [of q'] q Inr x by (subst handle_half_closed_stream_resp.simps) auto
  qed (use q in \<open>subst handle_half_closed_stream_resp.simps, simp\<close>)
qed

lemma half_closed_loop_returns:
  assumes "recv_drains api \<mu>" "0 < len"
  shows "\<exists>c'. half_closed_loop api len xs c = Some c'"
proof (induction xs arbitrary: c)
  case (Cons x xs)
  obtain i start where x: "x = (i, start)" by fastforce
  obtain b q where "handle_half_closed_stream_resp api i len (cs_quiche c) = Some (b, q)"
    using half_closed_resp_returns [OF assms] by fastforce
  then show ?case using Cons by (simp add: x)
qed simp

section \<open>A small transport\<close>

text \<open>
  Concrete parameters for the witnesses: the state is the list of the streams with unread data. A
  datagram \<open>b # data\<close> delivers \<open>data\<close> on stream \<open>b\<close>.
\<close>

type_synonym sample_q = "(stream_id \<times> bytes) list"

definition sample_stream_recv :: "stream_id \<Rightarrow> nat \<Rightarrow> sample_q \<Rightarrow> (quiche_error + bytes \<times> bool) \<times> sample_q" where
  "sample_stream_recv i len xs =
     (case find_offset (\<lambda>x. fst x = i) xs of
        None \<Rightarrow> (Inl Done, xs)
      | Some n \<Rightarrow>
          (let d = snd (xs ! n) in
           (Inr (take len d, False),
            if len < length d then xs[n := (i, drop len d)] else take n xs @ drop (Suc n) xs)))"

definition sample_quiche :: "sample_q quiche" where
  "sample_quiche =
     \<lparr>q_is_closed = (\<lambda>_. False), q_is_draining = (\<lambda>_. False), q_is_timed_out = (\<lambda>_. False),
      q_is_established = (\<lambda>_. True), q_is_server = (\<lambda>_. True), q_source_id = (\<lambda>_. ''S''), q_destination_id = (\<lambda>_. ''D''),
      q_readable = map fst, q_stream_readable_next = (\<lambda>xs. (case xs of [] \<Rightarrow> None | x # _ \<Rightarrow> Some (fst x), xs)),
      q_stream_writable_next = (\<lambda>xs. (None, xs)), q_stream_send = (\<lambda>i buf fin xs. (Inr (length buf), xs)),
      q_stream_recv = sample_stream_recv, q_stream_shutdown = (\<lambda>i e xs. (Inr (), xs)),
      q_stream_finished = (\<lambda>i xs. False), q_send = (\<lambda>len xs. (Inl Done, xs)),
      q_recv = (\<lambda>buf info xs.
        (case buf of [] \<Rightarrow> (Inl Done, xs) | b # d \<Rightarrow> (Inr (length buf), xs @ [(of_char b, d)]))),
      q_send_ack_eliciting = (\<lambda>xs. (Inr (), xs)), q_timeout = (\<lambda>now xs. None), q_timeout_instant = (\<lambda>xs. None),
      q_on_timeout = (\<lambda>xs. xs), q_close = (\<lambda>app e r xs. (Inr (), xs)), q_send_quantum = (\<lambda>xs. 2),
      q_peer_streams_left_bidi = (\<lambda>xs. 10), q_peer_initial_max_streams_bidi = (\<lambda>xs. Some 10),
      q_event_keys = (\<lambda>m. []), q_stream_order = (\<lambda>m. [])\<rparr>"

definition sample_info :: recv_info where
  "sample_info = \<lparr>ri_from = \<lparr>sa_ip = IpV4 0, sa_port = 1\<rparr>, ri_to = \<lparr>sa_ip = IpV4 0, sa_port = 2\<rparr>\<rparr>"

lemmas sample_quiche_simps = sample_quiche_def conn_broken_def handle_quic_conn_status_def quiche_op_def op_bind_def
  op_map_def conn_new_def event_map_default_def

section \<open>Properties of the connection\<close>

text \<open>
  C5: stream identifiers are handed out once. For every interleaving of the operations of a connection,
  the streams that \<open>accept\<close> and \<open>open_stream\<close> return are pairwise distinct, and the \<open>n\<close>-th opened
  stream has the identifier \<open>first + 4 * n\<close>, without wrap-around.
\<close>

theorem stream_ids_handed_out_once:
  assumes "distinct (q_readable api q)" "\<forall>i \<in> set (q_readable api q). i mod 2 \<noteq> first mod 2"
    and "conn_reach api (conn_new api now q ping first) accepted opened c"
  shows "distinct (accepted @ opened) \<and> map unat opened = map (\<lambda>n. unat first + 4 * n) [0..<length opened]"
proof -
  have inv: "ids_inv first accepted opened c"
    by (rule conn_reach_ids_inv [OF assms(3) conn_new_ids_inv [OF assms(1,2)]])
  then have opn: "map unat opened = map (\<lambda>n. unat first + 4 * n) [0..<length opened]" by (simp add: ids_inv_def)
  then have "distinct (map unat opened)" by (simp add: distinct_map inj_on_def)
  then have "distinct opened" by (simp add: distinct_map)
  moreover have "unat i mod 2 = unat first mod 2" if "i \<in> set opened" for i
  proof -
    have "unat i \<in> set (map unat opened)" using that by simp
    then obtain n where "unat i = unat first + 4 * n" unfolding opn by auto
    then show ?thesis by presburger
  qed
  then have "set accepted \<inter> set opened = {}" using inv by (fastforce simp: ids_inv_def)
  ultimately show ?thesis using inv opn by (simp add: ids_inv_def)
qed

theorem stream_ids_handed_out_once_witness:
  "\<exists>c. conn_reach sample_quiche (conn_new sample_quiche 0 [(0, ''x''), (4, ''y'')] 100 5) [0, 4] [5, 9] c \<and>
     distinct ([0, 4] @ [5, 9 :: stream_id])"
proof -
  let ?c0 = "conn_new sample_quiche 0 [(0, ''x''), (4, ''y'')] 100 5"
  let ?R = "conn_reach sample_quiche ?c0"
  obtain c1 c2 c3 c4 where "accept_section sample_quiche ?c0 = (Ok (Answer (Some 0)), c1)"
      "accept_section sample_quiche c1 = (Ok (Answer (Some 4)), c2)"
      "open_stream sample_quiche c2 = (Ok 5, c3)" "open_stream sample_quiche c3 = (Ok 9, c4)"
    by (simp add: accept_section_def open_stream_def sample_quiche_simps add_checked_def)
  then have "?R ((([] @ [0]) @ [4])) (([] @ [5]) @ [9]) c4"
    by (blast intro: conn_reach.reach_start conn_reach.reach_accept conn_reach.reach_open)
  then have "?R [0, 4] [5, 9] c4" by simp
  moreover from stream_ids_handed_out_once [OF _ _ this] have "distinct ([0, 4] @ [5, 9 :: stream_id])"
    by (simp add: sample_quiche_def)
  ultimately show ?thesis by blast
qed

text \<open>
  C13: a waiting reader is woken by the data of its stream. A \<open>stream_recv\<close> that is suspended stays
  registered whatever other tasks do to other events; when a received packet makes its stream the
  next readable one, \<open>write\<close> wakes the task, and its next poll reads the stream again.
\<close>

theorem stream_recv_woken_by_packet:
  assumes "em_wf (cs_mediator c)" "stream_recv_poll api i len t AtLock c = (Ok Pending, InWait w, c1)"
    and "cs_mediator c2 = fold em_apply ops (cs_mediator c1)" "cs_scid c2 = cs_scid c1"
    and "\<forall>op \<in> set ops. EvStreamReadable (cs_scid c) i \<notin> em_touches op"
    and "q_recv api buf info (cs_quiche c2) = (Inr n, q)" "fst (q_stream_readable_next api q) = Some i"
    and "conn_write api buf info c2 = Some (Ok n, c3)"
  shows "last (em_log (cs_mediator c3)) = t \<and>
     stream_recv_poll api i len t' (InWait w) c3 = poll_section (stream_recv_section api i len) t' c3"
proof -
  let ?e = "EvStreamReadable (cs_scid c) i" and ?w = "\<lparr>wr_waker = t, wr_reason = wf_reason w\<rparr>"
  note reg = stream_recv_registered [OF assms(1,2)]
  obtain q' where q': "q_stream_readable_next api q = (Some i, q')" using assms(7) by (metis prod.collapse)
  let ?m = "cs_mediator (handle_quic_incoming_stream i (c2\<lparr>cs_quiche := q'\<rparr>))"
  have w2: "em_wf (cs_mediator c2)" "waits_on (cs_mediator c2) ?e ?w"
    using waits_on_fold [OF reg(1,4) assms(5)] assms(3) by simp_all
  then have m: "em_wf ?m" "em_wakers ?m ?e = Some ?w"
    using incoming_wf [of "c2\<lparr>cs_quiche := q'\<rparr>" i] waits_on_incoming [of "c2\<lparr>cs_quiche := q'\<rparr>" _ i ?w i]
    by (simp_all add: waits_on_def)
  have c3: "cs_mediator c3 = snd (em_notify_one ?e On ?m)"
    using conn_write_mediator [OF assms(8,6)] assms(4) reg(2) by (simp add: handle_stream_events_def q')
  have "settled (cs_mediator c3) (wf_reason w) On" using notify_one_settles [OF m] by (simp add: c3)
  moreover have "last (em_log (cs_mediator c3)) = t" using m(2) by (simp add: c3 em_notify_one_simps wr_wake_def)
  ultimately show ?thesis using settled_On_resumes reg(3) by (simp add: stream_recv_poll_def)
qed

theorem stream_recv_woken_by_packet_witness:
  "\<exists>w c1 c3. stream_recv_poll sample_quiche 65 8 7 AtLock (conn_new sample_quiche 0 [] 100 4) = (Ok Pending, InWait w, c1) \<and>
     conn_write sample_quiche ''Ahi'' sample_info c1 = Some (Ok 3, c3) \<and>
     stream_recv_poll sample_quiche 65 8 7 (InWait w) c3 = poll_section (stream_recv_section sample_quiche 65 8) 7 c3"
proof -
  let ?c = "conn_new sample_quiche 0 [] 100 4"
  obtain w c1 where 1: "stream_recv_poll sample_quiche 65 8 7 AtLock ?c = (Ok Pending, InWait w, c1)"
      "cs_quiche c1 = []" "cs_half_closed c1 = Map.empty"
    by (simp add: stream_recv_poll_def conn_poll_def poll_section_def stream_recv_section_def sample_quiche_simps
        handle_stream_status_def sample_stream_recv_def handle_stream_events_def stream_recv_wait_def notify_readable_def
        conn_notify_def em_notify_one_def map_remove_def em_wait_def wait_poll_def)
  obtain c3 where 2: "conn_write sample_quiche ''Ahi'' sample_info c1 = Some (Ok 3, c3)"
    using 1(2) by (simp add: conn_write_def sample_quiche_simps handle_half_closed_streams_def)
  have "em_wf (cs_mediator ?c)" by (simp add: conn_new_def sample_quiche_def em_wf_def event_map_default_def)
  from stream_recv_woken_by_packet [OF this 1(1) _ _ _ _ _ 2, of "[]"] show ?thesis
    using 1 2 by (auto simp: sample_quiche_def)
qed

text \<open>
  C14: a packet is always processed. If reading into a nonempty buffer drains a stream, \<open>write\<close> returns
  for every packet and state: the loops over the half-closed streams terminate.
\<close>

theorem conn_write_returns:
  assumes "recv_drains api \<mu>" "\<forall>q. 0 < q_send_quantum api q"
  shows "\<exists>r c'. conn_write api buf info c = Some (r, c')"
proof (cases rule: status_cases [of api c])
  case 2
  have "\<exists>c''. handle_half_closed_streams api c' = Some c''" for c'
    using half_closed_loop_returns [OF assms(1)] assms(2) by (simp add: handle_half_closed_streams_def)
  then show ?thesis
    using 2 by (auto simp: conn_write_def split: prod.split sum.split)
qed (simp add: conn_write_def)

lemma sample_recv_drains: "recv_drains sample_quiche (\<lambda>xs. sum_list (map (\<lambda>x. Suc (length (snd x))) xs))"
proof -
  have "sum_list (map (\<lambda>x. Suc (length (snd x))) xs') < sum_list (map (\<lambda>x. Suc (length (snd x))) xs)"
    if pos: "0 < len" and recv: "sample_stream_recv i len xs = (Inr (data, False), xs')" for i len xs data xs'
  proof -
    obtain n where n: "find_offset (\<lambda>x. fst x = i) xs = Some n"
      using recv by (auto simp: sample_stream_recv_def split: option.splits)
    have len: "n < length xs" using find_offset_less [OF n] .
    have xs': "xs' = (if len < length (snd (xs ! n)) then xs[n := (i, drop len (snd (xs ! n)))] else take n xs @ drop (Suc n) xs)"
      using recv n by (simp add: sample_stream_recv_def Let_def)
    have "sum_list (map (\<lambda>x. Suc (length (snd x))) (take n xs @ xs ! n # drop (Suc n) xs)) =
        sum_list (map (\<lambda>x. Suc (length (snd x))) xs)"
      using id_take_nth_drop [OF len] by simp
    then show ?thesis using pos len by (auto simp: xs' upd_conv_take_nth_drop)
  qed
  then show ?thesis by (simp add: recv_drains_def sample_quiche_def)
qed

theorem conn_write_returns_witness:
  "\<exists>r c'. conn_write sample_quiche ''Ahi'' sample_info
     ((conn_new sample_quiche 0 [(65, ''old data'')] 100 4)\<lparr>cs_half_closed := [65 \<mapsto> 3]\<rparr>) = Some (r, c')"
  by (rule conn_write_returns [OF sample_recv_drains]) (simp add: sample_quiche_def)

text \<open>
  The number of streams a peer still allows. \<open>peer_streams_left_bidi\<close> does not underflow once the peer's
  transport parameters are known; it is at most what the transport reports less the streams that
  are opened and not yet sent on, and at most one below that.
\<close>

theorem peer_streams_left_bounds:
  assumes "q_peer_initial_max_streams_bidi api (cs_quiche c) = Some initial" "card (cs_register_outgoing c) < 2 ^ 64"
  shows "\<exists>left. peer_streams_left_bidi api c = Ok left \<and>
     unat left \<le> unat (q_peer_streams_left_bidi api (cs_quiche c)) - card (cs_register_outgoing c) \<and>
     unat (q_peer_streams_left_bidi api (cs_quiche c)) - card (cs_register_outgoing c) \<le> unat left + 1"
proof -
  let ?l = "q_peer_streams_left_bidi api (cs_quiche c)" and ?n = "of_nat (card (cs_register_outgoing c)) :: u64"
  have n: "unat ?n = card (cs_register_outgoing c)" using assms(2) by (simp add: unat_of_nat)
  show ?thesis
  proof (cases "?l > ?n")
    case True
    then have sub: "unat (?l - ?n) = unat ?l - card (cs_register_outgoing c)" "1 \<le> ?l - ?n"
      using n by (auto simp: unat_sub word_le_nat_alt word_less_nat_alt)
    then have "unat (?l - ?n - 1) = unat ?l - card (cs_register_outgoing c) - 1"
      by (simp add: unat_sub)
    then show ?thesis
      using assms(1) True sub by (auto simp: peer_streams_left_bidi_def Let_def sub_checked_def)
  next
    case False
    then have "unat ?l \<le> card (cs_register_outgoing c)" using n by (simp add: word_less_nat_alt)
    then show ?thesis using False assms(1) by (simp add: peer_streams_left_bidi_def Let_def)
  qed
qed

theorem peer_streams_left_bounds_witness:
  "\<exists>left. peer_streams_left_bidi sample_quiche ((conn_new sample_quiche 0 [] 100 4)\<lparr>cs_register_outgoing := {4, 8}\<rparr>) = Ok left \<and>
     unat left \<le> 8 \<and> 8 \<le> unat left + 1"
proof -
  let ?c = "(conn_new sample_quiche 0 [] 100 4)\<lparr>cs_register_outgoing := {4, 8}\<rparr>"
  have c: "cs_quiche ?c = []" by (simp add: conn_new_def sample_quiche_def)
  have "card {4, 8 :: u64} = 2" by simp
  then show ?thesis using peer_streams_left_bounds [of sample_quiche ?c 10] c by (simp add: sample_quiche_def)
qed


text \<open>Stream 0 of a server connection, with a reader that waits.\<close>

definition sample_waiting :: "sample_q conn_state" where
  "sample_waiting = (conn_new sample_quiche 0 [] 100 5)
     \<lparr>cs_mediator := \<lparr>em_wakers = [EvStreamReadable ''S'' 0 \<mapsto> \<lparr>wr_waker = 7, wr_reason = 0\<rparr>], em_cells = (\<lambda>_. 0),
        em_next_cell = 1, em_log = []\<rparr>\<rparr>"


text \<open>
  A reader that waits on a stream that was opened and never sent on is not cancelled by closing the stream:
  \<open>close_stream\<close> returns before it notifies anybody, and the reader stays pending.
\<close>

theorem close_unsent_stream_keeps_reader:
  assumes "em_wf (cs_mediator c)" "stream_recv_poll api i len t AtLock c = (Ok Pending, InWait w, c1)"
    and "i \<in> cs_register_outgoing c1" "\<not> conn_broken api (cs_quiche c1)"
  shows "\<exists>c2. close_stream api i c1 = (Ok (), c2) \<and> em_log (cs_mediator c2) = em_log (cs_mediator c1) \<and>
     cs_dropping c2 = cs_dropping c1 \<and>
     stream_recv_poll api i len t' (InWait w) c2 = (Ok Pending, InWait w, c2)"
proof -
  let ?c2 = "c1\<lparr>cs_register_outgoing := cs_register_outgoing c1 - {i}\<rparr>"
  note reg = stream_recv_registered [OF assms(1,2)]
  have "close_stream api i c1 = (Ok (), ?c2)"
    using assms(3,4) by (simp add: close_stream_def handle_quic_conn_status_def)
  moreover have "stream_recv_poll api i len t' (InWait w) ?c2 = (Ok Pending, InWait w, ?c2)"
    unfolding stream_recv_poll_def using waits_on_pending [of ?c2, OF _ reg(3)] reg(4) by simp
  ultimately show ?thesis by (intro exI [of _ ?c2]) simp
qed

theorem close_unsent_stream_keeps_reader_witness:
  "\<exists>w c1 c2. stream_recv_poll sample_quiche 5 8 7 AtLock
        ((conn_new sample_quiche 0 [] 100 5)\<lparr>cs_register_outgoing := {5}\<rparr>) = (Ok Pending, InWait w, c1) \<and>
     close_stream sample_quiche 5 c1 = (Ok (), c2) \<and>
     stream_recv_poll sample_quiche 5 8 7 (InWait w) c2 = (Ok Pending, InWait w, c2)"
proof -
  let ?c = "(conn_new sample_quiche 0 [] 100 5)\<lparr>cs_register_outgoing := {5}\<rparr>"
  obtain w c1 where 1: "stream_recv_poll sample_quiche 5 8 7 AtLock ?c = (Ok Pending, InWait w, c1)"
      "cs_register_outgoing c1 = {5}"
    by (simp add: stream_recv_poll_def conn_poll_def poll_section_def stream_recv_section_def sample_quiche_simps
        handle_stream_status_def sample_stream_recv_def handle_stream_events_def stream_recv_wait_def notify_readable_def
        conn_notify_def em_notify_one_def map_remove_def em_wait_def wait_poll_def)
  have "em_wf (cs_mediator ?c)" by (simp add: conn_new_def sample_quiche_def em_wf_def event_map_default_def)
  from close_unsent_stream_keeps_reader [OF this 1(1)] 1 show ?thesis
    by (auto simp: sample_quiche_def conn_broken_def)
qed

text \<open>
  One packet notifies one stream. When a received packet leaves several streams readable, \<open>write\<close> notifies the
  first one only: a reader that waits on another stream stays pending, although the transport has
  data for it.
\<close>

theorem one_packet_notifies_one_stream:
  assumes "em_wf (cs_mediator c)" "stream_recv_poll api j len t AtLock c = (Ok Pending, InWait w, c1)"
    and "q_recv api buf info (cs_quiche c1) = (Inr n, q)" "fst (q_stream_readable_next api q) = Some i" "i \<noteq> j"
    and "conn_write api buf info c1 = Some (Ok n, c2)"
  shows "stream_recv_poll api j len t' (InWait w) c2 = (Ok Pending, InWait w, c2)"
proof -
  let ?e = "EvStreamReadable (cs_scid c) j" and ?w = "\<lparr>wr_waker = t, wr_reason = wf_reason w\<rparr>"
  note reg = stream_recv_registered [OF assms(1,2)]
  obtain q' where q': "q_stream_readable_next api q = (Some i, q')" using assms(4) by (metis prod.collapse)
  let ?c = "handle_quic_incoming_stream i (c1\<lparr>cs_quiche := q'\<rparr>)"
  have m: "em_wf (cs_mediator ?c)" "waits_on (cs_mediator ?c) ?e ?w"
    using reg(1,4) by (simp_all add: incoming_wf waits_on_incoming)
  have "cs_mediator c2 = snd (em_notify_one (EvStreamReadable (cs_scid c1) i) On (cs_mediator ?c))"
    using conn_write_mediator [OF assms(6,3)] by (simp add: handle_stream_events_def q')
  then have "waits_on (cs_mediator c2) ?e ?w" using waits_on_notify_one [OF m] assms(5) by simp
  then show ?thesis unfolding stream_recv_poll_def by (rule waits_on_pending [OF _ reg(3)])
qed

theorem one_packet_notifies_one_stream_witness:
  "\<exists>w c1 c2. stream_recv_poll sample_quiche 65 8 7 AtLock (conn_new sample_quiche 0 [(66, ''x'')] 100 4) = (Ok Pending, InWait w, c1) \<and>
     conn_write sample_quiche ''Ahi'' sample_info c1 = Some (Ok 3, c2) \<and> cs_quiche c2 = [(66, ''x''), (65, ''hi'')] \<and>
     stream_recv_poll sample_quiche 65 8 7 (InWait w) c2 = (Ok Pending, InWait w, c2)"
proof -
  let ?c = "conn_new sample_quiche 0 [(66, ''x'')] 100 4"
  obtain w c1 where 1: "stream_recv_poll sample_quiche 65 8 7 AtLock ?c = (Ok Pending, InWait w, c1)"
      "cs_quiche c1 = [(66, ''x'')]" "cs_half_closed c1 = Map.empty"
    by (simp add: stream_recv_poll_def conn_poll_def poll_section_def stream_recv_section_def sample_quiche_simps
        handle_stream_status_def sample_stream_recv_def handle_stream_events_def stream_recv_wait_def notify_readable_def
        conn_notify_def em_notify_one_def map_remove_def em_wait_def wait_poll_def handle_quic_incoming_stream_def)
  obtain c2 where 2: "conn_write sample_quiche ''Ahi'' sample_info c1 = Some (Ok 3, c2)" "cs_quiche c2 = [(66, ''x''), (65, ''hi'')]"
    using 1(2) by (simp add: conn_write_def sample_quiche_simps handle_half_closed_streams_def handle_stream_events_def
        handle_quic_incoming_stream_def conn_notify_def)
  have "em_wf (cs_mediator ?c)" by (simp add: conn_new_def sample_quiche_def em_wf_def event_map_default_def)
  from one_packet_notifies_one_stream [OF this 1(1) _ _ _ 2(1), where i = 66] show ?thesis
    using 1 2 by (auto simp: sample_quiche_def)
qed

end
