(* ===== verification/Quic_Listener.thy ===== *)
theory Quic_Listener
  imports Quic_Conn Future_Batcher Read_Buf
begin

text \<open>
  The server side of \<open>crates/net/quic\<close>: \<open>state/listener.rs\<close> (the acceptor with its address
  validation and the listener state) and the event loops of \<open>listener.rs\<close>. Besides the transport of
  \<open>Quic_Conn\<close>, the free functions of the crates \<open>quiche\<close> and \<open>ring\<close> are a record of
  parameters. A packet that is written into the caller's buffer is the list of its bytes; its length is
  the \<open>read_size\<close> of the code. A connection is shared between the tables of the listener, so the
  connections are in a store and the tables hold their addresses.
\<close>

section \<open>The libraries\<close>

datatype packet_type = Initial | OtherPacket

record header =
  hd_ty :: packet_type
  hd_version :: "32 word"
  hd_dcid :: conn_id
  hd_scid :: conn_id
  hd_token :: "bytes option"

record ('q, 'k) quic_lib =
  ql_max_conn_id_len :: nat
  ql_header_from_slice :: "bytes \<Rightarrow> quiche_error + header"
  ql_version_is_supported :: "32 word \<Rightarrow> bool"
  ql_accept :: "conn_id \<Rightarrow> conn_id option \<Rightarrow> sock_addr \<Rightarrow> sock_addr \<Rightarrow> quiche_error + 'q"
  ql_connect :: "conn_id \<Rightarrow> sock_addr \<Rightarrow> sock_addr \<Rightarrow> quiche_error + 'q"
  ql_retry :: "conn_id \<Rightarrow> conn_id \<Rightarrow> conn_id \<Rightarrow> bytes \<Rightarrow> 32 word \<Rightarrow> nat \<Rightarrow> quiche_error + bytes"
  ql_negotiate_version :: "conn_id \<Rightarrow> conn_id \<Rightarrow> nat \<Rightarrow> quiche_error + bytes"
  ql_hmac_sign :: "'k \<Rightarrow> bytes \<Rightarrow> bytes"

text \<open>
  \<open>Config\<close>: the last two fields are the payload sizes that the wrapped \<open>quiche::Config\<close> is set to. The
  creation of that object may fail.
\<close>

record quic_config =
  cfg_send_ping_interval :: duration
  cfg_max_datagram_size :: nat
  cfg_max_recv_udp_payload_size :: nat
  cfg_max_send_udp_payload_size :: nat

definition quic_config_new :: "unit io_result \<Rightarrow> quic_config io_result" where
  "quic_config_new quiche_config =
     and_then quiche_config (\<lambda>_. Ok \<lparr>cfg_send_ping_interval = 2 * 1000000000, cfg_max_datagram_size = 1350,
       cfg_max_recv_udp_payload_size = 1350, cfg_max_send_udp_payload_size = 1350\<rparr>)"

definition set_max_datagram_size :: "nat \<Rightarrow> quic_config \<Rightarrow> quic_config" where
  "set_max_datagram_size v cfg =
     cfg\<lparr>cfg_max_datagram_size := v, cfg_max_recv_udp_payload_size := v, cfg_max_send_udp_payload_size := v\<rparr>"

section \<open>Address validation tokens\<close>

text \<open>\<open>octets()\<close>: the bytes of an address, most significant first.\<close>

definition octets_of :: "nat \<Rightarrow> nat \<Rightarrow> bytes" where
  "octets_of n a = map (\<lambda>k. char_of (drop_bit (8 * k) a)) (rev [0..<n])"

fun ip_octets :: "ip_addr \<Rightarrow> bytes" where
  "ip_octets (IpV4 a) = octets_of 4 (unat a)"
| "ip_octets (IpV6 a) = octets_of 16 (unat a)"

definition validate_token :: "bytes \<Rightarrow> sock_addr \<Rightarrow> conn_id io_result" where
  "validate_token token src =
     (if length token < 6 then Err Interrupted
      else if take 6 token \<noteq> ''quiche'' then Err Interrupted
      else
        let token = drop 6 token; addr = ip_octets (sa_ip src) in
        if length token < length addr \<or> take (length addr) token \<noteq> addr then Err Interrupted
        else Ok (drop (length addr) token))"

definition mint_token :: "header \<Rightarrow> sock_addr \<Rightarrow> bytes" where
  "mint_token hdr src = ''quiche'' @ ip_octets (sa_ip src) @ hd_dcid hdr"

section \<open>The acceptor\<close>

datatype 'q handshake_result =
    Unhandled conn_id
  | Incoming 'q duration nat bytes send_info
  | Internal nat bytes send_info

record ('q, 'k) acceptor =
  ac_config :: quic_config
  ac_conn_id_seed :: 'k
  ac_pre_established :: "conn_id \<rightharpoonup> 'q"

definition acceptor_new :: "quic_config \<Rightarrow> 'k io_result \<Rightarrow> ('q, 'k) acceptor io_result" where
  "acceptor_new config key =
     and_then key (\<lambda>seed. Ok \<lparr>ac_config = config, ac_conn_id_seed = seed, ac_pre_established = Map.empty\<rparr>)"

text \<open>The way back of a received packet.\<close>

definition reply_info :: "nat \<Rightarrow> recv_info \<Rightarrow> send_info" where
  "reply_info now info = \<lparr>si_from = ri_to info, si_to = ri_from info, si_at = now\<rparr>"

text \<open>
  \<open>conn.recv\<close> and then \<open>conn.send\<close> on a connection that is being established: the connection goes
  to the application when the handshake is complete and back into the table \<open>pre\<close> otherwise.
\<close>

definition advance_handshake ::
  "'q quiche \<Rightarrow> nat \<Rightarrow> conn_id \<Rightarrow> bytes \<Rightarrow> nat \<Rightarrow> recv_info \<Rightarrow> 'q \<Rightarrow> (('q, 'k) acceptor, 'q handshake_result) op" where
  "advance_handshake api now key buf write_size info conn a =
     (case q_recv api (take write_size buf) info conn of
        (Inl e, _) \<Rightarrow> (Err (quiche_into_io_error e), a)
      | (Inr n, conn) \<Rightarrow>
          (case q_send api (length buf) conn of
             (Inl e, conn) \<Rightarrow>
               if e = Done
               then if q_is_established api conn
                    then (Ok (Incoming conn (cfg_send_ping_interval (ac_config a)) n [] (reply_info now info)), a)
                    else (Ok (Internal n [] (reply_info now info)),
                          a\<lparr>ac_pre_established := (ac_pre_established a)(key \<mapsto> conn)\<rparr>)
               else (Err (quiche_into_io_error e), a)
           | (Inr (packet, si), conn) \<Rightarrow>
               if q_is_established api conn
               then (Ok (Incoming conn (cfg_send_ping_interval (ac_config a)) n packet si), a)
               else (Ok (Internal n packet si), a\<lparr>ac_pre_established := (ac_pre_established a)(key \<mapsto> conn)\<rparr>)))"

definition negotiation_version ::
  "('q, 'k) quic_lib \<Rightarrow> nat \<Rightarrow> header \<Rightarrow> recv_info \<Rightarrow> bytes \<Rightarrow> nat \<Rightarrow> (('q, 'k) acceptor, 'q handshake_result) op" where
  "negotiation_version lib now hdr info buf write_size a =
     (case ql_negotiate_version lib (hd_scid hdr) (hd_dcid hdr) (length buf) of
        Inl e \<Rightarrow> (Err (quiche_into_io_error e), a)
      | Inr packet \<Rightarrow> (Ok (Internal write_size packet (reply_info now info)), a))"

text \<open>The slice of the signature panics when the signature is too short.\<close>

definition retry ::
  "('q, 'k) quic_lib \<Rightarrow> nat \<Rightarrow> header \<Rightarrow> recv_info \<Rightarrow> bytes \<Rightarrow> nat \<Rightarrow> (('q, 'k) acceptor, 'q handshake_result) op" where
  "retry lib now hdr info buf write_size a =
     (let token = mint_token hdr (ri_from info); signature = ql_hmac_sign lib (ac_conn_id_seed a) (hd_dcid hdr) in
      if length signature < ql_max_conn_id_len lib then (Panic, a)
      else
        (case ql_retry lib (hd_scid hdr) (hd_dcid hdr) (take (ql_max_conn_id_len lib) signature) token (hd_version hdr)
                (length buf) of
           Inl e \<Rightarrow> (Err (quiche_into_io_error e), a)
         | Inr packet \<Rightarrow> (Ok (Internal write_size packet (reply_info now info)), a)))"

definition client_hello ::
  "('q, 'k) quic_lib \<Rightarrow> 'q quiche \<Rightarrow> nat \<Rightarrow> header \<Rightarrow> bytes \<Rightarrow> nat \<Rightarrow> recv_info \<Rightarrow> (('q, 'k) acceptor, 'q handshake_result) op" where
  "client_hello lib api now hdr buf write_size info a =
     (if \<not> ql_version_is_supported lib (hd_version hdr) then negotiation_version lib now hdr info buf write_size a
      else
        (case hd_token hdr of
           None \<Rightarrow> (Panic, a)
         | Some token \<Rightarrow>
             if token = [] then retry lib now hdr info buf write_size a
             else
               op_bind (op_lift (validate_token token (ri_from info))) (\<lambda>odcid a.
               if ql_max_conn_id_len lib \<noteq> length (hd_dcid hdr) then (Err Interrupted, a)
               else
                 (case ql_accept lib (hd_dcid hdr) (Some odcid) (ri_to info) (ri_from info) of
                    Inl e \<Rightarrow> (Err (quiche_into_io_error e), a)
                  | Inr conn \<Rightarrow> advance_handshake api now (hd_dcid hdr) buf write_size info conn a)) a))"

definition handshake ::
  "('q, 'k) quic_lib \<Rightarrow> 'q quiche \<Rightarrow> nat \<Rightarrow> bytes \<Rightarrow> nat \<Rightarrow> recv_info \<Rightarrow> (('q, 'k) acceptor, 'q handshake_result) op" where
  "handshake lib api now buf write_size info a =
     (if length buf < write_size then (Panic, a)
      else
        (case ql_header_from_slice lib (take write_size buf) of
           Inl e \<Rightarrow> (Err (quiche_into_io_error e), a)
         | Inr hdr \<Rightarrow>
             (case map_remove (hd_dcid hdr) (ac_pre_established a) of
                (Some conn, pre) \<Rightarrow>
                  advance_handshake api now (hd_dcid hdr) buf write_size info conn (a\<lparr>ac_pre_established := pre\<rparr>)
              | (None, _) \<Rightarrow>
                  if hd_ty hdr = Initial then client_hello lib api now hdr buf write_size info a
                  else (Ok (Unhandled (hd_dcid hdr)), a))))"

section \<open>Tokens\<close>

lemma length_octets_of [simp]: "length (octets_of n a) = n"
  by (simp add: octets_of_def)

lemma octets_of_nth: "k < n \<Longrightarrow> octets_of n a ! (n - 1 - k) = char_of (drop_bit (8 * k) a)"
  by (simp add: octets_of_def rev_nth)

lemma octets_of_inj:
  assumes "octets_of n a = octets_of n b" "a < 2 ^ (8 * n)" "b < 2 ^ (8 * n)"
  shows "a = b"
proof (rule bit_eqI)
  fix j
  show "bit a j \<longleftrightarrow> bit b j"
  proof (cases "j < 8 * n")
    case True
    then have k: "j div 8 < n" by (simp add: less_mult_imp_div_less mult.commute)
    have "char_of (drop_bit (8 * (j div 8)) a) = (char_of (drop_bit (8 * (j div 8)) b) :: char)"
      using assms(1) octets_of_nth [OF k, of a] octets_of_nth [OF k, of b] by simp
    then have "(of_char (char_of (drop_bit (8 * (j div 8)) a) :: char) :: nat) =
        of_char (char_of (drop_bit (8 * (j div 8)) b) :: char)" by simp
    then have "take_bit 8 (drop_bit (8 * (j div 8)) a) = take_bit 8 (drop_bit (8 * (j div 8)) b)"
      by (simp add: take_bit_eq_mod)
    then have "bit (take_bit 8 (drop_bit (8 * (j div 8)) a)) (j mod 8) \<longleftrightarrow>
        bit (take_bit 8 (drop_bit (8 * (j div 8)) b)) (j mod 8)" by simp
    then show ?thesis by (simp add: bit_take_bit_iff bit_drop_bit_eq add.commute)
  next
    case False
    then have "\<not> bit a j" "\<not> bit b j" using assms(2,3)
      by (metis bit_take_bit_iff take_bit_nat_eq_self)+
    then show ?thesis by simp
  qed
qed

lemma unat_less: "unat (w :: 'a :: len word) < 2 ^ LENGTH('a)"
  by (rule unsigned_less)

fun is_v4 :: "ip_addr \<Rightarrow> bool" where
  "is_v4 (IpV4 _) = True"
| "is_v4 (IpV6 _) = False"

lemma ip_octets_inj: "\<lbrakk> ip_octets a = ip_octets b; is_v4 a = is_v4 b \<rbrakk> \<Longrightarrow> a = b"
proof (cases a; cases b)
  fix x y assume "ip_octets a = ip_octets b" "a = IpV4 x" "b = IpV4 y"
  then show "a = b" using octets_of_inj [of 4 "unat x" "unat y"] unat_less [of x] unat_less [of y]
    by (simp add: word_unat_eq_iff)
next
  fix x y assume "ip_octets a = ip_octets b" "a = IpV6 x" "b = IpV6 y"
  then show "a = b" using octets_of_inj [of 16 "unat x" "unat y"] unat_less [of x] unat_less [of y]
    by (simp add: word_unat_eq_iff)
qed simp_all

lemma length_ip_octets: "length (ip_octets a) = (if is_v4 a then 4 else 16)"
  by (cases a) simp_all

lemma validate_token_Ok:
  "validate_token token src = Ok odcid \<longleftrightarrow> token = ''quiche'' @ ip_octets (sa_ip src) @ odcid"
proof
  assume "validate_token token src = Ok odcid"
  then have t: "take 6 token = ''quiche''" "take (length (ip_octets (sa_ip src))) (drop 6 token) = ip_octets (sa_ip src)"
      "odcid = drop (length (ip_octets (sa_ip src))) (drop 6 token)"
    by (auto simp: validate_token_def Let_def split: if_splits)
  then have "''quiche'' @ ip_octets (sa_ip src) @ odcid = take 6 token @ drop 6 token"
    by (metis append_take_drop_id)
  then show "token = ''quiche'' @ ip_octets (sa_ip src) @ odcid" by simp
qed (simp add: validate_token_def)

section \<open>The acceptor\<close>

text \<open>Documented behaviour of the libraries: an Initial packet has a token field, and HMAC-SHA256 signatures are long enough.\<close>

definition quic_lib_contract :: "('q, 'k) quic_lib \<Rightarrow> bool" where
  "quic_lib_contract lib \<longleftrightarrow>
     (\<forall>p hdr. ql_header_from_slice lib p = Inr hdr \<longrightarrow> hd_ty hdr = Initial \<longrightarrow> hd_token hdr \<noteq> None) \<and>
     (\<forall>k p. ql_max_conn_id_len lib \<le> length (ql_hmac_sign lib k p))"

lemma advance_handshake_cases:
  assumes "advance_handshake api now key buf n info conn a = (r, a')"
  obtains (failed) e where "r = Err e" "a' = a"
  | (up) conn' d m p si where "r = Ok (Incoming conn' d m p si)" "q_is_established api conn'" "a' = a"
  | (pre) conn' m p si where "r = Ok (Internal m p si)" "\<not> q_is_established api conn'"
      "a' = a\<lparr>ac_pre_established := (ac_pre_established a)(key \<mapsto> conn')\<rparr>"
  using assms unfolding advance_handshake_def
  by (auto split: prod.splits sum.splits if_splits intro: that)

text \<open>The answers that allocate nothing: an error, a version negotiation or a retry packet.\<close>

lemma client_hello_cases:
  assumes "client_hello lib api now hdr buf n info a = (r, a')" "quic_lib_contract lib"
    "ql_header_from_slice lib pkt = Inr hdr" "hd_ty hdr = Initial"
  obtains (refused) e where "r = Err e" "a' = a"
  | (answered) m p si where "r = Ok (Internal m p si)" "a' = a"
  | (valid) odcid conn where "hd_token hdr = Some (''quiche'' @ ip_octets (sa_ip (ri_from info)) @ odcid)"
      "length (hd_dcid hdr) = ql_max_conn_id_len lib" "advance_handshake api now (hd_dcid hdr) buf n info conn a = (r, a')"
proof -
  obtain token where t: "hd_token hdr = Some token" using assms(2-4) unfolding quic_lib_contract_def by blast
  have len: "\<not> length (ql_hmac_sign lib k p) < ql_max_conn_id_len lib" for k p
    using assms(2) by (auto simp: quic_lib_contract_def not_less)
  consider "\<not> ql_version_is_supported lib (hd_version hdr)" | "ql_version_is_supported lib (hd_version hdr)" "token = []"
    | "ql_version_is_supported lib (hd_version hdr)" "token \<noteq> []" by blast
  then show ?thesis
  proof cases
    case 1
    then show ?thesis using assms(1) that(1,2) by (auto simp: client_hello_def negotiation_version_def split: sum.splits)
  next
    case 2
    then show ?thesis using assms(1) that(1,2) t len by (auto simp: client_hello_def retry_def Let_def split: sum.splits)
  next
    case 3
    show ?thesis
    proof (cases "validate_token token (ri_from info)")
      case (Ok odcid)
      then have tok: "hd_token hdr = Some (''quiche'' @ ip_octets (sa_ip (ri_from info)) @ odcid)"
        using t by (simp add: validate_token_Ok)
      then show ?thesis
        using assms(1) that 3 t Ok by (auto simp: client_hello_def split: sum.splits if_splits)
    next
      case (Err e)
      then show ?thesis using assms(1) that(1) 3 t by (auto simp: client_hello_def)
    next
      case Panic
      then show ?thesis by (auto simp: validate_token_def Let_def split: if_splits)
    qed
  qed
qed

lemma handshake_cases:
  assumes "handshake lib api now buf n info a = (r, a')" "n \<le> length buf"
  obtains (malformed) e where "ql_header_from_slice lib (take n buf) = Inl e" "r = Err (quiche_into_io_error e)" "a' = a"
  | (known) hdr conn where "ql_header_from_slice lib (take n buf) = Inr hdr" "ac_pre_established a (hd_dcid hdr) = Some conn"
      "advance_handshake api now (hd_dcid hdr) buf n info conn
         (a\<lparr>ac_pre_established := (ac_pre_established a)(hd_dcid hdr := None)\<rparr>) = (r, a')"
  | (hello) hdr where "ql_header_from_slice lib (take n buf) = Inr hdr" "ac_pre_established a (hd_dcid hdr) = None"
      "hd_ty hdr = Initial" "client_hello lib api now hdr buf n info a = (r, a')"
  | (unhandled) hdr where "ql_header_from_slice lib (take n buf) = Inr hdr" "ac_pre_established a (hd_dcid hdr) = None"
      "r = Ok (Unhandled (hd_dcid hdr))" "a' = a"
  using assms unfolding handshake_def
  by (auto simp: map_remove_def split: sum.splits option.splits if_splits intro: that)

section \<open>Properties of the acceptor\<close>

text \<open>
  C22: the retry token round trip. A token is accepted exactly when it is the prefix, the octets of the source
  address and the original connection id; so a minted token is accepted from the address it was minted
  for and gives the id back, and from no other address of the same family.
\<close>

theorem token_roundtrip:
  "validate_token (mint_token hdr src) src = Ok (hd_dcid hdr) \<and>
   (validate_token token src = Ok odcid \<longleftrightarrow> token = ''quiche'' @ ip_octets (sa_ip src) @ odcid) \<and>
   (is_v4 (sa_ip src') = is_v4 (sa_ip src) \<and> validate_token (mint_token hdr src) src' = Ok odcid \<longleftrightarrow>
    sa_ip src' = sa_ip src \<and> odcid = hd_dcid hdr)"
proof -
  have "sa_ip src' = sa_ip src \<and> odcid = hd_dcid hdr"
    if "is_v4 (sa_ip src') = is_v4 (sa_ip src)" "validate_token (mint_token hdr src) src' = Ok odcid"
  proof -
    have "ip_octets (sa_ip src) @ hd_dcid hdr = ip_octets (sa_ip src') @ odcid"
      using that(2) by (simp add: validate_token_Ok mint_token_def)
    moreover have "length (ip_octets (sa_ip src)) = length (ip_octets (sa_ip src'))"
      using that(1) by (simp add: length_ip_octets)
    ultimately show ?thesis using ip_octets_inj [of "sa_ip src'" "sa_ip src"] that(1) by simp
  qed
  then show ?thesis by (auto simp: validate_token_Ok mint_token_def)
qed

definition is_incoming :: "'q handshake_result io_result \<Rightarrow> bool" where
  "is_incoming r \<longleftrightarrow> (\<exists>conn d m p si. r = Ok (Incoming conn d m p si))"

text \<open>
  C11: no state for an unverified address. The acceptor creates a connection, whether it goes to the table of
  unfinished handshakes or straight to the application, only for an Initial packet that carries a token
  which is valid for the packet's source address and whose connection id has the full length.
\<close>

theorem no_state_before_validation:
  assumes "quic_lib_contract lib" "handshake lib api now buf n info a = (r, a')" "n \<le> length buf"
    and "ql_header_from_slice lib (take n buf) = Inr hdr" "ac_pre_established a (hd_dcid hdr) = None"
    and "is_incoming r \<or> ac_pre_established a' \<noteq> ac_pre_established a"
  shows "hd_ty hdr = Initial \<and> length (hd_dcid hdr) = ql_max_conn_id_len lib \<and>
     (\<exists>token odcid. hd_token hdr = Some token \<and> validate_token token (ri_from info) = Ok odcid)"
  using assms(2,3)
proof (cases rule: handshake_cases)
  case (hello hdr')
  then have eq: "hdr' = hdr" using assms(4) by simp
  show ?thesis using hello(4) assms(1) hello(1,3) unfolding eq
  proof (cases rule: client_hello_cases)
    case (valid odcid conn)
    then show ?thesis using hello(3) eq by (auto simp: validate_token_Ok)
  qed (use assms(6) in \<open>auto simp: is_incoming_def\<close>)
qed (use assms(4-6) in \<open>auto simp: is_incoming_def\<close>)

text \<open>A server library with one connection state; headers are version byte, id byte and the token.\<close>

definition sample_lib :: "(sample_q, unit) quic_lib" where
  "sample_lib =
     \<lparr>ql_max_conn_id_len = 1,
      ql_header_from_slice = (\<lambda>p. case p of
          v # d # token \<Rightarrow> Inr \<lparr>hd_ty = Initial, hd_version = 1, hd_dcid = [d], hd_scid = [d], hd_token = Some token\<rparr>
        | _ \<Rightarrow> Inl (OtherQuiche 0)),
      ql_version_is_supported = (\<lambda>v. True), ql_accept = (\<lambda>scid odcid la ra. Inr []), ql_connect = (\<lambda>scid la ra. Inr []),
      ql_retry = (\<lambda>scid dcid new token v len. Inr (take len token)), ql_negotiate_version = (\<lambda>scid dcid len. Inr []),
      ql_hmac_sign = (\<lambda>k p. ''sig'')\<rparr>"

definition sample_acceptor :: "(sample_q, unit) acceptor" where
  "sample_acceptor = \<lparr>ac_config = \<lparr>cfg_send_ping_interval = 100, cfg_max_datagram_size = 1350,
     cfg_max_recv_udp_payload_size = 1350, cfg_max_send_udp_payload_size = 1350\<rparr>,
     ac_conn_id_seed = (), ac_pre_established = Map.empty\<rparr>"

lemma sample_lib_contract: "quic_lib_contract sample_lib"
  by (auto simp: quic_lib_contract_def sample_lib_def split: list.splits)

definition sample_token :: bytes where
  "sample_token = ''quiche'' @ ip_octets (sa_ip (ri_from sample_info)) @ ''o''"

definition sample_hello :: bytes where
  "sample_hello = CHR ''1'' # CHR ''d'' # sample_token"

lemma sample_token_valid: "sample_token \<noteq> []" "validate_token sample_token (ri_from sample_info) = Ok ''o''"
  by (simp_all add: validate_token_Ok sample_token_def)

lemma length_sample_hello [simp]: "length sample_hello = 13"
  by (simp add: sample_hello_def sample_token_def sample_info_def)

lemma sample_header:
  "ql_header_from_slice sample_lib sample_hello =
     Inr \<lparr>hd_ty = Initial, hd_version = 1, hd_dcid = ''d'', hd_scid = ''d'', hd_token = Some sample_token\<rparr>"
  by (simp add: sample_lib_def sample_hello_def)

lemma sample_acceptor_pre [simp]: "ac_pre_established sample_acceptor = Map.empty"
  by (simp add: sample_acceptor_def)

lemma sample_handshake:
  "handshake sample_lib sample_quiche 0 sample_hello 13 sample_info sample_acceptor =
     (Ok (Incoming [(49, CHR ''d'' # sample_token)] 100 13 [] (reply_info 0 sample_info)), sample_acceptor)"
proof -
  have "q_recv sample_quiche (take 13 sample_hello) sample_info [] = (Inr 13, [(49, CHR ''d'' # sample_token)])"
    by (simp add: sample_quiche_def sample_hello_def sample_token_def sample_info_def)
  then have "advance_handshake sample_quiche 0 ''d'' sample_hello 13 sample_info [] sample_acceptor =
      (Ok (Incoming [(49, CHR ''d'' # sample_token)] 100 13 [] (reply_info 0 sample_info)), sample_acceptor)"
    by (simp add: advance_handshake_def) (simp add: sample_quiche_def sample_acceptor_def)
  moreover have "client_hello sample_lib sample_quiche 0
      \<lparr>hd_ty = Initial, hd_version = 1, hd_dcid = ''d'', hd_scid = ''d'', hd_token = Some sample_token\<rparr>
      sample_hello 13 sample_info sample_acceptor =
      advance_handshake sample_quiche 0 ''d'' sample_hello 13 sample_info [] sample_acceptor"
    using sample_token_valid by (simp add: client_hello_def sample_lib_def)
  ultimately show ?thesis
    by (simp add: handshake_def sample_header map_remove_def)
qed

theorem no_state_before_validation_witness:
  "\<exists>hdr token odcid. ql_header_from_slice sample_lib sample_hello = Inr hdr \<and> hd_token hdr = Some token \<and>
     validate_token token (ri_from sample_info) = Ok odcid"
proof -
  from no_state_before_validation [OF sample_lib_contract sample_handshake] show ?thesis
    using sample_header by (auto simp: is_incoming_def)
qed

definition acceptor_inv :: "'q quiche \<Rightarrow> ('q, 'k) acceptor \<Rightarrow> bool" where
  "acceptor_inv api a \<longleftrightarrow> (\<forall>k conn. ac_pre_established a k = Some conn \<longrightarrow> \<not> q_is_established api conn)"

lemma acceptor_inv_remove: "acceptor_inv api a \<Longrightarrow> acceptor_inv api (a\<lparr>ac_pre_established := (ac_pre_established a)(k := None)\<rparr>)"
  by (auto simp: acceptor_inv_def)

lemma advance_handshake_inv:
  assumes "advance_handshake api now key buf n info conn a = (r, a')" "acceptor_inv api a"
  shows "r \<noteq> Panic \<and> acceptor_inv api a' \<and>
    (\<forall>conn d m p si. r = Ok (Incoming conn d m p si) \<longrightarrow> q_is_established api conn \<and> a' = a)"
  using assms(1)
proof (cases rule: advance_handshake_cases)
  case (pre conn' m p si)
  then show ?thesis using assms(2) by (auto simp: acceptor_inv_def)
qed (use assms(2) in auto)

text \<open>
  C21: the table of unfinished handshakes. The acceptor never panics on a packet that fits its buffer; the table
  holds only connections that are not established, after every packet; a connection that the acceptor
  hands over is established and, when it came from the table, is not in it any more.
\<close>

theorem acceptor_table_inv:
  assumes "quic_lib_contract lib" "acceptor_inv api a" "n \<le> length buf"
    and "handshake lib api now buf n info a = (r, a')"
  shows "r \<noteq> Panic \<and> acceptor_inv api a' \<and>
    (\<forall>conn d m p si. r = Ok (Incoming conn d m p si) \<longrightarrow>
       q_is_established api conn \<and>
       (\<exists>hdr. ql_header_from_slice lib (take n buf) = Inr hdr \<and> ac_pre_established a' (hd_dcid hdr) = None))"
  using assms(4,3)
proof (cases rule: handshake_cases)
  case (known hdr conn)
  from advance_handshake_inv [OF known(3) acceptor_inv_remove [OF assms(2)]] known(1) show ?thesis by auto
next
  case (hello hdr)
  show ?thesis using hello(4) assms(1) hello(1,3)
  proof (cases rule: client_hello_cases)
    case (valid odcid conn)
    from advance_handshake_inv [OF valid(3) assms(2)] hello(1,2) show ?thesis by auto
  qed (use assms(2) in auto)
qed (use assms(2) in auto)

theorem acceptor_table_inv_witness:
  "\<exists>r a'. handshake sample_lib sample_quiche 0 sample_hello 13 sample_info sample_acceptor = (r, a') \<and> acceptor_inv sample_quiche a'"
proof -
  have inv: "acceptor_inv sample_quiche sample_acceptor" by (simp add: acceptor_inv_def)
  have len: "13 \<le> length sample_hello" by simp
  from acceptor_table_inv [OF sample_lib_contract inv len sample_handshake] show ?thesis using sample_handshake by blast
qed

section \<open>The listener state\<close>

datatype listener_event = IncomingEvent

datatype write_result =
    WriteSize nat
  | WInternal nat bytes send_info
  | WIncoming nat nat bytes send_info

datatype conn_read = ReadErr nat io_error | ReadOk nat bytes send_info

record ('q, 'k) listener =
  ls_closed :: bool
  ls_acceptor :: "('q, 'k) acceptor"
  ls_conns :: "conn_id \<rightharpoonup> nat"
  ls_incoming :: "nat list option"
  ls_mediator :: "listener_event event_map"
  ls_conns_read :: "nat batcher"
  ls_max_datagram_size :: nat
  ls_store :: "nat \<Rightarrow> 'q conn_state"
  ls_next :: nat

definition listener_new :: "(nat \<Rightarrow> 'q conn_state) \<Rightarrow> quic_config \<Rightarrow> 'k io_result \<Rightarrow> ('q, 'k) listener io_result" where
  "listener_new store config key =
     and_then (acceptor_new config key) (\<lambda>acceptor.
       Ok \<lparr>ls_closed = False, ls_acceptor = acceptor, ls_conns = Map.empty, ls_incoming = Some [],
           ls_mediator = event_map_default, ls_conns_read = batcher_new,
           ls_max_datagram_size = cfg_max_datagram_size config, ls_store = store, ls_next = 0\<rparr>)"

definition handle_listener_status :: "('q, 'k) listener \<Rightarrow> unit io_result" where
  "handle_listener_status l = (if ls_closed l then Err BrokenPipe else Ok ())"

text \<open>The future of a read task is the address of its connection; \<open>read_task\<close> is its answer.\<close>

definition batch_read :: "nat \<Rightarrow> ('q, 'k) listener \<Rightarrow> ('q, 'k) listener" where
  "batch_read conn l = l\<lparr>ls_conns_read := snd (batcher_push conn (ls_conns_read l))\<rparr>"

definition read_task :: "reserve_fn \<Rightarrow> nat \<Rightarrow> nat \<Rightarrow> (bytes \<times> send_info) io_result \<Rightarrow> conn_read io_result" where
  "read_task reserve max_datagram_size conn answer =
     (case answer of
        Ok (packet, si) \<Rightarrow>
          map_ok (\<lambda>data. ReadOk conn data si)
            (into_bytes_mut (Some packet) (snd (chunk_mut reserve (with_capacity max_datagram_size))))
      | Err e \<Rightarrow> Ok (ReadErr conn e)
      | Panic \<Rightarrow> Panic)"

definition listener_notify :: "('q, 'k) listener \<Rightarrow> ('q, 'k) listener" where
  "listener_notify l = l\<lparr>ls_mediator := snd (em_notify_one IncomingEvent On (ls_mediator l))\<rparr>"

text \<open>The branch of \<open>write\<close> for an established connection.\<close>

definition write_incoming ::
  "'q quiche \<Rightarrow> nat \<Rightarrow> 'q \<Rightarrow> duration \<Rightarrow> nat \<Rightarrow> bytes \<Rightarrow> send_info \<Rightarrow> (('q, 'k) listener, write_result) op" where
  "write_incoming api now q ping n packet si l =
     (let conn = ls_next l;
          l1 = l\<lparr>ls_store := (ls_store l)(conn := conn_new api now q ping 5), ls_next := conn + 1,
                 ls_conns := (ls_conns l)(q_source_id api q \<mapsto> conn)\<rparr>
      in case ls_incoming l1 of
           None \<Rightarrow> (Err BrokenPipe, l1)
         | Some incoming \<Rightarrow>
             (Ok (WIncoming conn n packet si),
              batch_read conn (listener_notify (l1\<lparr>ls_incoming := Some (incoming @ [conn])\<rparr>))))"

text \<open>The branch for a packet of a known connection; \<open>None\<close> when the connection's \<open>write\<close> does not return.\<close>

definition write_unhandled ::
  "'q quiche \<Rightarrow> bytes \<Rightarrow> nat \<Rightarrow> recv_info \<Rightarrow> conn_id \<Rightarrow> ('q, 'k) listener \<Rightarrow>
     (write_result io_result \<times> ('q, 'k) listener) option" where
  "write_unhandled api buf write_size info dcid l =
     (case ls_conns l dcid of
        None \<Rightarrow> Some (Ok (WriteSize write_size), l)
      | Some conn \<Rightarrow>
          (case conn_write api (take write_size buf) info (ls_store l conn) of
             None \<Rightarrow> None
           | Some (r, c) \<Rightarrow>
               (let l1 = l\<lparr>ls_store := (ls_store l)(conn := c)\<rparr> in
                case r of
                  Ok _ \<Rightarrow> Some (Ok (WriteSize write_size), l1)
                | Err _ \<Rightarrow> Some (Ok (WriteSize write_size), l1\<lparr>ls_conns := (ls_conns l1)(dcid := None)\<rparr>)
                | Panic \<Rightarrow> Some (Panic, l1))))"

definition listener_write ::
  "('q, 'k) quic_lib \<Rightarrow> 'q quiche \<Rightarrow> nat \<Rightarrow> bytes \<Rightarrow> nat \<Rightarrow> recv_info \<Rightarrow> ('q, 'k) listener \<Rightarrow>
     (write_result io_result \<times> ('q, 'k) listener) option" where
  "listener_write lib api now buf write_size info l =
     (if ls_closed l then Some (Err BrokenPipe, l)
      else
        (case handshake lib api now buf write_size info (ls_acceptor l) of
           (r, a) \<Rightarrow>
             (let l1 = l\<lparr>ls_acceptor := a\<rparr> in
              case r of
                Ok (Unhandled dcid) \<Rightarrow> write_unhandled api buf write_size info dcid l1
              | Ok (Incoming q ping n packet si) \<Rightarrow> Some (write_incoming api now q ping n packet si l1)
              | Ok (Internal n packet si) \<Rightarrow> Some (Ok (WInternal n packet si), l1)
              | Err e \<Rightarrow> Some (Err e, l1)
              | Panic \<Rightarrow> Some (Panic, l1))))"

text \<open>\<open>close\<close>: the second call, not the first, closes the batch of the read tasks.\<close>

definition listener_close :: "('q, 'k) listener \<Rightarrow> ('q, 'k) listener" where
  "listener_close l =
     (if ls_closed l then l\<lparr>ls_conns_read := batcher_close (ls_conns_read l)\<rparr>
      else listener_notify (l\<lparr>ls_closed := True, ls_incoming := None\<rparr>))"

text \<open>\<open>accept\<close>: the critical section, which answers or asks to wait, and one poll.\<close>

definition listener_accept_section :: "('q, 'k) listener \<Rightarrow> nat option option \<times> ('q, 'k) listener" where
  "listener_accept_section l =
     (case ls_incoming l of
        None \<Rightarrow> (Some None, l)
      | Some [] \<Rightarrow> (None, l)
      | Some (conn # rest) \<Rightarrow> (Some (Some conn), l\<lparr>ls_incoming := Some rest\<rparr>))"

datatype accept_phase = AcceptLock | AcceptWait "(listener_event, unit) wait_fut"

definition accept_from_lock ::
  "waker \<Rightarrow> ('q, 'k) listener \<Rightarrow> nat option poll io_result \<times> accept_phase \<times> ('q, 'k) listener" where
  "accept_from_lock cx l =
     (case listener_accept_section l of
        (Some r, l1) \<Rightarrow> (Ok (Ready r), AcceptLock, l1)
      | (None, l1) \<Rightarrow>
          (let (w, m) = em_wait IncomingEvent () (ls_mediator l1); (_, _, w', m') = wait_poll cx w m
           in (Ok Pending, AcceptWait w', l1\<lparr>ls_mediator := m'\<rparr>)))"

definition listener_accept_poll ::
  "waker \<Rightarrow> accept_phase \<Rightarrow> ('q, 'k) listener \<Rightarrow> nat option poll io_result \<times> accept_phase \<times> ('q, 'k) listener" where
  "listener_accept_poll cx ph l =
     (case ph of
        AcceptLock \<Rightarrow> accept_from_lock cx l
      | AcceptWait w \<Rightarrow>
          (case wait_poll cx w (ls_mediator l) of
             (Ready (Ok _), _, _, m) \<Rightarrow> accept_from_lock cx (l\<lparr>ls_mediator := m\<rparr>)
           | (Ready _, _, _, m) \<Rightarrow> (Panic, AcceptLock, l\<lparr>ls_mediator := m\<rparr>)
           | (Pending, _, w', m) \<Rightarrow> (Ok Pending, AcceptWait w', l\<lparr>ls_mediator := m\<rparr>)))"

text \<open>
  One round of the loop of \<open>read\<close> for an answer of the batch: \<open>Ok None\<close> is another round. The
  check at the entry is \<open>handle_listener_status\<close>.
\<close>

definition read_round :: "conn_read option \<Rightarrow> (('q, 'k) listener, (bytes \<times> send_info) option) op" where
  "read_round answer l =
     (case answer of
        Some (ReadErr conn e) \<Rightarrow>
          (case handle_listener_status l of
             Ok _ \<Rightarrow> (Ok None, l\<lparr>ls_conns := (ls_conns l)(cs_scid (ls_store l conn) := None)\<rparr>)
           | Err e \<Rightarrow> (Err e, l)
           | Panic \<Rightarrow> (Panic, l))
      | Some (ReadOk conn data si) \<Rightarrow>
          (case handle_listener_status l of
             Ok _ \<Rightarrow> (Ok (Some (data, si)), batch_read conn l)
           | Err e \<Rightarrow> (Err e, l)
           | Panic \<Rightarrow> (Panic, l))
      | None \<Rightarrow> (map_ok (\<lambda>_. None) (handle_listener_status l), l))"

section \<open>The event loops\<close>

text \<open>
  The loops of \<open>listener.rs\<close> over the answers of the socket, one entry per round: the instant, the
  received datagram or the error, and the result of sending an answer. The rounds stop with the input
  (\<open>None\<close> as the reason) or with an error. The packets sent are listed in order.
\<close>

definition recv_buf :: "nat \<Rightarrow> bytes \<Rightarrow> bytes" where
  "recv_buf max_datagram_size d = d @ replicate (max_datagram_size - length d) (CHR 0x00)"

fun run_recv_event_loop ::
  "('q, 'k) quic_lib \<Rightarrow> 'q quiche \<Rightarrow> (nat \<times> (bytes \<times> recv_info) io_result \<times> unit io_result) list \<Rightarrow> ('q, 'k) listener \<Rightarrow>
     (unit io_result option \<times> (bytes \<times> send_info) list \<times> ('q, 'k) listener) option" where
  "run_recv_event_loop lib api [] l = Some (None, [], l)"
| "run_recv_event_loop lib api ((now, Err e, _) # rounds) l = Some (Some (Err e), [], l)"
| "run_recv_event_loop lib api ((now, Panic, _) # rounds) l = Some (Some Panic, [], l)"
| "run_recv_event_loop lib api ((now, Ok (d, info), sent) # rounds) l =
     (case listener_write lib api now (recv_buf (ls_max_datagram_size l) d) (length d) info l of
        None \<Rightarrow> None
      | Some (Err e, l1) \<Rightarrow> Some (Some (Err e), [], l1)
      | Some (Panic, l1) \<Rightarrow> Some (Some Panic, [], l1)
      | Some (Ok (WInternal n packet si), l1) \<Rightarrow>
          if packet = [] then run_recv_event_loop lib api rounds l1
          else
            (case sent of
               Ok _ \<Rightarrow>
                 map_option (\<lambda>(r, out, l2). (r, (packet, si) # out, l2)) (run_recv_event_loop lib api rounds l1)
             | r \<Rightarrow> Some (Some r, [], l1))
      | Some (Ok _, l1) \<Rightarrow> run_recv_event_loop lib api rounds l1)"

fun run_send_event_loop ::
  "(conn_read option \<times> unit io_result) list \<Rightarrow> ('q, 'k) listener \<Rightarrow>
     unit io_result option \<times> (bytes \<times> send_info) list \<times> ('q, 'k) listener" where
  "run_send_event_loop [] l = (None, [], l)"
| "run_send_event_loop ((answer, sent) # rounds) l =
     (case read_round answer l of
        (Ok None, l1) \<Rightarrow> run_send_event_loop rounds l1
      | (Ok (Some (data, si)), l1) \<Rightarrow>
          (case sent of
             Ok _ \<Rightarrow> (let (r, out, l2) = run_send_event_loop rounds l1 in (r, (data, si) # out, l2))
           | r \<Rightarrow> (Some r, [], l1))
      | (Err e, l1) \<Rightarrow> (Some (Err e), [], l1)
      | (Panic, l1) \<Rightarrow> (Some Panic, [], l1))"

section \<open>Properties of the listener\<close>

lemma listener_accept_registered:
  assumes "em_wf (ls_mediator l)" "listener_accept_poll t AcceptLock l = (Ok Pending, AcceptWait w, l1)"
  shows "em_wf (ls_mediator l1)" "wf_guard w = None" "ls_incoming l1 = Some []" "ls_closed l1 = ls_closed l"
    "em_wakers (ls_mediator l1) IncomingEvent = Some \<lparr>wr_waker = t, wr_reason = wf_reason w\<rparr>"
proof -
  have inc: "ls_incoming l = Some []"
    and w: "w = \<lparr>wf_event = IncomingEvent, wf_guard = None, wf_reason = em_next_cell (ls_mediator l)\<rparr>"
    and l1: "l1 = l\<lparr>ls_mediator := em_apply (WaitPoll IncomingEvent t) (ls_mediator l)\<rparr>"
    using assms(2) by (auto simp: listener_accept_poll_def accept_from_lock_def listener_accept_section_def em_wait_def
        wait_poll_def Let_def split: option.splits list.splits)
  show "em_wf (ls_mediator l1)" using assms(1) by (simp add: l1 em_wf_apply del: em_apply.simps)
  show "wf_guard w = None" "ls_incoming l1 = Some []" "ls_closed l1 = ls_closed l" using inc by (simp_all add: w l1)
  show "em_wakers (ls_mediator l1) IncomingEvent = Some \<lparr>wr_waker = t, wr_reason = wf_reason w\<rparr>"
    by (simp add: l1 w em_wait_def wait_poll_def Let_def)
qed

lemma accept_resumes:
  assumes "settled (ls_mediator l) (wf_reason w) On" "wf_guard w = None"
  shows "listener_accept_poll t (AcceptWait w) l = accept_from_lock t l"
  using settled_poll [OF assms, of t] by (simp add: listener_accept_poll_def)

lemma listener_write_incoming:
  assumes "listener_write lib api now buf n info l = Some (Ok (WIncoming conn m p si), l2)" "ls_incoming l = Some q"
  shows "ls_incoming l2 = Some (q @ [conn])" "ls_mediator l2 = snd (em_notify_one IncomingEvent On (ls_mediator l))"
    "conn \<in> ran (ls_conns l2)" "conn \<in> ran (fb_pending (ls_conns_read l2))"
proof -
  obtain r a where h: "handshake lib api now buf n info (ls_acceptor l) = (r, a)" by fastforce
  obtain conn' ping m' p' si' where "r = Ok (Incoming conn' ping m' p' si')"
      "write_incoming api now conn' ping m' p' si' (l\<lparr>ls_acceptor := a\<rparr>) = (Ok (WIncoming conn m p si), l2)"
    using assms(1) h by (auto simp: listener_write_def Let_def write_unhandled_def
        split: if_splits outcome.splits handshake_result.splits option.splits)
  then show "ls_incoming l2 = Some (q @ [conn])" "ls_mediator l2 = snd (em_notify_one IncomingEvent On (ls_mediator l))"
      "conn \<in> ran (ls_conns l2)" "conn \<in> ran (fb_pending (ls_conns_read l2))"
    using assms(2) by (auto simp: write_incoming_def batch_read_def listener_notify_def Let_def batcher_push_def
        pending_insert_def raw_wake_def remove_waker_def ran_def split: option.splits)
qed

text \<open>
  C20: a waiting \<open>accept\<close> is served. When a packet completes a handshake, the new connection is in the
  listener's table, its read task is in the batch, the waiting task is woken, and its next poll returns
  that connection; when the listener is closed, the task is woken and its next poll returns
  \<open>None\<close>. Neither reaches the \<open>expect\<close> after the wait.
\<close>

theorem waiting_accept_served:
  assumes "em_wf (ls_mediator l)" "listener_accept_poll t AcceptLock l = (Ok Pending, AcceptWait w, l1)" "\<not> ls_closed l"
    and "listener_write lib api now buf n info l1 = Some (Ok (WIncoming conn m p si), l2)"
  shows "last (em_log (ls_mediator l2)) = t \<and> conn \<in> ran (ls_conns l2) \<and> conn \<in> ran (fb_pending (ls_conns_read l2)) \<and>
     (\<exists>l3. listener_accept_poll t' (AcceptWait w) l2 = (Ok (Ready (Some conn)), AcceptLock, l3) \<and> ls_incoming l3 = Some []) \<and>
     last (em_log (ls_mediator (listener_close l1))) = t \<and>
     listener_accept_poll t' (AcceptWait w) (listener_close l1) = (Ok (Ready None), AcceptLock, listener_close l1)"
proof -
  note reg = listener_accept_registered [OF assms(1,2)]
  note wr = listener_write_incoming [OF assms(4) reg(3)]
  have close: "ls_mediator (listener_close l1) = snd (em_notify_one IncomingEvent On (ls_mediator l1))"
      "ls_incoming (listener_close l1) = None"
    using reg(4) assms(3) by (simp_all add: listener_close_def listener_notify_def)
  have "last (em_log (snd (em_notify_one IncomingEvent On (ls_mediator l1)))) = t"
    using reg(5) by (simp add: em_notify_one_simps wr_wake_def)
  moreover have set: "settled (snd (em_notify_one IncomingEvent On (ls_mediator l1))) (wf_reason w) On"
    using notify_one_settles [OF reg(1,5)] by simp
  then have "listener_accept_poll t' (AcceptWait w) l2 = accept_from_lock t' l2"
      "listener_accept_poll t' (AcceptWait w) (listener_close l1) = accept_from_lock t' (listener_close l1)"
    using wr(2) close(1) by (simp_all add: accept_resumes reg(2))
  ultimately show ?thesis
    using wr close by (auto simp: accept_from_lock_def listener_accept_section_def)
qed

definition sample_listener :: "(sample_q, unit) listener" where
  "sample_listener = \<lparr>ls_closed = False, ls_acceptor = sample_acceptor, ls_conns = Map.empty, ls_incoming = Some [],
     ls_mediator = event_map_default, ls_conns_read = batcher_new, ls_max_datagram_size = 1350,
     ls_store = (\<lambda>_. conn_new sample_quiche 0 [] 100 5), ls_next = 0\<rparr>"

lemma sample_listener_wait:
  "\<exists>w l1. listener_accept_poll 7 AcceptLock sample_listener = (Ok Pending, AcceptWait w, l1) \<and>
     ls_closed l1 = False \<and> ls_acceptor l1 = sample_acceptor \<and> ls_incoming l1 = Some []"
  by (simp add: listener_accept_poll_def accept_from_lock_def listener_accept_section_def sample_listener_def em_wait_def
      wait_poll_def Let_def event_map_default_def)

theorem waiting_accept_served_witness:
  "\<exists>w l1 conn m p si l2 l3. listener_accept_poll 7 AcceptLock sample_listener = (Ok Pending, AcceptWait w, l1) \<and>
     listener_write sample_lib sample_quiche 0 sample_hello 13 sample_info l1 = Some (Ok (WIncoming conn m p si), l2) \<and>
     listener_accept_poll 7 (AcceptWait w) l2 = (Ok (Ready (Some conn)), AcceptLock, l3)"
proof -
  obtain w l1 where 1: "listener_accept_poll 7 AcceptLock sample_listener = (Ok Pending, AcceptWait w, l1)"
      "\<not> ls_closed l1" "ls_acceptor l1 = sample_acceptor" "ls_incoming l1 = Some []" using sample_listener_wait by auto
  obtain conn m p si l2 where 2:
      "listener_write sample_lib sample_quiche 0 sample_hello 13 sample_info l1 = Some (Ok (WIncoming conn m p si), l2)"
    using 1 by (simp add: listener_write_def sample_handshake write_incoming_def Let_def)
  have "em_wf (ls_mediator sample_listener)" "\<not> ls_closed sample_listener"
    by (simp_all add: sample_listener_def em_wf_def event_map_default_def)
  from waiting_accept_served [OF this(1) 1(1) this(2) 2, of 7] show ?thesis using 1 2 by blast
qed

text \<open>
  One malformed datagram stops the server. A datagram whose header does not parse makes \<open>write\<close> fail, and the
  receive loop returns that error: the datagrams after it are never looked at, for every source
  and whatever connections are open.
\<close>

theorem malformed_datagram_stops_listener:
  assumes "ql_header_from_slice lib d = Inl e" "\<not> ls_closed l"
  shows "run_recv_event_loop lib api ((now, Ok (d, info), sent) # rounds) l = Some (Some (Err (quiche_into_io_error e)), [], l)"
  using assms by (simp add: listener_write_def handshake_def recv_buf_def Let_def)

theorem malformed_datagram_stops_listener_witness:
  "run_recv_event_loop sample_lib sample_quiche
     [(0, Ok (''?'', sample_info), Ok ()), (1, Ok (sample_hello, sample_info), Ok ())] sample_listener =
   Some (Some (Err OtherError), [], sample_listener)"
  using malformed_datagram_stops_listener [of sample_lib "''?''" "OtherQuiche 0" sample_listener]
  by (simp add: sample_lib_def sample_listener_def quiche_into_io_error_def)

text \<open>The packet that completes a handshake is taken from the connection and never sent.\<close>

lemma handshake_reply_dropped:
  assumes "listener_write lib api now (recv_buf (ls_max_datagram_size l) d) (length d) info l =
      Some (Ok (WIncoming conn n packet si), l1)"
  shows "run_recv_event_loop lib api [(now, Ok (d, info), sent)] l = Some (None, [], l1)"
  using assms by simp

text \<open>
  Closing a listener once does not wake its reader. The first \<open>close\<close> leaves the batch of read tasks open and
  its waiting task asleep, so the send loop stays suspended until a second \<open>close\<close>, which closes the
  batch and wakes it.
\<close>

theorem first_close_keeps_reader_waiting:
  assumes "\<not> ls_closed l" "fb_raw_waker (ls_conns_read l) = Some t" "\<not> fb_closed (ls_conns_read l)"
  shows "ls_conns_read (listener_close l) = ls_conns_read l \<and> handle_listener_status (listener_close l) = Err BrokenPipe \<and>
     fb_closed (ls_conns_read (listener_close (listener_close l))) \<and>
     fb_log (ls_conns_read (listener_close (listener_close l))) = fb_log (ls_conns_read l) @ [t]"
  using assms by (simp add: listener_close_def listener_notify_def handle_listener_status_def batcher_close_def raw_wake_def
      remove_waker_def)

theorem first_close_keeps_reader_waiting_witness:
  "fb_log (ls_conns_read (listener_close (sample_listener\<lparr>ls_conns_read := add_waker 3 batcher_new\<rparr>))) = [] \<and>
   fb_log (ls_conns_read (listener_close (listener_close (sample_listener\<lparr>ls_conns_read := add_waker 3 batcher_new\<rparr>)))) = [3]"
  using first_close_keeps_reader_waiting [of "sample_listener\<lparr>ls_conns_read := add_waker 3 batcher_new\<rparr>" 3]
  by (simp add: sample_listener_def add_waker_def batcher_new_def)

end
