(* ===== verification/Quic_Client.thy ===== *)
theory Quic_Client
  imports Quic_Listener
begin

text \<open>
  The client side of \<open>crates/net/quic\<close>: the connector (\<open>state/connector.rs\<close>), the connection
  procedure, the loops and the stream type of \<open>conn.rs\<close>, and the connection pool
  (\<open>conn_pool.rs\<close>). The socket, the clock and the random choices are inputs: a loop runs over the
  list of the socket's answers, one entry per round, and ends with \<open>None\<close> when the list ends before it
  does.
\<close>

section \<open>The connector\<close>

record 'q connector =
  ct_quiche :: 'q
  ct_ping_timeout :: duration

text \<open>\<open>random\<close> is the answer of the random generator.\<close>

definition connector_new ::
  "('q, 'k) quic_lib \<Rightarrow> quic_config \<Rightarrow> bytes io_result \<Rightarrow> sock_addr \<Rightarrow> sock_addr \<Rightarrow> 'q connector io_result" where
  "connector_new lib cfg random laddr raddr =
     and_then random (\<lambda>scid.
     case ql_connect lib scid laddr raddr of
       Inl e \<Rightarrow> Err ConnectionRefused
     | Inr q \<Rightarrow> Ok \<lparr>ct_quiche = q, ct_ping_timeout = cfg_send_ping_interval cfg\<rparr>)"

definition connector_send :: "'q quiche \<Rightarrow> nat \<Rightarrow> ('q connector, (bytes \<times> send_info) option) op" where
  "connector_send api len ct =
     (case q_send api len (ct_quiche ct) of
        (Inr r, q) \<Rightarrow> (Ok (Some r), ct\<lparr>ct_quiche := q\<rparr>)
      | (Inl e, q) \<Rightarrow> (if e = Done then Ok None else Err ConnectionRefused, ct\<lparr>ct_quiche := q\<rparr>))"

definition connector_recv :: "'q quiche \<Rightarrow> bytes \<Rightarrow> recv_info \<Rightarrow> ('q connector, nat) op" where
  "connector_recv api buf info ct =
     (case q_recv api buf info (ct_quiche ct) of
        (Inl e, q) \<Rightarrow> (Err ConnectionRefused, ct\<lparr>ct_quiche := q\<rparr>)
      | (Inr n, q) \<Rightarrow> (if q_is_closed api q then Err ConnectionRefused else Ok n, ct\<lparr>ct_quiche := q\<rparr>))"

definition connector_is_established :: "'q quiche \<Rightarrow> 'q connector \<Rightarrow> bool" where
  "connector_is_established api ct = q_is_established api (ct_quiche ct)"

definition connector_is_closed :: "'q quiche \<Rightarrow> 'q connector \<Rightarrow> bool" where
  "connector_is_closed api ct = q_is_closed api (ct_quiche ct)"

definition connector_on_timeout :: "'q quiche \<Rightarrow> 'q connector \<Rightarrow> 'q connector" where
  "connector_on_timeout api ct = ct\<lparr>ct_quiche := q_on_timeout api (ct_quiche ct)\<rparr>"

definition connector_into_conn :: "'q quiche \<Rightarrow> nat \<Rightarrow> 'q connector \<Rightarrow> 'q conn_state" where
  "connector_into_conn api now ct = conn_new api now (ct_quiche ct) (ct_ping_timeout ct) 4"

section \<open>Connecting\<close>

text \<open>
  A round of the loop of \<open>connect_with\<close>: the result of sending the packet, if there is one, and what
  \<open>timeout(recv_from)\<close> answers.
\<close>

record net_round =
  nr_now :: nat
  nr_sent :: "unit io_result"
  nr_recv :: "(bytes \<times> recv_info) io_result"

text \<open>The packets that were sent, latest last, the result, and the connector.\<close>

definition connect_round ::
  "'q quiche \<Rightarrow> nat \<Rightarrow> net_round \<Rightarrow> ('q connector, 'q conn_state option) op" where
  "connect_round api mtu nr =
     op_bind (connector_send api mtu) (\<lambda>packet.
     op_bind (op_lift (case packet of Some _ \<Rightarrow> nr_sent nr | None \<Rightarrow> Ok ())) (\<lambda>_ ct.
     if connector_is_closed api ct then (Err TimedOut, ct)
     else
       (case nr_recv nr of
          Ok (d, info) \<Rightarrow>
            op_bind (connector_recv api d info) (\<lambda>_ ct.
              if connector_is_established api ct then (Ok (Some (connector_into_conn api (nr_now nr) ct)), ct)
              else (Ok None, ct)) ct
        | Err e \<Rightarrow> if e = TimedOut then (Ok None, connector_on_timeout api ct) else (Err e, ct)
        | Panic \<Rightarrow> (Panic, ct))))"

fun connect_loop ::
  "'q quiche \<Rightarrow> nat \<Rightarrow> net_round list \<Rightarrow> 'q connector \<Rightarrow> ('q conn_state io_result \<times> net_round list) option" where
  "connect_loop api mtu [] ct = None"
| "connect_loop api mtu (nr # rounds) ct =
     (case connect_round api mtu nr ct of
        (Ok None, ct') \<Rightarrow> connect_loop api mtu rounds ct'
      | (Ok (Some c), _) \<Rightarrow> Some (Ok c, rounds)
      | (Err e, _) \<Rightarrow> Some (Err e, rounds)
      | (Panic, _) \<Rightarrow> Some (Panic, rounds))"

text \<open>\<open>choose\<close> among no local addresses gives \<open>None\<close>, which \<open>connect_with\<close> unwraps.\<close>

definition connect_with ::
  "('q, 'k) quic_lib \<Rightarrow> 'q quiche \<Rightarrow> quic_config \<Rightarrow> sock_addr option \<Rightarrow> bytes io_result \<Rightarrow> sock_addr \<Rightarrow> net_round list \<Rightarrow>
     ('q conn_state io_result \<times> net_round list) option" where
  "connect_with lib api cfg laddr random raddr rounds =
     (case and_then (unwrap laddr) (\<lambda>laddr. connector_new lib cfg random laddr raddr) of
        Ok ct \<Rightarrow> connect_loop api (cfg_max_datagram_size cfg) rounds ct
      | Err e \<Rightarrow> Some (Err e, rounds)
      | Panic \<Rightarrow> Some (Panic, rounds))"

text \<open>
  The loop of \<open>connect\<close> over the shuffled addresses, each with the local address and the identifier drawn
  for it; \<open>latest_error\<close> is unwrapped at the end.
\<close>

fun connect_addrs ::
  "('q, 'k) quic_lib \<Rightarrow> 'q quiche \<Rightarrow> quic_config \<Rightarrow> (sock_addr \<times> sock_addr option \<times> bytes io_result) list \<Rightarrow>
     io_error option \<Rightarrow> net_round list \<Rightarrow> ('q conn_state io_result \<times> net_round list) option" where
  "connect_addrs lib api cfg [] latest_error rounds =
     Some (case latest_error of Some e \<Rightarrow> Err e | None \<Rightarrow> Panic, rounds)"
| "connect_addrs lib api cfg ((raddr, laddr, random) # raddrs) latest_error rounds =
     (case connect_with lib api cfg laddr random raddr rounds of
        None \<Rightarrow> None
      | Some (Ok c, rest) \<Rightarrow> Some (Ok c, rest)
      | Some (Err e, rest) \<Rightarrow> connect_addrs lib api cfg raddrs (Some e) rest
      | Some (Panic, rest) \<Rightarrow> Some (Panic, rest))"

definition quic_connect ::
  "('q, 'k) quic_lib \<Rightarrow> 'q quiche \<Rightarrow> quic_config \<Rightarrow> unit io_result \<Rightarrow>
     (sock_addr \<times> sock_addr option \<times> bytes io_result) list io_result \<Rightarrow> net_round list \<Rightarrow>
     ('q conn_state io_result \<times> net_round list) option" where
  "quic_connect lib api cfg bound raddrs rounds =
     (case and_then bound (\<lambda>_. raddrs) of
        Ok raddrs \<Rightarrow> connect_addrs lib api cfg raddrs None rounds
      | Err e \<Rightarrow> Some (Err e, rounds)
      | Panic \<Rightarrow> Some (Panic, rounds))"

section \<open>The client loops\<close>

text \<open>\<open>run_client_recv_loop\<close>: every datagram goes to the connection; any error ends the loop.\<close>

fun run_client_recv_loop ::
  "'q quiche \<Rightarrow> (bytes \<times> recv_info) io_result list \<Rightarrow> 'q conn_state \<Rightarrow> (unit io_result option \<times> 'q conn_state) option" where
  "run_client_recv_loop api [] c = Some (None, c)"
| "run_client_recv_loop api (Err e # answers) c = Some (Some (Err e), c)"
| "run_client_recv_loop api (Panic # answers) c = Some (Some Panic, c)"
| "run_client_recv_loop api (Ok (d, info) # answers) c =
     (case conn_write api d info c of
        None \<Rightarrow> None
      | Some (Ok _, c') \<Rightarrow> run_client_recv_loop api answers c'
      | Some (Err e, c') \<Rightarrow> Some (Some (Err e), c')
      | Some (Panic, c') \<Rightarrow> Some (Some Panic, c'))"

text \<open>
  \<open>run_client_send_loop\<close> for the answers of the connection's \<open>read\<close> and of the socket: the reason it
  stops with and the packets it sent.
\<close>

fun run_client_send_loop ::
  "((bytes \<times> send_info) io_result \<times> unit io_result) list \<Rightarrow> unit io_result option \<times> (bytes \<times> send_info) list" where
  "run_client_send_loop [] = (None, [])"
| "run_client_send_loop ((Ok packet, Ok _) # answers) =
     (let (r, out) = run_client_send_loop answers in (r, packet # out))"
| "run_client_send_loop ((Ok packet, Err e) # answers) = (Some (Err e), [])"
| "run_client_send_loop ((Ok packet, Panic) # answers) = (Some Panic, [])"
| "run_client_send_loop ((Err e, _) # answers) = (Some (Err e), [])"
| "run_client_send_loop ((Panic, _) # answers) = (Some Panic, [])"

section \<open>Streams\<close>

text \<open>
  \<open>AsyncWrite\<close> and \<open>AsyncRead\<close> of \<open>QuicStream\<close>: each poll starts a new future of the operation and
  drops it when it is pending.
\<close>

definition quic_poll_write ::
  "'q quiche \<Rightarrow> stream_id \<Rightarrow> bytes \<Rightarrow> waker \<Rightarrow> 'q conn_state \<Rightarrow> nat poll io_result \<times> 'q conn_state" where
  "quic_poll_write api i buf cx c =
     (case stream_send_poll api i buf False cx AtLock c of (r, _, c') \<Rightarrow> (r, c'))"

definition quic_poll_flush :: "unit poll io_result" where
  "quic_poll_flush = Ok (Ready ())"

definition quic_poll_close :: "'q quiche \<Rightarrow> stream_id \<Rightarrow> 'q conn_state \<Rightarrow> unit poll io_result \<times> 'q conn_state" where
  "quic_poll_close api i c =
     (case close_stream api i c of
        (Panic, c') \<Rightarrow> (Panic, c')
      | (_, c') \<Rightarrow> (Ok (Ready ()), c'))"

definition quic_poll_read ::
  "'q quiche \<Rightarrow> stream_id \<Rightarrow> nat \<Rightarrow> waker \<Rightarrow> 'q conn_state \<Rightarrow> bytes poll io_result \<times> 'q conn_state" where
  "quic_poll_read api i len cx c =
     (case stream_recv_poll api i len cx AtLock c of
        (Ok (Ready (data, _)), _, c') \<Rightarrow> (Ok (Ready data), c')
      | (Ok Pending, _, c') \<Rightarrow> (Ok Pending, c')
      | (Err e, _, c') \<Rightarrow> (if e = BrokenPipe then Ok (Ready []) else Err e, c')
      | (Panic, _, c') \<Rightarrow> (Panic, c'))"

text \<open>\<open>Drop\<close> of a stream and of a connection: the spawned task ignores the result.\<close>

definition quic_stream_drop :: "'q quiche \<Rightarrow> stream_id \<Rightarrow> 'q conn_state \<Rightarrow> 'q conn_state" where
  "quic_stream_drop api i c = snd (close_stream api i c)"

definition quic_conn_drop :: "'q quiche \<Rightarrow> 'q conn_state \<Rightarrow> 'q conn_state" where
  "quic_conn_drop api c = snd (conn_close api False 0 [] c)"

section \<open>The connection pool\<close>

text \<open>The connections are shared with the application: the pool holds their addresses in a store.\<close>

record 'q conn_pool =
  cp_max_conns :: nat
  cp_conns :: "conn_id \<rightharpoonup> nat"
  cp_store :: "nat \<Rightarrow> 'q conn_state"
  cp_next :: nat

definition pool_new :: "nat \<Rightarrow> (nat \<Rightarrow> 'q conn_state) \<Rightarrow> unit io_result \<Rightarrow> 'q conn_pool io_result" where
  "pool_new max_conns store raddrs =
     and_then raddrs (\<lambda>_. Ok \<lparr>cp_max_conns = max_conns, cp_conns = Map.empty, cp_store = store, cp_next = 0\<rparr>)"

text \<open>The search in the iteration order of the map: a usable connection, or the closed ones met.\<close>

fun scan_conns ::
  "'q quiche \<Rightarrow> (nat \<Rightarrow> 'q conn_state) \<Rightarrow> (conn_id \<times> nat) list \<Rightarrow> conn_id list \<Rightarrow> (nat option \<times> conn_id list) io_result" where
  "scan_conns api store [] closed = Ok (None, closed)"
| "scan_conns api store ((i, conn) # conns) closed =
     (if conn_is_closed api (store conn) then scan_conns api store conns (closed @ [i])
      else
        and_then (peer_streams_left_bidi api (store conn)) (\<lambda>left_bidi.
          if left_bidi > 0 then Ok (Some conn, closed) else scan_conns api store conns closed))"

definition remove_keys :: "'k list \<Rightarrow> ('k \<rightharpoonup> 'v) \<Rightarrow> ('k \<rightharpoonup> 'v)" where
  "remove_keys ks m = m |` (- set ks)"

text \<open>\<open>connected\<close> is the answer of \<open>QuicConn::connect\<close>, when it is asked.\<close>

definition find_avalid_conn ::
  "'q quiche \<Rightarrow> ((conn_id \<rightharpoonup> nat) \<Rightarrow> (conn_id \<times> nat) list) \<Rightarrow> 'q conn_state io_result \<Rightarrow> ('q conn_pool, nat) op" where
  "find_avalid_conn api order connected p =
     (case scan_conns api (cp_store p) (order (cp_conns p)) [] of
        Err e \<Rightarrow> (Err e, p)
      | Panic \<Rightarrow> (Panic, p)
      | Ok (Some conn, _) \<Rightarrow> (Ok conn, p)
      | Ok (None, closed) \<Rightarrow>
          (let p1 = p\<lparr>cp_conns := remove_keys closed (cp_conns p)\<rparr> in
           if card (dom (cp_conns p1)) \<ge> cp_max_conns p1 then (Err WouldBlock, p1)
           else
             (case connected of
                Err e \<Rightarrow> (Err e, p1)
              | Panic \<Rightarrow> (Panic, p1)
              | Ok c \<Rightarrow>
                  (Ok (cp_next p1),
                   p1\<lparr>cp_store := (cp_store p1)(cp_next p1 := c), cp_next := cp_next p1 + 1,
                      cp_conns := (cp_conns p1)(cs_scid c \<mapsto> cp_next p1)\<rparr>))))"

definition pool_open_stream ::
  "'q quiche \<Rightarrow> ((conn_id \<rightharpoonup> nat) \<Rightarrow> (conn_id \<times> nat) list) \<Rightarrow> 'q conn_state io_result \<Rightarrow> ('q conn_pool, nat \<times> stream_id) op" where
  "pool_open_stream api order connected =
     op_bind (find_avalid_conn api order connected) (\<lambda>conn p.
       (case open_stream api (cp_store p conn) of
          (r, c) \<Rightarrow> (map_ok (\<lambda>i. (conn, i)) r, p\<lparr>cp_store := (cp_store p)(conn := c)\<rparr>)))"

section \<open>Connecting\<close>

lemma register_initial_quiche: "cs_quiche (register_initial first ids c) = cs_quiche c \<and>
    cs_latest_outgoing (register_initial first ids c) = cs_latest_outgoing c \<and>
    cs_register_outgoing (register_initial first ids c) = cs_register_outgoing c"
  by (induction first ids c rule: register_initial.induct) (simp_all add: Let_def)

text \<open>What a successful connection procedure promises of the connection it returns.\<close>

definition fresh_client :: "'q quiche \<Rightarrow> 'q conn_state \<Rightarrow> bool" where
  "fresh_client api c \<longleftrightarrow> q_is_established api (cs_quiche c) \<and> \<not> q_is_closed api (cs_quiche c) \<and>
     cs_latest_outgoing c = 4 \<and> cs_register_outgoing c = {}"

lemma connector_recv_Ok: "connector_recv api d info ct = (Ok n, ct') \<Longrightarrow> \<not> q_is_closed api (ct_quiche ct')"
  by (auto simp: connector_recv_def split: prod.splits sum.splits if_splits)

lemma connect_round_done:
  assumes "connect_round api mtu nr ct = (Ok (Some c), ct')"
  shows "fresh_client api c"
proof -
  obtain d info n ct1 where "connector_recv api d info ct1 = (Ok n, ct')" "q_is_established api (ct_quiche ct')"
      "c = connector_into_conn api (nr_now nr) ct'"
    using assms by (cases "nr_recv nr")
      (auto simp: connect_round_def op_bind_Ok connector_is_established_def split: if_splits)
  then show ?thesis
    using connector_recv_Ok
    by (fastforce simp: fresh_client_def connector_into_conn_def conn_new_def register_initial_quiche)
qed

lemma connect_loop_done: "connect_loop api mtu rounds ct = Some (Ok c, rest) \<Longrightarrow> fresh_client api c"
  by (induction api mtu rounds ct rule: connect_loop.induct)
    (auto split: prod.splits outcome.splits option.splits dest: connect_round_done)

lemma connect_addrs_done:
  "connect_addrs lib api cfg raddrs e rounds = Some (Ok c, rest) \<Longrightarrow> fresh_client api c"
proof (induction lib api cfg raddrs e rounds rule: connect_addrs.induct)
  case (2 lib api cfg raddr laddr random raddrs latest_error rounds)
  obtain r rest' where w: "connect_with lib api cfg laddr random raddr rounds = Some (r, rest')"
    using "2.prems" by (auto split: option.splits)
  show ?case
  proof (cases r)
    case (Ok c')
    then have "connect_with lib api cfg laddr random raddr rounds = Some (Ok c, rest)" using "2.prems" w by simp
    then show ?thesis by (auto simp: connect_with_def split: outcome.splits dest: connect_loop_done)
  qed (use "2.prems" "2.IH" w in auto)
qed (simp split: option.splits)

text \<open>
  A connection that \<open>connect\<close> returns is established, is not closed, and starts its outgoing streams at 4;
  \<open>connect\<close> panics when the remote name resolves to no address.
\<close>

theorem connect_established:
  "(quic_connect lib api cfg bound raddrs rounds = Some (Ok c, rest) \<longrightarrow>
      q_is_established api (cs_quiche c) \<and> \<not> q_is_closed api (cs_quiche c) \<and>
      cs_latest_outgoing c = 4 \<and> cs_register_outgoing c = {}) \<and>
   quic_connect lib api cfg (Ok ()) (Ok []) rounds = Some (Panic, rounds)"
  by (auto simp: quic_connect_def fresh_client_def [symmetric] split: outcome.splits dest: connect_addrs_done)

definition sample_rounds :: "net_round list" where
  "sample_rounds = [\<lparr>nr_now = 0, nr_sent = Ok (), nr_recv = Err TimedOut\<rparr>,
     \<lparr>nr_now = 1, nr_sent = Ok (), nr_recv = Ok (''Ahi'', sample_info)\<rparr>]"

theorem connect_established_witness:
  "\<exists>c. quic_connect sample_lib sample_quiche (ac_config sample_acceptor) (Ok ())
      (Ok [(ri_from sample_info, Some (ri_to sample_info), Ok ''id'')]) sample_rounds = Some (Ok c, []) \<and>
     q_is_established sample_quiche (cs_quiche c)"
proof -
  obtain c where c: "quic_connect sample_lib sample_quiche (ac_config sample_acceptor) (Ok ())
      (Ok [(ri_from sample_info, Some (ri_to sample_info), Ok ''id'')]) sample_rounds = Some (Ok c, [])"
    by (simp add: quic_connect_def connect_with_def connector_new_def sample_lib_def sample_rounds_def connect_round_def
        connector_send_def op_bind_def connector_is_closed_def connector_on_timeout_def connector_recv_def
        connector_is_established_def sample_quiche_def)
  then show ?thesis using connect_established by blast
qed

section \<open>The pool\<close>

lemma scan_conns_None:
  "scan_conns api store conns closed = Ok (None, closed') \<Longrightarrow>
   set closed \<subseteq> set closed' \<and>
   (\<forall>(i, conn) \<in> set conns. i \<in> set closed' \<or>
      \<not> conn_is_closed api (store conn) \<and> peer_streams_left_bidi api (store conn) = Ok 0)"
  by (induction api store conns closed rule: scan_conns.induct)
    (auto split: if_splits simp: word_greater_zero_iff)

lemma scan_conns_Some:
  "scan_conns api store conns closed = Ok (Some conn, closed') \<Longrightarrow>
   conn \<in> snd ` set conns \<and> \<not> conn_is_closed api (store conn) \<and>
   (\<exists>left. peer_streams_left_bidi api (store conn) = Ok left \<and> left > 0)"
  by (induction api store conns closed rule: scan_conns.induct) (auto split: if_splits)

lemma scan_conns_no_Err: "scan_conns api store conns closed \<noteq> Err e"
  by (induction api store conns closed rule: scan_conns.induct)
    (auto simp: and_then_eq_Err peer_streams_left_bidi_def Let_def sub_checked_def ok_or_eq_Err split: if_splits
      elim!: unwrap.elims)

text \<open>The iteration order of the pool's map lists its entries.\<close>

definition order_contract :: "((conn_id \<rightharpoonup> nat) \<Rightarrow> (conn_id \<times> nat) list) \<Rightarrow> (conn_id \<rightharpoonup> nat) \<Rightarrow> bool" where
  "order_contract order m \<longleftrightarrow> set (order m) = Map.graph m \<and> distinct (order m)"

lemma remove_keys_dom: "dom (remove_keys ks m) = dom m - set ks"
  by (auto simp: remove_keys_def restrict_map_def split: if_splits)

definition pool_inv :: "'q conn_pool \<Rightarrow> bool" where
  "pool_inv p \<longleftrightarrow> finite (dom (cp_conns p)) \<and> card (dom (cp_conns p)) \<le> cp_max_conns p"

definition exhausted :: "'q quiche \<Rightarrow> 'q conn_pool \<Rightarrow> nat \<Rightarrow> bool" where
  "exhausted api p conn \<longleftrightarrow>
     \<not> conn_is_closed api (cp_store p conn) \<and> peer_streams_left_bidi api (cp_store p conn) = Ok 0"

lemma find_avalid_conn_inv:
  assumes "pool_inv p" "find_avalid_conn api order connected p = (r, p')"
  shows "pool_inv p' \<and> cp_max_conns p' = cp_max_conns p"
proof (cases "scan_conns api (cp_store p) (order (cp_conns p)) []")
  case (Ok x)
  obtain found closed where x: "x = (found, closed)" by fastforce
  have card: "finite (dom (remove_keys closed (cp_conns p)))"
      "card (dom (remove_keys closed (cp_conns p))) \<le> card (dom (cp_conns p))"
    using assms(1) by (auto simp: remove_keys_dom pool_inv_def intro: card_mono)
  show ?thesis
  proof (cases found)
    case None
    have "card (insert k (dom (remove_keys closed (cp_conns p)))) \<le> cp_max_conns p"
      if "\<not> cp_max_conns p \<le> card (dom (remove_keys closed (cp_conns p)))" for k
      using that card(1) by (simp add: card_insert_if)
    then show ?thesis
      using assms Ok x None card
      by (auto simp: find_avalid_conn_def Let_def pool_inv_def split: if_splits outcome.splits)
  qed (use assms Ok x in \<open>auto simp: find_avalid_conn_def\<close>)
qed (use assms in \<open>auto simp: find_avalid_conn_def\<close>)

lemma find_avalid_conn_full:
  assumes "order_contract order (cp_conns p)" "pool_inv p"
    and "find_avalid_conn api order connected p = (Err WouldBlock, p1)" "connected \<noteq> Err WouldBlock"
  shows "card (dom (cp_conns p1)) \<ge> cp_max_conns p1 \<and> (\<forall>conn \<in> ran (cp_conns p1). exhausted api p1 conn)"
proof -
  obtain closed where s: "scan_conns api (cp_store p) (order (cp_conns p)) [] = Ok (None, closed)"
      "p1 = p\<lparr>cp_conns := remove_keys closed (cp_conns p)\<rparr>" "card (dom (cp_conns p1)) \<ge> cp_max_conns p1"
    using assms(3,4) scan_conns_no_Err [of api "cp_store p" "order (cp_conns p)" "[]"]
    by (auto simp: find_avalid_conn_def Let_def split: outcome.splits option.splits if_splits)
  have "set (order (cp_conns p)) = Map.graph (cp_conns p)" using assms(1) by (simp add: order_contract_def)
  then have "exhausted api p1 conn" if "conn \<in> ran (cp_conns p1)" for conn
    using scan_conns_None [OF s(1)] that
    by (auto simp: s(2) exhausted_def remove_keys_def restrict_map_def ran_def Map.graph_def split: if_splits)
  then show ?thesis using s(3) by blast
qed

text \<open>
  C23: the pool keeps its limit and uses it. The number of connections never exceeds \<open>max_conns\<close>; when
  \<open>open_stream\<close> answers \<open>WouldBlock\<close> and connecting did not, the pool holds \<open>max_conns\<close> connections, all
  of them open and without streams left.
\<close>

theorem pool_limit:
  assumes "order_contract order (cp_conns p)" "pool_inv p" "pool_open_stream api order connected p = (r, p')"
  shows "card (dom (cp_conns p')) \<le> cp_max_conns p \<and> finite (dom (cp_conns p')) \<and>
    (r = Err WouldBlock \<and> connected \<noteq> Err WouldBlock \<longrightarrow>
       card (dom (cp_conns p')) = cp_max_conns p \<and> (\<forall>conn \<in> ran (cp_conns p'). exhausted api p' conn))"
proof -
  obtain r1 p1 where f: "find_avalid_conn api order connected p = (r1, p1)" by fastforce
  have conns: "cp_conns p' = cp_conns p1"
    using assms(3) f by (cases r1) (auto simp: pool_open_stream_def split: prod.splits)
  note inv = find_avalid_conn_inv [OF assms(2) f]
  have full: "r1 = Err WouldBlock \<and> p' = p1" if "r = Err WouldBlock"
  proof (cases r1)
    case (Ok conn)
    then have "fst (open_stream api (cp_store p1 conn)) = Err WouldBlock"
      using assms(3) f that by (auto simp: pool_open_stream_def split: prod.splits)
    then show ?thesis
      by (cases rule: status_cases [of api "cp_store p1 conn"]) (auto simp: open_stream_def add_checked_def split: if_splits)
  qed (use assms(3) f that in \<open>auto simp: pool_open_stream_def\<close>)
  have "card (dom (cp_conns p1)) \<ge> cp_max_conns p1 \<and> (\<forall>conn \<in> ran (cp_conns p1). exhausted api p1 conn)"
    if "r1 = Err WouldBlock" "connected \<noteq> Err WouldBlock"
    using find_avalid_conn_full [OF assms(1,2) _ that(2)] f that(1) by blast
  then show ?thesis using full inv conns by (auto simp: pool_inv_def)
qed

text \<open>A pool with room for one connection, which is in use.\<close>

definition sample_pool :: "sample_q conn_pool" where
  "sample_pool = \<lparr>cp_max_conns = 1, cp_conns = [''S'' \<mapsto> 0],
     cp_store = (\<lambda>_. (conn_new sample_quiche 0 [] 100 4)\<lparr>cs_register_outgoing := {4, 8, 12, 16, 20, 24, 28, 32, 36}\<rparr>),
     cp_next = 1\<rparr>"

lemma sample_pool_open:
  "pool_open_stream sample_quiche (\<lambda>_. [(''S'', 0)]) (Err TimedOut) sample_pool = (Err WouldBlock, sample_pool)"
proof -
  have "card {4, 8, 12, 16, 20, 24, 28, 32, 36 :: stream_id} = 9" by simp
  then show ?thesis
    by (simp add: pool_open_stream_def find_avalid_conn_def sample_pool_def op_bind_def conn_is_closed_def conn_new_def
        peer_streams_left_bidi_def sub_checked_def sample_quiche_def remove_keys_def)
qed

theorem pool_limit_witness:
  "\<exists>r p'. pool_open_stream sample_quiche (\<lambda>_. [(''S'', 0)]) (Err TimedOut) sample_pool = (r, p') \<and>
     r = Err WouldBlock \<and> card (dom (cp_conns p')) = 1 \<and> exhausted sample_quiche p' 0"
proof -
  have "order_contract (\<lambda>_. [(''S'', 0)]) (cp_conns sample_pool)" "pool_inv sample_pool"
    by (auto simp: order_contract_def sample_pool_def pool_inv_def Map.graph_def split: if_splits)
  from pool_limit [OF this sample_pool_open] sample_pool_open show ?thesis by (simp add: sample_pool_def)
qed

end
