(* ===== verification/Leveldb.thy ===== *)
theory Leveldb
  imports Io_Driver
begin

text \<open>
  \<open>crates/leveldb/src/lib.rs\<close>: the safe interface over the C library LevelDB. The library is a
  parameter, a record of its functions on a database state \<open>'d\<close> and an iterator \<open>'i\<close>; a raw pointer that
  may be null is an option. What the interface relies on is the predicate \<open>engine_contract\<close>.
\<close>

section \<open>Keys and values\<close>

text \<open>
  The implementations of \<open>KeyValue\<close> and \<open>KeyValueReturn\<close>. Strings are their UTF-8 bytes, so
  \<open>to_bytes\<close> of strings and byte vectors is the identity. A number is a word; \<open>to_ne_bytes\<close> depends on
  the byte order of the host.
\<close>

definition str_to_bytes :: "bytes \<Rightarrow> bytes io_result" where
  "str_to_bytes s = Ok s"

definition vec_to_bytes :: "bytes \<Rightarrow> bytes io_result" where
  "vec_to_bytes v = Ok v"

definition vec_from_bytes :: "bytes \<Rightarrow> bytes io_result" where
  "vec_from_bytes buf = Ok buf"

text \<open>The well-formed sequences of \<open>String::from_utf8\<close>.\<close>

definition in_range :: "nat \<Rightarrow> nat \<Rightarrow> char \<Rightarrow> bool" where
  "in_range lo hi c \<longleftrightarrow> lo \<le> of_char c \<and> of_char c \<le> hi"

definition utf8_step :: "bytes \<Rightarrow> nat option" where
  "utf8_step buf =
     (let at = (\<lambda>k lo hi. k < length buf \<and> in_range lo hi (buf ! k)); tail = (\<lambda>k. at k 0x80 0xBF) in
      if at 0 0x00 0x7F then Some 1
      else if at 0 0xC2 0xDF \<and> tail 1 then Some 2
      else if (at 0 0xE0 0xE0 \<and> at 1 0xA0 0xBF \<or> at 0 0xE1 0xEC \<and> tail 1 \<or> at 0 0xED 0xED \<and> at 1 0x80 0x9F \<or>
               at 0 0xEE 0xEF \<and> tail 1) \<and> tail 2 then Some 3
      else if (at 0 0xF0 0xF0 \<and> at 1 0x90 0xBF \<or> at 0 0xF1 0xF3 \<and> tail 1 \<or> at 0 0xF4 0xF4 \<and> at 1 0x80 0x8F) \<and>
              tail 2 \<and> tail 3 then Some 4
      else None)"

lemma utf8_step_pos: "utf8_step buf = Some n \<Longrightarrow> 0 < n \<and> 0 < length buf"
  by (auto simp: utf8_step_def Let_def split: if_splits)

function utf8_valid :: "bytes \<Rightarrow> bool" where
  "utf8_valid buf \<longleftrightarrow> buf = [] \<or> (case utf8_step buf of None \<Rightarrow> False | Some n \<Rightarrow> utf8_valid (drop n buf))"
  by pat_completeness auto
termination
  by (relation "measure length") (auto dest: utf8_step_pos)

declare utf8_valid.simps [simp del]

definition string_from_bytes :: "bytes \<Rightarrow> bytes io_result" where
  "string_from_bytes buf = (if utf8_valid buf then Ok buf else Err InvalidData)"

text \<open>The macro \<open>num_def\<close>, at the width of the type; \<open>little\<close> is the host's byte order.\<close>

definition num_size :: "'a :: len itself \<Rightarrow> nat" where
  "num_size t = LENGTH('a) div 8"

definition num_to_bytes :: "bool \<Rightarrow> 'a :: len word \<Rightarrow> bytes io_result" where
  "num_to_bytes little x =
     (let bs = map (\<lambda>k. char_of (drop_bit (8 * k) (unat x))) [0..<num_size TYPE('a)] in
      Ok (if little then bs else rev bs))"

definition num_from_bytes :: "bool \<Rightarrow> bytes \<Rightarrow> 'a :: len word io_result" where
  "num_from_bytes little buf =
     (if length buf \<noteq> num_size TYPE('a) then Err InvalidInput
      else Ok (of_nat (horner_sum of_char 256 (if little then buf else rev buf))))"

section \<open>The C library\<close>

record open_options =
  oo_create_if_missing :: bool
  oo_error_if_exists :: bool
  oo_write_buffer_size :: "nat option"
  oo_block_size :: "nat option"
  oo_compression :: "bool option"

datatype batch_op = BatchPut bytes bytes | BatchDelete bytes

text \<open>An error is the C string the library returns through its out parameter.\<close>

record ('d, 'i) engine =
  c_open :: "open_options \<Rightarrow> bytes \<Rightarrow> bytes + 'd"
  c_get :: "nat option \<Rightarrow> bytes \<Rightarrow> 'd \<Rightarrow> bytes + bytes option"
  c_put :: "bool \<Rightarrow> bytes \<Rightarrow> bytes \<Rightarrow> 'd \<Rightarrow> bytes option \<times> 'd"
  c_delete :: "bool \<Rightarrow> bytes \<Rightarrow> 'd \<Rightarrow> bytes option \<times> 'd"
  c_write :: "bool \<Rightarrow> batch_op list \<Rightarrow> 'd \<Rightarrow> bytes option \<times> 'd"
  c_create_snapshot :: "'d \<Rightarrow> nat \<times> 'd"
  c_create_iterator :: "nat option \<Rightarrow> 'd \<Rightarrow> 'i"
  c_iter_valid :: "'i \<Rightarrow> bool"
  c_iter_seek_to_first :: "'i \<Rightarrow> 'i"
  c_iter_next :: "'i \<Rightarrow> 'i"
  c_iter_seek :: "bytes \<Rightarrow> 'i \<Rightarrow> 'i"
  c_iter_key :: "'i \<Rightarrow> bytes"
  c_iter_value :: "'i \<Rightarrow> bytes"

definition to_io_error :: "bytes \<Rightarrow> 'r io_result" where
  "to_io_error error = (if utf8_valid error then Err OtherError else Panic)"

section \<open>Options\<close>

definition open_options_new :: open_options where
  "open_options_new = \<lparr>oo_create_if_missing = True, oo_error_if_exists = False, oo_write_buffer_size = None,
     oo_block_size = None, oo_compression = None\<rparr>"

definition set_create_if_missing :: "bool \<Rightarrow> open_options \<Rightarrow> open_options" where
  "set_create_if_missing flag ops = ops\<lparr>oo_create_if_missing := flag\<rparr>"

definition set_error_if_exists :: "bool \<Rightarrow> open_options \<Rightarrow> open_options" where
  "set_error_if_exists flag ops = ops\<lparr>oo_error_if_exists := flag\<rparr>"

definition set_write_buffer_size :: "nat \<Rightarrow> open_options \<Rightarrow> open_options" where
  "set_write_buffer_size n ops = ops\<lparr>oo_write_buffer_size := Some n\<rparr>"

definition set_block_size :: "nat \<Rightarrow> open_options \<Rightarrow> open_options" where
  "set_block_size n ops = ops\<lparr>oo_block_size := Some n\<rparr>"

definition set_compression :: "bool \<Rightarrow> open_options \<Rightarrow> open_options" where
  "set_compression flag ops = ops\<lparr>oo_compression := Some flag\<rparr>"

text \<open>
  \<open>ReadOps\<close>: the snapshot that is set in the C object, and the one that the Rust object keeps alive.
  \<open>new_with\<close> only keeps it.
\<close>

record read_ops =
  ro_c_snapshot :: "nat option"
  ro_snapshot :: "nat option"

definition read_ops_new :: read_ops where
  "read_ops_new = \<lparr>ro_c_snapshot = None, ro_snapshot = None\<rparr>"

definition read_ops_new_with :: "nat \<Rightarrow> read_ops" where
  "read_ops_new_with snapshot = \<lparr>ro_c_snapshot = None, ro_snapshot = Some snapshot\<rparr>"

definition or_read_ops :: "read_ops option \<Rightarrow> read_ops" where
  "or_read_ops ops = (case ops of None \<Rightarrow> read_ops_new | Some r \<Rightarrow> r)"

record write_ops =
  wo_sync :: bool

definition write_ops_new :: write_ops where
  "write_ops_new = \<lparr>wo_sync = False\<rparr>"

definition set_sync :: "bool \<Rightarrow> write_ops \<Rightarrow> write_ops" where
  "set_sync flag ops = ops\<lparr>wo_sync := flag\<rparr>"

definition or_write_ops :: "write_ops option \<Rightarrow> write_ops" where
  "or_write_ops ops = (case ops of None \<Rightarrow> write_ops_new | Some w \<Rightarrow> w)"

section \<open>The database\<close>

text \<open>The path is \<open>None\<close> when it is not valid Unicode; a path with a zero byte is not a C string.\<close>

definition db_open :: "('d, 'i) engine \<Rightarrow> bytes option \<Rightarrow> open_options option \<Rightarrow> 'd io_result" where
  "db_open eng path ops =
     (let ops = (case ops of None \<Rightarrow> set_create_if_missing True open_options_new | Some ops \<Rightarrow> ops) in
      and_then (unwrap path) (\<lambda>path.
      if CHR 0x00 \<in> set path then Err InvalidInput
      else (case c_open eng ops path of Inl error \<Rightarrow> to_io_error error | Inr db \<Rightarrow> Ok db)))"

definition c_result :: "bytes option \<Rightarrow> 'r \<Rightarrow> 'r io_result" where
  "c_result error r = (case error of Some error \<Rightarrow> to_io_error error | None \<Rightarrow> Ok r)"

definition db_snapshot :: "('d, 'i) engine \<Rightarrow> 'd \<Rightarrow> nat \<times> 'd" where
  "db_snapshot eng d = c_create_snapshot eng d"

definition db_put :: "('d, 'i) engine \<Rightarrow> bytes io_result \<Rightarrow> bytes io_result \<Rightarrow> write_ops option \<Rightarrow> ('d, unit) op" where
  "db_put eng key value ops =
     op_bind (op_lift key) (\<lambda>key.
     op_bind (op_lift value) (\<lambda>value d.
       case c_put eng (wo_sync (or_write_ops ops)) key value d of (error, d') \<Rightarrow> (c_result error (), d')))"

text \<open>A missing key is a null pointer of length 0: the slice made from it is empty.\<close>

definition db_get ::
  "('d, 'i) engine \<Rightarrow> (bytes \<Rightarrow> 'v io_result) \<Rightarrow> bytes io_result \<Rightarrow> read_ops option \<Rightarrow> 'd \<Rightarrow> 'v io_result" where
  "db_get eng from_bytes key ops d =
     and_then key (\<lambda>key.
     case c_get eng (ro_c_snapshot (or_read_ops ops)) key d of
       Inl error \<Rightarrow> to_io_error error
     | Inr raw \<Rightarrow> from_bytes (case raw of None \<Rightarrow> [] | Some buf \<Rightarrow> buf))"

definition db_delete :: "('d, 'i) engine \<Rightarrow> bytes io_result \<Rightarrow> write_ops option \<Rightarrow> ('d, bool) op" where
  "db_delete eng key ops =
     op_bind (op_lift key) (\<lambda>key d.
     case c_get eng (ro_c_snapshot read_ops_new) key d of
       Inl error \<Rightarrow> (to_io_error error, d)
     | Inr (Some buf) \<Rightarrow>
         if length buf > 0
         then (case c_delete eng (wo_sync (or_write_ops ops)) key d of (error, d') \<Rightarrow> (c_result error True, d'))
         else (Ok False, d)
     | Inr None \<Rightarrow> (Ok False, d))"

text \<open>\<open>WriteBatch\<close>: the C object collects the operations in order.\<close>

definition batch_new :: "batch_op list" where
  "batch_new = []"

definition batch_put :: "bytes io_result \<Rightarrow> bytes io_result \<Rightarrow> (batch_op list, unit) op" where
  "batch_put key value =
     op_bind (op_lift key) (\<lambda>key. op_bind (op_lift value) (\<lambda>value b. (Ok (), b @ [BatchPut key value])))"

definition batch_delete :: "bytes io_result \<Rightarrow> (batch_op list, unit) op" where
  "batch_delete key = op_bind (op_lift key) (\<lambda>key b. (Ok (), b @ [BatchDelete key]))"

definition batch_commit :: "('d, 'i) engine \<Rightarrow> batch_op list \<Rightarrow> write_ops option \<Rightarrow> ('d, unit) op" where
  "batch_commit eng b ops d =
     (case c_write eng (wo_sync (or_write_ops ops)) b d of (error, d') \<Rightarrow> (c_result error (), d'))"

section \<open>Iterators\<close>

record 'i kv_iter =
  ki_raw :: 'i
  ki_seek :: bool

definition db_iter :: "('d, 'i) engine \<Rightarrow> read_ops option \<Rightarrow> 'd \<Rightarrow> 'i kv_iter" where
  "db_iter eng ops d = \<lparr>ki_raw = c_create_iterator eng (ro_c_snapshot (or_read_ops ops)) d, ki_seek = False\<rparr>"

definition iter_seek :: "('d, 'i) engine \<Rightarrow> bytes io_result \<Rightarrow> 'i kv_iter \<Rightarrow> 'i kv_iter io_result" where
  "iter_seek eng key it =
     and_then key (\<lambda>k. Ok (it\<lparr>ki_raw := c_iter_seek eng k (ki_raw it), ki_seek := True\<rparr>))"

text \<open>\<open>next\<close>: whether there is an item, and the iterator. The item is a reference to the iterator.\<close>

definition iter_next :: "('d, 'i) engine \<Rightarrow> 'i kv_iter \<Rightarrow> bool \<times> 'i kv_iter" where
  "iter_next eng it =
     (let it' = (if \<not> c_iter_valid eng (ki_raw it) then it\<lparr>ki_raw := c_iter_seek_to_first eng (ki_raw it)\<rparr>
                 else if ki_seek it then it\<lparr>ki_seek := False\<rparr>
                 else it\<lparr>ki_raw := c_iter_next eng (ki_raw it)\<rparr>)
      in (c_iter_valid eng (ki_raw it'), it'))"

definition item_key :: "('d, 'i) engine \<Rightarrow> (bytes \<Rightarrow> 'k io_result) \<Rightarrow> 'i kv_iter \<Rightarrow> 'k io_result" where
  "item_key eng from_bytes it = from_bytes (c_iter_key eng (ki_raw it))"

definition item_value :: "('d, 'i) engine \<Rightarrow> (bytes \<Rightarrow> 'v io_result) \<Rightarrow> 'i kv_iter \<Rightarrow> 'v io_result" where
  "item_value eng from_bytes it = from_bytes (c_iter_value eng (ki_raw it))"

section \<open>Numbers\<close>

lemma horner_octets:
  "horner_sum of_char 256 (map (\<lambda>k. char_of (drop_bit (8 * k) a)) [0..<n]) = take_bit (8 * n) (a :: nat)"
proof (induction n arbitrary: a)
  case (Suc n)
  have "[0..<Suc n] = 0 # map Suc [0..<n]" by (simp add: upt_conv_Cons map_Suc_upt del: upt_Suc)
  then have "horner_sum of_char 256 (map (\<lambda>k. char_of (drop_bit (8 * k) a)) [0..<Suc n]) =
      a mod 256 + 256 * take_bit (8 * n) (drop_bit 8 a)"
    using Suc [of "drop_bit 8 a"] by (simp add: comp_def drop_bit_drop_bit add.commute del: upt_Suc)
  also have "\<dots> = take_bit (8 * Suc n) a"
    using mod_mult2_eq [of a 256 "2 ^ (8 * n)"] by (simp add: take_bit_eq_mod drop_bit_eq_div power_add)
  finally show ?case .
qed simp

lemma octets_horner:
  "map (\<lambda>k. char_of (drop_bit (8 * k) (horner_sum of_char 256 bs :: nat))) [0..<length bs] = (bs :: bytes)"
proof (induction bs)
  case (Cons b bs)
  have b: "of_char b < (256 :: nat)" by (rule nat_of_char_less_256)
  have div: "drop_bit (8 * Suc k) (of_char b + 256 * h) = drop_bit (8 * k) (h :: nat)" for k h
  proof -
    have "drop_bit 8 (of_char b + 256 * h) = h" using b by (simp add: drop_bit_eq_div)
    then show ?thesis by (metis add.commute drop_bit_drop_bit mult_Suc_right)
  qed
  have "char_of (of_char b + 256 * (h :: nat)) = b" for h
    using char_of_mod_256 [of "of_char b + 256 * h"] by simp
  moreover have "[0..<length (b # bs)] = 0 # map Suc [0..<length bs]" by (simp add: upt_conv_Cons map_Suc_upt del: upt_Suc)
  ultimately show ?case using Cons div by (simp add: comp_def del: upt_Suc)
qed simp

lemma horner_less: "horner_sum of_char 256 bs < (256 :: nat) ^ length bs"
proof (induction bs)
  case (Cons b bs)
  have "of_char b < (256 :: nat)" by (rule nat_of_char_less_256)
  then have "of_char b + 256 * horner_sum of_char 256 bs < (256 :: nat) * 256 ^ length bs" using Cons by linarith
  then show ?case by simp
qed simp

lemma num_from_bytes_Ok:
  assumes "8 dvd LENGTH('a :: len)"
  shows "num_from_bytes little buf = Ok (x :: 'a word) \<longleftrightarrow> num_to_bytes little x = Ok buf"
proof -
  let ?n = "num_size TYPE('a)" and ?bs = "if little then buf else rev buf"
  have n: "8 * ?n = LENGTH('a)" using assms by (simp add: num_size_def)
  have "x = of_nat (horner_sum of_char 256 ?bs) \<longleftrightarrow> map (\<lambda>k. char_of (drop_bit (8 * k) (unat x))) [0..<?n] = ?bs"
    if len: "length buf = ?n"
  proof
    assume x: "x = of_nat (horner_sum of_char 256 ?bs)"
    have "horner_sum of_char 256 ?bs < (2 :: nat) ^ LENGTH('a)"
      using horner_less [of ?bs] len n power_mult [of "2 :: nat" 8 ?n] by (cases little) simp_all
    then have "unat x = horner_sum of_char 256 ?bs" unfolding x by (simp add: unat_of_nat)
    then show "map (\<lambda>k. char_of (drop_bit (8 * k) (unat x))) [0..<?n] = ?bs" using octets_horner [of ?bs] len by auto
  next
    assume "map (\<lambda>k. char_of (drop_bit (8 * k) (unat x))) [0..<?n] = ?bs"
    then have "horner_sum of_char 256 ?bs = take_bit LENGTH('a) (unat x)" using horner_octets [of "unat x" ?n] n by metis
    also have "\<dots> = unat x" by (simp add: take_bit_nat_eq_self)
    finally show "x = of_nat (horner_sum of_char 256 ?bs)" by simp
  qed
  moreover have "length (map (\<lambda>k. char_of (drop_bit (8 * k) (unat x))) [0..<?n]) = ?n" by simp
  ultimately show ?thesis
    by (cases little) (auto simp: num_from_bytes_def num_to_bytes_def Let_def)
qed

section \<open>What the interface relies on\<close>

text \<open>
  \<open>view\<close> is the content of a database: a read with the default options sees it, and a write that reports no
  error changes it as documented, a batch as one step in the order of its operations.
\<close>

fun batch_apply :: "batch_op \<Rightarrow> (bytes \<rightharpoonup> bytes) \<Rightarrow> (bytes \<rightharpoonup> bytes)" where
  "batch_apply (BatchPut k v) m = m(k \<mapsto> v)"
| "batch_apply (BatchDelete k) m = m(k := None)"

definition engine_contract :: "('d, 'i) engine \<Rightarrow> ('d \<Rightarrow> bytes \<rightharpoonup> bytes) \<Rightarrow> bool" where
  "engine_contract eng view \<longleftrightarrow>
     (\<forall>k d v. c_get eng None k d = Inr v \<longrightarrow> v = view d k) \<and>
     (\<forall>sync k v d d'. c_put eng sync k v d = (None, d') \<longrightarrow> view d' = (view d)(k \<mapsto> v)) \<and>
     (\<forall>sync k d d'. c_delete eng sync k d = (None, d') \<longrightarrow> view d' = (view d)(k := None)) \<and>
     (\<forall>sync b d d'. c_write eng sync b d = (None, d') \<longrightarrow> view d' = fold batch_apply b (view d))"

text \<open>The order of the keys, and the cursor of an iterator: its entries in key order and its position.\<close>

fun bytes_less :: "bytes \<Rightarrow> bytes \<Rightarrow> bool" where
  "bytes_less _ [] \<longleftrightarrow> False"
| "bytes_less [] (_ # _) \<longleftrightarrow> True"
| "bytes_less (a # as) (b # bs) \<longleftrightarrow> of_char a < (of_char b :: nat) \<or> a = b \<and> bytes_less as bs"

definition iter_contract :: "('d, 'i) engine \<Rightarrow> ('i \<Rightarrow> (bytes \<times> bytes) list) \<Rightarrow> ('i \<Rightarrow> nat) \<Rightarrow> bool" where
  "iter_contract eng entries pos \<longleftrightarrow>
     (\<forall>i. c_iter_valid eng i \<longleftrightarrow> pos i < length (entries i)) \<and>
     (\<forall>i. entries (c_iter_seek_to_first eng i) = entries i \<and> pos (c_iter_seek_to_first eng i) = 0) \<and>
     (\<forall>i. c_iter_valid eng i \<longrightarrow> entries (c_iter_next eng i) = entries i \<and> pos (c_iter_next eng i) = Suc (pos i)) \<and>
     (\<forall>i k. entries (c_iter_seek eng k i) = entries i \<and>
        pos (c_iter_seek eng k i) = length (takeWhile (\<lambda>e. bytes_less (fst e) k) (entries i))) \<and>
     (\<forall>i. c_iter_valid eng i \<longrightarrow> (c_iter_key eng i, c_iter_value eng i) = entries i ! pos i)"

lemma c_result_Ok [simp]: "c_result error r = Ok r' \<longleftrightarrow> error = None \<and> r' = r"
  by (auto simp: c_result_def to_io_error_def split: option.splits if_splits)

lemma engine_get: "\<lbrakk> engine_contract eng view; c_get eng None k d = Inr v \<rbrakk> \<Longrightarrow> v = view d k"
  unfolding engine_contract_def by blast

lemma db_put_Ok:
  assumes "engine_contract eng view" "db_put eng (Ok k) (Ok v) ops d = (Ok (), d')"
  shows "view d' = (view d)(k \<mapsto> v)"
  using assms by (auto simp: db_put_def op_bind_Ok engine_contract_def split: prod.splits)

lemma db_delete_Ok:
  assumes "engine_contract eng view" "db_delete eng (Ok k) ops d = (Ok b, d')"
  shows "(b \<longleftrightarrow> (\<exists>v. view d k = Some v \<and> v \<noteq> [])) \<and> view d' = (if b then (view d)(k := None) else view d)"
proof -
  have del: "db_delete eng (Ok k) ops d =
      (case c_get eng None k d of
         Inl error \<Rightarrow> (to_io_error error, d)
       | Inr (Some buf) \<Rightarrow>
           if length buf > 0
           then (case c_delete eng (wo_sync (or_write_ops ops)) k d of (error, d') \<Rightarrow> (c_result error True, d'))
           else (Ok False, d)
       | Inr None \<Rightarrow> (Ok False, d))"
    by (simp add: db_delete_def read_ops_new_def)
  obtain raw where g: "c_get eng None k d = Inr raw"
    using assms(2) by (auto simp: del to_io_error_def split: sum.splits if_splits)
  then have raw: "raw = view d k" using assms(1) by (auto simp: engine_contract_def)
  show ?thesis
  proof (cases raw)
    case (Some buf)
    show ?thesis
    proof (cases "buf = []")
      case False
      then have "c_delete eng (wo_sync (or_write_ops ops)) k d = (None, d')" "b"
        using assms(2) g Some by (auto simp: del split: prod.splits)
      then show ?thesis using assms(1) False Some raw by (auto simp: engine_contract_def)
    qed (use assms(2) g Some raw in \<open>auto simp: del\<close>)
  qed (use assms(2) g raw in \<open>auto simp: del\<close>)
qed

section \<open>Iteration\<close>

text \<open>The items of \<open>n\<close> calls of \<open>next\<close>, each read before the following call.\<close>

fun iter_run :: "('d, 'i) engine \<Rightarrow> nat \<Rightarrow> 'i kv_iter \<Rightarrow> (bytes \<times> bytes) option list \<times> 'i kv_iter" where
  "iter_run eng 0 it = ([], it)"
| "iter_run eng (Suc n) it =
     (case iter_next eng it of
        (b, it1) \<Rightarrow>
          (let x = (if b then Some (c_iter_key eng (ki_raw it1), c_iter_value eng (ki_raw it1)) else None);
               (xs, it2) = iter_run eng n it1
           in (x # xs, it2)))"

definition at_pos :: "('i \<Rightarrow> (bytes \<times> bytes) list) \<Rightarrow> ('i \<Rightarrow> nat) \<Rightarrow> (bytes \<times> bytes) list \<Rightarrow> nat \<Rightarrow> 'i kv_iter \<Rightarrow> bool" where
  "at_pos entries pos es n it \<longleftrightarrow> entries (ki_raw it) = es \<and> pos (ki_raw it) = n"

lemma iter_run_add:
  "iter_run eng (m + n) it =
     (let (xs, it1) = iter_run eng m it; (ys, it2) = iter_run eng n it1 in (xs @ ys, it2))"
  by (induction m arbitrary: it) (auto split: prod.splits simp: Let_def)

lemma iter_next_step:
  assumes "iter_contract eng entries pos" "at_pos entries pos es n it" "\<not> ki_seek it" "n < length es"
  shows "\<exists>it1. iter_next eng it = (Suc n < length es, it1) \<and> at_pos entries pos es (Suc n) it1 \<and> \<not> ki_seek it1"
  using assms by (auto simp: iter_next_def iter_contract_def at_pos_def Let_def)

lemma iter_next_start:
  assumes "iter_contract eng entries pos" "at_pos entries pos es n it" "length es \<le> n"
  shows "\<exists>it1. iter_next eng it = (0 < length es, it1) \<and> at_pos entries pos es 0 it1 \<and> ki_seek it1 = ki_seek it"
  using assms by (auto simp: iter_next_def iter_contract_def at_pos_def Let_def)

lemma at_pos_item:
  assumes "iter_contract eng entries pos" "at_pos entries pos es n it" "n < length es"
  shows "(c_iter_key eng (ki_raw it), c_iter_value eng (ki_raw it)) = es ! n"
  using assms unfolding iter_contract_def at_pos_def by auto

text \<open>From position \<open>n\<close> the iterator yields the entries after it and then \<open>None\<close>, at the end.\<close>

lemma iter_run_rest:
  assumes "iter_contract eng entries pos" "at_pos entries pos es n it" "\<not> ki_seek it" "n < length es"
  shows "\<exists>it'. iter_run eng (length es - n) it = (map Some (drop (Suc n) es) @ [None], it') \<and>
    at_pos entries pos es (length es) it' \<and> \<not> ki_seek it'"
  using assms(2-4)
proof (induction "length es - n" arbitrary: n it)
  case (Suc k)
  obtain it1 where 1: "iter_next eng it = (Suc n < length es, it1)" "at_pos entries pos es (Suc n) it1" "\<not> ki_seek it1"
    using iter_next_step [OF assms(1) Suc.prems] by blast
  show ?case
  proof (cases "Suc n < length es")
    case True
    have k: "k = length es - Suc n" using Suc.hyps(2) by simp
    obtain it' where 2: "iter_run eng k it1 = (map Some (drop (Suc (Suc n)) es) @ [None], it')"
        "at_pos entries pos es (length es) it'" "\<not> ki_seek it'"
      using Suc.hyps(1) [OF k 1(2,3) True] k by auto
    have "drop (Suc n) es = es ! Suc n # drop (Suc (Suc n)) es" using True by (simp add: Cons_nth_drop_Suc)
    moreover have "length es - n = Suc k" using Suc.hyps(2) by simp
    ultimately show ?thesis using 1 2 True at_pos_item [OF assms(1) 1(2) True] by simp
  next
    case False
    then have "length es - n = Suc 0" "Suc n = length es" using Suc.prems(3) by simp_all
    then show ?thesis using 1 by simp
  qed
qed simp

lemma iter_cycle:
  assumes "iter_contract eng entries pos" "at_pos entries pos es n it" "length es \<le> n" "\<not> ki_seek it"
  shows "\<exists>it'. iter_run eng (length es + 1) it = (map Some es @ [None], it') \<and>
    at_pos entries pos es (length es) it' \<and> \<not> ki_seek it'"
proof -
  obtain it1 where 1: "iter_next eng it = (0 < length es, it1)" "at_pos entries pos es 0 it1" "\<not> ki_seek it1"
    using iter_next_start [OF assms(1-3)] assms(4) by auto
  show ?thesis
  proof (cases es)
    case Nil
    then show ?thesis using 1 by simp
  next
    case (Cons e rest)
    then have pos: "0 < length es" by simp
    obtain it' where "iter_run eng (length es) it1 = (map Some (drop 1 es) @ [None], it')"
        "at_pos entries pos es (length es) it'" "\<not> ki_seek it'"
      using iter_run_rest [OF assms(1) 1(2,3) pos] by auto
    then show ?thesis using 1 at_pos_item [OF assms(1) 1(2) pos] Cons by simp
  qed
qed

section \<open>A small engine\<close>

text \<open>Concrete parameters for the witnesses: a database is an association list.\<close>

definition sample_put :: "bytes \<Rightarrow> bytes \<Rightarrow> (bytes \<times> bytes) list \<Rightarrow> (bytes \<times> bytes) list" where
  "sample_put k v d = (k, v) # filter (\<lambda>e. fst e \<noteq> k) d"

definition sample_delete :: "bytes \<Rightarrow> (bytes \<times> bytes) list \<Rightarrow> (bytes \<times> bytes) list" where
  "sample_delete k d = filter (\<lambda>e. fst e \<noteq> k) d"

fun sample_batch :: "batch_op \<Rightarrow> (bytes \<times> bytes) list \<Rightarrow> (bytes \<times> bytes) list" where
  "sample_batch (BatchPut k v) d = sample_put k v d"
| "sample_batch (BatchDelete k) d = sample_delete k d"

definition sample_engine :: "((bytes \<times> bytes) list, (bytes \<times> bytes) list \<times> nat) engine" where
  "sample_engine =
     \<lparr>c_open = (\<lambda>ops path. Inr []), c_get = (\<lambda>snap k d. Inr (map_of d k)), c_put = (\<lambda>sync k v d. (None, sample_put k v d)),
      c_delete = (\<lambda>sync k d. (None, sample_delete k d)), c_write = (\<lambda>sync b d. (None, fold sample_batch b d)),
      c_create_snapshot = (\<lambda>d. (0, d)), c_create_iterator = (\<lambda>snap d. (d, length d)),
      c_iter_valid = (\<lambda>(es, n). n < length es), c_iter_seek_to_first = (\<lambda>(es, n). (es, 0)),
      c_iter_next = (\<lambda>(es, n). (es, Suc n)),
      c_iter_seek = (\<lambda>k (es, n). (es, length (takeWhile (\<lambda>e. bytes_less (fst e) k) es))),
      c_iter_key = (\<lambda>(es, n). fst (es ! n)), c_iter_value = (\<lambda>(es, n). snd (es ! n))\<rparr>"

lemma map_of_filter_neq: "map_of (filter (\<lambda>e. fst e \<noteq> k) d) = (map_of d)(k := None)"
  by (induction d) auto

lemma sample_batch_step: "map_of (sample_batch op d) = batch_apply op (map_of d)"
  by (cases op) (auto simp: sample_put_def sample_delete_def map_of_filter_neq)

lemma sample_batch_view: "map_of (fold sample_batch b d) = fold batch_apply b (map_of d)"
  by (induction b arbitrary: d) (simp_all add: sample_batch_step)

lemma sample_engine_contract: "engine_contract sample_engine map_of"
  by (simp add: engine_contract_def sample_engine_def sample_put_def sample_delete_def map_of_filter_neq sample_batch_view)

lemma sample_iter_contract: "iter_contract sample_engine fst snd"
  by (auto simp: iter_contract_def sample_engine_def)

section \<open>Properties\<close>

text \<open>
  C24: numbers survive the database. Encoding is inverted by decoding, and every other byte string is refused
  with \<open>InvalidInput\<close>; after a successful \<open>put\<close> of a number under a numeric key, \<open>get\<close> returns the number,
  and the entries of the other keys are as before.
\<close>

theorem put_get_number:
  assumes "engine_contract eng view" "8 dvd LENGTH('a :: len)" "8 dvd LENGTH('b :: len)"
    and "db_put eng (num_to_bytes little (key :: 'a word)) (num_to_bytes little (x :: 'b word)) ops d = (Ok (), d')"
    and "num_to_bytes little key = Ok k" "c_get eng None k d' = Inr raw"
  shows "db_get eng (num_from_bytes little) (num_to_bytes little key) None d' = Ok x \<and>
     (\<forall>k'. k' \<noteq> k \<longrightarrow> view d' k' = view d k') \<and>
     (num_from_bytes little buf = Ok x \<longleftrightarrow> num_to_bytes little x = Ok buf) \<and>
     (length buf \<noteq> num_size TYPE('b) \<longrightarrow> num_from_bytes little buf = (Err InvalidInput :: 'b word io_result))"
proof -
  obtain v where v: "num_to_bytes little x = Ok v" by (simp add: num_to_bytes_def Let_def)
  have view: "view d' = (view d)(k \<mapsto> v)" using db_put_Ok [OF assms(1)] assms(4) v assms(5) by simp
  then have "raw = Some v" using engine_get [OF assms(1,6)] by simp
  moreover have dec: "num_from_bytes little b = Ok x \<longleftrightarrow> num_to_bytes little x = Ok b" for b
    by (rule num_from_bytes_Ok [OF assms(3)])
  ultimately have "db_get eng (num_from_bytes little) (num_to_bytes little key) None d' = Ok x"
    using assms(5,6) v by (simp add: db_get_def or_read_ops_def read_ops_new_def)
  then show ?thesis using view dec by (auto simp: num_from_bytes_def)
qed

theorem put_get_number_witness:
  "\<exists>d'. db_put sample_engine (num_to_bytes True (7 :: 32 word)) (num_to_bytes True (258 :: 16 word)) None [] = (Ok (), d') \<and>
     db_get sample_engine (num_from_bytes True) (num_to_bytes True (7 :: 32 word)) None d' = Ok (258 :: 16 word)"
proof -
  obtain k v where k: "num_to_bytes True (7 :: 32 word) = Ok k" and v: "num_to_bytes True (258 :: 16 word) = Ok v"
    by (simp add: num_to_bytes_def Let_def)
  obtain d' where put: "db_put sample_engine (num_to_bytes True (7 :: 32 word)) (num_to_bytes True (258 :: 16 word)) None [] = (Ok (), d')"
    by (simp add: db_put_def op_bind_def k v sample_engine_def c_result_def)
  obtain raw where "c_get sample_engine None k d' = Inr raw" by (simp add: sample_engine_def)
  from put_get_number [OF sample_engine_contract _ _ put k this] put show ?thesis by auto
qed

text \<open>
  \<open>delete\<close> reports and removes exactly the entries with a nonempty value: an entry whose value is empty is
  reported as missing and stays in the database, where a committed batch with the same deletion
  removes it.
\<close>

theorem delete_keeps_empty_value:
  assumes "engine_contract eng view" "db_delete eng (Ok k) ops d = (Ok b, d')"
    and "batch_delete (Ok k) batch_new = (Ok (), batch)" "batch_commit eng batch ops d = (Ok (), d'')"
  shows "(b \<longleftrightarrow> (\<exists>v. view d k = Some v \<and> v \<noteq> [])) \<and> view d' = (if b then (view d)(k := None) else view d) \<and>
     view d'' = (view d)(k := None)"
proof -
  have "batch = [BatchDelete k]" using assms(3) by (simp add: batch_delete_def batch_new_def)
  moreover have "c_write eng (wo_sync (or_write_ops ops)) batch d = (None, d'')"
    using assms(4) by (auto simp: batch_commit_def split: prod.splits)
  ultimately have "view d'' = (view d)(k := None)" using assms(1) by (auto simp: engine_contract_def)
  then show ?thesis using db_delete_Ok [OF assms(1,2)] by simp
qed

theorem delete_keeps_empty_value_witness:
  "\<exists>d'. db_delete sample_engine (Ok ''k'') None [(''k'', [])] = (Ok False, d') \<and> map_of d' ''k'' = Some []"
proof -
  have del: "db_delete sample_engine (Ok ''k'') None [(''k'', [])] = (Ok False, [(''k'', [])])"
    by (simp add: db_delete_def sample_engine_def)
  have batch: "batch_delete (Ok ''k'') batch_new = (Ok (), [BatchDelete ''k''])" by (simp add: batch_delete_def batch_new_def)
  have "batch_commit sample_engine [BatchDelete ''k''] None [(''k'', [])] = (Ok (), [])"
    by (simp add: batch_commit_def sample_engine_def sample_delete_def c_result_def)
  from delete_keeps_empty_value [OF sample_engine_contract del batch this] del show ?thesis by simp
qed

text \<open>Reads with a snapshot see the current database, for every engine.\<close>

lemma snapshot_ignored:
  "db_get eng from_bytes key (Some (read_ops_new_with s)) d = db_get eng from_bytes key None d"
  "db_iter eng (Some (read_ops_new_with s)) d = db_iter eng None d"
  by (simp_all add: db_get_def db_iter_def or_read_ops_def read_ops_new_with_def read_ops_new_def)

text \<open>A missing key is read like an empty value; a number that is missing is an \<open>InvalidInput\<close> error.\<close>

lemma get_missing:
  assumes "engine_contract eng view" "c_get eng None k d = Inr raw" "view d k = None"
  shows "db_get eng from_bytes (Ok k) None d = from_bytes []"
  using engine_get [OF assms(1,2)] assms(2,3) by (simp add: db_get_def or_read_ops_def read_ops_new_def)

text \<open>An item is a reference to the iterator: after the next call of \<open>next\<close> it shows the following entry.\<close>

lemma item_follows_iterator:
  assumes "iter_contract eng entries pos" "at_pos entries pos es n it" "\<not> ki_seek it" "Suc n < length es"
    and "iter_next eng it = (b, it1)"
  shows "item_key eng from_bytes it = from_bytes (fst (es ! n)) \<and> item_key eng from_bytes it1 = from_bytes (fst (es ! Suc n))"
proof -
  have "at_pos entries pos es (Suc n) it1" using iter_next_step [OF assms(1-3)] assms(4,5) by auto
  from at_pos_item [OF assms(1) this assms(4)] at_pos_item [OF assms(1,2)] assms(4) show ?thesis
    unfolding item_key_def by (metis Suc_lessD fst_conv)
qed

text \<open>
  Iteration. A new iterator yields every entry once, in order, and then \<open>None\<close>; the next calls start over at
  the first entry, so the iterator is not at its end after \<open>None\<close>.
\<close>

theorem iterator_complete_and_restarts:
  assumes "iter_contract eng entries pos" "entries (c_create_iterator eng None d) = es" "\<not> c_iter_valid eng (c_create_iterator eng None d)"
  shows "fst (iter_run eng (length es + 1) (db_iter eng None d)) = map Some es @ [None] \<and>
     fst (iter_run eng (length es + 1 + (length es + 1)) (db_iter eng None d)) = (map Some es @ [None]) @ map Some es @ [None]"
proof -
  have start: "at_pos entries pos es (pos (c_create_iterator eng None d)) (db_iter eng None d)" "\<not> ki_seek (db_iter eng None d)"
      "length es \<le> pos (c_create_iterator eng None d)"
    using assms by (auto simp: at_pos_def db_iter_def or_read_ops_def read_ops_new_def iter_contract_def)
  obtain it1 where 1: "iter_run eng (length es + 1) (db_iter eng None d) = (map Some es @ [None], it1)"
      "at_pos entries pos es (length es) it1" "\<not> ki_seek it1"
    using iter_cycle [OF assms(1) start(1,3,2)] by blast
  obtain it2 where "iter_run eng (length es + 1) it1 = (map Some es @ [None], it2)"
    using iter_cycle [OF assms(1) 1(2) _ 1(3)] by blast
  then show ?thesis using 1(1) iter_run_add [of eng "length es + 1" "length es + 1"] by simp
qed

theorem iterator_complete_and_restarts_witness:
  "fst (iter_run sample_engine 2 (db_iter sample_engine None [(''a'', ''1'')])) = [Some (''a'', ''1''), None] \<and>
   fst (iter_run sample_engine 4 (db_iter sample_engine None [(''a'', ''1'')])) = [Some (''a'', ''1''), None, Some (''a'', ''1''), None]"
  using iterator_complete_and_restarts [OF sample_iter_contract, of "[(''a'', ''1'')]" "[(''a'', ''1'')]"]
  by (simp add: sample_engine_def numeral_eq_Suc)

text \<open>
  Seeking. After \<open>seek(k)\<close> the first item is the first entry whose key is not below \<open>k\<close>; when every key is below
  \<open>k\<close> it is not \<open>None\<close> but the first entry of the database.
\<close>

theorem seek_past_end_restarts:
  assumes "iter_contract eng entries pos" "iter_seek eng (Ok k) it = Ok it1" "entries (ki_raw it) = es"
  shows "fst (iter_run eng 1 it1) =
    [case dropWhile (\<lambda>e. bytes_less (fst e) k) es of
       e # _ \<Rightarrow> Some e
     | [] \<Rightarrow> (case es of e # _ \<Rightarrow> Some e | [] \<Rightarrow> None)]"
proof -
  let ?P = "\<lambda>e. bytes_less (fst e) k" and ?n = "length (takeWhile (\<lambda>e. bytes_less (fst e) k) es)"
  have at: "at_pos entries pos es ?n it1" "ki_seek it1"
    using assms by (auto simp: iter_seek_def at_pos_def iter_contract_def)
  show ?thesis
  proof (cases "dropWhile ?P es")
    case Nil
    then have "?n = length es" by (metis append_Nil2 takeWhile_dropWhile_id)
    then obtain it2 where 2: "iter_next eng it1 = (0 < length es, it2)" "at_pos entries pos es 0 it2"
      using iter_next_start [OF assms(1) at(1)] by auto
    show ?thesis
    proof (cases es)
      case (Cons e rest)
      then show ?thesis using 2 Nil at_pos_item [OF assms(1) 2(2)] by simp
    qed (use 2 in simp)
  next
    case (Cons e rest)
    then have lt: "?n < length es" by (metis length_append less_add_same_cancel1 list.size(4) takeWhile_dropWhile_id zero_less_Suc add_Suc_right)
    have e: "es ! ?n = e" by (metis Cons nth_append_length takeWhile_dropWhile_id)
    have "c_iter_valid eng (ki_raw it1)" using assms(1) at(1) lt by (auto simp: iter_contract_def at_pos_def)
    then have "iter_next eng it1 = (True, it1\<lparr>ki_seek := False\<rparr>)" using at(2) by (simp add: iter_next_def)
    then show ?thesis using Cons e at_pos_item [OF assms(1) at(1) lt] by simp
  qed
qed

theorem seek_past_end_restarts_witness:
  "\<exists>it1. iter_seek sample_engine (Ok ''z'') (db_iter sample_engine None [(''a'', ''1''), (''b'', ''2'')]) = Ok it1 \<and>
     fst (iter_run sample_engine 1 it1) = [Some (''a'', ''1'')]"
proof -
  let ?it = "db_iter sample_engine None [(''a'', ''1''), (''b'', ''2'')]"
  obtain it1 where 1: "iter_seek sample_engine (Ok ''z'') ?it = Ok it1" by (simp add: iter_seek_def)
  have "fst (ki_raw ?it) = [(''a'', ''1''), (''b'', ''2'')]" by (simp add: db_iter_def sample_engine_def)
  from seek_past_end_restarts [OF sample_iter_contract 1 this] 1 show ?thesis by simp
qed

end
