(* ===== verification/Udp_Group.thy ===== *)
theory Udp_Group
  imports Io_Client Future_Batcher
begin

text \<open>
  \<open>UdpGroup\<close> of \<open>crates/net/udp/src/group.rs\<close>: sockets bound to several addresses, read and written as
  one. Each socket has one read operation and one write operation in a future batcher; the buffer of
  the caller is passed to them through a cell, an atomic pointer in the code, that holds the buffer's
  length or \<open>None\<close> for null. The group works on any driver that keeps the contract of the locale
  \<open>socket_driver\<close>, which the \<open>mio\<close> driver does.
\<close>

section \<open>State\<close>

record path_info =
  pi_from :: sock_addr
  pi_to :: sock_addr

text \<open>The future of an operation is its closure: the handle and the local address it captured.\<close>

record udp_group =
  ug_fds :: "sock_addr \<rightharpoonup> handle"
  ug_laddrs :: "handle \<rightharpoonup> sock_addr"
  ug_reader :: "(handle \<times> sock_addr) batcher"
  ug_writer :: "(handle \<times> sock_addr) batcher"
  ug_read_buf :: "nat option"
  ug_write_buf :: "(bytes \<times> sock_addr) option"

type_synonym batch_read = "handle \<times> ((nat \<times> path_info) \<times> bytes) io_result"
type_synonym batch_write = "handle \<times> (nat \<times> path_info) io_result"

section \<open>The batched operations\<close>

text \<open>
  The closures of \<open>push_batch_read\<close> and \<open>push_batch_write\<close>, which take the buffer out of the cell, issue
  their command, and put it back when the command would block; \<open>waker_of\<close> is the waker that the
  batcher makes for the identifier of an operation. A \<open>None\<close> is a failed assertion or \<open>unwrap\<close>.
\<close>

definition read_call ::
  "'s raw_driver_ext \<Rightarrow> (usize \<Rightarrow> waker) \<Rightarrow> nat \<Rightarrow> usize \<Rightarrow> handle \<times> sock_addr \<Rightarrow> ('s, (nat \<times> path_info) \<times> bytes) op" where
  "read_call d waker_of len i f =
     op_bind (fd_cntl d (fst f) (CRecvFrom (waker_of i) len)) (\<lambda>(resp, data).
       op_lift (case try_into_recv_from resp of
         Ok (n, raddr) \<Rightarrow> Ok ((n, \<lparr>pi_from = raddr, pi_to = snd f\<rparr>), data)
       | _ \<Rightarrow> Panic))"

definition write_call ::
  "'s raw_driver_ext \<Rightarrow> (usize \<Rightarrow> waker) \<Rightarrow> bytes \<times> sock_addr \<Rightarrow> usize \<Rightarrow> handle \<times> sock_addr \<Rightarrow> ('s, nat \<times> path_info) op" where
  "write_call d waker_of c i f =
     op_bind (fd_cntl d (fst f) (CSendTo (waker_of i) (fst c) (snd c))) (\<lambda>(resp, _).
       op_lift (case try_into_datalen resp of
         Ok n \<Rightarrow> Ok (n, \<lparr>pi_from = snd f, pi_to = snd c\<rparr>)
       | _ \<Rightarrow> Panic))"

definition batch_fut ::
  "('c \<Rightarrow> usize \<Rightarrow> handle \<times> sock_addr \<Rightarrow> ('s, 'r) op) \<Rightarrow> (handle \<times> sock_addr, handle \<times> 'r io_result, 'c option \<times> 's) fut_poll" where
  "batch_fut call i f st =
     (case st of
        (None, s) \<Rightarrow> (None, (None, s))
      | (Some c, s) \<Rightarrow>
          (case call c i f s of
             (Ok r, s') \<Rightarrow> (Some (Ready (fst f, Ok r), f, False), (None, s'))
           | (Err e, s') \<Rightarrow>
               if e = WouldBlock then (Some (Pending, f, False), (Some c, s'))
               else (Some (Ready (fst f, Err e), f, False), (None, s'))
           | (Panic, s') \<Rightarrow> (None, (None, s'))))"

definition read_fut :: "'s raw_driver_ext \<Rightarrow> (usize \<Rightarrow> waker) \<Rightarrow> (handle \<times> sock_addr, batch_read, nat option \<times> 's) fut_poll" where
  "read_fut d waker_of = batch_fut (read_call d waker_of)"

definition write_fut ::
  "'s raw_driver_ext \<Rightarrow> (usize \<Rightarrow> waker) \<Rightarrow> (handle \<times> sock_addr, batch_write, (bytes \<times> sock_addr) option \<times> 's) fut_poll" where
  "write_fut d waker_of = batch_fut (write_call d waker_of)"

definition push_batch_read :: "handle \<Rightarrow> udp_group \<Rightarrow> udp_group io_result" where
  "push_batch_read h g =
     and_then (unwrap (ug_laddrs g h)) (\<lambda>laddr. Ok (g\<lparr>ug_reader := snd (batcher_push (h, laddr) (ug_reader g))\<rparr>))"

definition push_batch_write :: "handle \<Rightarrow> udp_group \<Rightarrow> udp_group io_result" where
  "push_batch_write h g =
     and_then (unwrap (ug_laddrs g h)) (\<lambda>laddr. Ok (g\<lparr>ug_writer := snd (batcher_push (h, laddr) (ug_writer g))\<rparr>))"

section \<open>Binding\<close>

fun bind_loop ::
  "'s raw_driver_ext \<Rightarrow> handle \<Rightarrow> sock_addr list \<Rightarrow> (sock_addr \<rightharpoonup> handle) \<Rightarrow> (handle \<rightharpoonup> sock_addr) \<Rightarrow>
     ('s, (sock_addr \<rightharpoonup> handle) \<times> (handle \<rightharpoonup> sock_addr)) op" where
  "bind_loop d poller [] fds addrs = op_lift (Ok (fds, addrs))"
| "bind_loop d poller (addr # laddrs) fds addrs =
     op_bind (fd_open d DUdpSocket (Bind [addr])) (\<lambda>fd.
     op_bind (register_or_close d poller (Readable OR Writable) fd) (\<lambda>fd.
     op_bind (local_addr d fd) (\<lambda>laddr.
       bind_loop d poller laddrs (fds(laddr \<mapsto> fd)) (addrs(fd \<mapsto> laddr)))))"

text \<open>\<open>init_push_batch_ops\<close> over the handles in the iteration order of the map.\<close>

fun init_push_batch_ops :: "handle list \<Rightarrow> udp_group \<Rightarrow> udp_group io_result" where
  "init_push_batch_ops [] g = Ok g"
| "init_push_batch_ops (h # hs) g =
     and_then (push_batch_read h g) (\<lambda>g. and_then (push_batch_write h g) (init_push_batch_ops hs))"

definition group_new :: "(sock_addr \<rightharpoonup> handle) \<Rightarrow> (handle \<rightharpoonup> sock_addr) \<Rightarrow> udp_group" where
  "group_new fds addrs = \<lparr>ug_fds = fds, ug_laddrs = addrs, ug_reader = batcher_new, ug_writer = batcher_new,
     ug_read_buf = None, ug_write_buf = None\<rparr>"

definition group_bind ::
  "'s raw_driver_ext \<Rightarrow> handle \<Rightarrow> ((sock_addr \<rightharpoonup> handle) \<Rightarrow> handle list) \<Rightarrow> sock_addr list io_result \<Rightarrow> ('s, udp_group) op" where
  "group_bind d poller order laddrs =
     op_bind (op_lift laddrs) (\<lambda>laddrs.
     op_bind (bind_loop d poller laddrs Map.empty Map.empty) (\<lambda>(fds, addrs).
       op_lift (init_push_batch_ops (order fds) (group_new fds addrs))))"

section \<open>Receiving and sending\<close>

text \<open>
  The start of a call, which puts the buffer into the cell, and one poll of it. The outer \<open>None\<close> is a poll
  that does not return.
\<close>

definition group_recv_start :: "nat \<Rightarrow> udp_group \<Rightarrow> udp_group" where
  "group_recv_start len g = g\<lparr>ug_read_buf := Some len\<rparr>"

definition group_recv_poll ::
  "'s raw_driver_ext \<Rightarrow> (usize \<Rightarrow> waker) \<Rightarrow> waker \<Rightarrow> udp_group \<Rightarrow> 's \<Rightarrow>
     (((nat \<times> path_info) \<times> bytes) poll io_result \<times> udp_group \<times> 's) option" where
  "group_recv_poll d waker_of t g s =
     (case batcher_poll (read_fut d waker_of) t (ug_reader g) (ug_read_buf g, s) of
        None \<Rightarrow> None
      | Some (r, cell, s') \<Rightarrow>
          (let g1 = g\<lparr>ug_read_buf := cell\<rparr> in
           Some (case r of
             Ok (Pending, b) \<Rightarrow> (Ok Pending, g1\<lparr>ug_reader := b\<rparr>, s')
           | Ok (Ready (Some (h, res)), b) \<Rightarrow>
               (case push_batch_read h (g1\<lparr>ug_reader := b\<rparr>) of
                  Ok g2 \<Rightarrow> (map_ok Ready res, g2, s')
                | _ \<Rightarrow> (Panic, g1\<lparr>ug_reader := b\<rparr>, s'))
           | Ok (Ready None, b) \<Rightarrow> (Panic, g1\<lparr>ug_reader := b\<rparr>, s')
           | _ \<Rightarrow> (Panic, g1, s'))))"

definition group_send_start :: "bytes \<Rightarrow> sock_addr \<Rightarrow> udp_group \<Rightarrow> udp_group" where
  "group_send_start buf raddr g = g\<lparr>ug_write_buf := Some (buf, raddr)\<rparr>"

definition group_send_poll ::
  "'s raw_driver_ext \<Rightarrow> (usize \<Rightarrow> waker) \<Rightarrow> waker \<Rightarrow> udp_group \<Rightarrow> 's \<Rightarrow> ((nat \<times> path_info) poll io_result \<times> udp_group \<times> 's) option" where
  "group_send_poll d waker_of t g s =
     (case batcher_poll (write_fut d waker_of) t (ug_writer g) (ug_write_buf g, s) of
        None \<Rightarrow> None
      | Some (r, cell, s') \<Rightarrow>
          (let g1 = g\<lparr>ug_write_buf := cell\<rparr> in
           Some (case r of
             Ok (Pending, b) \<Rightarrow> (Ok Pending, g1\<lparr>ug_writer := b\<rparr>, s')
           | Ok (Ready (Some (h, res)), b) \<Rightarrow>
               (case push_batch_write h (g1\<lparr>ug_writer := b\<rparr>) of
                  Ok g2 \<Rightarrow> (map_ok Ready res, g2, s')
                | _ \<Rightarrow> (Panic, g1\<lparr>ug_writer := b\<rparr>, s'))
           | Ok (Ready None, b) \<Rightarrow> (Panic, g1\<lparr>ug_writer := b\<rparr>, s')
           | _ \<Rightarrow> (Panic, g1, s'))))"

definition group_send_to_on_path_poll ::
  "'s raw_driver_ext \<Rightarrow> waker \<Rightarrow> bytes \<Rightarrow> path_info \<Rightarrow> udp_group \<Rightarrow> ('s, nat poll) op" where
  "group_send_to_on_path_poll d cx buf path g =
     op_bind (op_lift (ok_or NotFound (ug_fds g (pi_from path)))) (\<lambda>fd.
       would_block_poll (\<lambda>w. op_bind (fd_cntl d fd (CSendTo w buf (pi_to path)))
         (\<lambda>(resp, _). op_lift (try_into_datalen resp))) cx)"

text \<open>\<open>Drop\<close>: every handle is closed, and a failed close panics.\<close>

fun group_drop :: "'s raw_driver_ext \<Rightarrow> handle list \<Rightarrow> ('s, unit) op" where
  "group_drop d [] = op_lift (Ok ())"
| "group_drop d (fd # fds) = op_bind (socket_drop d fd) (\<lambda>_. group_drop d fds)"

section \<open>Polling a batch of socket operations\<close>

lemma quiet_batch_fut [simp]: "quiet (batch_fut call)"
  by (auto simp: quiet_def batch_fut_def split: prod.splits option.splits outcome.splits if_splits)

text \<open>
  The operations are polled with the buffer in the cell, whatever their number, and the first that does
  not block takes it. \<open>P\<close> is what a call needs of its operation and keeps of all.
\<close>

lemma poll_ids_batch:
  assumes step: "\<And>i f s. P f s \<Longrightarrow> fst (call c i f s) \<noteq> Panic \<and> (\<forall>f'. P f' s \<longrightarrow> P f' (snd (call c i f s)))"
    and "\<forall>f \<in> ran p. P f s"
  shows "\<exists>r rest p' cell s'. poll_ids (batch_fut call) ids p (Some c, s) = (Some (r, rest, p'), (cell, s')) \<and>
    (\<forall>f. P f s \<longrightarrow> P f s') \<and> length rest \<le> length ids \<and>
    (case r of
       None \<Rightarrow> cell = Some c \<and> p' = p
     | Some (h, res) \<Rightarrow> \<exists>i f s1. p i = Some f \<and> h = fst f \<and> p' = p(i := None) \<and> call c i f s1 = (res, s') \<and> res \<noteq> Panic)"
  using assms(2)
proof (induction ids arbitrary: s)
  case (Cons i "is")
  show ?case
  proof (cases "p i")
    case None
    then show ?thesis using Cons.IH [OF Cons.prems] by fastforce
  next
    case (Some f)
    obtain res s1 where call: "call c i f s = (res, s1)" by fastforce
    have P: "P f s" using Some Cons.prems by (blast intro: ranI)
    then have keep: "res \<noteq> Panic" "\<forall>f'. P f' s \<longrightarrow> P f' s1" using step [of f s i] call by auto
    show ?thesis
    proof (cases "res = Err WouldBlock")
      case True
      have "\<forall>f \<in> ran p. P f s1" using Cons.prems keep(2) by blast
      from Cons.IH [OF this] obtain r rest p' cell s' where ih:
          "poll_ids (batch_fut call) is p (Some c, s1) = (Some (r, rest, p'), (cell, s'))"
          "\<forall>f. P f s1 \<longrightarrow> P f s'" "length rest \<le> length is"
          "case r of None \<Rightarrow> cell = Some c \<and> p' = p
           | Some (h, res) \<Rightarrow> \<exists>i f s1. p i = Some f \<and> h = fst f \<and> p' = p(i := None) \<and> call c i f s1 = (res, s') \<and> res \<noteq> Panic"
        by blast
      have "p(i \<mapsto> f) = p" using Some by auto
      then have "poll_ids (batch_fut call) (i # is) p (Some c, s) = (Some (r, rest, p'), (cell, s'))"
        using Some call True ih(1) by (simp add: batch_fut_def)
      then show ?thesis using ih keep(2) by (intro exI conjI) (assumption | simp)+
    next
      case False
      then have "batch_fut call i f (Some c, s) = (Some (Ready (fst f, res), f, False), (None, s1))"
        using call keep(1) by (cases res) (auto simp: batch_fut_def)
      then have "poll_ids (batch_fut call) (i # is) p (Some c, s) = (Some (Some (fst f, res), is, p(i := None)), (None, s1))"
        using Some by simp
      moreover have "\<exists>k g s0. p k = Some g \<and> fst f = fst g \<and> p(i := None) = p(k := None) \<and> call c k g s0 = (res, s1) \<and> res \<noteq> Panic"
        using Some keep(1) call by blast
      ultimately show ?thesis using keep(2)
        by (intro exI conjI) (assumption | simp del: split_paired_Ex)+
    qed
  qed
qed simp

section \<open>The invariant\<close>

text \<open>Every socket has exactly one operation in the batch, with its own address.\<close>

definition one_op_each :: "(usize \<rightharpoonup> handle \<times> sock_addr) \<Rightarrow> (handle \<rightharpoonup> sock_addr) \<Rightarrow> bool" where
  "one_op_each p laddrs \<longleftrightarrow>
     (\<forall>i f. p i = Some f \<longrightarrow> laddrs (fst f) = Some (snd f)) \<and>
     (\<forall>h \<in> dom laddrs. \<exists>!i. \<exists>l. p i = Some (h, l))"

definition batch_inv :: "(handle \<times> sock_addr) batcher \<Rightarrow> (handle \<rightharpoonup> sock_addr) \<Rightarrow> bool" where
  "batch_inv b laddrs \<longleftrightarrow> fb_inv b \<and> \<not> fb_closed b \<and> one_op_each (fb_pending b) laddrs"

text \<open>Room for one more identifier and one more wake-up.\<close>

definition batch_room :: "'f batcher \<Rightarrow> bool" where
  "batch_room b \<longleftrightarrow> fb_idgen b < - 1 \<and> q_count (fb_wakeups b) < 2 ^ 64 - 1"

lemma one_op_each_renew:
  assumes "one_op_each p laddrs" "p i = Some f" "p j = None"
  shows "one_op_each (p(i := None, j \<mapsto> f)) laddrs"
proof -
  have ij: "i \<noteq> j" using assms(2,3) by auto
  have "\<exists>!k. \<exists>l. (p(i := None, j \<mapsto> f)) k = Some (h, l)" if h: "h \<in> dom laddrs" for h
  proof (cases "h = fst f")
    case True
    have "\<exists>!k. \<exists>l. p k = Some (h, l)" using assms(1) h by (auto simp: one_op_each_def)
    moreover have "\<exists>l. p i = Some (h, l)" using assms(2) True by (cases f) auto
    ultimately have uniq: "k = i" if "\<exists>l. p k = Some (h, l)" for k using that by blast
    show ?thesis
      by (rule ex1I [of _ j]) (use True ij uniq in \<open>cases f, auto split: if_splits\<close>)
  next
    case False
    have "\<exists>!k. \<exists>l. p k = Some (h, l)" using assms(1) h by (auto simp: one_op_each_def)
    moreover have "(\<exists>l. (p(i := None, j \<mapsto> f)) k = Some (h, l)) \<longleftrightarrow> (\<exists>l. p k = Some (h, l))" for k
      using False assms(2,3) by auto
    ultimately show ?thesis by simp
  qed
  then show ?thesis using assms(1,2) by (auto simp: one_op_each_def split: if_splits)
qed

text \<open>One poll of a batch that keeps the invariant, with the finished operation pushed again.\<close>

lemma batch_poll:
  assumes step: "\<And>i f s. P f s \<Longrightarrow> fst (call c i f s) \<noteq> Panic \<and> (\<forall>f'. P f' s \<longrightarrow> P f' (snd (call c i f s)))"
    and inv: "batch_inv b laddrs" and room: "batch_room b" and P: "\<forall>f \<in> ran (fb_pending b). P f s"
  shows "\<exists>r b' cell s'. batcher_poll (batch_fut call) t b (Some c, s) = Some (Ok (r, b'), (cell, s')) \<and>
    (\<forall>f. P f s \<longrightarrow> P f s') \<and>
    (r = Pending \<and> cell = Some c \<and> fb_raw_waker b' = Some t \<and> batch_inv b' laddrs \<or>
     (\<exists>h l res i s1. r = Ready (Some (h, res)) \<and> laddrs h = Some l \<and> call c i (h, l) s1 = (res, s') \<and> res \<noteq> Panic \<and>
        batch_inv (snd (batcher_push (h, l) b')) laddrs))"
proof -
  have b: "fb_inv b" "\<not> fb_closed b" "one_op_each (fb_pending b) laddrs" using inv by (auto simp: batch_inv_def)
  obtain r rest p' cell s' where ids:
      "poll_ids (batch_fut call) (q_items (fb_wakeups b)) (fb_pending b) (Some c, s) = (Some (r, rest, p'), (cell, s'))"
      "\<forall>f. P f s \<longrightarrow> P f s'" "length rest \<le> length (q_items (fb_wakeups b))"
      "case r of None \<Rightarrow> cell = Some c \<and> p' = fb_pending b
       | Some (h, res) \<Rightarrow> \<exists>i f s1. fb_pending b i = Some f \<and> h = fst f \<and> p' = (fb_pending b)(i := None) \<and>
           call c i f s1 = (res, s') \<and> res \<noteq> Panic"
    using poll_ids_batch [where P = P and call = call and c = c, OF step P] by blast
  obtain b' where b': "batcher_poll (batch_fut call) t b (Some c, s) =
        Some (Ok (case r of None \<Rightarrow> Pending | Some x \<Rightarrow> Ready (Some x), b'), (cell, s'))"
      "fb_inv b'" "fb_pending b' = p'" "q_items (fb_wakeups b') = rest" "fb_closed b' = fb_closed b"
      "fb_idgen b' = fb_idgen b" "r = None \<longrightarrow> fb_raw_waker b' = Some t"
    using batcher_poll_settles [OF quiet_batch_fut b(1,2) ids(1), of t] by blast
  show ?thesis
  proof (cases r)
    case None
    then show ?thesis using b' ids b by (auto simp: batch_inv_def)
  next
    case (Some x)
    obtain h res where x: "x = (h, res)" by fastforce
    obtain i f s1 where f: "fb_pending b i = Some f" "h = fst f" "p' = (fb_pending b)(i := None)" "call c i f s1 = (res, s')"
        "res \<noteq> Panic" using ids(4) Some x by auto
    let ?b = "snd (batcher_push f b')" and ?j = "fb_idgen b"
    have "length (q_items (fb_wakeups b')) = q_count (fb_wakeups b')" by simp
    then have q: "q_count (fb_wakeups b') < 2 ^ 64 - 1" using ids(3) b'(4) room by (simp add: batch_room_def)
    have push: "batcher_push f b' = (?j, ?b)" by (simp add: batcher_push_def Let_def b'(6))
    have "fb_inv ?b" using batcher_push_inv [OF b'(2) _ q push] b'(6) room by (simp add: batch_room_def)
    moreover have "fb_pending b ?j = None" using b(1) by (auto simp: fb_inv_def)
    then have "one_op_each (fb_pending ?b) laddrs"
      using one_op_each_renew [OF b(3) f(1)] batcher_push_simps [OF push] b'(3) f(3) by simp
    moreover have "laddrs h = Some (snd f)" using b(3) f(1,2) by (auto simp: one_op_each_def)
    ultimately show ?thesis
      using b' ids(2) Some x f batcher_push_simps [OF push] b(2) by (cases f) (auto simp: batch_inv_def)
  qed
qed

section \<open>The contract of the driver\<close>

locale socket_driver =
  fixes d :: "'s raw_driver_ext"
    and ready :: "handle \<Rightarrow> 's \<Rightarrow> bool"
  assumes no_panic: "\<lbrakk> ready h s; io_command c \<rbrakk> \<Longrightarrow> fst (fd_cntl d h c s) \<noteq> Panic"
    and stays_ready: "\<lbrakk> ready h s; io_command c; ready h' s \<rbrakk> \<Longrightarrow> ready h' (snd (fd_cntl d h c s))"
begin

definition usable :: "handle \<times> sock_addr \<Rightarrow> 's \<Rightarrow> bool" where
  "usable f s \<longleftrightarrow> h_desc (fst f) = DUdpSocket \<and> ready (fst f) s"

lemma read_call_safe:
  assumes "usable f s"
  shows "fst (read_call d waker_of len i f s) \<noteq> Panic \<and>
    (\<forall>f'. usable f' s \<longrightarrow> usable f' (snd (read_call d waker_of len i f s)))"
proof -
  let ?c = "CRecvFrom (waker_of i) len"
  obtain r s' where r: "fd_cntl d (fst f) ?c s = (r, s')" by fastforce
  have "r \<noteq> Panic" "\<And>h'. ready h' s \<Longrightarrow> ready h' s'"
    using no_panic [of "fst f" s ?c] stays_ready [of "fst f" s ?c] assms r by (auto simp: usable_def)
  moreover have "\<exists>n raddr data. resp = (RespRecvFrom n raddr, data)" if "r = Ok resp" for resp
    using r that assms by (auto simp: fd_cntl_def usable_def op_map_Ok split: prod.splits)
  ultimately show ?thesis
    using r by (cases r) (auto simp: read_call_def op_bind_def usable_def)
qed

lemma write_call_safe:
  assumes "usable f s"
  shows "fst (write_call d waker_of c i f s) \<noteq> Panic \<and>
    (\<forall>f'. usable f' s \<longrightarrow> usable f' (snd (write_call d waker_of c i f s)))"
proof -
  let ?c = "CSendTo (waker_of i) (fst c) (snd c)"
  obtain r s' where r: "fd_cntl d (fst f) ?c s = (r, s')" by fastforce
  have "r \<noteq> Panic" "\<And>h'. ready h' s \<Longrightarrow> ready h' s'"
    using no_panic [of "fst f" s ?c] stays_ready [of "fst f" s ?c] assms r by (auto simp: usable_def)
  moreover have "\<exists>n. resp = (RespDataLen n, [])" if "r = Ok resp" for resp
    using r that assms by (auto simp: fd_cntl_def usable_def op_map_Ok)
  ultimately show ?thesis
    using r by (cases r) (auto simp: write_call_def op_bind_def usable_def)
qed

lemma read_call_path:
  assumes "read_call d waker_of len i f s = (Ok ((n, path), data), s')"
  shows "pi_to path = snd f"
proof -
  obtain resp b where "(case try_into_recv_from resp of
       Ok (n, raddr) \<Rightarrow> Ok ((n, \<lparr>pi_from = raddr, pi_to = snd f\<rparr>), b) | _ \<Rightarrow> Panic) = (Ok ((n, path), data) :: _ io_result)"
    using assms by (auto simp: read_call_def op_bind_Ok)
  then show ?thesis by (cases "try_into_recv_from resp") auto
qed

definition sockets_ready :: "udp_group \<Rightarrow> 's \<Rightarrow> bool" where
  "sockets_ready g s \<longleftrightarrow> (\<forall>h \<in> dom (ug_laddrs g). h_desc h = DUdpSocket \<and> ready h s)"

lemma sockets_usable:
  assumes "sockets_ready g s" "batch_inv b (ug_laddrs g)"
  shows "\<forall>f \<in> ran (fb_pending b). usable f s"
  using assms by (auto simp: sockets_ready_def batch_inv_def one_op_each_def usable_def ran_def)

lemma sockets_ready_keep:
  "\<lbrakk> sockets_ready g s; \<forall>f. usable f s \<longrightarrow> usable f s'; ug_laddrs g' = ug_laddrs g \<rbrakk> \<Longrightarrow> sockets_ready g' s'"
  by (auto simp: sockets_ready_def usable_def)

lemma recv_poll:
  assumes "batch_inv (ug_reader g) (ug_laddrs g)" "batch_room (ug_reader g)" "ug_read_buf g = Some len" "sockets_ready g s"
  shows "\<exists>r g' s'. group_recv_poll d waker_of t g s = Some (r, g', s') \<and> r \<noteq> Panic \<and>
    batch_inv (ug_reader g') (ug_laddrs g') \<and> ug_laddrs g' = ug_laddrs g \<and> sockets_ready g' s' \<and>
    (r = Ok Pending \<longrightarrow> ug_read_buf g' = Some len \<and> fb_raw_waker (ug_reader g') = Some t) \<and>
    (\<forall>n path data. r = Ok (Ready ((n, path), data)) \<longrightarrow> pi_to path \<in> ran (ug_laddrs g))"
proof -
  obtain r b' cell s' where poll:
      "batcher_poll (read_fut d waker_of) t (ug_reader g) (ug_read_buf g, s) = Some (Ok (r, b'), (cell, s'))"
      "\<forall>f. usable f s \<longrightarrow> usable f s'"
    and cases: "r = Pending \<and> cell = Some len \<and> fb_raw_waker b' = Some t \<and> batch_inv b' (ug_laddrs g) \<or>
     (\<exists>h l res i s1. r = Ready (Some (h, res)) \<and> ug_laddrs g h = Some l \<and> read_call d waker_of len i (h, l) s1 = (res, s') \<and>
        res \<noteq> Panic \<and> batch_inv (snd (batcher_push (h, l) b')) (ug_laddrs g))"
    using batch_poll [where P = usable and call = "read_call d waker_of" and c = len, OF read_call_safe assms(1,2)
        sockets_usable [OF assms(4,1)], of t] assms(3) unfolding read_fut_def by metis
  from cases show ?thesis
  proof (elim disjE exE conjE)
    assume "r = Pending" "cell = Some len" "fb_raw_waker b' = Some t" "batch_inv b' (ug_laddrs g)"
    then show ?thesis using poll sockets_ready_keep [OF assms(4) poll(2)] by (simp add: group_recv_poll_def Let_def)
  next
    fix h l res i s1
    assume h: "r = Ready (Some (h, res))" "ug_laddrs g h = Some l" "read_call d waker_of len i (h, l) s1 = (res, s')"
      "res \<noteq> Panic" "batch_inv (snd (batcher_push (h, l) b')) (ug_laddrs g)"
    have "group_recv_poll d waker_of t g s =
        Some (map_ok Ready res, g\<lparr>ug_read_buf := cell, ug_reader := snd (batcher_push (h, l) b')\<rparr>, s')"
      using poll(1) h(1,2) by (simp add: group_recv_poll_def Let_def push_batch_read_def)
    moreover have "pi_to path \<in> ran (ug_laddrs g)" if "res = Ok ((n, path), data)" for n path data
      using read_call_path [OF h(3) [unfolded that]] h(2) by (auto simp: ran_def)
    ultimately show ?thesis
      using h(4,5) sockets_ready_keep [OF assms(4) poll(2)] by (cases res) auto
  qed
qed

lemma send_poll:
  assumes "batch_inv (ug_writer g) (ug_laddrs g)" "batch_room (ug_writer g)" "ug_write_buf g = Some c" "sockets_ready g s"
  shows "\<exists>r g' s'. group_send_poll d waker_of t g s = Some (r, g', s') \<and> r \<noteq> Panic \<and>
    batch_inv (ug_writer g') (ug_laddrs g') \<and> ug_laddrs g' = ug_laddrs g \<and> sockets_ready g' s' \<and>
    (r = Ok Pending \<longrightarrow> ug_write_buf g' = Some c \<and> fb_raw_waker (ug_writer g') = Some t)"
proof -
  obtain r b' cell s' where poll:
      "batcher_poll (write_fut d waker_of) t (ug_writer g) (ug_write_buf g, s) = Some (Ok (r, b'), (cell, s'))"
      "\<forall>f. usable f s \<longrightarrow> usable f s'"
    and cases: "r = Pending \<and> cell = Some c \<and> fb_raw_waker b' = Some t \<and> batch_inv b' (ug_laddrs g) \<or>
     (\<exists>h l res i s1. r = Ready (Some (h, res)) \<and> ug_laddrs g h = Some l \<and> write_call d waker_of c i (h, l) s1 = (res, s') \<and>
        res \<noteq> Panic \<and> batch_inv (snd (batcher_push (h, l) b')) (ug_laddrs g))"
    using batch_poll [where P = usable and call = "write_call d waker_of" and c = c, OF write_call_safe assms(1,2)
        sockets_usable [OF assms(4,1)], of t] assms(3) unfolding write_fut_def by metis
  from cases show ?thesis
  proof (elim disjE exE conjE)
    assume "r = Pending" "cell = Some c" "fb_raw_waker b' = Some t" "batch_inv b' (ug_laddrs g)"
    then show ?thesis using poll sockets_ready_keep [OF assms(4) poll(2)] by (simp add: group_send_poll_def Let_def)
  next
    fix h l res i s1
    assume h: "r = Ready (Some (h, res))" "ug_laddrs g h = Some l" "res \<noteq> Panic"
      "batch_inv (snd (batcher_push (h, l) b')) (ug_laddrs g)"
    then have "group_send_poll d waker_of t g s =
        Some (map_ok Ready res, g\<lparr>ug_write_buf := cell, ug_writer := snd (batcher_push (h, l) b')\<rparr>, s')"
      using poll(1) by (simp add: group_send_poll_def Let_def push_batch_write_def)
    then show ?thesis
      using h(3,4) sockets_ready_keep [OF assms(4) poll(2)] by (cases res) auto
  qed
qed

end

interpretation mio_sockets: socket_driver "mio_driver os fuel" "\<lambda>h s. handle_ready h s \<and> boxes_fresh s"
  for os :: "'w os" and fuel
proof unfold_locales
  fix h c and s :: "'w mio_state" assume "handle_ready h s \<and> boxes_fresh s" "io_command c"
  then show "fst (fd_cntl (mio_driver os fuel) h c s) \<noteq> Panic"
    using safe_io_command [of h s c os fuel] by (simp add: safe_op_def)
next
  fix h c h' and s :: "'w mio_state" assume "handle_ready h s \<and> boxes_fresh s" "io_command c" "handle_ready h' s \<and> boxes_fresh s"
  then show "handle_ready h' (snd (fd_cntl (mio_driver os fuel) h c s)) \<and> boxes_fresh (snd (fd_cntl (mio_driver os fuel) h c s))"
    using safe_io_command [of h s c os fuel] handle_ready_grows [of h' s] by (auto simp: safe_op_def)
qed

section \<open>Binding sets the batches up\<close>

definition partial_batch :: "(handle \<rightharpoonup> sock_addr) \<Rightarrow> handle list \<Rightarrow> (handle \<times> sock_addr) batcher \<Rightarrow> bool" where
  "partial_batch laddrs pushed b \<longleftrightarrow>
     fb_inv b \<and> \<not> fb_closed b \<and> unat (fb_idgen b) = length pushed \<and> q_count (fb_wakeups b) = length pushed \<and>
     (\<forall>i f. fb_pending b i = Some f \<longrightarrow> laddrs (fst f) = Some (snd f) \<and> fst f \<in> set pushed) \<and>
     (\<forall>h \<in> set pushed. \<exists>!i. \<exists>l. fb_pending b i = Some (h, l))"

lemma partial_batch_new: "partial_batch laddrs [] batcher_new"
  by (simp add: partial_batch_def fb_inv_def batcher_new_def lq.inv_new) (simp add: queue_new_def q_count_def)

lemma partial_batch_push:
  assumes "partial_batch laddrs pushed b" "h \<notin> set pushed" "laddrs h = Some l" "length pushed < 2 ^ 64 - 1"
  shows "partial_batch laddrs (pushed @ [h]) (snd (batcher_push (h, l) b))"
proof -
  obtain j b' where push: "batcher_push (h, l) b = (j, b')" by fastforce
  note simps = batcher_push_simps [OF push]
  have b: "fb_inv b" "\<not> fb_closed b" "unat (fb_idgen b) = length pushed" "q_count (fb_wakeups b) = length pushed"
    and p: "\<And>i f. fb_pending b i = Some f \<Longrightarrow> laddrs (fst f) = Some (snd f) \<and> fst f \<in> set pushed"
    and u: "\<And>h. h \<in> set pushed \<Longrightarrow> \<exists>!i. \<exists>l. fb_pending b i = Some (h, l)"
    using assms(1) unfolding partial_batch_def by blast+
  have room: "fb_idgen b < - 1" "q_count (fb_wakeups b) < 2 ^ 64 - 1"
    using b(3,4) assms(4) by (simp_all add: word_less_nat_alt unsigned_minus_1_eq_mask mask_eq_exp_minus_1)
  have fresh: "fb_pending b j = None" using b(1) simps by (auto simp: fb_inv_def)
  have "\<exists>!i. \<exists>k. fb_pending b' i = Some (h', k)" if "h' \<in> set (pushed @ [h])" for h'
  proof (cases "h' = h")
    case True
    show ?thesis by (rule ex1I [of _ j]) (use simps True p assms(2) in \<open>fastforce split: if_splits\<close>)+
  next
    case False
    then have "(\<exists>k. fb_pending b' i = Some (h', k)) \<longleftrightarrow> (\<exists>k. fb_pending b i = Some (h', k))" for i
      using simps fresh by auto
    then show ?thesis using u [of h'] that False by simp
  qed
  moreover have "unat (fb_idgen b') = length pushed + 1"
    using simps b(3) assms(4) by (simp add: unat_word_ariths)
  moreover have "q_count (fb_wakeups b') = length pushed + 1" using simps q_count_push [OF room(2)] b(4) by simp
  moreover have "laddrs (fst f) = Some (snd f) \<and> fst f \<in> set (pushed @ [h])" if "fb_pending b' i = Some f" for i f
    using that simps p assms(3) by (auto split: if_splits)
  ultimately show ?thesis
    using push batcher_push_inv [OF b(1) room push] simps b(2) by (simp add: partial_batch_def)
qed

lemma init_push_batch_ops_partial:
  "\<lbrakk> partial_batch (ug_laddrs g) pushed (ug_reader g); partial_batch (ug_laddrs g) pushed (ug_writer g);
     distinct (pushed @ hs); set hs \<subseteq> dom (ug_laddrs g); length (pushed @ hs) < 2 ^ 64 - 1 \<rbrakk> \<Longrightarrow>
   \<exists>g'. init_push_batch_ops hs g = Ok g' \<and> ug_laddrs g' = ug_laddrs g \<and> ug_fds g' = ug_fds g \<and>
     partial_batch (ug_laddrs g) (pushed @ hs) (ug_reader g') \<and> partial_batch (ug_laddrs g) (pushed @ hs) (ug_writer g')"
proof (induction hs arbitrary: pushed g)
  case (Cons h hs)
  obtain l where l: "ug_laddrs g h = Some l" using Cons.prems(4) by auto
  let ?g = "g\<lparr>ug_reader := snd (batcher_push (h, l) (ug_reader g)), ug_writer := snd (batcher_push (h, l) (ug_writer g))\<rparr>"
  have "h \<notin> set pushed" "length pushed < 2 ^ 64 - 1" using Cons.prems(3,5) by auto
  then have "partial_batch (ug_laddrs ?g) (pushed @ [h]) (ug_reader ?g)" "partial_batch (ug_laddrs ?g) (pushed @ [h]) (ug_writer ?g)"
    using Cons.prems(1,2) l by (simp_all add: partial_batch_push)
  from Cons.IH [OF this] Cons.prems(3-5) have "\<exists>g'. init_push_batch_ops hs ?g = Ok g' \<and> ug_laddrs g' = ug_laddrs g \<and>
      ug_fds g' = ug_fds g \<and> partial_batch (ug_laddrs g) (pushed @ h # hs) (ug_reader g') \<and>
      partial_batch (ug_laddrs g) (pushed @ h # hs) (ug_writer g')"
    by simp
  then show ?case by (simp add: push_batch_read_def push_batch_write_def l)
qed simp

lemma partial_batch_full: "\<lbrakk> partial_batch laddrs hs b; dom laddrs \<subseteq> set hs \<rbrakk> \<Longrightarrow> batch_inv b laddrs"
  unfolding partial_batch_def batch_inv_def one_op_each_def by blast

lemma init_push_batch_ops_inv:
  assumes "distinct hs" "set hs = dom laddrs" "length hs < 2 ^ 64 - 1"
  shows "\<exists>g. init_push_batch_ops hs (group_new fds laddrs) = Ok g \<and> ug_laddrs g = laddrs \<and> ug_fds g = fds \<and>
    batch_inv (ug_reader g) laddrs \<and> batch_inv (ug_writer g) laddrs \<and> batch_room (ug_reader g) \<and> batch_room (ug_writer g)"
proof -
  obtain g where g: "init_push_batch_ops hs (group_new fds laddrs) = Ok g" "ug_laddrs g = laddrs" "ug_fds g = fds"
      "partial_batch laddrs hs (ug_reader g)" "partial_batch laddrs hs (ug_writer g)"
    using init_push_batch_ops_partial [of "group_new fds laddrs" "[]" hs] assms partial_batch_new
    by (auto simp: group_new_def)
  moreover have "batch_room b" if "partial_batch laddrs hs b" for b
    using that assms(3) by (auto simp: partial_batch_def batch_room_def word_less_nat_alt unsigned_minus_1_eq_mask
        mask_eq_exp_minus_1)
  ultimately show ?thesis using assms(2) partial_batch_full by blast
qed

text \<open>A bind that fails at a later address leaves the sockets of the earlier ones open.\<close>

lemma bind_loop_leaks:
  assumes "fd_open d DUdpSocket (Bind [a]) s = (Ok fd, s1)" "register_or_close d poller (Readable OR Writable) fd s1 = (Ok fd, s2)"
    "local_addr d fd s2 = (Ok laddr, s3)" "fd_open d DUdpSocket (Bind [b]) s3 = (Err e, s4)"
  shows "group_bind d poller order (Ok [a, b]) s = (Err e, s4)"
  using assms by (simp add: group_bind_def)

section \<open>Properties\<close>

text \<open>
  C40: receiving on a group. On the \<open>mio\<close> driver with live sockets, a \<open>recv_from\<close> returns from its poll and fails none
  of its assertions, whatever the system answers: every operation finds the buffer, every socket has
  exactly one operation in the batch again, a pending call has left the buffer in the cell and
  registered its waker, and a received packet carries the address of one of the group's sockets.
\<close>

theorem group_recv_safe:
  assumes "batch_inv (ug_reader g) (ug_laddrs g)" "batch_room (ug_reader g)" "boxes_fresh s"
    and "\<forall>h \<in> dom (ug_laddrs g). h_desc h = DUdpSocket \<and> handle_ready h s"
  shows "\<exists>r g' s'. group_recv_poll (mio_driver os fuel) waker_of t (group_recv_start len g) s = Some (r, g', s') \<and> r \<noteq> Panic \<and>
    batch_inv (ug_reader g') (ug_laddrs g') \<and> ug_laddrs g' = ug_laddrs g \<and> (\<forall>h \<in> dom (ug_laddrs g'). handle_ready h s') \<and>
    (r = Ok Pending \<longrightarrow> ug_read_buf g' = Some len \<and> fb_raw_waker (ug_reader g') = Some t) \<and>
    (\<forall>n path data. r = Ok (Ready ((n, path), data)) \<longrightarrow> pi_to path \<in> ran (ug_laddrs g))"
proof -
  let ?g = "group_recv_start len g"
  have "batch_inv (ug_reader ?g) (ug_laddrs ?g)" "batch_room (ug_reader ?g)" "ug_read_buf ?g = Some len"
      "mio_sockets.sockets_ready ?g s" "ug_laddrs ?g = ug_laddrs g"
    using assms by (simp_all add: group_recv_start_def mio_sockets.sockets_ready_def)
  from mio_sockets.recv_poll [OF this(1-4), where os = os and fuel = fuel and waker_of = waker_of and t = t] this(5)
  show ?thesis by (auto simp: mio_sockets.sockets_ready_def)
qed

text \<open>A group with one socket, set up as \<open>bind\<close> does.\<close>

definition sample_socket :: handle where
  "sample_socket = \<lparr>h_token = 5, h_desc = DUdpSocket, h_user_defined_desc = None, h_data = 9\<rparr>"

definition sample_sockets :: "handle \<rightharpoonup> sock_addr" where
  "sample_sockets = [sample_socket \<mapsto> \<lparr>sa_ip = IpV4 0, sa_port = 7\<rparr>]"

theorem group_recv_safe_witness:
  "\<exists>g r g' s'. init_push_batch_ops [sample_socket] (group_new Map.empty sample_sockets) = Ok g \<and>
     group_recv_poll (mio_driver blocked_os 1) (\<lambda>i. 1) 2 (group_recv_start 100 g)
       ((one_poller (0, []) (raw_mio_poller_new 1000000 0))
          \<lparr>ms_heap := [0 \<mapsto> OPoller 0, 9 \<mapsto> OSocket DUdpSocket \<lparr>mw_value = 3, mw_poller = Some 0, mw_once = True\<rparr>], ms_next_box := 10\<rparr>)
       = Some (r, g', s') \<and> r \<noteq> Panic"
proof -
  let ?s = "(one_poller (0, [] :: mio_event list) (raw_mio_poller_new 1000000 0))
    \<lparr>ms_heap := [0 \<mapsto> OPoller 0, 9 \<mapsto> OSocket DUdpSocket \<lparr>mw_value = 3, mw_poller = Some 0, mw_once = True\<rparr>], ms_next_box := 10\<rparr>"
  obtain g where g: "init_push_batch_ops [sample_socket] (group_new Map.empty sample_sockets) = Ok g"
      "ug_laddrs g = sample_sockets" "batch_inv (ug_reader g) sample_sockets" "batch_room (ug_reader g)"
    using init_push_batch_ops_inv [of "[sample_socket]" sample_sockets Map.empty] by (auto simp: sample_sockets_def)
  have s: "boxes_fresh ?s" "handle_ready sample_socket ?s" "h_desc sample_socket = DUdpSocket"
    by (auto simp: handle_ready_def is_socket_def one_poller_def boxes_fresh_def sample_socket_def)
  then have ready: "\<forall>h \<in> dom (ug_laddrs g). h_desc h = DUdpSocket \<and> handle_ready h ?s"
    by (simp add: g(2) sample_sockets_def)
  have "batch_inv (ug_reader g) (ug_laddrs g)" using g(2,3) by simp
  from group_recv_safe [OF this g(4) s(1) ready, of blocked_os 1 "\<lambda>i. 1" 2 100] g(1) show ?thesis by blast
qed

end
