(* ===== verification/Gperf_Report.thy ===== *)
theory Gperf_Report
  imports Io_Driver
begin

text \<open>
  The reports of the profiler for the google perftools (\<open>crates/pprof/src/profiler/report.rs\<close>, with
  the messages of \<open>gperf/gperf.rs\<close>): a string table, a function table indexed by address and a
  location table are built while samples are reported, and \<open>build\<close> moves them into a profile. The
  casts of vector lengths to \<open>i64\<close> and \<open>u64\<close> change nothing, since a vector has at most
  \<open>isize::MAX\<close> elements; the casts of reported values are written out.
\<close>

section \<open>Messages\<close>

record symbol =
  sym_name :: string
  sym_address :: nat
  sym_file_name :: string
  sym_line_no :: nat
  sym_col_no :: nat

record gperf_function =
  gf_id :: nat
  gf_name :: nat
  gf_system_name :: nat
  gf_filename :: nat
  gf_start_line :: nat

record gperf_line =
  gl_function_id :: nat
  gl_line :: nat

record gperf_location =
  go_id :: nat
  go_address :: nat
  go_line :: "gperf_line list"

record gperf_label =
  gb_key :: nat
  gb_str :: nat

record gperf_sample =
  gs_location_id :: "nat list"
  gs_value :: "int list"
  gs_label :: "gperf_label list"

record gperf_value_type =
  gv_type :: nat
  gv_unit :: nat

record gperf_profile =
  gp_sample_type :: "gperf_value_type list"
  gp_sample :: "gperf_sample list"
  gp_location :: "gperf_location list"
  gp_function :: "gperf_function list"
  gp_string_table :: "string list"

text \<open>\<open>as i64\<close> of an unsigned number, and \<open>format!("0x{:02x}", n)\<close>.\<close>

definition as_i64 :: "nat \<Rightarrow> int" where
  "as_i64 n = sint (of_nat n :: 64 word)"

definition hex_digit :: "nat \<Rightarrow> char" where
  "hex_digit n = ''0123456789abcdef'' ! n"

fun hex_digits :: "nat \<Rightarrow> string" where
  "hex_digits n = (if n < 16 then [hex_digit n] else hex_digits (n div 16) @ [hex_digit (n mod 16)])"

definition lower_hex :: "nat \<Rightarrow> string" where
  "lower_hex n = ''0x'' @ replicate (2 - length (hex_digits n)) CHR ''0'' @ hex_digits n"

section \<open>Tables\<close>

record string_table =
  st_index :: "string \<rightharpoonup> nat"
  st_table :: "string list"

definition string_table_new :: string_table where
  "string_table_new = \<lparr>st_index = Map.empty, st_table = [[]]\<rparr>"

definition string_table_insert :: "string \<Rightarrow> string_table \<Rightarrow> nat \<times> string_table" where
  "string_table_insert s t =
     (case st_index t s of
        Some offset \<Rightarrow> (offset, t)
      | None \<Rightarrow> (length (st_table t),
          \<lparr>st_index = (st_index t)(s \<mapsto> length (st_table t)), st_table = st_table t @ [s]\<rparr>))"

record fn_table =
  ft_index :: "nat \<rightharpoonup> nat"
  ft_funcs :: "gperf_function list"

definition fn_table_new :: fn_table where
  "fn_table_new = \<lparr>ft_index = Map.empty, ft_funcs = []\<rparr>"

definition fn_table_get :: "symbol \<Rightarrow> fn_table \<Rightarrow> nat option" where
  "fn_table_get symbol t = ft_index t (sym_address symbol)"

text \<open>\<open>GperfHeapProfilerReport\<close> and \<open>GperfCpuProfilerReport\<close> have the same fields.\<close>

record gperf_report =
  gr_string_table :: string_table
  gr_func_table :: fn_table
  gr_loc_table :: "gperf_location list"
  gr_samples :: "gperf_sample list"

definition report_new :: gperf_report where
  "report_new = \<lparr>gr_string_table = string_table_new, gr_func_table = fn_table_new, gr_loc_table = [], gr_samples = []\<rparr>"

definition report_intern :: "string \<Rightarrow> (gperf_report, nat) op" where
  "report_intern s r =
     (let (offset, t) = string_table_insert s (gr_string_table r) in (Ok offset, r\<lparr>gr_string_table := t\<rparr>))"

text \<open>\<open>FnTable::push\<close>, with its assertion that the address is new.\<close>

definition fn_table_push :: "symbol \<Rightarrow> (gperf_report, nat) op" where
  "fn_table_push symbol r =
     (let func_id = length (ft_funcs (gr_func_table r)) + 1 in
      op_bind (report_intern (sym_name symbol)) (\<lambda>system_name.
      op_bind (report_intern (sym_file_name symbol)) (\<lambda>filename r.
        (let t = gr_func_table r;
             func = \<lparr>gf_id = func_id, gf_name = 0, gf_system_name = system_name, gf_filename = filename,
               gf_start_line = sym_line_no symbol\<rparr>;
             r' = r\<lparr>gr_func_table := \<lparr>ft_index = (ft_index t)(sym_address symbol \<mapsto> func_id), ft_funcs = ft_funcs t @ [func]\<rparr>\<rparr> in
         (if ft_index t (sym_address symbol) = None then Ok func_id else Panic, r')))) r)"

section \<open>Reporting\<close>

text \<open>The part of the loop over the frames that adds an unknown function with its location.\<close>

definition report_push :: "symbol \<Rightarrow> (gperf_report, nat) op" where
  "report_push symbol =
     op_bind (fn_table_push symbol) (\<lambda>func_id r.
       (let line = \<lparr>gl_function_id = func_id, gl_line = sym_line_no symbol\<rparr>;
            loc = \<lparr>go_id = func_id, go_address = sym_address symbol, go_line = [line]\<rparr> in
        if length (gr_loc_table r) + 1 = func_id
        then (Ok func_id, r\<lparr>gr_loc_table := gr_loc_table r @ [loc]\<rparr>)
        else (Panic, r)))"

fun report_frames :: "symbol list \<Rightarrow> nat list \<Rightarrow> (gperf_report, nat list) op" where
  "report_frames [] locs r = (Ok locs, r)"
| "report_frames (symbol # frames) locs r =
     (case fn_table_get symbol (gr_func_table r) of
        Some func_id \<Rightarrow>
          if func_id = 0 then report_frames frames locs r
          else report_frames frames (locs @ [func_id]) r
      | None \<Rightarrow> op_bind (report_push symbol) (\<lambda>func_id. report_frames frames (locs @ [func_id])) r)"

definition report_sample :: "string \<Rightarrow> string \<Rightarrow> int \<Rightarrow> symbol list \<Rightarrow> (gperf_report, bool) op" where
  "report_sample key str val frames =
     op_bind (report_frames frames []) (\<lambda>locs.
     op_bind (report_intern key) (\<lambda>key.
     op_bind (report_intern str) (\<lambda>str r.
       (Ok True, r\<lparr>gr_samples := gr_samples r @
          [\<lparr>gs_location_id = locs, gs_value = [val], gs_label = [\<lparr>gb_key = key, gb_str = str\<rparr>]\<rparr>]\<rparr>))))"

definition report_block_info :: "nat \<Rightarrow> nat \<Rightarrow> symbol list \<Rightarrow> (gperf_report, bool) op" where
  "report_block_info block block_size frames = report_sample ''block'' (lower_hex block) (as_i64 block_size) frames"

definition report_cpu_sample :: "nat \<Rightarrow> symbol list \<Rightarrow> (gperf_report, bool) op" where
  "report_cpu_sample cpu_time frames = report_sample ''cpu_times'' (lower_hex cpu_time) (as_i64 cpu_time) frames"

text \<open>\<open>build\<close> drains the vectors and leaves the indexes.\<close>

definition gperf_build :: "string \<Rightarrow> string \<Rightarrow> gperf_report \<Rightarrow> gperf_profile \<times> gperf_report" where
  "gperf_build type unit r =
     (let (type_offset, t1) = string_table_insert type (gr_string_table r);
          (unit_offset, t2) = string_table_insert unit t1 in
      (\<lparr>gp_sample_type = [\<lparr>gv_type = type_offset, gv_unit = unit_offset\<rparr>], gp_sample = gr_samples r, gp_location = gr_loc_table r,
         gp_function = ft_funcs (gr_func_table r), gp_string_table = st_table t2\<rparr>,
       \<lparr>gr_string_table = t2\<lparr>st_table := []\<rparr>, gr_func_table = (gr_func_table r)\<lparr>ft_funcs := []\<rparr>,
         gr_loc_table = [], gr_samples = []\<rparr>))"

definition heap_build :: "gperf_report \<Rightarrow> gperf_profile \<times> gperf_report" where
  "heap_build = gperf_build ''space'' ''bytes''"

definition cpu_build :: "gperf_report \<Rightarrow> gperf_profile \<times> gperf_report" where
  "cpu_build = gperf_build ''cpu'' ''nanoseconds''"


section \<open>Reading a profile\<close>

text \<open>
  How a consumer of the format reads a frame of a sample: the location with the identifier, the
  function of its line, and the strings behind their offsets.
\<close>

definition string_at :: "string list \<Rightarrow> nat \<Rightarrow> string option" where
  "string_at table i = (if i < length table then Some (table ! i) else None)"

type_synonym frame = "nat \<times> string option \<times> string option \<times> nat"

definition read_frame :: "gperf_profile \<Rightarrow> nat \<Rightarrow> frame option" where
  "read_frame p i =
     (case find (\<lambda>l. go_id l = i) (gp_location p) of
        Some l \<Rightarrow>
          (case go_line l of
             [line] \<Rightarrow>
               (case find (\<lambda>f. gf_id f = gl_function_id line) (gp_function p) of
                  Some f \<Rightarrow> Some (go_address l, string_at (gp_string_table p) (gf_system_name f),
                    string_at (gp_string_table p) (gf_filename f), gl_line line)
                | None \<Rightarrow> None)
           | _ \<Rightarrow> None)
      | None \<Rightarrow> None)"

definition read_sample ::
  "gperf_profile \<Rightarrow> gperf_sample \<Rightarrow> frame option list \<times> int list \<times> (string option \<times> string option) list" where
  "read_sample p s = (map (read_frame p) (gs_location_id s), gs_value s,
     map (\<lambda>l. (string_at (gp_string_table p) (gb_key l), string_at (gp_string_table p) (gb_str l))) (gs_label s))"

definition symbol_frame :: "symbol \<Rightarrow> frame" where
  "symbol_frame s = (sym_address s, Some (sym_name s), Some (sym_file_name s), sym_line_no s)"

section \<open>The invariant\<close>

definition string_table_ok :: "string_table \<Rightarrow> bool" where
  "string_table_ok t \<longleftrightarrow> (\<exists>rest. st_table t = [] # rest) \<and> (\<forall>s i. st_index t s = Some i \<longleftrightarrow> 0 < i \<and> string_at (st_table t) i = Some s)"

lemma string_at_append: "string_at xs i = Some s \<Longrightarrow> string_at (xs @ ys) i = Some s"
  by (auto simp: string_at_def nth_append split: if_splits)

lemma string_at_snoc: "string_at (xs @ [x]) i = (if i = length xs then Some x else string_at xs i)"
  by (auto simp: string_at_def nth_append)

text \<open>
  Inserting gives an offset of the string, keeps the old offsets and records the string; strings that
  are known change nothing.
\<close>

lemma string_table_insert:
  assumes "string_table_insert s t = (i, t')" "string_table_ok t"
  shows "string_table_ok t'" "string_at (st_table t') i = Some s" "\<exists>zs. st_table t' = st_table t @ zs" "0 < i"
proof -
  have hit: "string_at (st_table t @ [s]) (length (st_table t)) = Some s" by (simp add: string_at_def)
  have "string_table_ok t' \<and> string_at (st_table t') i = Some s \<and> (\<exists>zs. st_table t' = st_table t @ zs) \<and> 0 < i"
  proof (cases "st_index t s")
    case None
    then have "t' = \<lparr>st_index = (st_index t)(s \<mapsto> length (st_table t)), st_table = st_table t @ [s]\<rparr>" "i = length (st_table t)"
      using assms(1) by (auto simp: string_table_insert_def)
    moreover have "((st_index t)(s \<mapsto> length (st_table t))) x = Some j \<longleftrightarrow> 0 < j \<and> string_at (st_table t @ [s]) j = Some x" for x j
    proof (cases "j = length (st_table t)")
      case True
      then show ?thesis using assms(2) hit by (auto simp: string_table_ok_def string_at_def)
    next
      case False
      moreover have "\<not> (0 < j \<and> string_at (st_table t) j = Some s)"
        using assms(2) None unfolding string_table_ok_def by (metis option.distinct(1))
      ultimately show ?thesis using assms(2) by (auto simp: string_table_ok_def string_at_snoc)
    qed
    ultimately show ?thesis using assms(2) hit by (auto simp: string_table_ok_def)
  next
    case (Some j)
    then show ?thesis using assms by (simp add: string_table_insert_def string_table_ok_def)
  qed
  then show "string_table_ok t'" "string_at (st_table t') i = Some s" "\<exists>zs. st_table t' = st_table t @ zs" "0 < i" by blast+
qed

lemma string_table_insert_known:
  "s \<in> dom (st_index t) \<Longrightarrow> snd (string_table_insert s t) = t"
  "s \<in> dom (st_index (snd (string_table_insert s t)))"
  "dom (st_index t) \<subseteq> dom (st_index (snd (string_table_insert s t)))"
  by (auto simp: string_table_insert_def split: option.splits)

text \<open>
  The functions and the locations follow a list of symbols with distinct addresses, the symbols that
  were seen first: the element at position \<open>i\<close> has the identifier \<open>i + 1\<close>.
\<close>

definition location_of :: "nat \<times> symbol \<Rightarrow> gperf_location" where
  "location_of = (\<lambda>(i, s). \<lparr>go_id = i + 1, go_address = sym_address s,
     go_line = [\<lparr>gl_function_id = i + 1, gl_line = sym_line_no s\<rparr>]\<rparr>)"

definition function_ok :: "string list \<Rightarrow> nat \<times> symbol \<Rightarrow> gperf_function \<Rightarrow> bool" where
  "function_ok table = (\<lambda>(i, s) f. gf_id f = i + 1 \<and> string_at table (gf_system_name f) = Some (sym_name s) \<and>
     string_at table (gf_filename f) = Some (sym_file_name s))"

definition tables_ok :: "symbol list \<Rightarrow> gperf_report \<Rightarrow> bool" where
  "tables_ok syms r \<longleftrightarrow> string_table_ok (gr_string_table r) \<and>
     gr_loc_table r = map location_of (enumerate 0 syms) \<and>
     list_all2 (function_ok (st_table (gr_string_table r))) (enumerate 0 syms) (ft_funcs (gr_func_table r)) \<and>
     ft_index (gr_func_table r) = (\<lambda>a. map_option Suc (find_offset (\<lambda>s. sym_address s = a) syms))"

lemma tables_ok_new: "tables_ok [] report_new"
  by (auto simp: tables_ok_def report_new_def string_table_new_def fn_table_new_def string_table_ok_def string_at_def split: if_splits)

lemma function_ok_append: "function_ok table x f \<Longrightarrow> function_ok (table @ zs) x f"
  by (auto simp: function_ok_def string_at_append split: prod.splits)

lemma report_intern:
  assumes "tables_ok syms r"
  obtains i r' zs where "report_intern s r = (Ok i, r')" "tables_ok syms r'"
    "string_at (st_table (gr_string_table r')) i = Some s" "st_table (gr_string_table r') = st_table (gr_string_table r) @ zs"
    "r' = r\<lparr>gr_string_table := gr_string_table r'\<rparr>" "0 < i"
proof -
  obtain i t where ins: "string_table_insert s (gr_string_table r) = (i, t)" by fastforce
  then obtain zs where t: "string_table_ok t" "string_at (st_table t) i = Some s" "st_table t = st_table (gr_string_table r) @ zs" "0 < i"
    using assms string_table_insert [OF ins] unfolding tables_ok_def by blast
  then have "tables_ok syms (r\<lparr>gr_string_table := t\<rparr>)"
    using assms by (auto simp: tables_ok_def elim!: list_all2_mono function_ok_append)
  then show ?thesis using that [of i "r\<lparr>gr_string_table := t\<rparr>" zs] t ins by (simp add: report_intern_def)
qed

text \<open>The functions and locations of \<open>report_frames\<close>: the identifiers refer to symbols with the addresses of the frames.\<close>

lemma find_offset_snoc:
  "find_offset p (xs @ [x]) = (case find_offset p xs of Some i \<Rightarrow> Some i | None \<Rightarrow> if p x then Some (length xs) else None)"
  by (induction xs) (auto simp del: find_offset_None split: option.splits)

lemma index_snoc:
  assumes "find_offset (\<lambda>x. sym_address x = sym_address s) syms = None"
  shows "(\<lambda>a. map_option Suc (find_offset (\<lambda>x. sym_address x = a) syms))(sym_address s \<mapsto> Suc (length syms))
    = (\<lambda>a. map_option Suc (find_offset (\<lambda>x. sym_address x = a) (syms @ [s])))"
proof
  fix a
  show "((\<lambda>a. map_option Suc (find_offset (\<lambda>x. sym_address x = a) syms))(sym_address s \<mapsto> Suc (length syms))) a
    = map_option Suc (find_offset (\<lambda>x. sym_address x = a) (syms @ [s]))"
    using assms unfolding find_offset_snoc by (cases "find_offset (\<lambda>x. sym_address x = a) syms") (auto simp del: find_offset_None)
qed

lemma report_push:
  assumes ok: "tables_ok syms r" and new: "find_offset (\<lambda>x. sym_address x = sym_address s) syms = None"
  obtains r' zs where "report_push s r = (Ok (length syms + 1), r')" "tables_ok (syms @ [s]) r'"
    "st_table (gr_string_table r') = st_table (gr_string_table r) @ zs" "gr_samples r' = gr_samples r"
proof -
  obtain i1 r1 z1 where one: "report_intern (sym_name s) r = (Ok i1, r1)" "tables_ok syms r1"
      "string_at (st_table (gr_string_table r1)) i1 = Some (sym_name s)" "st_table (gr_string_table r1) = st_table (gr_string_table r) @ z1"
      "r1 = r\<lparr>gr_string_table := gr_string_table r1\<rparr>"
    using report_intern [OF ok] by metis
  obtain i2 r2 z2 where two: "report_intern (sym_file_name s) r1 = (Ok i2, r2)" "tables_ok syms r2"
      "string_at (st_table (gr_string_table r2)) i2 = Some (sym_file_name s)" "st_table (gr_string_table r2) = st_table (gr_string_table r1) @ z2"
      "r2 = r1\<lparr>gr_string_table := gr_string_table r2\<rparr>"
    using report_intern [OF one(2)] by metis
  have len: "length (ft_funcs (gr_func_table r)) = length syms"
    using ok by (auto simp: tables_ok_def dest: list_all2_lengthD)
  have same: "gr_func_table r2 = gr_func_table r" "gr_loc_table r2 = gr_loc_table r" "gr_samples r2 = gr_samples r"
    using one(5) two(5) by (metis gperf_report.select_convs gperf_report.surjective gperf_report.update_convs(1))+
  have index: "ft_index (gr_func_table r) (sym_address s) = None" using ok new by (simp add: tables_ok_def)
  have locs: "length (gr_loc_table r) = length syms" using ok by (simp add: tables_ok_def)
  define f where "f = \<lparr>gf_id = length syms + 1, gf_name = 0, gf_system_name = i1, gf_filename = i2, gf_start_line = sym_line_no s\<rparr>"
  define r3 where "r3 = r2\<lparr>gr_func_table := \<lparr>ft_index = (ft_index (gr_func_table r2))(sym_address s \<mapsto> length syms + 1),
      ft_funcs = ft_funcs (gr_func_table r2) @ [f]\<rparr>, gr_loc_table := gr_loc_table r2 @ [location_of (length syms, s)]\<rparr>"
  have "fn_table_push s r = (Ok (length syms + 1), r2\<lparr>gr_func_table := gr_func_table r3\<rparr>)"
    using one(1) two(1) index by (simp add: fn_table_push_def len same Let_def r3_def f_def)
  then have push: "report_push s r = (Ok (length syms + 1), r3)"
    by (simp add: report_push_def Let_def same locs r3_def location_of_def)
  have "tables_ok (syms @ [s]) r3"
    using two(2,3) string_at_append [OF one(3), of z2] two(4) index_snoc [OF new]
    by (auto simp: tables_ok_def r3_def f_def enumerate_append_eq function_ok_def intro!: list_all2_appendI)
  then show ?thesis using that [OF push] one(4) two(4) same(3) by (simp add: r3_def)
qed

text \<open>An identifier stands for a symbol.\<close>

definition stands_for :: "symbol list \<Rightarrow> nat \<Rightarrow> symbol \<Rightarrow> bool" where
  "stands_for syms i s \<longleftrightarrow> 0 < i \<and> i \<le> length syms \<and> sym_address (syms ! (i - 1)) = sym_address s"

lemma stands_for_append: "stands_for syms i s \<Longrightarrow> stands_for (syms @ zs) i s"
  by (auto simp: stands_for_def nth_append)

lemma report_frames:
  assumes "tables_ok syms r"
  shows "\<exists>ids new zs r'. report_frames frames locs r = (Ok (locs @ ids), r') \<and> tables_ok (syms @ new) r' \<and>
    set new \<subseteq> set frames \<and> st_table (gr_string_table r') = st_table (gr_string_table r) @ zs \<and> gr_samples r' = gr_samples r \<and>
    list_all2 (stands_for (syms @ new)) ids frames"
  using assms
proof (induction frames arbitrary: syms locs r)
  case Nil
  then show ?case by (intro exI [of _ "[]"]) simp
next
  case (Cons s frames)
  have get: "fn_table_get s (gr_func_table r) = map_option Suc (find_offset (\<lambda>x. sym_address x = sym_address s) syms)"
    using Cons.prems by (simp add: fn_table_get_def tables_ok_def)
  show ?case
  proof (cases "find_offset (\<lambda>x. sym_address x = sym_address s) syms")
    case None
    obtain r1 z1 where push: "report_push s r = (Ok (length syms + 1), r1)" "tables_ok (syms @ [s]) r1"
      "st_table (gr_string_table r1) = st_table (gr_string_table r) @ z1" "gr_samples r1 = gr_samples r"
      using report_push [OF Cons.prems None] by metis
    obtain ids new zs r' where rest: "report_frames frames (locs @ [length syms + 1]) r1 = (Ok ((locs @ [length syms + 1]) @ ids), r')"
        "tables_ok ((syms @ [s]) @ new) r'" "set new \<subseteq> set frames" "st_table (gr_string_table r') = st_table (gr_string_table r1) @ zs"
        "gr_samples r' = gr_samples r1" "list_all2 (stands_for ((syms @ [s]) @ new)) ids frames"
      using Cons.IH [OF push(2)] by blast
    have "report_frames (s # frames) locs r = (Ok (locs @ (length syms + 1) # ids), r')"
      using rest(1) push(1) None by (simp add: get del: find_offset_None)
    moreover have "stands_for (syms @ s # new) (length syms + 1) s" by (simp add: stands_for_def)
    ultimately show ?thesis using rest(2-6) push(3,4)
      by (intro exI [of _ "(length syms + 1) # ids"] exI [of _ "s # new"] exI [of _ "z1 @ zs"] exI [of _ r']) auto
  next
    case (Some i)
    obtain ids new zs r' where rest: "report_frames frames (locs @ [Suc i]) r = (Ok ((locs @ [Suc i]) @ ids), r')"
        "tables_ok (syms @ new) r'" "set new \<subseteq> set frames" "st_table (gr_string_table r') = st_table (gr_string_table r) @ zs"
        "gr_samples r' = gr_samples r" "list_all2 (stands_for (syms @ new)) ids frames"
      using Cons.IH [OF Cons.prems] by blast
    have "stands_for (syms @ new) (Suc i) s" using Some by (intro stands_for_append) (auto simp: find_offset_Some stands_for_def)
    then show ?thesis using rest get Some
      by (intro exI [of _ "Suc i # ids"] exI [of _ new] exI [of _ zs] exI [of _ r']) auto
  qed
qed

text \<open>A sample as it was reported: the label, the value, the frames.\<close>

type_synonym call = "string \<times> string \<times> int \<times> symbol list"

definition sample_ok :: "symbol list \<Rightarrow> string list \<Rightarrow> call \<Rightarrow> gperf_sample \<Rightarrow> bool" where
  "sample_ok syms table = (\<lambda>(key, str, val, frames) s.
     gs_value s = [val] \<and> list_all2 (stands_for syms) (gs_location_id s) frames \<and>
     (\<exists>k i. gs_label s = [\<lparr>gb_key = k, gb_str = i\<rparr>] \<and> 0 < k \<and> 0 < i \<and> string_at table k = Some key \<and> string_at table i = Some str))"

lemma sample_ok_append: "sample_ok syms table c s \<Longrightarrow> sample_ok (syms @ new) (table @ zs) c s"
  by (auto simp: sample_ok_def intro: string_at_append elim!: list_all2_mono stands_for_append)

definition report_inv :: "call list \<Rightarrow> symbol list \<Rightarrow> gperf_report \<Rightarrow> bool" where
  "report_inv calls syms r \<longleftrightarrow> tables_ok syms r \<and> set syms \<subseteq> (\<Union>(_, _, _, frames) \<in> set calls. set frames) \<and>
     list_all2 (sample_ok syms (st_table (gr_string_table r))) calls (gr_samples r)"

lemma report_sample:
  assumes inv: "report_inv calls syms r"
  obtains r' syms' where "report_sample key str val frames r = (Ok True, r')" "report_inv (calls @ [(key, str, val, frames)]) syms' r'"
proof -
  from inv have ok: "tables_ok syms r" by (simp add: report_inv_def)
  obtain ids new zs r1 where one: "report_frames frames [] r = (Ok ids, r1)" "tables_ok (syms @ new) r1"
      "set new \<subseteq> set frames" "st_table (gr_string_table r1) = st_table (gr_string_table r) @ zs" "gr_samples r1 = gr_samples r"
      "list_all2 (stands_for (syms @ new)) ids frames"
    using report_frames [OF ok, of frames "[]"] by auto
  obtain k r2 z2 where two: "report_intern key r1 = (Ok k, r2)" "tables_ok (syms @ new) r2"
      "string_at (st_table (gr_string_table r2)) k = Some key" "st_table (gr_string_table r2) = st_table (gr_string_table r1) @ z2"
      "r2 = r1\<lparr>gr_string_table := gr_string_table r2\<rparr>" "0 < k"
    using report_intern [OF one(2)] by metis
  obtain i r3 z3 where three: "report_intern str r2 = (Ok i, r3)" "tables_ok (syms @ new) r3"
      "string_at (st_table (gr_string_table r3)) i = Some str" "st_table (gr_string_table r3) = st_table (gr_string_table r2) @ z3"
      "r3 = r2\<lparr>gr_string_table := gr_string_table r3\<rparr>" "0 < i"
    using report_intern [OF two(2)] by metis
  let ?s = "\<lparr>gs_location_id = ids, gs_value = [val], gs_label = [\<lparr>gb_key = k, gb_str = i\<rparr>]\<rparr>"
  have samples: "gr_samples r3 = gr_samples r"
    using two(5) three(5) one(5) by (metis gperf_report.select_convs(4) gperf_report.surjective gperf_report.update_convs(1))
  have "sample_ok (syms @ new) (st_table (gr_string_table r3)) (key, str, val, frames) ?s"
    using one(6) three(3,6) two(6) string_at_append [OF two(3)] three(4) by (simp add: sample_ok_def)
  moreover have "list_all2 (sample_ok (syms @ new) (st_table (gr_string_table r3))) calls (gr_samples r)"
    using inv one(4) two(4) three(4) by (auto simp: report_inv_def elim!: list_all2_mono sample_ok_append)
  ultimately have "report_inv (calls @ [(key, str, val, frames)]) (syms @ new) (r3\<lparr>gr_samples := gr_samples r3 @ [?s]\<rparr>)"
    using inv three(2) one(3) samples by (auto simp: report_inv_def tables_ok_def intro!: list_all2_appendI)
  moreover have "report_sample key str val frames r = (Ok True, r3\<lparr>gr_samples := gr_samples r3 @ [?s]\<rparr>)"
    by (simp add: report_sample_def one(1) two(1) three(1))
  ultimately show ?thesis using that by blast
qed

section \<open>What a profile says\<close>

lemma find_enumerate_id:
  assumes "list_all2 (\<lambda>(i, _) y. idf y = i + 1) (enumerate n xs) ys" "n < k" "k \<le> n + length xs"
  shows "find (\<lambda>y. idf y = k) ys = Some (ys ! (k - n - 1))"
  using assms
proof (induction xs arbitrary: n ys)
  case (Cons x xs)
  then obtain y ys' where ys: "ys = y # ys'" "idf y = n + 1" "list_all2 (\<lambda>(i, _) y. idf y = i + 1) (enumerate (Suc n) xs) ys'"
    by (auto simp: list_all2_Cons1)
  show ?case
  proof (cases "k = n + 1")
    case False
    then have "find (\<lambda>y. idf y = k) ys' = Some (ys' ! (k - Suc n - 1))"
      using Cons.IH [OF ys(3)] Cons.prems(2,3) by simp
    then show ?thesis using False ys(1,2) Cons.prems(2) by (simp add: nth_Cons')
  qed (simp add: ys)
qed simp

lemma read_frame:
  assumes ok: "tables_ok syms r" and i: "0 < i" "i \<le> length syms"
    and p: "gp_location p = gr_loc_table r" "gp_function p = ft_funcs (gr_func_table r)" "gp_string_table p = st_table (gr_string_table r) @ zs"
  shows "read_frame p i = Some (symbol_frame (syms ! (i - 1)))"
proof -
  have funcs: "list_all2 (function_ok (st_table (gr_string_table r))) (enumerate 0 syms) (gp_function p)"
    using ok p(2) by (simp add: tables_ok_def)
  have loc: "find (\<lambda>l. go_id l = i) (gp_location p) = Some (location_of (i - 1, syms ! (i - 1)))"
  proof -
    have "list_all2 (\<lambda>(i, _) y. go_id y = i + 1) (enumerate 0 syms) (gp_location p)"
      using ok p(1) by (auto simp: tables_ok_def location_of_def list_all2_conv_all_nth split: prod.splits)
    from find_enumerate_id [OF this] i show ?thesis using ok p(1) by (simp add: tables_ok_def nth_enumerate_eq)
  qed
  have fn: "find (\<lambda>f. gf_id f = i) (gp_function p) = Some (gp_function p ! (i - 1))"
    using find_enumerate_id [of gf_id 0 syms "gp_function p" i] funcs i
    by (auto simp: function_ok_def list_all2_conv_all_nth split: prod.splits)
  have "function_ok (st_table (gr_string_table r)) (i - 1, syms ! (i - 1)) (gp_function p ! (i - 1))"
    using list_all2_nthD [OF funcs, of "i - 1"] i by (simp add: nth_enumerate_eq)
  then have "function_ok (gp_string_table p) (i - 1, syms ! (i - 1)) (gp_function p ! (i - 1))"
    using p(3) function_ok_append by simp
  then show ?thesis using loc fn i(1) by (simp add: read_frame_def location_of_def symbol_frame_def function_ok_def)
qed

text \<open>Symbols with the same address agree.\<close>

definition symbols_agree :: "symbol set \<Rightarrow> bool" where
  "symbols_agree S \<longleftrightarrow> (\<forall>s \<in> S. \<forall>t \<in> S. sym_address s = sym_address t \<longrightarrow> symbol_frame s = symbol_frame t)"

definition calls_symbols :: "call list \<Rightarrow> symbol set" where
  "calls_symbols calls = (\<Union>(_, _, _, frames) \<in> set calls. set frames)"

lemma read_sample:
  assumes ok: "tables_ok syms r" and s: "sample_ok syms (st_table (gr_string_table r)) (key, str, val, frames) s"
    and agree: "symbols_agree S" "set frames \<subseteq> S" "set syms \<subseteq> S"
    and p: "gp_location p = gr_loc_table r" "gp_function p = ft_funcs (gr_func_table r)" "gp_string_table p = st_table (gr_string_table r) @ zs"
  shows "read_sample p s = (map (Some \<circ> symbol_frame) frames, [val], [(Some key, Some str)])"
proof -
  have "read_frame p i = Some (symbol_frame t)" if i: "stands_for syms i t" and t: "t \<in> set frames" for i t
  proof -
    have "read_frame p i = Some (symbol_frame (syms ! (i - 1)))" "syms ! (i - 1) \<in> set syms"
      using i read_frame [OF ok _ _ p, of i] by (auto simp: stands_for_def)
    moreover have "sym_address (syms ! (i - 1)) = sym_address t" using i by (simp add: stands_for_def)
    ultimately show ?thesis using agree t unfolding symbols_agree_def by (metis subsetD)
  qed
  then have "map (read_frame p) (gs_location_id s) = map (Some \<circ> symbol_frame) frames"
    using s by (auto simp: sample_ok_def list_eq_iff_nth_eq list_all2_conv_all_nth)
  then show ?thesis using s string_at_append by (auto simp: sample_ok_def read_sample_def p(3))
qed

lemma read_profile:
  assumes inv: "report_inv calls syms r" and agree: "symbols_agree (calls_symbols calls)"
    and build: "gperf_build type unit r = (p, r')"
  shows "map (read_sample p) (gp_sample p) = map (\<lambda>(key, str, val, frames). (map (Some \<circ> symbol_frame) frames, [val], [(Some key, Some str)])) calls"
    and "map (\<lambda>v. (string_at (gp_string_table p) (gv_type v), string_at (gp_string_table p) (gv_unit v))) (gp_sample_type p) = [(Some type, Some unit)]"
    and "string_at (gp_string_table p) 0 = Some []"
proof -
  obtain i t1 where one: "string_table_insert type (gr_string_table r) = (i, t1)" by fastforce
  obtain j t2 where two: "string_table_insert unit t1 = (j, t2)" by fastforce
  have ok: "string_table_ok (gr_string_table r)" using inv by (simp add: report_inv_def tables_ok_def)
  obtain z1 where t1: "string_table_ok t1" "st_table t1 = st_table (gr_string_table r) @ z1" "string_at (st_table t1) i = Some type"
    using string_table_insert [OF one ok] by blast
  obtain z2 where t2: "string_table_ok t2" "st_table t2 = st_table t1 @ z2" "string_at (st_table t2) j = Some unit"
    using string_table_insert [OF two t1(1)] by blast
  then have t: "string_table_ok t2" "st_table t2 = st_table (gr_string_table r) @ z1 @ z2" "string_at (st_table t2) j = Some unit"
      "string_at (st_table t2) i = Some type"
    using t1 string_at_append [OF t1(3), of z2] by simp_all
  have p: "gp_location p = gr_loc_table r" "gp_function p = ft_funcs (gr_func_table r)" "gp_string_table p = st_table (gr_string_table r) @ (z1 @ z2)"
      "gp_sample p = gr_samples r" "gp_sample_type p = [\<lparr>gv_type = i, gv_unit = j\<rparr>]" "gp_string_table p = st_table t2"
    using build t(2) by (auto simp: gperf_build_def one two)
  have "read_sample p s = (case c of (key, str, val, frames) \<Rightarrow> (map (Some \<circ> symbol_frame) frames, [val], [(Some key, Some str)]))"
    if "sample_ok syms (st_table (gr_string_table r)) c s" "c \<in> set calls" for c s
  proof -
    obtain key str val frames where c: "c = (key, str, val, frames)" by (metis prod_cases4)
    have "set frames \<subseteq> calls_symbols calls" using that(2) c by (auto simp: calls_symbols_def)
    with inv that c show ?thesis
      using read_sample [OF _ _ agree _ _ p(1-3)] by (auto simp: report_inv_def calls_symbols_def)
  qed
  then show "map (read_sample p) (gp_sample p) = map (\<lambda>(key, str, val, frames). (map (Some \<circ> symbol_frame) frames, [val], [(Some key, Some str)])) calls"
    using inv by (auto simp: p(4) report_inv_def list_all2_conv_all_nth list_eq_iff_nth_eq)
  show "map (\<lambda>v. (string_at (gp_string_table p) (gv_type v), string_at (gp_string_table p) (gv_unit v))) (gp_sample_type p) = [(Some type, Some unit)]"
    using t(3,4) p(5,6) by simp
  show "string_at (gp_string_table p) 0 = Some []"
    using t(1) p(6) by (auto simp: string_table_ok_def string_at_def)
qed

text \<open>The number behind the text of a label, and the value of a sample.\<close>

definition hex_value :: "char \<Rightarrow> nat" where
  "hex_value c = the (find_offset (\<lambda>d. d = c) ''0123456789abcdef'')"

definition read_hex :: "string \<Rightarrow> nat" where
  "read_hex s = foldl (\<lambda>n c. 16 * n + hex_value c) 0 (drop 2 s)"

lemma hex_value_digit: "n < 16 \<Longrightarrow> hex_value (hex_digit n) = n"
proof -
  have "\<forall>n \<in> set [0..<16]. hex_value (hex_digit n) = n" by code_simp
  then show "n < 16 \<Longrightarrow> hex_value (hex_digit n) = n" by simp
qed

lemma hex_digits_value: "foldl (\<lambda>n c. 16 * n + hex_value c) 0 (hex_digits n) = n"
  by (induction n rule: hex_digits.induct) (subst hex_digits.simps, simp del: hex_digits.simps add: hex_value_digit)

lemma foldl_hex_zeros: "foldl (\<lambda>n c. 16 * n + hex_value c) 0 (replicate k CHR ''0'' @ ds) = foldl (\<lambda>n c. 16 * n + hex_value c) 0 ds"
proof (induction k)
  case (Suc k)
  have "hex_value CHR ''0'' = 0" by code_simp
  then show ?case using Suc by simp
qed simp

lemma read_lower_hex: "read_hex (lower_hex n) = n"
proof -
  have "drop 2 (lower_hex n) = replicate (2 - length (hex_digits n)) CHR ''0'' @ hex_digits n" by (simp add: lower_hex_def)
  then show ?thesis by (simp only: read_hex_def foldl_hex_zeros hex_digits_value)
qed

lemma as_i64_exact: "n < 2 ^ 63 \<Longrightarrow> as_i64 n = int n"
  by (simp add: as_i64_def sint_uint take_bit_nat_eq_self signed_take_bit_int_eq_self unsigned_of_nat)

section \<open>A second build\<close>

text \<open>
  What the indexes know is not added again. After \<open>build\<close> they know the strings and functions of a
  table that is empty.
\<close>

definition known :: "call \<Rightarrow> gperf_report \<Rightarrow> bool" where
  "known = (\<lambda>(key, str, _, frames) r. {key, str} \<subseteq> dom (st_index (gr_string_table r)) \<and>
     (\<forall>s \<in> set frames. \<exists>i. ft_index (gr_func_table r) (sym_address s) = Some (Suc i)))"

lemma report_frames_known:
  "\<forall>s \<in> set frames. \<exists>i. ft_index (gr_func_table r) (sym_address s) = Some (Suc i) \<Longrightarrow>
     \<exists>ids. report_frames frames locs r = (Ok (locs @ ids), r) \<and> length ids = length frames"
proof (induction frames arbitrary: locs)
  case (Cons s frames)
  then obtain i where "ft_index (gr_func_table r) (sym_address s) = Some (Suc i)" by auto
  moreover obtain ids where "report_frames frames (locs @ [Suc i]) r = (Ok ((locs @ [Suc i]) @ ids), r)" "length ids = length frames"
    using Cons by fastforce
  ultimately show ?case by (intro exI [of _ "Suc i # ids"]) (simp add: fn_table_get_def)
qed simp

lemma report_intern_known: "s \<in> dom (st_index (gr_string_table r)) \<Longrightarrow> \<exists>i. report_intern s r = (Ok i, r)"
  using string_table_insert_known(1) [of s "gr_string_table r"] by (auto simp: report_intern_def split: prod.splits)

lemma report_sample_known:
  assumes "known (key, str, val, frames) r"
  shows "\<exists>s. report_sample key str val frames r = (Ok True, r\<lparr>gr_samples := gr_samples r @ [s]\<rparr>) \<and> length (gs_location_id s) = length frames"
proof -
  obtain ids where ids: "report_frames frames [] r = (Ok ids, r)" "length ids = length frames"
    using report_frames_known [of frames r "[]"] assms by (auto simp: known_def)
  moreover obtain k where "report_intern key r = (Ok k, r)" using report_intern_known assms by (fastforce simp: known_def)
  moreover obtain i where "report_intern str r = (Ok i, r)" using report_intern_known assms by (fastforce simp: known_def)
  ultimately show ?thesis
    by (intro exI [of _ "\<lparr>gs_location_id = ids, gs_value = [val], gs_label = [\<lparr>gb_key = k, gb_str = i\<rparr>]\<rparr>"])
      (simp add: report_sample_def)
qed

lemma report_inv_known:
  assumes "report_inv calls syms r" "c \<in> set calls"
  shows "known c r"
proof -
  obtain key str val frames where c: "c = (key, str, val, frames)" by (metis prod_cases4)
  obtain s where s: "sample_ok syms (st_table (gr_string_table r)) c s"
    using assms by (metis report_inv_def list_all2_conv_all_nth in_set_conv_nth)
  have "find_offset (\<lambda>x. sym_address x = sym_address t) syms \<noteq> None" if t: "t \<in> set frames" for t
  proof -
    obtain i where "stands_for syms i t"
      using s t unfolding c by (auto simp: sample_ok_def list_all2_conv_all_nth in_set_conv_nth)
    then show ?thesis by (auto simp: stands_for_def intro!: bexI [of _ "syms ! (i - 1)"])
  qed
  moreover have "key \<in> dom (st_index (gr_string_table r))" "str \<in> dom (st_index (gr_string_table r))"
    using assms(1) s unfolding c report_inv_def tables_ok_def string_table_ok_def sample_ok_def dom_def by auto
  ultimately show ?thesis
    using assms(1) unfolding c by (auto simp: known_def report_inv_def tables_ok_def simp del: find_offset_None)
qed

lemma known_build:
  assumes "gperf_build type unit r = (p, r1)"
  shows "known c r \<Longrightarrow> known c r1" "{type, unit} \<subseteq> dom (st_index (gr_string_table r1))"
    "r1 = \<lparr>gr_string_table = \<lparr>st_index = st_index (gr_string_table r1), st_table = []\<rparr>,
       gr_func_table = \<lparr>ft_index = ft_index (gr_func_table r), ft_funcs = []\<rparr>, gr_loc_table = [], gr_samples = []\<rparr>"
proof -
  let ?t1 = "snd (string_table_insert type (gr_string_table r))"
  let ?t2 = "snd (string_table_insert unit ?t1)"
  have r1: "r1 = \<lparr>gr_string_table = ?t2\<lparr>st_table := []\<rparr>, gr_func_table = (gr_func_table r)\<lparr>ft_funcs := []\<rparr>,
      gr_loc_table = [], gr_samples = []\<rparr>"
    using assms by (auto simp: gperf_build_def split: prod.splits)
  have dom: "dom (st_index (gr_string_table r)) \<subseteq> dom (st_index ?t2)" "{type, unit} \<subseteq> dom (st_index ?t2)"
    using string_table_insert_known(2) [of type "gr_string_table r"] string_table_insert_known(2) [of unit ?t1]
      string_table_insert_known(3) [of "gr_string_table r" type] string_table_insert_known(3) [of ?t1 unit] by blast+
  then show "known c r \<Longrightarrow> known c r1" unfolding known_def r1 by fastforce
  show "{type, unit} \<subseteq> dom (st_index (gr_string_table r1))" using dom(2) by (simp add: r1)
  show "r1 = \<lparr>gr_string_table = \<lparr>st_index = st_index (gr_string_table r1), st_table = []\<rparr>,
       gr_func_table = \<lparr>ft_index = ft_index (gr_func_table r), ft_funcs = []\<rparr>, gr_loc_table = [], gr_samples = []\<rparr>"
    by (simp add: r1)
qed

end
