(* ===== verification/Profiler.thy ===== *)
theory Profiler
  imports Gperf_Report
begin

text \<open>
  The profilers of \<open>crates/pprof/src/profiler\<close>: symbols of stack frames (\<open>frames.rs\<close>), the heap
  profiler behind the global allocator (\<open>heap.rs\<close>) and the cpu profiler (\<open>cpu.rs\<close>). The system
  allocator, the unwinder and the resolver of the crate \<open>backtrace\<close> are parameters: the pointer of an
  allocation and the frames of a call are arguments, \<open>resolve\<close> gives the symbols that are reported
  for an address. The mutexes guard single operations; an operation is one step.
\<close>

section \<open>Frames\<close>

text \<open>A symbol of the resolver; the file name is \<open>Some None\<close> when it is not valid UTF-8.\<close>

record resolved =
  rv_name :: "string option"
  rv_addr :: "nat option"
  rv_filename :: "string option option"
  rv_lineno :: "nat option"
  rv_colno :: "nat option"

type_synonym resolver = "nat \<Rightarrow> resolved list"

definition unwrap_or :: "'a \<Rightarrow> 'a option \<Rightarrow> 'a" where
  "unwrap_or d x = (case x of Some y \<Rightarrow> y | None \<Rightarrow> d)"

definition to_symbol :: "resolved \<Rightarrow> symbol io_result" where
  "to_symbol v =
     and_then (case rv_filename v of None \<Rightarrow> Ok [] | Some path \<Rightarrow> unwrap path) (\<lambda>file_name.
       Ok \<lparr>sym_name = unwrap_or [] (rv_name v), sym_address = unwrap_or 0 (rv_addr v), sym_file_name = file_name,
           sym_line_no = unwrap_or 0 (rv_lineno v), sym_col_no = unwrap_or 0 (rv_colno v)\<rparr>)"

text \<open>Only the first symbol of an address is kept, and an address without one is skipped.\<close>

fun frames_to_symbols :: "resolver \<Rightarrow> nat list \<Rightarrow> symbol list io_result" where
  "frames_to_symbols resolve [] = Ok []"
| "frames_to_symbols resolve (addr # frames) =
     (case resolve addr of
        [] \<Rightarrow> frames_to_symbols resolve frames
      | v # _ \<Rightarrow> and_then (to_symbol v) (\<lambda>symbol. map_ok ((#) symbol) (frames_to_symbols resolve frames)))"

section \<open>The heap profiler\<close>

record heap_stats =
  hs_blocks :: usize
  hs_memory_size :: usize

record heap_block =
  hb_size :: nat
  hb_frames :: "nat list"

record heap_profiler =
  hp_blocks :: "nat \<rightharpoonup> heap_block"
  hp_counter :: usize
  hp_memory_size :: usize

definition heap_profiler_new :: heap_profiler where
  "heap_profiler_new = \<lparr>hp_blocks = Map.empty, hp_counter = 0, hp_memory_size = 0\<rparr>"

text \<open>
  \<open>Reentrancy::new\<close> adds one to a counter of the thread, and the guard is \<open>ok\<close> when the sum is one;
  the arguments \<open>depth\<close> below are the counter before.
\<close>

definition reentrancy_ok :: "nat \<Rightarrow> bool" where
  "reentrancy_ok depth \<longleftrightarrow> depth + 1 = 1"

definition heap_register :: "nat \<Rightarrow> nat list \<Rightarrow> nat \<Rightarrow> nat \<Rightarrow> heap_profiler \<Rightarrow> heap_profiler" where
  "heap_register depth frames ptr sz p =
     (if reentrancy_ok depth
      then p\<lparr>hp_blocks := (hp_blocks p)(ptr \<mapsto> \<lparr>hb_size = sz, hb_frames = frames\<rparr>),
             hp_counter := hp_counter p + 1, hp_memory_size := hp_memory_size p + of_nat sz\<rparr>
      else p)"

definition heap_unregister :: "nat \<Rightarrow> nat \<Rightarrow> heap_profiler \<Rightarrow> heap_profiler" where
  "heap_unregister ptr sz p =
     (case map_remove ptr (hp_blocks p) of
        (Some _, blocks) \<Rightarrow> p\<lparr>hp_blocks := blocks, hp_counter := hp_counter p - 1, hp_memory_size := hp_memory_size p - of_nat sz\<rparr>
      | (None, blocks) \<Rightarrow> p\<lparr>hp_blocks := blocks\<rparr>)"

definition heap_generate_stats :: "heap_profiler \<Rightarrow> heap_stats" where
  "heap_generate_stats p = \<lparr>hs_blocks = hp_counter p, hs_memory_size = hp_memory_size p\<rparr>"

text \<open>\<open>order\<close> is the iteration order of the hash map.\<close>

definition heap_snapshot :: "((nat \<rightharpoonup> heap_block) \<Rightarrow> nat list) \<Rightarrow> heap_profiler \<Rightarrow> (nat \<times> heap_block) list" where
  "heap_snapshot order p =
     List.map_filter (\<lambda>ptr. map_option (Pair ptr) (hp_blocks p ptr)) (order (hp_blocks p))"

fun heap_report_loop ::
  "resolver \<Rightarrow> (nat \<Rightarrow> nat \<Rightarrow> symbol list \<Rightarrow> ('r, bool) op) \<Rightarrow> (nat \<times> heap_block) list \<Rightarrow> ('r, unit) op" where
  "heap_report_loop resolve report [] r = (Ok (), r)"
| "heap_report_loop resolve report ((ptr, bt) # snapshot) r =
     op_bind (op_lift (frames_to_symbols resolve (hb_frames bt))) (\<lambda>frames.
     op_bind (report ptr (hb_size bt) frames) (\<lambda>more.
       if more then heap_report_loop resolve report snapshot else op_lift (Ok ()))) r"

definition heap_report ::
  "resolver \<Rightarrow> ((nat \<rightharpoonup> heap_block) \<Rightarrow> nat list) \<Rightarrow> (nat \<Rightarrow> nat \<Rightarrow> symbol list \<Rightarrow> ('r, bool) op) \<Rightarrow> nat \<Rightarrow> heap_profiler \<Rightarrow> ('r, unit) op" where
  "heap_report resolve order report depth p =
     (if reentrancy_ok depth then heap_report_loop resolve report (heap_snapshot order p) else op_lift (Ok ()))"

text \<open>The global profiler, set at most once, and the hooks of the allocator.\<close>

type_synonym global_heap = "heap_profiler option"

definition heap_alloc :: "nat \<Rightarrow> nat list \<Rightarrow> nat \<Rightarrow> nat \<Rightarrow> global_heap \<Rightarrow> global_heap" where
  "heap_alloc depth frames ptr sz g = map_option (heap_register depth frames ptr sz) g"

definition heap_dealloc :: "nat \<Rightarrow> nat \<Rightarrow> global_heap \<Rightarrow> global_heap" where
  "heap_dealloc ptr sz g = map_option (heap_unregister ptr sz) g"

definition heap_profiler_start :: "(global_heap, unit) op" where
  "heap_profiler_start g =
     (case g of None \<Rightarrow> (Ok (), Some heap_profiler_new) | Some p \<Rightarrow> (Panic, Some p))"

definition heap_profiler_stats :: "global_heap \<Rightarrow> heap_stats io_result" where
  "heap_profiler_stats g = map_ok heap_generate_stats (unwrap g)"

definition heap_profiler_report ::
  "resolver \<Rightarrow> ((nat \<rightharpoonup> heap_block) \<Rightarrow> nat list) \<Rightarrow> (nat \<Rightarrow> nat \<Rightarrow> symbol list \<Rightarrow> ('r, bool) op) \<Rightarrow> nat \<Rightarrow> global_heap \<Rightarrow> ('r, unit) op" where
  "heap_profiler_report resolve order report depth g =
     op_bind (op_lift (unwrap g)) (heap_report resolve order report depth)"

section \<open>The cpu profiler\<close>

record cpu_sample =
  cs_cpu_times :: nat
  cs_frames :: "nat list"

record cpu_profiler =
  pc_samples :: "cpu_sample list"
  pc_flag :: bool

definition cpu_profiler_new :: cpu_profiler where
  "cpu_profiler_new = \<lparr>pc_samples = [], pc_flag = False\<rparr>"

definition cpu_start :: "(cpu_profiler, unit) op" where
  "cpu_start p = (if pc_flag p then (Panic, p) else (Ok (), p\<lparr>pc_flag := True\<rparr>))"

text \<open>\<open>sample\<close> at the instant \<open>now\<close>; the difference of two instants saturates at zero.\<close>

definition cpu_sample_at :: "nat \<Rightarrow> nat list \<Rightarrow> nat \<Rightarrow> cpu_profiler \<Rightarrow> cpu_profiler" where
  "cpu_sample_at now frames instant p =
     (if \<not> pc_flag p then p
      else p\<lparr>pc_samples := pc_samples p @ [\<lparr>cs_cpu_times = now - instant, cs_frames = frames\<rparr>]\<rparr>)"

text \<open>The loop does not look at what the report returns.\<close>

fun cpu_report_loop :: "resolver \<Rightarrow> (nat \<Rightarrow> symbol list \<Rightarrow> ('r, bool) op) \<Rightarrow> cpu_sample list \<Rightarrow> ('r, unit) op" where
  "cpu_report_loop resolve report [] r = (Ok (), r)"
| "cpu_report_loop resolve report (smp # samples) r =
     op_bind (op_lift (frames_to_symbols resolve (cs_frames smp))) (\<lambda>symbols.
     op_bind (report (cs_cpu_times smp) symbols) (\<lambda>_. cpu_report_loop resolve report samples)) r"

definition cpu_report ::
  "resolver \<Rightarrow> (nat \<Rightarrow> symbol list \<Rightarrow> ('r, bool) op) \<Rightarrow> cpu_profiler \<Rightarrow> 'r \<Rightarrow> unit io_result \<times> cpu_profiler \<times> 'r" where
  "cpu_report resolve report p r =
     (if \<not> pc_flag p then (Panic, p, r)
      else (let (res, r') = cpu_report_loop resolve report (pc_samples p) r in (res, p\<lparr>pc_flag := False, pc_samples := []\<rparr>, r')))"

section \<open>Reporting a list of samples\<close>

text \<open>Both loops report one sample after another; with a resolver that gives valid names they do not panic.\<close>

fun report_calls :: "call list \<Rightarrow> (gperf_report, unit) op" where
  "report_calls [] r = (Ok (), r)"
| "report_calls ((key, str, val, frames) # calls) r = op_bind (report_sample key str val frames) (\<lambda>_. report_calls calls) r"

definition resolved_symbols :: "resolver \<Rightarrow> symbol set" where
  "resolved_symbols resolve = {s. \<exists>a v vs. resolve a = v # vs \<and> to_symbol v = Ok s}"

definition resolver_ok :: "resolver \<Rightarrow> bool" where
  "resolver_ok resolve \<longleftrightarrow> (\<forall>a v vs. resolve a = v # vs \<longrightarrow> rv_filename v \<noteq> Some None) \<and> symbols_agree (resolved_symbols resolve)"

definition symbols_of :: "resolver \<Rightarrow> nat list \<Rightarrow> symbol list" where
  "symbols_of resolve frames = (case frames_to_symbols resolve frames of Ok ss \<Rightarrow> ss | _ \<Rightarrow> [])"

lemma report_calls_inv:
  "report_inv done syms r \<Longrightarrow> \<exists>r' syms'. report_calls calls r = (Ok (), r') \<and> report_inv (done @ calls) syms' r'"
proof (induction calls arbitrary: r "done" syms)
  case (Cons c calls)
  obtain key str val frames where c: "c = (key, str, val, frames)" by (metis prod_cases4)
  obtain r1 syms1 where "report_sample key str val frames r = (Ok True, r1)" "report_inv (done @ [c]) syms1 r1"
    using report_sample [OF Cons.prems] c by metis
  moreover from Cons.IH [OF this(2)] obtain r' syms' where "report_calls calls r1 = (Ok (), r')" "report_inv (done @ c # calls) syms' r'"
    by auto
  ultimately show ?case by (auto simp: c)
qed auto

lemma to_symbol_ok: "rv_filename v \<noteq> Some None \<Longrightarrow> \<exists>s. to_symbol v = Ok s"
  by (auto simp: to_symbol_def split: option.splits)

lemma frames_to_symbols_ok:
  assumes "resolver_ok resolve"
  shows "frames_to_symbols resolve frames = Ok (symbols_of resolve frames) \<and> set (symbols_of resolve frames) \<subseteq> resolved_symbols resolve"
proof -
  have "\<exists>ss. frames_to_symbols resolve frames = Ok ss \<and> set ss \<subseteq> resolved_symbols resolve"
  proof (induction frames)
    case (Cons a frames)
    then obtain ss where ss: "frames_to_symbols resolve frames = Ok ss" "set ss \<subseteq> resolved_symbols resolve" by blast
    show ?case
    proof (cases "resolve a")
      case (Cons v vs)
      with assms obtain s where "to_symbol v = Ok s" using to_symbol_ok unfolding resolver_ok_def by metis
      then show ?thesis using Cons ss by (auto simp: resolved_symbols_def)
    qed (use ss in simp)
  qed simp
  then show ?thesis by (auto simp: symbols_of_def)
qed

lemma report_sample_true: "report_sample key str val frames r \<noteq> (Ok False, r')"
  by (auto simp: report_sample_def op_bind_Ok)

definition block_call :: "resolver \<Rightarrow> nat \<times> heap_block \<Rightarrow> call" where
  "block_call resolve = (\<lambda>(ptr, b). (''block'', lower_hex ptr, as_i64 (hb_size b), symbols_of resolve (hb_frames b)))"

definition cpu_call :: "resolver \<Rightarrow> cpu_sample \<Rightarrow> call" where
  "cpu_call resolve s = (''cpu_times'', lower_hex (cs_cpu_times s), as_i64 (cs_cpu_times s), symbols_of resolve (cs_frames s))"

lemma heap_report_loop_calls:
  assumes "resolver_ok resolve"
  shows "heap_report_loop resolve report_block_info snapshot r = report_calls (map (block_call resolve) snapshot) r"
proof (induction snapshot arbitrary: r)
  case (Cons x snapshot)
  obtain ptr b where x: "x = (ptr, b)" by fastforce
  obtain res r' where res: "report_sample ''block'' (lower_hex ptr) (as_i64 (hb_size b)) (symbols_of resolve (hb_frames b)) r = (res, r')" by fastforce
  moreover from res have "res \<noteq> Ok False" using report_sample_true by metis
  ultimately show ?case
    using Cons frames_to_symbols_ok [OF assms, of "hb_frames b"]
    by (cases res) (auto simp: x block_call_def report_block_info_def)
qed simp

lemma cpu_report_loop_calls:
  assumes "resolver_ok resolve"
  shows "cpu_report_loop resolve report_cpu_sample samples r = report_calls (map (cpu_call resolve) samples) r"
proof (induction samples arbitrary: r)
  case (Cons s samples)
  obtain res r' where "report_sample ''cpu_times'' (lower_hex (cs_cpu_times s)) (as_i64 (cs_cpu_times s)) (symbols_of resolve (cs_frames s)) r = (res, r')"
    by fastforce
  then show ?case
    using Cons frames_to_symbols_ok [OF assms, of "cs_frames s"]
    by (cases res) (auto simp: cpu_call_def report_cpu_sample_def)
qed simp

text \<open>A list of samples that are reported to a new report and built is read back from the profile.\<close>

lemma report_calls_build:
  assumes "symbols_agree S" "calls_symbols calls \<subseteq> S"
  obtains r p r' syms where "report_calls calls report_new = (Ok (), r)" "report_inv calls syms r" "gperf_build type unit r = (p, r')"
    "map (read_sample p) (gp_sample p) = map (\<lambda>(key, str, val, frames). (map (Some \<circ> symbol_frame) frames, [val], [(Some key, Some str)])) calls"
    "map (\<lambda>v. (string_at (gp_string_table p) (gv_type v), string_at (gp_string_table p) (gv_unit v))) (gp_sample_type p) = [(Some type, Some unit)]"
proof -
  have "report_inv [] [] report_new" using tables_ok_new by (simp add: report_inv_def report_new_def)
  then obtain r syms where r: "report_calls calls report_new = (Ok (), r)" "report_inv calls syms r"
    using report_calls_inv [of "[]" "[]" report_new calls] by auto
  have agree: "symbols_agree (calls_symbols calls)" using assms unfolding symbols_agree_def by blast
  obtain p r' where build: "gperf_build type unit r = (p, r')" by fastforce
  show ?thesis using that [OF r build] read_profile(1,2) [OF r(2) agree build] by blast
qed

lemma symbols_of_calls:
  "resolver_ok resolve \<Longrightarrow> calls_symbols (map (block_call resolve) bs) \<subseteq> resolved_symbols resolve"
  "resolver_ok resolve \<Longrightarrow> calls_symbols (map (cpu_call resolve) ss) \<subseteq> resolved_symbols resolve"
  using frames_to_symbols_ok unfolding calls_symbols_def block_call_def cpu_call_def by fastforce+

section \<open>The counters of the heap profiler\<close>

text \<open>
  What happens to the allocator: an allocation (at a depth of the guard, with its frames, the pointer
  that the system gave and the size) or a deallocation.
\<close>

datatype heap_event = HAlloc nat "nat list" nat nat | HDealloc nat nat

fun heap_events :: "heap_event list \<Rightarrow> global_heap \<Rightarrow> global_heap" where
  "heap_events [] g = g"
| "heap_events (HAlloc depth frames ptr sz # es) g = heap_events es (heap_alloc depth frames ptr sz g)"
| "heap_events (HDealloc ptr sz # es) g = heap_events es (heap_dealloc ptr sz g)"

text \<open>
  The contract of \<open>GlobalAlloc\<close> and of its callers, over the map from the live pointers to their
  sizes: the system gives fresh memory for a size that is not zero, and a pointer is deallocated
  once, with the layout it was allocated with.
\<close>

fun valid_events :: "(nat \<rightharpoonup> nat) \<Rightarrow> heap_event list \<Rightarrow> bool" where
  "valid_events live [] = True"
| "valid_events live (HAlloc depth frames ptr sz # es) \<longleftrightarrow> ptr \<notin> dom live \<and> 0 < sz \<and> valid_events (live(ptr \<mapsto> sz)) es"
| "valid_events live (HDealloc ptr sz # es) \<longleftrightarrow> live ptr = Some sz \<and> valid_events (live(ptr := None)) es"

definition blocks_size :: "(nat \<rightharpoonup> heap_block) \<Rightarrow> nat" where
  "blocks_size m = (\<Sum>ptr \<in> dom m. hb_size (the (m ptr)))"

definition heap_inv :: "(nat \<rightharpoonup> nat) \<Rightarrow> heap_profiler \<Rightarrow> bool" where
  "heap_inv live p \<longleftrightarrow> finite (dom (hp_blocks p)) \<and> hp_counter p = of_nat (card (dom (hp_blocks p))) \<and>
     hp_memory_size p = of_nat (blocks_size (hp_blocks p)) \<and>
     (\<forall>ptr b. hp_blocks p ptr = Some b \<longrightarrow> live ptr = Some (hb_size b) \<and> 0 < hb_size b)"

lemma blocks_size_insert: "\<lbrakk> finite (dom m); ptr \<notin> dom m \<rbrakk> \<Longrightarrow> blocks_size (m(ptr \<mapsto> b)) = hb_size b + blocks_size m"
proof -
  assume m: "finite (dom m)" "ptr \<notin> dom m"
  have "(\<Sum>x \<in> dom m. hb_size (the ((m(ptr \<mapsto> b)) x))) = (\<Sum>x \<in> dom m. hb_size (the (m x)))"
    using m(2) by (intro sum.cong) auto
  then show ?thesis using m by (simp add: blocks_size_def)
qed

lemma blocks_size_remove: "\<lbrakk> finite (dom m); m ptr = Some b \<rbrakk> \<Longrightarrow> blocks_size m = hb_size b + blocks_size (m(ptr := None))"
  using blocks_size_insert [of "m(ptr := None)" ptr b] by (simp add: fun_upd_idem)

lemma heap_register_inv:
  assumes inv: "heap_inv live p" and new: "ptr \<notin> dom live" "0 < sz"
  shows "heap_inv (live(ptr \<mapsto> sz)) (heap_register depth frames ptr sz p)"
proof -
  have p: "ptr \<notin> dom (hp_blocks p)" using inv new(1) by (auto simp: heap_inv_def)
  have live: "(live(ptr \<mapsto> sz)) x = Some (hb_size b) \<and> 0 < hb_size b" if "hp_blocks p x = Some b" for x b
    using inv that p by (auto simp: heap_inv_def)
  show ?thesis
  proof (cases "reentrancy_ok depth")
    case True
    then show ?thesis
      using inv p live new(2) blocks_size_insert [of "hp_blocks p" ptr] by (auto simp: heap_inv_def heap_register_def)
  next
    case False
    then show ?thesis using inv live by (simp add: heap_inv_def heap_register_def)
  qed
qed

lemma heap_unregister_inv:
  assumes inv: "heap_inv live p" and sz: "live ptr = Some sz"
  shows "heap_inv (live(ptr := None)) (heap_unregister ptr sz p)"
proof (cases "hp_blocks p ptr")
  case None
  then show ?thesis using inv by (auto simp: heap_inv_def heap_unregister_def map_remove_def fun_upd_idem)
next
  case (Some b)
  have fin: "finite (dom (hp_blocks p))" and b: "hb_size b = sz" using inv Some sz by (auto simp: heap_inv_def)
  have "card (dom (hp_blocks p)) = Suc (card (dom ((hp_blocks p)(ptr := None))))"
    using Some card_Suc_Diff1 [OF fin, of ptr] by (simp add: domI)
  then show ?thesis
    using inv Some b blocks_size_remove [OF fin Some] by (auto simp: heap_inv_def heap_unregister_def map_remove_def)
qed

lemma heap_events_inv:
  "\<lbrakk> valid_events live es; heap_inv live p \<rbrakk> \<Longrightarrow> \<exists>p' live'. heap_events es (Some p) = Some p' \<and> heap_inv live' p'"
proof (induction es arbitrary: live p)
  case (Cons e es)
  show ?case
  proof (cases e)
    case (HAlloc depth frames ptr sz)
    then have "valid_events (live(ptr \<mapsto> sz)) es" "heap_inv (live(ptr \<mapsto> sz)) (heap_register depth frames ptr sz p)"
      using Cons.prems heap_register_inv by simp_all
    from Cons.IH [OF this] show ?thesis by (simp add: HAlloc heap_alloc_def)
  next
    case (HDealloc ptr sz)
    then have "valid_events (live(ptr := None)) es" "heap_inv (live(ptr := None)) (heap_unregister ptr sz p)"
      using Cons.prems heap_unregister_inv by simp_all
    from Cons.IH [OF this] show ?thesis by (simp add: HDealloc heap_dealloc_def)
  qed
qed auto

lemma heap_inv_new: "heap_inv live heap_profiler_new"
  by (simp add: heap_inv_def heap_profiler_new_def blocks_size_def)

section \<open>Properties\<close>

lemma heap_snapshot_eq:
  assumes "set (order (hp_blocks p)) = dom (hp_blocks p)"
  shows "heap_snapshot order p = map (\<lambda>ptr. (ptr, the (hp_blocks p ptr))) (order (hp_blocks p))"
proof -
  have "List.map_filter (\<lambda>ptr. map_option (Pair ptr) (hp_blocks p ptr)) xs = map (\<lambda>ptr. (ptr, the (hp_blocks p ptr))) xs"
    if "set xs \<subseteq> dom (hp_blocks p)" for xs
    using that by (induction xs) (auto simp: List.map_filter_simps)
  then show ?thesis using assms by (simp add: heap_snapshot_def)
qed

lemma sum_list_singletons: "sum_list (concat (map (\<lambda>x. [f x]) xs)) = sum_list (map f xs)"
  by (induction xs) simp_all

lemma block_size_le: "\<lbrakk> finite (dom m); m ptr = Some b \<rbrakk> \<Longrightarrow> hb_size b \<le> blocks_size m"
  using blocks_size_remove [of m ptr b] by simp

lemma card_le_blocks_size: "heap_inv live p \<Longrightarrow> card (dom (hp_blocks p)) \<le> blocks_size (hp_blocks p)"
proof -
  assume inv: "heap_inv live p"
  have "(\<Sum>ptr \<in> dom (hp_blocks p). 1) \<le> (\<Sum>ptr \<in> dom (hp_blocks p). hb_size (the (hp_blocks p ptr)))"
    using inv by (intro sum_mono) (auto simp: heap_inv_def Suc_leI)
  then show ?thesis by (simp add: blocks_size_def)
qed


text \<open>A program that allocates twice and frees once, with one symbol per address.\<close>

definition sample_resolver :: resolver where
  "sample_resolver a = [\<lparr>rv_name = Some ''f'', rv_addr = Some a, rv_filename = Some (Some ''a.rs''), rv_lineno = Some a, rv_colno = None\<rparr>]"

definition sample_events :: "heap_event list" where
  "sample_events = [HAlloc 0 [7, 8] 100 16, HAlloc 0 [8] 200 32, HDealloc 100 16]"

lemma sample_resolver_ok: "resolver_ok sample_resolver"
  by (auto simp: resolver_ok_def symbols_agree_def resolved_symbols_def sample_resolver_def to_symbol_def unwrap_or_def symbol_frame_def)


fun cpu_samples :: "(nat \<times> nat list \<times> nat) list \<Rightarrow> cpu_profiler \<Rightarrow> cpu_profiler" where
  "cpu_samples [] p = p"
| "cpu_samples ((now, frames, instant) # xs) p = cpu_samples xs (cpu_sample_at now frames instant p)"

lemma cpu_samples_stopped: "\<not> pc_flag p \<Longrightarrow> cpu_samples xs p = p"
  by (induction xs arbitrary: p) (auto simp: cpu_sample_at_def)

lemma cpu_samples_started:
  "pc_flag p \<Longrightarrow> cpu_samples xs p = p\<lparr>pc_samples := pc_samples p @ map (\<lambda>(now, frames, instant). \<lparr>cs_cpu_times = now - instant, cs_frames = frames\<rparr>) xs\<rparr>"
  by (induction xs arbitrary: p) (auto simp: cpu_sample_at_def)

text \<open>
  The cpu profile holds the samples of one start and stop, in their order. Samples before the start
  are dropped; a second start and a second stop panic; the stop leaves a new profiler; the profile
  reads back as the samples with their frames and times.
\<close>

theorem cpu_profile_exact:
  assumes "resolver_ok resolve" "\<forall>(now, frames, instant) \<in> set xs. now - instant < 2 ^ 63"
  shows "\<exists>p1 p2 r prof r'. cpu_start (cpu_samples ys cpu_profiler_new) = (Ok (), p1) \<and> p2 = cpu_samples xs p1 \<and> cpu_start p2 = (Panic, p2) \<and>
    cpu_report resolve report_cpu_sample p2 report_new = (Ok (), cpu_profiler_new, r) \<and>
    cpu_report resolve report_cpu_sample cpu_profiler_new r = (Panic, cpu_profiler_new, r) \<and> cpu_build r = (prof, r') \<and>
    map (read_sample prof) (gp_sample prof) = map (\<lambda>(now, frames, instant).
      (map (Some \<circ> symbol_frame) (symbols_of resolve frames), [int (now - instant)], [(Some ''cpu_times'', Some (lower_hex (now - instant)))])) xs"
proof -
  let ?samples = "map (\<lambda>(now, frames, instant). \<lparr>cs_cpu_times = now - instant, cs_frames = frames\<rparr>) xs"
  let ?calls = "map (cpu_call resolve) ?samples"
  have agree: "symbols_agree (resolved_symbols resolve)" using assms(1) by (simp add: resolver_ok_def)
  obtain r prof r' where r: "report_calls ?calls report_new = (Ok (), r)" "gperf_build ''cpu'' ''nanoseconds'' r = (prof, r')"
      "map (read_sample prof) (gp_sample prof) = map (\<lambda>(key, str, val, frames). (map (Some \<circ> symbol_frame) frames, [val], [(Some key, Some str)])) ?calls"
    by (rule report_calls_build [OF agree symbols_of_calls(2) [OF assms(1), of ?samples], of "''cpu''" "''nanoseconds''"])
  define p1 where "p1 = cpu_profiler_new\<lparr>pc_flag := True\<rparr>"
  have start: "cpu_start (cpu_samples ys cpu_profiler_new) = (Ok (), p1)"
    by (simp add: cpu_samples_stopped cpu_start_def cpu_profiler_new_def p1_def)
  have p2: "cpu_samples xs p1 = \<lparr>pc_samples = ?samples, pc_flag = True\<rparr>"
    by (simp add: cpu_samples_started p1_def cpu_profiler_new_def)
  have "cpu_report resolve report_cpu_sample (cpu_samples xs p1) report_new = (Ok (), cpu_profiler_new, r)"
    by (simp add: cpu_report_def p2 cpu_report_loop_calls [OF assms(1)] r(1) cpu_profiler_new_def del: map_map)
  moreover have "map (read_sample prof) (gp_sample prof) = map (\<lambda>(now, frames, instant).
      (map (Some \<circ> symbol_frame) (symbols_of resolve frames), [int (now - instant)], [(Some ''cpu_times'', Some (lower_hex (now - instant)))])) xs"
    using assms(2) by (auto simp: r(3) cpu_call_def as_i64_exact)
  ultimately show ?thesis using start r(2)
    by (intro exI [of _ p1] exI [of _ "cpu_samples xs p1"] exI [of _ r] exI [of _ prof] exI [of _ r'])
      (simp add: p2 cpu_build_def cpu_start_def cpu_report_def cpu_profiler_new_def)
qed

theorem cpu_profile_exact_witness:
  "\<exists>p1 r prof r'. cpu_start (cpu_samples [(5, [9], 1)] cpu_profiler_new) = (Ok (), p1) \<and>
     cpu_report sample_resolver report_cpu_sample (cpu_samples [(30, [7], 10), (50, [8, 7], 40)] p1) report_new = (Ok (), cpu_profiler_new, r) \<and>
     cpu_build r = (prof, r') \<and> map (snd \<circ> read_sample prof) (gp_sample prof)
       = [([20], [(Some ''cpu_times'', Some ''0x14'')]), ([10], [(Some ''cpu_times'', Some ''0x0a'')])]"
proof -
  have hex: "lower_hex 20 = ''0x14''" "lower_hex 10 = ''0x0a''" by code_simp+
  let ?xs = "[(30, [7], 10), (50, [8, 7], 40)] :: (nat \<times> nat list \<times> nat) list"
  have "\<forall>(now, frames, instant) \<in> set ?xs. now - instant < 2 ^ 63" by simp
  from cpu_profile_exact [OF sample_resolver_ok this, of "[(5, [9], 1)]"]
  obtain p1 r prof r' where c: "cpu_start (cpu_samples [(5, [9], 1)] cpu_profiler_new) = (Ok (), p1)"
      "cpu_report sample_resolver report_cpu_sample (cpu_samples ?xs p1) report_new = (Ok (), cpu_profiler_new, r)" "cpu_build r = (prof, r')"
      "map (read_sample prof) (gp_sample prof) = map (\<lambda>(now, frames, instant).
        (map (Some \<circ> symbol_frame) (symbols_of sample_resolver frames), [int (now - instant)], [(Some ''cpu_times'', Some (lower_hex (now - instant)))])) ?xs"
    by blast
  have "map (snd \<circ> read_sample prof) (gp_sample prof) = map snd (map (read_sample prof) (gp_sample prof))" by simp
  then have "map (snd \<circ> read_sample prof) (gp_sample prof)
       = [([20], [(Some ''cpu_times'', Some ''0x14'')]), ([10], [(Some ''cpu_times'', Some ''0x0a'')])]"
    unfolding c(4) by (simp add: hex)
  with c(1-3) show ?thesis by (intro exI conjI)
qed

text \<open>Reporting what the indexes know adds samples only.\<close>

lemma known_samples: "known c (r\<lparr>gr_samples := ss\<rparr>) = known c r"
  by (simp add: known_def split: prod.splits)

lemma report_calls_known:
  "\<forall>c \<in> set calls. known c r \<Longrightarrow> \<exists>ss. report_calls calls r = (Ok (), r\<lparr>gr_samples := gr_samples r @ ss\<rparr>) \<and>
     map (length \<circ> gs_location_id) ss = map (\<lambda>(_, _, _, frames). length frames) calls"
proof (induction calls arbitrary: r)
  case (Cons c calls)
  obtain key str val frames where c: "c = (key, str, val, frames)" by (metis prod_cases4)
  obtain s where s: "report_sample key str val frames r = (Ok True, r\<lparr>gr_samples := gr_samples r @ [s]\<rparr>)" "length (gs_location_id s) = length frames"
    using report_sample_known Cons.prems c by fastforce
  have "\<forall>c \<in> set calls. known c (r\<lparr>gr_samples := gr_samples r @ [s]\<rparr>)" using Cons.prems by (simp add: known_samples)
  from Cons.IH [OF this] obtain ss where
      ss: "report_calls calls (r\<lparr>gr_samples := gr_samples r @ [s]\<rparr>)
          = (Ok (), r\<lparr>gr_samples := gr_samples r @ [s], gr_samples := gr_samples (r\<lparr>gr_samples := gr_samples r @ [s]\<rparr>) @ ss\<rparr>)"
        "map (length \<circ> gs_location_id) ss = map (\<lambda>(_, _, _, frames). length frames) calls" by blast
  then show ?case using s by (intro exI [of _ "s # ss"]) (simp add: c comp_def)
qed (intro exI [of _ "[]"], simp)

text \<open>
  A report is good for one profile. \<open>build\<close> empties the tables and keeps their indexes: when the
  same heap is reported again and built again, the second profile has the samples with the
  identifiers of their locations, and no location, no function and no string, not even the empty one.
\<close>

theorem second_build_dangling:
  assumes "resolver_ok resolve" "set (order (hp_blocks p)) = dom (hp_blocks p)"
  shows "\<exists>r prof r1 r2 prof2 r3.
    heap_profiler_report resolve order report_block_info 0 (Some p) report_new = (Ok (), r) \<and> heap_build r = (prof, r1) \<and>
    heap_profiler_report resolve order report_block_info 0 (Some p) r1 = (Ok (), r2) \<and> heap_build r2 = (prof2, r3) \<and>
    gp_location prof2 = [] \<and> gp_function prof2 = [] \<and> gp_string_table prof2 = [] \<and>
    map (length \<circ> gs_location_id) (gp_sample prof2) = map (\<lambda>ptr. length (symbols_of resolve (hb_frames (the (hp_blocks p ptr))))) (order (hp_blocks p))"
proof -
  let ?calls = "map (\<lambda>ptr. block_call resolve (ptr, the (hp_blocks p ptr))) (order (hp_blocks p))"
  have report: "heap_profiler_report resolve order report_block_info 0 (Some p) s = report_calls ?calls s" for s
    by (simp add: heap_profiler_report_def heap_report_def reentrancy_ok_def heap_report_loop_calls [OF assms(1)]
      heap_snapshot_eq [of order p, OF assms(2)] comp_def)
  have "report_inv [] [] report_new" using tables_ok_new by (simp add: report_inv_def report_new_def)
  then obtain r syms where r: "report_calls ?calls report_new = (Ok (), r)" "report_inv ?calls syms r"
    using report_calls_inv [of "[]" "[]" report_new ?calls] by auto
  obtain prof r1 where build: "gperf_build ''space'' ''bytes'' r = (prof, r1)" by fastforce
  have "\<forall>c \<in> set ?calls. known c r1" using known_build(1) [OF build] report_inv_known [OF r(2)] by blast
  from report_calls_known [OF this] obtain ss where
      ss: "report_calls ?calls r1 = (Ok (), r1\<lparr>gr_samples := gr_samples r1 @ ss\<rparr>)"
        "map (length \<circ> gs_location_id) ss = map (\<lambda>(_, _, _, frames). length frames) ?calls" by blast
  let ?r2 = "r1\<lparr>gr_samples := gr_samples r1 @ ss\<rparr>"
  obtain prof2 r3 where build2: "gperf_build ''space'' ''bytes'' ?r2 = (prof2, r3)" by fastforce
  have t: "snd (string_table_insert s (gr_string_table r1)) = gr_string_table r1" if "s \<in> {''space'', ''bytes''}" for s
    using known_build(2) [OF build] string_table_insert_known(1) that by blast
  have tables: "gr_loc_table r1 = []" "ft_funcs (gr_func_table r1) = []" "st_table (gr_string_table r1) = []" "gr_samples r1 = []"
    by (subst known_build(3) [OF build], simp)+
  have prof2: "gp_location prof2 = []" "gp_function prof2 = []" "gp_string_table prof2 = []" "gp_sample prof2 = ss"
  proof -
    obtain i j where "string_table_insert ''space'' (gr_string_table r1) = (i, gr_string_table r1)"
        "string_table_insert ''bytes'' (gr_string_table r1) = (j, gr_string_table r1)"
      using t by (metis insert_iff prod.collapse)
    with build2 tables show "gp_location prof2 = []" "gp_function prof2 = []" "gp_string_table prof2 = []" "gp_sample prof2 = ss"
      by (auto simp: gperf_build_def)
  qed
  have "map (length \<circ> gs_location_id) (gp_sample prof2) = map (\<lambda>ptr. length (symbols_of resolve (hb_frames (the (hp_blocks p ptr))))) (order (hp_blocks p))"
    by (simp add: prof2(4) ss(2) block_call_def)
  with r(1) build ss(1) build2 prof2(1-3) show ?thesis unfolding report heap_build_def by (intro exI conjI)
qed

theorem second_build_dangling_witness:
  "\<exists>r prof r1 r2 prof2 r3.
    heap_profiler_report sample_resolver (\<lambda>m. [200]) report_block_info 0
      (Some \<lparr>hp_blocks = [200 \<mapsto> \<lparr>hb_size = 32, hb_frames = [8]\<rparr>], hp_counter = 1, hp_memory_size = 32\<rparr>) report_new = (Ok (), r) \<and> heap_build r = (prof, r1) \<and>
    heap_profiler_report sample_resolver (\<lambda>m. [200]) report_block_info 0
      (Some \<lparr>hp_blocks = [200 \<mapsto> \<lparr>hb_size = 32, hb_frames = [8]\<rparr>], hp_counter = 1, hp_memory_size = 32\<rparr>) r1 = (Ok (), r2) \<and> heap_build r2 = (prof2, r3) \<and>
    gp_location prof2 = [] \<and> map (length \<circ> gs_location_id) (gp_sample prof2) = [1]"
proof -
  let ?p = "\<lparr>hp_blocks = [200 \<mapsto> \<lparr>hb_size = 32, hb_frames = [8]\<rparr>], hp_counter = 1, hp_memory_size = 32\<rparr> :: heap_profiler"
  have order: "set [200] = dom (hp_blocks ?p)" by simp
  have syms: "length (symbols_of sample_resolver [8]) = 1"
    by (simp add: symbols_of_def sample_resolver_def to_symbol_def unwrap_or_def)
  from second_build_dangling [OF sample_resolver_ok, of "\<lambda>m. [200]" ?p, OF order] syms show ?thesis
    by (elim exE conjE, intro exI conjI) simp_all
qed

text \<open>A failed allocation, a null pointer, is registered like any other and counted again each time.\<close>

lemma failed_alloc_counted:
  "heap_events [HAlloc 0 fs 0 m, HAlloc 0 gs 0 n] (Some heap_profiler_new)
     = Some \<lparr>hp_blocks = [0 \<mapsto> \<lparr>hb_size = n, hb_frames = gs\<rparr>], hp_counter = 2, hp_memory_size = of_nat (m + n)\<rparr>"
  by (simp add: heap_alloc_def heap_register_def heap_profiler_new_def reentrancy_ok_def)

text \<open>The empty name of a symbol is a new string of the table, although the first string is empty.\<close>

lemma empty_string_twice: "string_table_insert [] string_table_new = (1, \<lparr>st_index = [[] \<mapsto> 1], st_table = [[], []]\<rparr>)"
  by (simp add: string_table_insert_def string_table_new_def)

end
