(* ===== verification/Gperf_Proto.thy ===== *)
theory Gperf_Proto
  imports Gperf_Report
begin

text \<open>
  The messages of a profile and their wire format (\<open>crates/pprof/src/gperf/gperf.rs\<close>): for each message
  the fields, the default instance, \<open>merge_from\<close>, \<open>compute_size\<close>, \<open>write_to_with_cached_sizes\<close> and \<open>clear\<close>.
  The streams of the crate \<open>protobuf\<close> are a record of functions, a parameter: a write function gives the
  bytes of a field with its tag, a read function takes a value from the front of the input. Fields of
  the types \<open>i64\<close> and \<open>u64\<close> are 64-bit words. Writing to a vector does not fail.
\<close>

section \<open>The runtime\<close>

record 'u runtime =
  rt_int64 :: "nat \<Rightarrow> u64 \<Rightarrow> bytes"
  rt_uint64 :: "nat \<Rightarrow> u64 \<Rightarrow> bytes"
  rt_bool :: "nat \<Rightarrow> bool \<Rightarrow> bytes"
  rt_string :: "nat \<Rightarrow> string \<Rightarrow> bytes"
  rt_message :: "nat \<Rightarrow> nat \<Rightarrow> bytes \<Rightarrow> bytes"
  rt_unknown_bytes :: "'u \<Rightarrow> bytes"
  rt_no_unknown :: 'u
  rt_int64_size :: "nat \<Rightarrow> u64 \<Rightarrow> nat"
  rt_uint64_size :: "nat \<Rightarrow> u64 \<Rightarrow> nat"
  rt_string_size :: "nat \<Rightarrow> string \<Rightarrow> nat"
  rt_varint_size :: "nat \<Rightarrow> nat"
  rt_unknown_size :: "'u \<Rightarrow> nat"
  rt_utf8 :: "string \<Rightarrow> bool"
  rt_read_tag :: "bytes \<Rightarrow> (nat option \<times> bytes) io_result"
  rt_read_int64 :: "bytes \<Rightarrow> (u64 \<times> bytes) io_result"
  rt_read_uint64 :: "bytes \<Rightarrow> (u64 \<times> bytes) io_result"
  rt_read_bool :: "bytes \<Rightarrow> (bool \<times> bytes) io_result"
  rt_read_string :: "bytes \<Rightarrow> (string \<times> bytes) io_result"
  rt_read_len :: "bytes \<Rightarrow> (bytes \<times> bytes) io_result"
  rt_read_packed_int64 :: "bytes \<Rightarrow> (u64 list \<times> bytes) io_result"
  rt_read_packed_uint64 :: "bytes \<Rightarrow> (u64 list \<times> bytes) io_result"
  rt_read_unknown :: "nat \<Rightarrow> 'u \<Rightarrow> bytes \<Rightarrow> ('u \<times> bytes) io_result"

text \<open>
  The loop of every \<open>merge_from\<close>: fields are read until the end of the input, and \<open>step\<close> is the body of
  the \<open>match\<close> on the tag. The outer \<open>None\<close> is a loop that does not end.
\<close>

type_synonym 'm merge_step = "nat \<Rightarrow> 'm \<Rightarrow> bytes \<Rightarrow> ('m \<times> bytes) io_result option"

partial_function (option) merge_loop :: "'u runtime \<Rightarrow> 'm merge_step \<Rightarrow> 'm \<Rightarrow> bytes \<Rightarrow> 'm io_result option" where
  "merge_loop rt step m input =
     (case rt_read_tag rt input of
        Ok (None, _) \<Rightarrow> Some (Ok m)
      | Ok (Some tag, input') \<Rightarrow>
          (case step tag m input' of
             None \<Rightarrow> None
           | Some (Ok (m', input'')) \<Rightarrow> merge_loop rt step m' input''
           | Some (Err e) \<Rightarrow> Some (Err e)
           | Some Panic \<Rightarrow> Some Panic)
      | Err e \<Rightarrow> Some (Err e)
      | Panic \<Rightarrow> Some Panic)"

definition get :: "(bytes \<Rightarrow> ('a \<times> bytes) io_result) \<Rightarrow> ('a \<Rightarrow> 'm) \<Rightarrow> bytes \<Rightarrow> ('m \<times> bytes) io_result option" where
  "get rd put input = Some (map_ok (\<lambda>(v, rest). (put v, rest)) (rd input))"

text \<open>\<open>read_message\<close>: the bytes of the message are merged into \<open>init\<close>.\<close>

definition get_message ::
  "'u runtime \<Rightarrow> ('n \<Rightarrow> bytes \<Rightarrow> 'n io_result option) \<Rightarrow> 'n \<Rightarrow> ('n \<Rightarrow> 'm) \<Rightarrow> bytes \<Rightarrow> ('m \<times> bytes) io_result option" where
  "get_message rt merge init put input =
     (case rt_read_len rt input of
        Ok (body, rest) \<Rightarrow> map_option (map_ok (\<lambda>n. (put n, rest))) (merge init body)
      | Err e \<Rightarrow> Some (Err e)
      | Panic \<Rightarrow> Some Panic)"

text \<open>A field that is written unless it has its default.\<close>

definition opt_field :: "('a \<Rightarrow> bytes) \<Rightarrow> 'a \<Rightarrow> 'a \<Rightarrow> bytes" where
  "opt_field wr d v = (if v \<noteq> d then wr v else [])"

text \<open>
  \<open>write_message_field_with_cached_size\<close>: the size was stored by \<open>compute_size\<close>, as a 32-bit number.
\<close>

definition write_message :: "'u runtime \<Rightarrow> nat \<Rightarrow> nat \<Rightarrow> bytes \<Rightarrow> bytes" where
  "write_message rt field sz body = rt_message rt field (sz mod 2 ^ 32) body"

definition message_size :: "'u runtime \<Rightarrow> nat \<Rightarrow> nat" where
  "message_size rt len = 1 + rt_varint_size rt len + len"

section \<open>\<open>ValueType\<close>\<close>

record 'u proto_value_type =
  vt_type :: u64
  vt_unit :: u64
  vt_special :: 'u

definition value_type_default :: "'u runtime \<Rightarrow> 'u proto_value_type" where
  "value_type_default rt = \<lparr>vt_type = 0, vt_unit = 0, vt_special = rt_no_unknown rt\<rparr>"

definition value_type_step :: "'u runtime \<Rightarrow> 'u proto_value_type merge_step" where
  "value_type_step rt tag m =
     (if tag = 8 then get (rt_read_int64 rt) (\<lambda>v. m\<lparr>vt_type := v\<rparr>)
      else if tag = 16 then get (rt_read_int64 rt) (\<lambda>v. m\<lparr>vt_unit := v\<rparr>)
      else get (rt_read_unknown rt tag (vt_special m)) (\<lambda>v. m\<lparr>vt_special := v\<rparr>))"

definition merge_value_type :: "'u runtime \<Rightarrow> 'u proto_value_type \<Rightarrow> bytes \<Rightarrow> 'u proto_value_type io_result option" where
  "merge_value_type rt = merge_loop rt (value_type_step rt)"

definition value_type_size :: "'u runtime \<Rightarrow> 'u proto_value_type \<Rightarrow> nat" where
  "value_type_size rt m =
     (if vt_type m \<noteq> 0 then rt_int64_size rt 1 (vt_type m) else 0) +
     (if vt_unit m \<noteq> 0 then rt_int64_size rt 2 (vt_unit m) else 0) +
     rt_unknown_size rt (vt_special m)"

definition write_value_type :: "'u runtime \<Rightarrow> 'u proto_value_type \<Rightarrow> bytes" where
  "write_value_type rt m =
     opt_field (rt_int64 rt 1) 0 (vt_type m) @
     opt_field (rt_int64 rt 2) 0 (vt_unit m) @
     rt_unknown_bytes rt (vt_special m)"

definition clear_value_type :: "'u runtime \<Rightarrow> 'u proto_value_type \<Rightarrow> 'u proto_value_type" where
  "clear_value_type rt m = m\<lparr>vt_type := 0, vt_unit := 0, vt_special := rt_no_unknown rt\<rparr>"

section \<open>\<open>Label\<close>\<close>

record 'u proto_label =
  lb_key :: u64
  lb_str :: u64
  lb_num :: u64
  lb_num_unit :: u64
  lb_special :: 'u

definition label_default :: "'u runtime \<Rightarrow> 'u proto_label" where
  "label_default rt = \<lparr>lb_key = 0, lb_str = 0, lb_num = 0, lb_num_unit = 0, lb_special = rt_no_unknown rt\<rparr>"

definition label_step :: "'u runtime \<Rightarrow> 'u proto_label merge_step" where
  "label_step rt tag m =
     (if tag = 8 then get (rt_read_int64 rt) (\<lambda>v. m\<lparr>lb_key := v\<rparr>)
      else if tag = 16 then get (rt_read_int64 rt) (\<lambda>v. m\<lparr>lb_str := v\<rparr>)
      else if tag = 24 then get (rt_read_int64 rt) (\<lambda>v. m\<lparr>lb_num := v\<rparr>)
      else if tag = 32 then get (rt_read_int64 rt) (\<lambda>v. m\<lparr>lb_num_unit := v\<rparr>)
      else get (rt_read_unknown rt tag (lb_special m)) (\<lambda>v. m\<lparr>lb_special := v\<rparr>))"

definition merge_label :: "'u runtime \<Rightarrow> 'u proto_label \<Rightarrow> bytes \<Rightarrow> 'u proto_label io_result option" where
  "merge_label rt = merge_loop rt (label_step rt)"

definition label_size :: "'u runtime \<Rightarrow> 'u proto_label \<Rightarrow> nat" where
  "label_size rt m =
     (if lb_key m \<noteq> 0 then rt_int64_size rt 1 (lb_key m) else 0) +
     (if lb_str m \<noteq> 0 then rt_int64_size rt 2 (lb_str m) else 0) +
     (if lb_num m \<noteq> 0 then rt_int64_size rt 3 (lb_num m) else 0) +
     (if lb_num_unit m \<noteq> 0 then rt_int64_size rt 4 (lb_num_unit m) else 0) +
     rt_unknown_size rt (lb_special m)"

definition write_label :: "'u runtime \<Rightarrow> 'u proto_label \<Rightarrow> bytes" where
  "write_label rt m =
     opt_field (rt_int64 rt 1) 0 (lb_key m) @
     opt_field (rt_int64 rt 2) 0 (lb_str m) @
     opt_field (rt_int64 rt 3) 0 (lb_num m) @
     opt_field (rt_int64 rt 4) 0 (lb_num_unit m) @
     rt_unknown_bytes rt (lb_special m)"

definition clear_label :: "'u runtime \<Rightarrow> 'u proto_label \<Rightarrow> 'u proto_label" where
  "clear_label rt m = m\<lparr>lb_key := 0, lb_str := 0, lb_num := 0, lb_num_unit := 0, lb_special := rt_no_unknown rt\<rparr>"

section \<open>\<open>Mapping\<close>\<close>

record 'u proto_mapping =
  mp_id :: u64
  mp_memory_start :: u64
  mp_memory_limit :: u64
  mp_file_offset :: u64
  mp_filename :: u64
  mp_build_id :: u64
  mp_has_functions :: bool
  mp_has_filenames :: bool
  mp_has_line_numbers :: bool
  mp_has_inline_frames :: bool
  mp_special :: 'u

definition mapping_default :: "'u runtime \<Rightarrow> 'u proto_mapping" where
  "mapping_default rt = \<lparr>mp_id = 0, mp_memory_start = 0, mp_memory_limit = 0, mp_file_offset = 0, mp_filename = 0, mp_build_id = 0, mp_has_functions = False, mp_has_filenames = False, mp_has_line_numbers = False, mp_has_inline_frames = False, mp_special = rt_no_unknown rt\<rparr>"

definition mapping_step :: "'u runtime \<Rightarrow> 'u proto_mapping merge_step" where
  "mapping_step rt tag m =
     (if tag = 8 then get (rt_read_uint64 rt) (\<lambda>v. m\<lparr>mp_id := v\<rparr>)
      else if tag = 16 then get (rt_read_uint64 rt) (\<lambda>v. m\<lparr>mp_memory_start := v\<rparr>)
      else if tag = 24 then get (rt_read_uint64 rt) (\<lambda>v. m\<lparr>mp_memory_limit := v\<rparr>)
      else if tag = 32 then get (rt_read_uint64 rt) (\<lambda>v. m\<lparr>mp_file_offset := v\<rparr>)
      else if tag = 40 then get (rt_read_int64 rt) (\<lambda>v. m\<lparr>mp_filename := v\<rparr>)
      else if tag = 48 then get (rt_read_int64 rt) (\<lambda>v. m\<lparr>mp_build_id := v\<rparr>)
      else if tag = 56 then get (rt_read_bool rt) (\<lambda>v. m\<lparr>mp_has_functions := v\<rparr>)
      else if tag = 64 then get (rt_read_bool rt) (\<lambda>v. m\<lparr>mp_has_filenames := v\<rparr>)
      else if tag = 72 then get (rt_read_bool rt) (\<lambda>v. m\<lparr>mp_has_line_numbers := v\<rparr>)
      else if tag = 80 then get (rt_read_bool rt) (\<lambda>v. m\<lparr>mp_has_inline_frames := v\<rparr>)
      else get (rt_read_unknown rt tag (mp_special m)) (\<lambda>v. m\<lparr>mp_special := v\<rparr>))"

definition merge_mapping :: "'u runtime \<Rightarrow> 'u proto_mapping \<Rightarrow> bytes \<Rightarrow> 'u proto_mapping io_result option" where
  "merge_mapping rt = merge_loop rt (mapping_step rt)"

definition mapping_size :: "'u runtime \<Rightarrow> 'u proto_mapping \<Rightarrow> nat" where
  "mapping_size rt m =
     (if mp_id m \<noteq> 0 then rt_uint64_size rt 1 (mp_id m) else 0) +
     (if mp_memory_start m \<noteq> 0 then rt_uint64_size rt 2 (mp_memory_start m) else 0) +
     (if mp_memory_limit m \<noteq> 0 then rt_uint64_size rt 3 (mp_memory_limit m) else 0) +
     (if mp_file_offset m \<noteq> 0 then rt_uint64_size rt 4 (mp_file_offset m) else 0) +
     (if mp_filename m \<noteq> 0 then rt_int64_size rt 5 (mp_filename m) else 0) +
     (if mp_build_id m \<noteq> 0 then rt_int64_size rt 6 (mp_build_id m) else 0) +
     (if mp_has_functions m then 1 + 1 else 0) +
     (if mp_has_filenames m then 1 + 1 else 0) +
     (if mp_has_line_numbers m then 1 + 1 else 0) +
     (if mp_has_inline_frames m then 1 + 1 else 0) +
     rt_unknown_size rt (mp_special m)"

definition write_mapping :: "'u runtime \<Rightarrow> 'u proto_mapping \<Rightarrow> bytes" where
  "write_mapping rt m =
     opt_field (rt_uint64 rt 1) 0 (mp_id m) @
     opt_field (rt_uint64 rt 2) 0 (mp_memory_start m) @
     opt_field (rt_uint64 rt 3) 0 (mp_memory_limit m) @
     opt_field (rt_uint64 rt 4) 0 (mp_file_offset m) @
     opt_field (rt_int64 rt 5) 0 (mp_filename m) @
     opt_field (rt_int64 rt 6) 0 (mp_build_id m) @
     opt_field (rt_bool rt 7) False (mp_has_functions m) @
     opt_field (rt_bool rt 8) False (mp_has_filenames m) @
     opt_field (rt_bool rt 9) False (mp_has_line_numbers m) @
     opt_field (rt_bool rt 10) False (mp_has_inline_frames m) @
     rt_unknown_bytes rt (mp_special m)"

definition clear_mapping :: "'u runtime \<Rightarrow> 'u proto_mapping \<Rightarrow> 'u proto_mapping" where
  "clear_mapping rt m = m\<lparr>mp_id := 0, mp_memory_start := 0, mp_memory_limit := 0, mp_file_offset := 0, mp_filename := 0, mp_build_id := 0, mp_has_functions := False, mp_has_filenames := False, mp_has_line_numbers := False, mp_has_inline_frames := False, mp_special := rt_no_unknown rt\<rparr>"

section \<open>\<open>Line\<close>\<close>

record 'u proto_line =
  ln_function_id :: u64
  ln_line :: u64
  ln_column :: u64
  ln_special :: 'u

definition line_default :: "'u runtime \<Rightarrow> 'u proto_line" where
  "line_default rt = \<lparr>ln_function_id = 0, ln_line = 0, ln_column = 0, ln_special = rt_no_unknown rt\<rparr>"

definition line_step :: "'u runtime \<Rightarrow> 'u proto_line merge_step" where
  "line_step rt tag m =
     (if tag = 8 then get (rt_read_uint64 rt) (\<lambda>v. m\<lparr>ln_function_id := v\<rparr>)
      else if tag = 16 then get (rt_read_int64 rt) (\<lambda>v. m\<lparr>ln_line := v\<rparr>)
      else if tag = 24 then get (rt_read_int64 rt) (\<lambda>v. m\<lparr>ln_column := v\<rparr>)
      else get (rt_read_unknown rt tag (ln_special m)) (\<lambda>v. m\<lparr>ln_special := v\<rparr>))"

definition merge_line :: "'u runtime \<Rightarrow> 'u proto_line \<Rightarrow> bytes \<Rightarrow> 'u proto_line io_result option" where
  "merge_line rt = merge_loop rt (line_step rt)"

definition line_size :: "'u runtime \<Rightarrow> 'u proto_line \<Rightarrow> nat" where
  "line_size rt m =
     (if ln_function_id m \<noteq> 0 then rt_uint64_size rt 1 (ln_function_id m) else 0) +
     (if ln_line m \<noteq> 0 then rt_int64_size rt 2 (ln_line m) else 0) +
     (if ln_column m \<noteq> 0 then rt_int64_size rt 3 (ln_column m) else 0) +
     rt_unknown_size rt (ln_special m)"

definition write_line :: "'u runtime \<Rightarrow> 'u proto_line \<Rightarrow> bytes" where
  "write_line rt m =
     opt_field (rt_uint64 rt 1) 0 (ln_function_id m) @
     opt_field (rt_int64 rt 2) 0 (ln_line m) @
     opt_field (rt_int64 rt 3) 0 (ln_column m) @
     rt_unknown_bytes rt (ln_special m)"

definition clear_line :: "'u runtime \<Rightarrow> 'u proto_line \<Rightarrow> 'u proto_line" where
  "clear_line rt m = m\<lparr>ln_function_id := 0, ln_line := 0, ln_column := 0, ln_special := rt_no_unknown rt\<rparr>"

section \<open>\<open>Function\<close>\<close>

record 'u proto_function =
  fu_id :: u64
  fu_name :: u64
  fu_system_name :: u64
  fu_filename :: u64
  fu_start_line :: u64
  fu_special :: 'u

definition function_default :: "'u runtime \<Rightarrow> 'u proto_function" where
  "function_default rt = \<lparr>fu_id = 0, fu_name = 0, fu_system_name = 0, fu_filename = 0, fu_start_line = 0, fu_special = rt_no_unknown rt\<rparr>"

definition function_step :: "'u runtime \<Rightarrow> 'u proto_function merge_step" where
  "function_step rt tag m =
     (if tag = 8 then get (rt_read_uint64 rt) (\<lambda>v. m\<lparr>fu_id := v\<rparr>)
      else if tag = 16 then get (rt_read_int64 rt) (\<lambda>v. m\<lparr>fu_name := v\<rparr>)
      else if tag = 24 then get (rt_read_int64 rt) (\<lambda>v. m\<lparr>fu_system_name := v\<rparr>)
      else if tag = 32 then get (rt_read_int64 rt) (\<lambda>v. m\<lparr>fu_filename := v\<rparr>)
      else if tag = 40 then get (rt_read_int64 rt) (\<lambda>v. m\<lparr>fu_start_line := v\<rparr>)
      else get (rt_read_unknown rt tag (fu_special m)) (\<lambda>v. m\<lparr>fu_special := v\<rparr>))"

definition merge_function :: "'u runtime \<Rightarrow> 'u proto_function \<Rightarrow> bytes \<Rightarrow> 'u proto_function io_result option" where
  "merge_function rt = merge_loop rt (function_step rt)"

definition function_size :: "'u runtime \<Rightarrow> 'u proto_function \<Rightarrow> nat" where
  "function_size rt m =
     (if fu_id m \<noteq> 0 then rt_uint64_size rt 1 (fu_id m) else 0) +
     (if fu_name m \<noteq> 0 then rt_int64_size rt 2 (fu_name m) else 0) +
     (if fu_system_name m \<noteq> 0 then rt_int64_size rt 3 (fu_system_name m) else 0) +
     (if fu_filename m \<noteq> 0 then rt_int64_size rt 4 (fu_filename m) else 0) +
     (if fu_start_line m \<noteq> 0 then rt_int64_size rt 5 (fu_start_line m) else 0) +
     rt_unknown_size rt (fu_special m)"

definition write_function :: "'u runtime \<Rightarrow> 'u proto_function \<Rightarrow> bytes" where
  "write_function rt m =
     opt_field (rt_uint64 rt 1) 0 (fu_id m) @
     opt_field (rt_int64 rt 2) 0 (fu_name m) @
     opt_field (rt_int64 rt 3) 0 (fu_system_name m) @
     opt_field (rt_int64 rt 4) 0 (fu_filename m) @
     opt_field (rt_int64 rt 5) 0 (fu_start_line m) @
     rt_unknown_bytes rt (fu_special m)"

definition clear_function :: "'u runtime \<Rightarrow> 'u proto_function \<Rightarrow> 'u proto_function" where
  "clear_function rt m = m\<lparr>fu_id := 0, fu_name := 0, fu_system_name := 0, fu_filename := 0, fu_start_line := 0, fu_special := rt_no_unknown rt\<rparr>"

section \<open>\<open>Location\<close>\<close>

record 'u proto_location =
  lc_id :: u64
  lc_mapping_id :: u64
  lc_address :: u64
  lc_line :: "'u proto_line list"
  lc_is_folded :: bool
  lc_special :: 'u

definition location_default :: "'u runtime \<Rightarrow> 'u proto_location" where
  "location_default rt = \<lparr>lc_id = 0, lc_mapping_id = 0, lc_address = 0, lc_line = [], lc_is_folded = False, lc_special = rt_no_unknown rt\<rparr>"

definition location_step :: "'u runtime \<Rightarrow> 'u proto_location merge_step" where
  "location_step rt tag m =
     (if tag = 8 then get (rt_read_uint64 rt) (\<lambda>v. m\<lparr>lc_id := v\<rparr>)
      else if tag = 16 then get (rt_read_uint64 rt) (\<lambda>v. m\<lparr>lc_mapping_id := v\<rparr>)
      else if tag = 24 then get (rt_read_uint64 rt) (\<lambda>v. m\<lparr>lc_address := v\<rparr>)
      else if tag = 34 then get_message rt (merge_line rt) (line_default rt) (\<lambda>v. m\<lparr>lc_line := lc_line m @ [v]\<rparr>)
      else if tag = 40 then get (rt_read_bool rt) (\<lambda>v. m\<lparr>lc_is_folded := v\<rparr>)
      else get (rt_read_unknown rt tag (lc_special m)) (\<lambda>v. m\<lparr>lc_special := v\<rparr>))"

definition merge_location :: "'u runtime \<Rightarrow> 'u proto_location \<Rightarrow> bytes \<Rightarrow> 'u proto_location io_result option" where
  "merge_location rt = merge_loop rt (location_step rt)"

definition location_size :: "'u runtime \<Rightarrow> 'u proto_location \<Rightarrow> nat" where
  "location_size rt m =
     (if lc_id m \<noteq> 0 then rt_uint64_size rt 1 (lc_id m) else 0) +
     (if lc_mapping_id m \<noteq> 0 then rt_uint64_size rt 2 (lc_mapping_id m) else 0) +
     (if lc_address m \<noteq> 0 then rt_uint64_size rt 3 (lc_address m) else 0) +
     sum_list (map (\<lambda>v. message_size rt (line_size rt v)) (lc_line m)) +
     (if lc_is_folded m then 1 + 1 else 0) +
     rt_unknown_size rt (lc_special m)"

definition write_location :: "'u runtime \<Rightarrow> 'u proto_location \<Rightarrow> bytes" where
  "write_location rt m =
     opt_field (rt_uint64 rt 1) 0 (lc_id m) @
     opt_field (rt_uint64 rt 2) 0 (lc_mapping_id m) @
     opt_field (rt_uint64 rt 3) 0 (lc_address m) @
     concat (map (\<lambda>v. write_message rt 4 (line_size rt v) (write_line rt v)) (lc_line m)) @
     opt_field (rt_bool rt 5) False (lc_is_folded m) @
     rt_unknown_bytes rt (lc_special m)"

definition clear_location :: "'u runtime \<Rightarrow> 'u proto_location \<Rightarrow> 'u proto_location" where
  "clear_location rt m = m\<lparr>lc_id := 0, lc_mapping_id := 0, lc_address := 0, lc_line := [], lc_is_folded := False, lc_special := rt_no_unknown rt\<rparr>"

section \<open>\<open>Sample\<close>\<close>

record 'u proto_sample =
  sm_location_id :: "u64 list"
  sm_value :: "u64 list"
  sm_label :: "'u proto_label list"
  sm_special :: 'u

definition sample_default :: "'u runtime \<Rightarrow> 'u proto_sample" where
  "sample_default rt = \<lparr>sm_location_id = [], sm_value = [], sm_label = [], sm_special = rt_no_unknown rt\<rparr>"

definition sample_step :: "'u runtime \<Rightarrow> 'u proto_sample merge_step" where
  "sample_step rt tag m =
     (if tag = 10 then get (rt_read_packed_uint64 rt) (\<lambda>vs. m\<lparr>sm_location_id := sm_location_id m @ vs\<rparr>)
      else if tag = 8 then get (rt_read_uint64 rt) (\<lambda>v. m\<lparr>sm_location_id := sm_location_id m @ [v]\<rparr>)
      else if tag = 18 then get (rt_read_packed_int64 rt) (\<lambda>vs. m\<lparr>sm_value := sm_value m @ vs\<rparr>)
      else if tag = 16 then get (rt_read_int64 rt) (\<lambda>v. m\<lparr>sm_value := sm_value m @ [v]\<rparr>)
      else if tag = 26 then get_message rt (merge_label rt) (label_default rt) (\<lambda>v. m\<lparr>sm_label := sm_label m @ [v]\<rparr>)
      else get (rt_read_unknown rt tag (sm_special m)) (\<lambda>v. m\<lparr>sm_special := v\<rparr>))"

definition merge_sample :: "'u runtime \<Rightarrow> 'u proto_sample \<Rightarrow> bytes \<Rightarrow> 'u proto_sample io_result option" where
  "merge_sample rt = merge_loop rt (sample_step rt)"

definition sample_size :: "'u runtime \<Rightarrow> 'u proto_sample \<Rightarrow> nat" where
  "sample_size rt m =
     sum_list (map (rt_uint64_size rt 1) (sm_location_id m)) +
     sum_list (map (rt_int64_size rt 2) (sm_value m)) +
     sum_list (map (\<lambda>v. message_size rt (label_size rt v)) (sm_label m)) +
     rt_unknown_size rt (sm_special m)"

definition write_sample :: "'u runtime \<Rightarrow> 'u proto_sample \<Rightarrow> bytes" where
  "write_sample rt m =
     concat (map (rt_uint64 rt 1) (sm_location_id m)) @
     concat (map (rt_int64 rt 2) (sm_value m)) @
     concat (map (\<lambda>v. write_message rt 3 (label_size rt v) (write_label rt v)) (sm_label m)) @
     rt_unknown_bytes rt (sm_special m)"

definition clear_sample :: "'u runtime \<Rightarrow> 'u proto_sample \<Rightarrow> 'u proto_sample" where
  "clear_sample rt m = m\<lparr>sm_location_id := [], sm_value := [], sm_label := [], sm_special := rt_no_unknown rt\<rparr>"

section \<open>\<open>Profile\<close>\<close>

record 'u proto_profile =
  pf_sample_type :: "'u proto_value_type list"
  pf_sample :: "'u proto_sample list"
  pf_mapping :: "'u proto_mapping list"
  pf_location :: "'u proto_location list"
  pf_function :: "'u proto_function list"
  pf_string_table :: "string list"
  pf_drop_frames :: u64
  pf_keep_frames :: u64
  pf_time_nanos :: u64
  pf_duration_nanos :: u64
  pf_period_type :: "'u proto_value_type option"
  pf_period :: u64
  pf_comment :: "u64 list"
  pf_default_sample_type :: u64
  pf_special :: 'u

definition profile_default :: "'u runtime \<Rightarrow> 'u proto_profile" where
  "profile_default rt = \<lparr>pf_sample_type = [], pf_sample = [], pf_mapping = [], pf_location = [], pf_function = [], pf_string_table = [], pf_drop_frames = 0, pf_keep_frames = 0, pf_time_nanos = 0, pf_duration_nanos = 0, pf_period_type = None, pf_period = 0, pf_comment = [], pf_default_sample_type = 0, pf_special = rt_no_unknown rt\<rparr>"

definition profile_step :: "'u runtime \<Rightarrow> 'u proto_profile merge_step" where
  "profile_step rt tag m =
     (if tag = 10 then get_message rt (merge_value_type rt) (value_type_default rt) (\<lambda>v. m\<lparr>pf_sample_type := pf_sample_type m @ [v]\<rparr>)
      else if tag = 18 then get_message rt (merge_sample rt) (sample_default rt) (\<lambda>v. m\<lparr>pf_sample := pf_sample m @ [v]\<rparr>)
      else if tag = 26 then get_message rt (merge_mapping rt) (mapping_default rt) (\<lambda>v. m\<lparr>pf_mapping := pf_mapping m @ [v]\<rparr>)
      else if tag = 34 then get_message rt (merge_location rt) (location_default rt) (\<lambda>v. m\<lparr>pf_location := pf_location m @ [v]\<rparr>)
      else if tag = 42 then get_message rt (merge_function rt) (function_default rt) (\<lambda>v. m\<lparr>pf_function := pf_function m @ [v]\<rparr>)
      else if tag = 50 then get (rt_read_string rt) (\<lambda>v. m\<lparr>pf_string_table := pf_string_table m @ [v]\<rparr>)
      else if tag = 56 then get (rt_read_int64 rt) (\<lambda>v. m\<lparr>pf_drop_frames := v\<rparr>)
      else if tag = 64 then get (rt_read_int64 rt) (\<lambda>v. m\<lparr>pf_keep_frames := v\<rparr>)
      else if tag = 72 then get (rt_read_int64 rt) (\<lambda>v. m\<lparr>pf_time_nanos := v\<rparr>)
      else if tag = 80 then get (rt_read_int64 rt) (\<lambda>v. m\<lparr>pf_duration_nanos := v\<rparr>)
      else if tag = 90 then get_message rt (merge_value_type rt) (case pf_period_type m of Some v \<Rightarrow> v | None \<Rightarrow> value_type_default rt) (\<lambda>v. m\<lparr>pf_period_type := Some v\<rparr>)
      else if tag = 96 then get (rt_read_int64 rt) (\<lambda>v. m\<lparr>pf_period := v\<rparr>)
      else if tag = 106 then get (rt_read_packed_int64 rt) (\<lambda>vs. m\<lparr>pf_comment := pf_comment m @ vs\<rparr>)
      else if tag = 104 then get (rt_read_int64 rt) (\<lambda>v. m\<lparr>pf_comment := pf_comment m @ [v]\<rparr>)
      else if tag = 112 then get (rt_read_int64 rt) (\<lambda>v. m\<lparr>pf_default_sample_type := v\<rparr>)
      else get (rt_read_unknown rt tag (pf_special m)) (\<lambda>v. m\<lparr>pf_special := v\<rparr>))"

definition merge_profile :: "'u runtime \<Rightarrow> 'u proto_profile \<Rightarrow> bytes \<Rightarrow> 'u proto_profile io_result option" where
  "merge_profile rt = merge_loop rt (profile_step rt)"

definition profile_size :: "'u runtime \<Rightarrow> 'u proto_profile \<Rightarrow> nat" where
  "profile_size rt m =
     sum_list (map (\<lambda>v. message_size rt (value_type_size rt v)) (pf_sample_type m)) +
     sum_list (map (\<lambda>v. message_size rt (sample_size rt v)) (pf_sample m)) +
     sum_list (map (\<lambda>v. message_size rt (mapping_size rt v)) (pf_mapping m)) +
     sum_list (map (\<lambda>v. message_size rt (location_size rt v)) (pf_location m)) +
     sum_list (map (\<lambda>v. message_size rt (function_size rt v)) (pf_function m)) +
     sum_list (map (rt_string_size rt 6) (pf_string_table m)) +
     (if pf_drop_frames m \<noteq> 0 then rt_int64_size rt 7 (pf_drop_frames m) else 0) +
     (if pf_keep_frames m \<noteq> 0 then rt_int64_size rt 8 (pf_keep_frames m) else 0) +
     (if pf_time_nanos m \<noteq> 0 then rt_int64_size rt 9 (pf_time_nanos m) else 0) +
     (if pf_duration_nanos m \<noteq> 0 then rt_int64_size rt 10 (pf_duration_nanos m) else 0) +
     (case pf_period_type m of Some v \<Rightarrow> message_size rt (value_type_size rt v) | None \<Rightarrow> 0) +
     (if pf_period m \<noteq> 0 then rt_int64_size rt 12 (pf_period m) else 0) +
     sum_list (map (rt_int64_size rt 13) (pf_comment m)) +
     (if pf_default_sample_type m \<noteq> 0 then rt_int64_size rt 14 (pf_default_sample_type m) else 0) +
     rt_unknown_size rt (pf_special m)"

definition write_profile :: "'u runtime \<Rightarrow> 'u proto_profile \<Rightarrow> bytes" where
  "write_profile rt m =
     concat (map (\<lambda>v. write_message rt 1 (value_type_size rt v) (write_value_type rt v)) (pf_sample_type m)) @
     concat (map (\<lambda>v. write_message rt 2 (sample_size rt v) (write_sample rt v)) (pf_sample m)) @
     concat (map (\<lambda>v. write_message rt 3 (mapping_size rt v) (write_mapping rt v)) (pf_mapping m)) @
     concat (map (\<lambda>v. write_message rt 4 (location_size rt v) (write_location rt v)) (pf_location m)) @
     concat (map (\<lambda>v. write_message rt 5 (function_size rt v) (write_function rt v)) (pf_function m)) @
     concat (map (rt_string rt 6) (pf_string_table m)) @
     opt_field (rt_int64 rt 7) 0 (pf_drop_frames m) @
     opt_field (rt_int64 rt 8) 0 (pf_keep_frames m) @
     opt_field (rt_int64 rt 9) 0 (pf_time_nanos m) @
     opt_field (rt_int64 rt 10) 0 (pf_duration_nanos m) @
     (case pf_period_type m of Some v \<Rightarrow> write_message rt 11 (value_type_size rt v) (write_value_type rt v) | None \<Rightarrow> []) @
     opt_field (rt_int64 rt 12) 0 (pf_period m) @
     concat (map (rt_int64 rt 13) (pf_comment m)) @
     opt_field (rt_int64 rt 14) 0 (pf_default_sample_type m) @
     rt_unknown_bytes rt (pf_special m)"

definition clear_profile :: "'u runtime \<Rightarrow> 'u proto_profile \<Rightarrow> 'u proto_profile" where
  "clear_profile rt m = m\<lparr>pf_sample_type := [], pf_sample := [], pf_mapping := [], pf_location := [], pf_function := [], pf_string_table := [], pf_drop_frames := 0, pf_keep_frames := 0, pf_time_nanos := 0, pf_duration_nanos := 0, pf_period_type := None, pf_period := 0, pf_comment := [], pf_default_sample_type := 0, pf_special := rt_no_unknown rt\<rparr>"

end
