(* ===== verification/Gperf_Wire.thy ===== *)
theory Gperf_Wire
  imports Gperf_Proto
begin

text \<open>
  The round trip of the messages of \<open>Gperf_Proto\<close>: what the runtime promises, a calculus of the bytes
  that take the merging loop from one message to another, and for every message that its bytes merge
  back into it and that its computed size is their number.
\<close>

section \<open>What the runtime promises\<close>

text \<open>
  The wire format: a field starts with a tag, eight times its number plus its wire type, and its value
  is read back as it was written, whatever follows; the size functions give the lengths.
\<close>

definition reads_back :: "'u runtime \<Rightarrow> nat \<Rightarrow> bytes \<Rightarrow> (bytes \<Rightarrow> ('a \<times> bytes) io_result) \<Rightarrow> 'a \<Rightarrow> bool" where
  "reads_back rt tag field rd v \<longleftrightarrow>
     (\<forall>rest. \<exists>mid. rt_read_tag rt (field @ rest) = Ok (Some tag, mid) \<and> rd mid = Ok (v, rest))"

definition runtime_ok :: "'u runtime \<Rightarrow> bool" where
  "runtime_ok rt \<longleftrightarrow>
     rt_read_tag rt [] = Ok (None, []) \<and> rt_unknown_bytes rt (rt_no_unknown rt) = [] \<and>
     (\<forall>f v. 0 < f \<and> f < 16 \<longrightarrow>
        reads_back rt (8 * f) (rt_int64 rt f v) (rt_read_int64 rt) v \<and> rt_int64_size rt f v = length (rt_int64 rt f v) \<and>
        reads_back rt (8 * f) (rt_uint64 rt f v) (rt_read_uint64 rt) v \<and> rt_uint64_size rt f v = length (rt_uint64 rt f v)) \<and>
     (\<forall>f b. 0 < f \<and> f < 16 \<longrightarrow> reads_back rt (8 * f) (rt_bool rt f b) (rt_read_bool rt) b \<and> length (rt_bool rt f b) = 2) \<and>
     (\<forall>f s. 0 < f \<and> f < 16 \<longrightarrow> rt_string_size rt f s = length (rt_string rt f s) \<and>
        (rt_utf8 rt s \<longrightarrow> reads_back rt (8 * f + 2) (rt_string rt f s) (rt_read_string rt) s)) \<and>
     (\<forall>f body. 0 < f \<and> f < 16 \<longrightarrow>
        (\<forall>n. length (rt_message rt f n body) = 1 + rt_varint_size rt n + length body) \<and>
        (length body < 2 ^ 32 \<longrightarrow> reads_back rt (8 * f + 2) (rt_message rt f (length body) body) (rt_read_len rt) body)) \<and>
     (\<forall>u. rt_unknown_size rt u = length (rt_unknown_bytes rt u))"

lemma int64_law: "\<lbrakk> runtime_ok rt; 0 < f; f < 16 \<rbrakk> \<Longrightarrow> reads_back rt (8 * f) (rt_int64 rt f v) (rt_read_int64 rt) v"
  by (simp add: runtime_ok_def)

lemma uint64_law: "\<lbrakk> runtime_ok rt; 0 < f; f < 16 \<rbrakk> \<Longrightarrow> reads_back rt (8 * f) (rt_uint64 rt f v) (rt_read_uint64 rt) v"
  by (simp add: runtime_ok_def)

lemma bool_law: "\<lbrakk> runtime_ok rt; 0 < f; f < 16 \<rbrakk> \<Longrightarrow> reads_back rt (8 * f) (rt_bool rt f v) (rt_read_bool rt) v"
  by (simp add: runtime_ok_def)

lemma string_law: "\<lbrakk> runtime_ok rt; 0 < f; f < 16; rt_utf8 rt v \<rbrakk> \<Longrightarrow> reads_back rt (8 * f + 2) (rt_string rt f v) (rt_read_string rt) v"
  by (simp add: runtime_ok_def)

lemma message_law:
  "\<lbrakk> runtime_ok rt; 0 < f; f < 16; length body < 2 ^ 32 \<rbrakk> \<Longrightarrow> reads_back rt (8 * f + 2) (write_message rt f (length body) body) (rt_read_len rt) body"
  by (simp add: runtime_ok_def write_message_def)

lemma no_unknown_law: "runtime_ok rt \<Longrightarrow> rt_unknown_bytes rt (rt_no_unknown rt) = []"
  by (simp add: runtime_ok_def)

lemma size_laws:
  assumes "runtime_ok rt"
  shows "\<lbrakk> 0 < f; f < 16 \<rbrakk> \<Longrightarrow> rt_int64_size rt f v = length (rt_int64 rt f v)"
    and "\<lbrakk> 0 < f; f < 16 \<rbrakk> \<Longrightarrow> rt_uint64_size rt f v = length (rt_uint64 rt f v)"
    and "\<lbrakk> 0 < f; f < 16 \<rbrakk> \<Longrightarrow> length (rt_bool rt f b) = 2"
    and "\<lbrakk> 0 < f; f < 16 \<rbrakk> \<Longrightarrow> rt_string_size rt f s = length (rt_string rt f s)"
    and "rt_unknown_size rt u = length (rt_unknown_bytes rt u)"
  using assms by (simp_all add: runtime_ok_def)

lemma opt_size_laws:
  assumes "runtime_ok rt" "0 < f" "f < 16"
  shows "(if v \<noteq> 0 then rt_int64_size rt f v else 0) = length (opt_field (rt_int64 rt f) 0 v)"
    and "(if v \<noteq> 0 then rt_uint64_size rt f v else 0) = length (opt_field (rt_uint64 rt f) 0 v)"
    and "(if b then 1 + 1 else 0) = length (opt_field (rt_bool rt f) False b)"
  using size_laws [OF assms(1)] assms(2,3) by (simp_all add: opt_field_def)

lemma list_size_laws:
  assumes "runtime_ok rt" "0 < f" "f < 16"
  shows "sum_list (map (rt_int64_size rt f) vs) = length (concat (map (rt_int64 rt f) vs))"
    and "sum_list (map (rt_uint64_size rt f) vs) = length (concat (map (rt_uint64 rt f) vs))"
    and "sum_list (map (rt_string_size rt f) ss) = length (concat (map (rt_string rt f) ss))"
  by (induction vs, simp_all add: size_laws [OF assms(1)] assms) (induction ss, simp_all add: size_laws [OF assms(1)] assms)

lemma message_length: "\<lbrakk> runtime_ok rt; 0 < f; f < 16 \<rbrakk> \<Longrightarrow> length body \<le> length (write_message rt f sz body)"
  by (simp add: runtime_ok_def write_message_def)

lemma message_size_eq:
  "\<lbrakk> runtime_ok rt; 0 < f; f < 16; length body < 2 ^ 32 \<rbrakk> \<Longrightarrow> message_size rt (length body) = length (write_message rt f (length body) body)"
  by (simp add: runtime_ok_def write_message_def message_size_def)

lemma messages_size_eq:
  assumes "runtime_ok rt" "0 < f" "f < 16" "\<And>v. v \<in> set vs \<Longrightarrow> sz v = length (wr v) \<and> length (wr v) < 2 ^ 32"
  shows "sum_list (map (\<lambda>v. message_size rt (sz v)) vs) = length (concat (map (\<lambda>v. write_message rt f (sz v) (wr v)) vs))"
  using assms(4)
proof (induction vs)
  case (Cons v vs)
  then have "sz v = length (wr v)" "length (wr v) < 2 ^ 32" by simp_all
  then show ?case using Cons message_size_eq [OF assms(1-3), of "wr v"] by simp
qed simp

lemma length_concat_le: "v \<in> set vs \<Longrightarrow> length (f v) \<le> length (concat (map f vs))"
  by (induction vs) auto

section \<open>Parsing what was written\<close>

text \<open>The bytes \<open>bs\<close> take the loop from the message \<open>m\<close> to \<open>m'\<close>.\<close>

definition parses :: "'u runtime \<Rightarrow> 'm merge_step \<Rightarrow> bytes \<Rightarrow> 'm \<Rightarrow> 'm \<Rightarrow> bool" where
  "parses rt step bs m m' \<longleftrightarrow> (\<forall>rest. merge_loop rt step m (bs @ rest) = merge_loop rt step m' rest)"

lemma parses_append: "\<lbrakk> parses rt step bs m m'; parses rt step cs m' m'' \<rbrakk> \<Longrightarrow> parses rt step (bs @ cs) m m''"
  by (simp add: parses_def)

lemma parses_end: "\<lbrakk> runtime_ok rt; parses rt step bs m m' \<rbrakk> \<Longrightarrow> merge_loop rt step m bs = Some (Ok m')"
proof -
  assume "runtime_ok rt" "parses rt step bs m m'"
  then have "merge_loop rt step m bs = merge_loop rt step m' []" by (metis append_Nil2 parses_def)
  also have "\<dots> = Some (Ok m')" using \<open>runtime_ok rt\<close> by (subst merge_loop.simps) (simp add: runtime_ok_def)
  finally show ?thesis .
qed

lemma parses_field:
  assumes "reads_back rt tag bs rd v" "step tag m = get rd put" "put v = m'"
  shows "parses rt step bs m m'"
  unfolding parses_def
proof
  fix rest
  obtain mid where "rt_read_tag rt (bs @ rest) = Ok (Some tag, mid)" "rd mid = Ok (v, rest)"
    using assms(1) unfolding reads_back_def by blast
  then show "merge_loop rt step m (bs @ rest) = merge_loop rt step m' rest"
    by (subst merge_loop.simps) (simp add: assms(2,3) get_def)
qed

lemma parses_opt:
  assumes "reads_back rt tag (wr v) rd v" "step tag m = get rd put" "put v = m'" "v = d \<Longrightarrow> m' = m"
  shows "parses rt step (opt_field wr d v) m m'"
proof (cases "v = d")
  case False
  then show ?thesis unfolding opt_field_def
    by (simp add: parses_field [where tag = tag and rd = rd and v = v and put = put] assms(1-3))
qed (use assms(4) in \<open>simp add: opt_field_def parses_def\<close>)

lemma parses_list:
  assumes "\<And>v. v \<in> set vs \<Longrightarrow> reads_back rt tag (wr v) rd v" "\<And>xs. step tag (put xs) = get rd (\<lambda>v. put (xs @ [v]))"
    and "put [] = m" "put vs = m'"
  shows "parses rt step (concat (map wr vs)) m m'"
proof -
  have "parses rt step (concat (map wr vs)) (put xs) (put (xs @ vs))" for xs
    using assms(1)
  proof (induction vs arbitrary: xs)
    case (Cons v vs)
    have "parses rt step (wr v) (put xs) (put (xs @ [v]))"
      by (rule parses_field [where tag = tag and rd = rd and v = v and put = "\<lambda>v. put (xs @ [v])"]) (simp_all add: Cons.prems assms(2))
    from parses_append [OF this Cons.IH [of "xs @ [v]"]] Cons.prems show ?case by simp
  qed (simp add: parses_def)
  from this [of "[]"] show ?thesis by (simp add: assms(3,4))
qed

text \<open>A nested message, once its own bytes merge back.\<close>

lemma parses_message:
  assumes "runtime_ok rt" "0 < f" "f < 16" "merge init body = Some (Ok n)" "length body < 2 ^ 32"
    and "step (8 * f + 2) m = get_message rt merge init put" "put n = m'"
  shows "parses rt step (write_message rt f (length body) body) m m'"
  unfolding parses_def
proof
  fix rest
  obtain mid where "rt_read_tag rt (write_message rt f (length body) body @ rest) = Ok (Some (8 * f + 2), mid)" "rt_read_len rt mid = Ok (body, rest)"
    using message_law [OF assms(1-3,5)] unfolding reads_back_def by blast
  then show "merge_loop rt step m (write_message rt f (length body) body @ rest) = merge_loop rt step m' rest"
    using assms(4,6,7) by (subst merge_loop.simps) (simp add: get_message_def)
qed

lemma parses_messages:
  assumes "runtime_ok rt" "0 < f" "f < 16"
    and "\<And>v. v \<in> set vs \<Longrightarrow> merge init (wr v) = Some (Ok v) \<and> sz v = length (wr v) \<and> length (wr v) < 2 ^ 32"
    and "\<And>xs. step (8 * f + 2) (put xs) = get_message rt merge init (\<lambda>v. put (xs @ [v]))" "put [] = m" "put vs = m'"
  shows "parses rt step (concat (map (\<lambda>v. write_message rt f (sz v) (wr v)) vs)) m m'"
proof -
  have "parses rt step (concat (map (\<lambda>v. write_message rt f (sz v) (wr v)) vs)) (put xs) (put (xs @ vs))" for xs
    using assms(4)
  proof (induction vs arbitrary: xs)
    case (Cons v vs)
    have v: "merge init (wr v) = Some (Ok v)" "sz v = length (wr v)" "length (wr v) < 2 ^ 32" using Cons.prems by simp_all
    have "parses rt step (write_message rt f (length (wr v)) (wr v)) (put xs) (put (xs @ [v]))"
      by (rule parses_message [where merge = merge and init = init and n = v and put = "\<lambda>v. put (xs @ [v])"])
        (use assms(1-3,5) v in simp_all)
    from parses_append [OF this Cons.IH [of "xs @ [v]"]] Cons.prems v(2) show ?case by simp
  qed (simp add: parses_def)
  from this [of "[]"] show ?thesis by (simp add: assms(6,7))
qed

text \<open>A message whose bytes merge back and whose computed size fits.\<close>

definition writes_back :: "('n \<Rightarrow> bytes \<Rightarrow> 'n io_result option) \<Rightarrow> 'n \<Rightarrow> ('n \<Rightarrow> bytes) \<Rightarrow> ('n \<Rightarrow> nat) \<Rightarrow> 'n \<Rightarrow> bool" where
  "writes_back merge init wr sz v \<longleftrightarrow> merge init (wr v) = Some (Ok v) \<and> sz v = length (wr v) \<and> length (wr v) < 2 ^ 32"

lemma parses_option:
  assumes "runtime_ok rt" "0 < f" "f < 16"
    and "\<And>v. ov = Some v \<Longrightarrow> merge init (wr v) = Some (Ok v) \<and> sz v = length (wr v) \<and> length (wr v) < 2 ^ 32"
    and "step (8 * f + 2) m = get_message rt merge init (\<lambda>v. put (Some v))" "put None = m" "put ov = m'"
  shows "parses rt step (case ov of Some v \<Rightarrow> write_message rt f (sz v) (wr v) | None \<Rightarrow> []) m m'"
proof (cases ov)
  case (Some v)
  have "parses rt step (write_message rt f (length (wr v)) (wr v)) m m'"
    by (rule parses_message [where merge = merge and init = init and n = v and put = "\<lambda>v. put (Some v)"])
      (use assms Some in simp_all)
  then show ?thesis using Some assms(4) by simp
qed (use assms(6,7) in \<open>simp add: parses_def\<close>)

section \<open>The messages\<close>

definition clean_value_type :: "'u runtime \<Rightarrow> 'u proto_value_type \<Rightarrow> bool" where
  "clean_value_type rt m \<longleftrightarrow> vt_special m = rt_no_unknown rt"

lemma value_type_size_eq: "runtime_ok rt \<Longrightarrow> value_type_size rt m = length (write_value_type rt m)"
  by (simp add: value_type_size_def write_value_type_def opt_field_def size_laws list_size_laws)

lemma value_type_type_parses: "\<lbrakk> runtime_ok rt; vt_type d = 0 \<rbrakk> \<Longrightarrow> parses rt (value_type_step rt) (opt_field (rt_int64 rt 1) 0 v) d (d\<lparr>vt_type := v\<rparr>)"
  by (rule parses_opt [where tag = 8 and rd = "rt_read_int64 rt" and put = "\<lambda>v. d\<lparr>vt_type := v\<rparr>"]) (use int64_law [of rt 1] in \<open>simp_all add: value_type_step_def\<close>)

lemma value_type_unit_parses: "\<lbrakk> runtime_ok rt; vt_unit d = 0 \<rbrakk> \<Longrightarrow> parses rt (value_type_step rt) (opt_field (rt_int64 rt 2) 0 v) d (d\<lparr>vt_unit := v\<rparr>)"
  by (rule parses_opt [where tag = 16 and rd = "rt_read_int64 rt" and put = "\<lambda>v. d\<lparr>vt_unit := v\<rparr>"]) (use int64_law [of rt 2] in \<open>simp_all add: value_type_step_def\<close>)

lemma parses_value_type:
  assumes ok: "runtime_ok rt" and clean: "clean_value_type rt m" and bound: "length (write_value_type rt m) < 2 ^ 32"
  shows "merge_value_type rt (value_type_default rt) (write_value_type rt m) = Some (Ok m)"
proof -
  have special: "vt_special m = rt_no_unknown rt" using clean by (simp add: clean_value_type_def)
  have unknown: "parses rt (value_type_step rt) (rt_unknown_bytes rt (vt_special m)) d d" for d
    by (simp add: special no_unknown_law [OF ok] parses_def)
  have "parses rt (value_type_step rt) (write_value_type rt m) (value_type_default rt) ((value_type_default rt)\<lparr>vt_type := vt_type m, vt_unit := vt_unit m\<rparr>)"
    unfolding write_value_type_def
    by (rule parses_append [OF value_type_type_parses [OF ok]
      parses_append [OF value_type_unit_parses [OF ok] unknown]])
      (simp_all add: value_type_default_def)
  also have "(value_type_default rt)\<lparr>vt_type := vt_type m, vt_unit := vt_unit m\<rparr> = m" using special by (cases m) (simp add: value_type_default_def)
  finally show ?thesis by (simp add: merge_value_type_def parses_end [OF ok])
qed

definition clean_label :: "'u runtime \<Rightarrow> 'u proto_label \<Rightarrow> bool" where
  "clean_label rt m \<longleftrightarrow> lb_special m = rt_no_unknown rt"

lemma label_size_eq: "runtime_ok rt \<Longrightarrow> label_size rt m = length (write_label rt m)"
  by (simp add: label_size_def write_label_def opt_field_def size_laws list_size_laws)

lemma label_key_parses: "\<lbrakk> runtime_ok rt; lb_key d = 0 \<rbrakk> \<Longrightarrow> parses rt (label_step rt) (opt_field (rt_int64 rt 1) 0 v) d (d\<lparr>lb_key := v\<rparr>)"
  by (rule parses_opt [where tag = 8 and rd = "rt_read_int64 rt" and put = "\<lambda>v. d\<lparr>lb_key := v\<rparr>"]) (use int64_law [of rt 1] in \<open>simp_all add: label_step_def\<close>)

lemma label_str_parses: "\<lbrakk> runtime_ok rt; lb_str d = 0 \<rbrakk> \<Longrightarrow> parses rt (label_step rt) (opt_field (rt_int64 rt 2) 0 v) d (d\<lparr>lb_str := v\<rparr>)"
  by (rule parses_opt [where tag = 16 and rd = "rt_read_int64 rt" and put = "\<lambda>v. d\<lparr>lb_str := v\<rparr>"]) (use int64_law [of rt 2] in \<open>simp_all add: label_step_def\<close>)

lemma label_num_parses: "\<lbrakk> runtime_ok rt; lb_num d = 0 \<rbrakk> \<Longrightarrow> parses rt (label_step rt) (opt_field (rt_int64 rt 3) 0 v) d (d\<lparr>lb_num := v\<rparr>)"
  by (rule parses_opt [where tag = 24 and rd = "rt_read_int64 rt" and put = "\<lambda>v. d\<lparr>lb_num := v\<rparr>"]) (use int64_law [of rt 3] in \<open>simp_all add: label_step_def\<close>)

lemma label_num_unit_parses: "\<lbrakk> runtime_ok rt; lb_num_unit d = 0 \<rbrakk> \<Longrightarrow> parses rt (label_step rt) (opt_field (rt_int64 rt 4) 0 v) d (d\<lparr>lb_num_unit := v\<rparr>)"
  by (rule parses_opt [where tag = 32 and rd = "rt_read_int64 rt" and put = "\<lambda>v. d\<lparr>lb_num_unit := v\<rparr>"]) (use int64_law [of rt 4] in \<open>simp_all add: label_step_def\<close>)

lemma parses_label:
  assumes ok: "runtime_ok rt" and clean: "clean_label rt m" and bound: "length (write_label rt m) < 2 ^ 32"
  shows "merge_label rt (label_default rt) (write_label rt m) = Some (Ok m)"
proof -
  have special: "lb_special m = rt_no_unknown rt" using clean by (simp add: clean_label_def)
  have unknown: "parses rt (label_step rt) (rt_unknown_bytes rt (lb_special m)) d d" for d
    by (simp add: special no_unknown_law [OF ok] parses_def)
  have "parses rt (label_step rt) (write_label rt m) (label_default rt) ((label_default rt)\<lparr>lb_key := lb_key m, lb_str := lb_str m, lb_num := lb_num m, lb_num_unit := lb_num_unit m\<rparr>)"
    unfolding write_label_def
    by (rule parses_append [OF label_key_parses [OF ok]
      parses_append [OF label_str_parses [OF ok]
      parses_append [OF label_num_parses [OF ok]
      parses_append [OF label_num_unit_parses [OF ok] unknown]]]])
      (simp_all add: label_default_def)
  also have "(label_default rt)\<lparr>lb_key := lb_key m, lb_str := lb_str m, lb_num := lb_num m, lb_num_unit := lb_num_unit m\<rparr> = m" using special by (cases m) (simp add: label_default_def)
  finally show ?thesis by (simp add: merge_label_def parses_end [OF ok])
qed

definition clean_mapping :: "'u runtime \<Rightarrow> 'u proto_mapping \<Rightarrow> bool" where
  "clean_mapping rt m \<longleftrightarrow> mp_special m = rt_no_unknown rt"

lemma mapping_size_eq: "runtime_ok rt \<Longrightarrow> mapping_size rt m = length (write_mapping rt m)"
  by (simp add: mapping_size_def write_mapping_def opt_field_def size_laws list_size_laws)

lemma mapping_id_parses: "\<lbrakk> runtime_ok rt; mp_id d = 0 \<rbrakk> \<Longrightarrow> parses rt (mapping_step rt) (opt_field (rt_uint64 rt 1) 0 v) d (d\<lparr>mp_id := v\<rparr>)"
  by (rule parses_opt [where tag = 8 and rd = "rt_read_uint64 rt" and put = "\<lambda>v. d\<lparr>mp_id := v\<rparr>"]) (use uint64_law [of rt 1] in \<open>simp_all add: mapping_step_def\<close>)

lemma mapping_memory_start_parses: "\<lbrakk> runtime_ok rt; mp_memory_start d = 0 \<rbrakk> \<Longrightarrow> parses rt (mapping_step rt) (opt_field (rt_uint64 rt 2) 0 v) d (d\<lparr>mp_memory_start := v\<rparr>)"
  by (rule parses_opt [where tag = 16 and rd = "rt_read_uint64 rt" and put = "\<lambda>v. d\<lparr>mp_memory_start := v\<rparr>"]) (use uint64_law [of rt 2] in \<open>simp_all add: mapping_step_def\<close>)

lemma mapping_memory_limit_parses: "\<lbrakk> runtime_ok rt; mp_memory_limit d = 0 \<rbrakk> \<Longrightarrow> parses rt (mapping_step rt) (opt_field (rt_uint64 rt 3) 0 v) d (d\<lparr>mp_memory_limit := v\<rparr>)"
  by (rule parses_opt [where tag = 24 and rd = "rt_read_uint64 rt" and put = "\<lambda>v. d\<lparr>mp_memory_limit := v\<rparr>"]) (use uint64_law [of rt 3] in \<open>simp_all add: mapping_step_def\<close>)

lemma mapping_file_offset_parses: "\<lbrakk> runtime_ok rt; mp_file_offset d = 0 \<rbrakk> \<Longrightarrow> parses rt (mapping_step rt) (opt_field (rt_uint64 rt 4) 0 v) d (d\<lparr>mp_file_offset := v\<rparr>)"
  by (rule parses_opt [where tag = 32 and rd = "rt_read_uint64 rt" and put = "\<lambda>v. d\<lparr>mp_file_offset := v\<rparr>"]) (use uint64_law [of rt 4] in \<open>simp_all add: mapping_step_def\<close>)

lemma mapping_filename_parses: "\<lbrakk> runtime_ok rt; mp_filename d = 0 \<rbrakk> \<Longrightarrow> parses rt (mapping_step rt) (opt_field (rt_int64 rt 5) 0 v) d (d\<lparr>mp_filename := v\<rparr>)"
  by (rule parses_opt [where tag = 40 and rd = "rt_read_int64 rt" and put = "\<lambda>v. d\<lparr>mp_filename := v\<rparr>"]) (use int64_law [of rt 5] in \<open>simp_all add: mapping_step_def\<close>)

lemma mapping_build_id_parses: "\<lbrakk> runtime_ok rt; mp_build_id d = 0 \<rbrakk> \<Longrightarrow> parses rt (mapping_step rt) (opt_field (rt_int64 rt 6) 0 v) d (d\<lparr>mp_build_id := v\<rparr>)"
  by (rule parses_opt [where tag = 48 and rd = "rt_read_int64 rt" and put = "\<lambda>v. d\<lparr>mp_build_id := v\<rparr>"]) (use int64_law [of rt 6] in \<open>simp_all add: mapping_step_def\<close>)

lemma mapping_has_functions_parses: "\<lbrakk> runtime_ok rt; mp_has_functions d = False \<rbrakk> \<Longrightarrow> parses rt (mapping_step rt) (opt_field (rt_bool rt 7) False v) d (d\<lparr>mp_has_functions := v\<rparr>)"
  by (rule parses_opt [where tag = 56 and rd = "rt_read_bool rt" and put = "\<lambda>v. d\<lparr>mp_has_functions := v\<rparr>"]) (use bool_law [of rt 7] in \<open>simp_all add: mapping_step_def\<close>)

lemma mapping_has_filenames_parses: "\<lbrakk> runtime_ok rt; mp_has_filenames d = False \<rbrakk> \<Longrightarrow> parses rt (mapping_step rt) (opt_field (rt_bool rt 8) False v) d (d\<lparr>mp_has_filenames := v\<rparr>)"
  by (rule parses_opt [where tag = 64 and rd = "rt_read_bool rt" and put = "\<lambda>v. d\<lparr>mp_has_filenames := v\<rparr>"]) (use bool_law [of rt 8] in \<open>simp_all add: mapping_step_def\<close>)

lemma mapping_has_line_numbers_parses: "\<lbrakk> runtime_ok rt; mp_has_line_numbers d = False \<rbrakk> \<Longrightarrow> parses rt (mapping_step rt) (opt_field (rt_bool rt 9) False v) d (d\<lparr>mp_has_line_numbers := v\<rparr>)"
  by (rule parses_opt [where tag = 72 and rd = "rt_read_bool rt" and put = "\<lambda>v. d\<lparr>mp_has_line_numbers := v\<rparr>"]) (use bool_law [of rt 9] in \<open>simp_all add: mapping_step_def\<close>)

lemma mapping_has_inline_frames_parses: "\<lbrakk> runtime_ok rt; mp_has_inline_frames d = False \<rbrakk> \<Longrightarrow> parses rt (mapping_step rt) (opt_field (rt_bool rt 10) False v) d (d\<lparr>mp_has_inline_frames := v\<rparr>)"
  by (rule parses_opt [where tag = 80 and rd = "rt_read_bool rt" and put = "\<lambda>v. d\<lparr>mp_has_inline_frames := v\<rparr>"]) (use bool_law [of rt 10] in \<open>simp_all add: mapping_step_def\<close>)

lemma parses_mapping:
  assumes ok: "runtime_ok rt" and clean: "clean_mapping rt m" and bound: "length (write_mapping rt m) < 2 ^ 32"
  shows "merge_mapping rt (mapping_default rt) (write_mapping rt m) = Some (Ok m)"
proof -
  have special: "mp_special m = rt_no_unknown rt" using clean by (simp add: clean_mapping_def)
  have unknown: "parses rt (mapping_step rt) (rt_unknown_bytes rt (mp_special m)) d d" for d
    by (simp add: special no_unknown_law [OF ok] parses_def)
  have "parses rt (mapping_step rt) (write_mapping rt m) (mapping_default rt) ((mapping_default rt)\<lparr>mp_id := mp_id m, mp_memory_start := mp_memory_start m, mp_memory_limit := mp_memory_limit m, mp_file_offset := mp_file_offset m, mp_filename := mp_filename m, mp_build_id := mp_build_id m, mp_has_functions := mp_has_functions m, mp_has_filenames := mp_has_filenames m, mp_has_line_numbers := mp_has_line_numbers m, mp_has_inline_frames := mp_has_inline_frames m\<rparr>)"
    unfolding write_mapping_def
    by (rule parses_append [OF mapping_id_parses [OF ok]
      parses_append [OF mapping_memory_start_parses [OF ok]
      parses_append [OF mapping_memory_limit_parses [OF ok]
      parses_append [OF mapping_file_offset_parses [OF ok]
      parses_append [OF mapping_filename_parses [OF ok]
      parses_append [OF mapping_build_id_parses [OF ok]
      parses_append [OF mapping_has_functions_parses [OF ok]
      parses_append [OF mapping_has_filenames_parses [OF ok]
      parses_append [OF mapping_has_line_numbers_parses [OF ok]
      parses_append [OF mapping_has_inline_frames_parses [OF ok] unknown]]]]]]]]]])
      (simp_all add: mapping_default_def)
  also have "(mapping_default rt)\<lparr>mp_id := mp_id m, mp_memory_start := mp_memory_start m, mp_memory_limit := mp_memory_limit m, mp_file_offset := mp_file_offset m, mp_filename := mp_filename m, mp_build_id := mp_build_id m, mp_has_functions := mp_has_functions m, mp_has_filenames := mp_has_filenames m, mp_has_line_numbers := mp_has_line_numbers m, mp_has_inline_frames := mp_has_inline_frames m\<rparr> = m" using special by (cases m) (simp add: mapping_default_def)
  finally show ?thesis by (simp add: merge_mapping_def parses_end [OF ok])
qed

definition clean_line :: "'u runtime \<Rightarrow> 'u proto_line \<Rightarrow> bool" where
  "clean_line rt m \<longleftrightarrow> ln_special m = rt_no_unknown rt"

lemma line_size_eq: "runtime_ok rt \<Longrightarrow> line_size rt m = length (write_line rt m)"
  by (simp add: line_size_def write_line_def opt_field_def size_laws list_size_laws)

lemma line_function_id_parses: "\<lbrakk> runtime_ok rt; ln_function_id d = 0 \<rbrakk> \<Longrightarrow> parses rt (line_step rt) (opt_field (rt_uint64 rt 1) 0 v) d (d\<lparr>ln_function_id := v\<rparr>)"
  by (rule parses_opt [where tag = 8 and rd = "rt_read_uint64 rt" and put = "\<lambda>v. d\<lparr>ln_function_id := v\<rparr>"]) (use uint64_law [of rt 1] in \<open>simp_all add: line_step_def\<close>)

lemma line_line_parses: "\<lbrakk> runtime_ok rt; ln_line d = 0 \<rbrakk> \<Longrightarrow> parses rt (line_step rt) (opt_field (rt_int64 rt 2) 0 v) d (d\<lparr>ln_line := v\<rparr>)"
  by (rule parses_opt [where tag = 16 and rd = "rt_read_int64 rt" and put = "\<lambda>v. d\<lparr>ln_line := v\<rparr>"]) (use int64_law [of rt 2] in \<open>simp_all add: line_step_def\<close>)

lemma line_column_parses: "\<lbrakk> runtime_ok rt; ln_column d = 0 \<rbrakk> \<Longrightarrow> parses rt (line_step rt) (opt_field (rt_int64 rt 3) 0 v) d (d\<lparr>ln_column := v\<rparr>)"
  by (rule parses_opt [where tag = 24 and rd = "rt_read_int64 rt" and put = "\<lambda>v. d\<lparr>ln_column := v\<rparr>"]) (use int64_law [of rt 3] in \<open>simp_all add: line_step_def\<close>)

lemma parses_line:
  assumes ok: "runtime_ok rt" and clean: "clean_line rt m" and bound: "length (write_line rt m) < 2 ^ 32"
  shows "merge_line rt (line_default rt) (write_line rt m) = Some (Ok m)"
proof -
  have special: "ln_special m = rt_no_unknown rt" using clean by (simp add: clean_line_def)
  have unknown: "parses rt (line_step rt) (rt_unknown_bytes rt (ln_special m)) d d" for d
    by (simp add: special no_unknown_law [OF ok] parses_def)
  have "parses rt (line_step rt) (write_line rt m) (line_default rt) ((line_default rt)\<lparr>ln_function_id := ln_function_id m, ln_line := ln_line m, ln_column := ln_column m\<rparr>)"
    unfolding write_line_def
    by (rule parses_append [OF line_function_id_parses [OF ok]
      parses_append [OF line_line_parses [OF ok]
      parses_append [OF line_column_parses [OF ok] unknown]]])
      (simp_all add: line_default_def)
  also have "(line_default rt)\<lparr>ln_function_id := ln_function_id m, ln_line := ln_line m, ln_column := ln_column m\<rparr> = m" using special by (cases m) (simp add: line_default_def)
  finally show ?thesis by (simp add: merge_line_def parses_end [OF ok])
qed

definition clean_function :: "'u runtime \<Rightarrow> 'u proto_function \<Rightarrow> bool" where
  "clean_function rt m \<longleftrightarrow> fu_special m = rt_no_unknown rt"

lemma function_size_eq: "runtime_ok rt \<Longrightarrow> function_size rt m = length (write_function rt m)"
  by (simp add: function_size_def write_function_def opt_field_def size_laws list_size_laws)

lemma function_id_parses: "\<lbrakk> runtime_ok rt; fu_id d = 0 \<rbrakk> \<Longrightarrow> parses rt (function_step rt) (opt_field (rt_uint64 rt 1) 0 v) d (d\<lparr>fu_id := v\<rparr>)"
  by (rule parses_opt [where tag = 8 and rd = "rt_read_uint64 rt" and put = "\<lambda>v. d\<lparr>fu_id := v\<rparr>"]) (use uint64_law [of rt 1] in \<open>simp_all add: function_step_def\<close>)

lemma function_name_parses: "\<lbrakk> runtime_ok rt; fu_name d = 0 \<rbrakk> \<Longrightarrow> parses rt (function_step rt) (opt_field (rt_int64 rt 2) 0 v) d (d\<lparr>fu_name := v\<rparr>)"
  by (rule parses_opt [where tag = 16 and rd = "rt_read_int64 rt" and put = "\<lambda>v. d\<lparr>fu_name := v\<rparr>"]) (use int64_law [of rt 2] in \<open>simp_all add: function_step_def\<close>)

lemma function_system_name_parses: "\<lbrakk> runtime_ok rt; fu_system_name d = 0 \<rbrakk> \<Longrightarrow> parses rt (function_step rt) (opt_field (rt_int64 rt 3) 0 v) d (d\<lparr>fu_system_name := v\<rparr>)"
  by (rule parses_opt [where tag = 24 and rd = "rt_read_int64 rt" and put = "\<lambda>v. d\<lparr>fu_system_name := v\<rparr>"]) (use int64_law [of rt 3] in \<open>simp_all add: function_step_def\<close>)

lemma function_filename_parses: "\<lbrakk> runtime_ok rt; fu_filename d = 0 \<rbrakk> \<Longrightarrow> parses rt (function_step rt) (opt_field (rt_int64 rt 4) 0 v) d (d\<lparr>fu_filename := v\<rparr>)"
  by (rule parses_opt [where tag = 32 and rd = "rt_read_int64 rt" and put = "\<lambda>v. d\<lparr>fu_filename := v\<rparr>"]) (use int64_law [of rt 4] in \<open>simp_all add: function_step_def\<close>)

lemma function_start_line_parses: "\<lbrakk> runtime_ok rt; fu_start_line d = 0 \<rbrakk> \<Longrightarrow> parses rt (function_step rt) (opt_field (rt_int64 rt 5) 0 v) d (d\<lparr>fu_start_line := v\<rparr>)"
  by (rule parses_opt [where tag = 40 and rd = "rt_read_int64 rt" and put = "\<lambda>v. d\<lparr>fu_start_line := v\<rparr>"]) (use int64_law [of rt 5] in \<open>simp_all add: function_step_def\<close>)

lemma parses_function:
  assumes ok: "runtime_ok rt" and clean: "clean_function rt m" and bound: "length (write_function rt m) < 2 ^ 32"
  shows "merge_function rt (function_default rt) (write_function rt m) = Some (Ok m)"
proof -
  have special: "fu_special m = rt_no_unknown rt" using clean by (simp add: clean_function_def)
  have unknown: "parses rt (function_step rt) (rt_unknown_bytes rt (fu_special m)) d d" for d
    by (simp add: special no_unknown_law [OF ok] parses_def)
  have "parses rt (function_step rt) (write_function rt m) (function_default rt) ((function_default rt)\<lparr>fu_id := fu_id m, fu_name := fu_name m, fu_system_name := fu_system_name m, fu_filename := fu_filename m, fu_start_line := fu_start_line m\<rparr>)"
    unfolding write_function_def
    by (rule parses_append [OF function_id_parses [OF ok]
      parses_append [OF function_name_parses [OF ok]
      parses_append [OF function_system_name_parses [OF ok]
      parses_append [OF function_filename_parses [OF ok]
      parses_append [OF function_start_line_parses [OF ok] unknown]]]]])
      (simp_all add: function_default_def)
  also have "(function_default rt)\<lparr>fu_id := fu_id m, fu_name := fu_name m, fu_system_name := fu_system_name m, fu_filename := fu_filename m, fu_start_line := fu_start_line m\<rparr> = m" using special by (cases m) (simp add: function_default_def)
  finally show ?thesis by (simp add: merge_function_def parses_end [OF ok])
qed

definition clean_location :: "'u runtime \<Rightarrow> 'u proto_location \<Rightarrow> bool" where
  "clean_location rt m \<longleftrightarrow> (\<forall>v \<in> set (lc_line m). clean_line rt v) \<and>
     lc_special m = rt_no_unknown rt"

lemma location_line_bound: "\<lbrakk> runtime_ok rt; length (write_location rt m) < 2 ^ 32; v \<in> set (lc_line m) \<rbrakk> \<Longrightarrow> length (write_line rt v) < 2 ^ 32"
  using message_length [of rt 4 "write_line rt v" "line_size rt v"] length_concat_le [of v "lc_line m" "\<lambda>v. write_message rt 4 (line_size rt v) (write_line rt v)"]
  by (simp add: write_location_def)

lemma location_size_eq:
  assumes ok: "runtime_ok rt" and bound: "length (write_location rt m) < 2 ^ 32"
  shows "location_size rt m = length (write_location rt m)"
proof -
  have s1: "(if lc_id m \<noteq> 0 then rt_uint64_size rt 1 (lc_id m) else 0) = length (opt_field (rt_uint64 rt 1) 0 (lc_id m))"
    by (rule opt_size_laws) (simp_all add: ok)
  have s2: "(if lc_mapping_id m \<noteq> 0 then rt_uint64_size rt 2 (lc_mapping_id m) else 0) = length (opt_field (rt_uint64 rt 2) 0 (lc_mapping_id m))"
    by (rule opt_size_laws) (simp_all add: ok)
  have s3: "(if lc_address m \<noteq> 0 then rt_uint64_size rt 3 (lc_address m) else 0) = length (opt_field (rt_uint64 rt 3) 0 (lc_address m))"
    by (rule opt_size_laws) (simp_all add: ok)
  have s4: "sum_list (map (\<lambda>v. message_size rt (line_size rt v)) (lc_line m)) = length (concat (map (\<lambda>v. write_message rt 4 (line_size rt v) (write_line rt v)) (lc_line m)))"
    by (rule messages_size_eq [OF ok]) (use line_size_eq [OF ok] location_line_bound [OF ok bound] in simp_all)
  have s5: "(if lc_is_folded m then 1 + 1 else 0) = length (opt_field (rt_bool rt 5) False (lc_is_folded m))"
    by (rule opt_size_laws) (simp_all add: ok)
  show ?thesis unfolding location_size_def write_location_def length_append s1 s2 s3 s4 s5 size_laws(5) [OF ok] by simp
qed

lemma location_id_parses: "\<lbrakk> runtime_ok rt; lc_id d = 0 \<rbrakk> \<Longrightarrow> parses rt (location_step rt) (opt_field (rt_uint64 rt 1) 0 v) d (d\<lparr>lc_id := v\<rparr>)"
  by (rule parses_opt [where tag = 8 and rd = "rt_read_uint64 rt" and put = "\<lambda>v. d\<lparr>lc_id := v\<rparr>"]) (use uint64_law [of rt 1] in \<open>simp_all add: location_step_def\<close>)

lemma location_mapping_id_parses: "\<lbrakk> runtime_ok rt; lc_mapping_id d = 0 \<rbrakk> \<Longrightarrow> parses rt (location_step rt) (opt_field (rt_uint64 rt 2) 0 v) d (d\<lparr>lc_mapping_id := v\<rparr>)"
  by (rule parses_opt [where tag = 16 and rd = "rt_read_uint64 rt" and put = "\<lambda>v. d\<lparr>lc_mapping_id := v\<rparr>"]) (use uint64_law [of rt 2] in \<open>simp_all add: location_step_def\<close>)

lemma location_address_parses: "\<lbrakk> runtime_ok rt; lc_address d = 0 \<rbrakk> \<Longrightarrow> parses rt (location_step rt) (opt_field (rt_uint64 rt 3) 0 v) d (d\<lparr>lc_address := v\<rparr>)"
  by (rule parses_opt [where tag = 24 and rd = "rt_read_uint64 rt" and put = "\<lambda>v. d\<lparr>lc_address := v\<rparr>"]) (use uint64_law [of rt 3] in \<open>simp_all add: location_step_def\<close>)

lemma location_line_parses:
  assumes "runtime_ok rt" "\<forall>v. v \<in> set vs \<longrightarrow> writes_back (merge_line rt) (line_default rt) (write_line rt) (line_size rt) v"
    and "lc_line d = []"
  shows "parses rt (location_step rt) (concat (map (\<lambda>v. write_message rt 4 (line_size rt v) (write_line rt v)) vs)) d (d\<lparr>lc_line := vs\<rparr>)"
  by (rule parses_messages [where put = "\<lambda>v. d\<lparr>lc_line := v\<rparr>" and merge = "merge_line rt" and init = "line_default rt"]) (use assms in \<open>simp_all add: location_step_def writes_back_def\<close>)

lemma location_is_folded_parses: "\<lbrakk> runtime_ok rt; lc_is_folded d = False \<rbrakk> \<Longrightarrow> parses rt (location_step rt) (opt_field (rt_bool rt 5) False v) d (d\<lparr>lc_is_folded := v\<rparr>)"
  by (rule parses_opt [where tag = 40 and rd = "rt_read_bool rt" and put = "\<lambda>v. d\<lparr>lc_is_folded := v\<rparr>"]) (use bool_law [of rt 5] in \<open>simp_all add: location_step_def\<close>)

lemma parses_location:
  assumes ok: "runtime_ok rt" and clean: "clean_location rt m" and bound: "length (write_location rt m) < 2 ^ 32"
  shows "merge_location rt (location_default rt) (write_location rt m) = Some (Ok m)"
proof -
  have n4: "\<forall>v. v \<in> set (lc_line m) \<longrightarrow> writes_back (merge_line rt) (line_default rt) (write_line rt) (line_size rt) v"
    using location_line_bound [OF ok bound] parses_line [OF ok] clean line_size_eq [OF ok] by (auto simp: clean_location_def writes_back_def)
  have special: "lc_special m = rt_no_unknown rt" using clean by (simp add: clean_location_def)
  have unknown: "parses rt (location_step rt) (rt_unknown_bytes rt (lc_special m)) d d" for d
    by (simp add: special no_unknown_law [OF ok] parses_def)
  have "parses rt (location_step rt) (write_location rt m) (location_default rt) ((location_default rt)\<lparr>lc_id := lc_id m, lc_mapping_id := lc_mapping_id m, lc_address := lc_address m, lc_line := lc_line m, lc_is_folded := lc_is_folded m\<rparr>)"
    unfolding write_location_def
    by (rule parses_append [OF location_id_parses [OF ok]
      parses_append [OF location_mapping_id_parses [OF ok]
      parses_append [OF location_address_parses [OF ok]
      parses_append [OF location_line_parses [OF ok n4]
      parses_append [OF location_is_folded_parses [OF ok] unknown]]]]])
      (simp_all add: location_default_def)
  also have "(location_default rt)\<lparr>lc_id := lc_id m, lc_mapping_id := lc_mapping_id m, lc_address := lc_address m, lc_line := lc_line m, lc_is_folded := lc_is_folded m\<rparr> = m" using special by (cases m) (simp add: location_default_def)
  finally show ?thesis by (simp add: merge_location_def parses_end [OF ok])
qed

definition clean_sample :: "'u runtime \<Rightarrow> 'u proto_sample \<Rightarrow> bool" where
  "clean_sample rt m \<longleftrightarrow> (\<forall>v \<in> set (sm_label m). clean_label rt v) \<and>
     sm_special m = rt_no_unknown rt"

lemma sample_label_bound: "\<lbrakk> runtime_ok rt; length (write_sample rt m) < 2 ^ 32; v \<in> set (sm_label m) \<rbrakk> \<Longrightarrow> length (write_label rt v) < 2 ^ 32"
  using message_length [of rt 3 "write_label rt v" "label_size rt v"] length_concat_le [of v "sm_label m" "\<lambda>v. write_message rt 3 (label_size rt v) (write_label rt v)"]
  by (simp add: write_sample_def)

lemma sample_size_eq:
  assumes ok: "runtime_ok rt" and bound: "length (write_sample rt m) < 2 ^ 32"
  shows "sample_size rt m = length (write_sample rt m)"
proof -
  have s1: "sum_list (map (rt_uint64_size rt 1) (sm_location_id m)) = length (concat (map (rt_uint64 rt 1) (sm_location_id m)))"
    by (rule list_size_laws) (simp_all add: ok)
  have s2: "sum_list (map (rt_int64_size rt 2) (sm_value m)) = length (concat (map (rt_int64 rt 2) (sm_value m)))"
    by (rule list_size_laws) (simp_all add: ok)
  have s3: "sum_list (map (\<lambda>v. message_size rt (label_size rt v)) (sm_label m)) = length (concat (map (\<lambda>v. write_message rt 3 (label_size rt v) (write_label rt v)) (sm_label m)))"
    by (rule messages_size_eq [OF ok]) (use label_size_eq [OF ok] sample_label_bound [OF ok bound] in simp_all)
  show ?thesis unfolding sample_size_def write_sample_def length_append s1 s2 s3 size_laws(5) [OF ok] by simp
qed

lemma sample_location_id_parses: "\<lbrakk> runtime_ok rt; sm_location_id d = [] \<rbrakk> \<Longrightarrow> parses rt (sample_step rt) (concat (map (rt_uint64 rt 1) vs)) d (d\<lparr>sm_location_id := vs\<rparr>)"
  by (rule parses_list [where tag = 8 and rd = "rt_read_uint64 rt" and put = "\<lambda>v. d\<lparr>sm_location_id := v\<rparr>"]) (use uint64_law [of rt 1] in \<open>simp_all add: sample_step_def\<close>)

lemma sample_value_parses: "\<lbrakk> runtime_ok rt; sm_value d = [] \<rbrakk> \<Longrightarrow> parses rt (sample_step rt) (concat (map (rt_int64 rt 2) vs)) d (d\<lparr>sm_value := vs\<rparr>)"
  by (rule parses_list [where tag = 16 and rd = "rt_read_int64 rt" and put = "\<lambda>v. d\<lparr>sm_value := v\<rparr>"]) (use int64_law [of rt 2] in \<open>simp_all add: sample_step_def\<close>)

lemma sample_label_parses:
  assumes "runtime_ok rt" "\<forall>v. v \<in> set vs \<longrightarrow> writes_back (merge_label rt) (label_default rt) (write_label rt) (label_size rt) v"
    and "sm_label d = []"
  shows "parses rt (sample_step rt) (concat (map (\<lambda>v. write_message rt 3 (label_size rt v) (write_label rt v)) vs)) d (d\<lparr>sm_label := vs\<rparr>)"
  by (rule parses_messages [where put = "\<lambda>v. d\<lparr>sm_label := v\<rparr>" and merge = "merge_label rt" and init = "label_default rt"]) (use assms in \<open>simp_all add: sample_step_def writes_back_def\<close>)

lemma parses_sample:
  assumes ok: "runtime_ok rt" and clean: "clean_sample rt m" and bound: "length (write_sample rt m) < 2 ^ 32"
  shows "merge_sample rt (sample_default rt) (write_sample rt m) = Some (Ok m)"
proof -
  have n3: "\<forall>v. v \<in> set (sm_label m) \<longrightarrow> writes_back (merge_label rt) (label_default rt) (write_label rt) (label_size rt) v"
    using sample_label_bound [OF ok bound] parses_label [OF ok] clean label_size_eq [OF ok] by (auto simp: clean_sample_def writes_back_def)
  have special: "sm_special m = rt_no_unknown rt" using clean by (simp add: clean_sample_def)
  have unknown: "parses rt (sample_step rt) (rt_unknown_bytes rt (sm_special m)) d d" for d
    by (simp add: special no_unknown_law [OF ok] parses_def)
  have "parses rt (sample_step rt) (write_sample rt m) (sample_default rt) ((sample_default rt)\<lparr>sm_location_id := sm_location_id m, sm_value := sm_value m, sm_label := sm_label m\<rparr>)"
    unfolding write_sample_def
    by (rule parses_append [OF sample_location_id_parses [OF ok]
      parses_append [OF sample_value_parses [OF ok]
      parses_append [OF sample_label_parses [OF ok n3] unknown]]])
      (simp_all add: sample_default_def)
  also have "(sample_default rt)\<lparr>sm_location_id := sm_location_id m, sm_value := sm_value m, sm_label := sm_label m\<rparr> = m" using special by (cases m) (simp add: sample_default_def)
  finally show ?thesis by (simp add: merge_sample_def parses_end [OF ok])
qed

definition clean_profile :: "'u runtime \<Rightarrow> 'u proto_profile \<Rightarrow> bool" where
  "clean_profile rt m \<longleftrightarrow> (\<forall>v \<in> set (pf_sample_type m). clean_value_type rt v) \<and>
     (\<forall>v \<in> set (pf_sample m). clean_sample rt v) \<and>
     (\<forall>v \<in> set (pf_mapping m). clean_mapping rt v) \<and>
     (\<forall>v \<in> set (pf_location m). clean_location rt v) \<and>
     (\<forall>v \<in> set (pf_function m). clean_function rt v) \<and>
     (\<forall>v \<in> set (pf_string_table m). rt_utf8 rt v) \<and>
     (\<forall>v. pf_period_type m = Some v \<longrightarrow> clean_value_type rt v) \<and>
     pf_special m = rt_no_unknown rt"

lemma profile_sample_type_bound: "\<lbrakk> runtime_ok rt; length (write_profile rt m) < 2 ^ 32; v \<in> set (pf_sample_type m) \<rbrakk> \<Longrightarrow> length (write_value_type rt v) < 2 ^ 32"
  using message_length [of rt 1 "write_value_type rt v" "value_type_size rt v"] length_concat_le [of v "pf_sample_type m" "\<lambda>v. write_message rt 1 (value_type_size rt v) (write_value_type rt v)"]
  by (simp add: write_profile_def)

lemma profile_sample_bound: "\<lbrakk> runtime_ok rt; length (write_profile rt m) < 2 ^ 32; v \<in> set (pf_sample m) \<rbrakk> \<Longrightarrow> length (write_sample rt v) < 2 ^ 32"
  using message_length [of rt 2 "write_sample rt v" "sample_size rt v"] length_concat_le [of v "pf_sample m" "\<lambda>v. write_message rt 2 (sample_size rt v) (write_sample rt v)"]
  by (simp add: write_profile_def)

lemma profile_mapping_bound: "\<lbrakk> runtime_ok rt; length (write_profile rt m) < 2 ^ 32; v \<in> set (pf_mapping m) \<rbrakk> \<Longrightarrow> length (write_mapping rt v) < 2 ^ 32"
  using message_length [of rt 3 "write_mapping rt v" "mapping_size rt v"] length_concat_le [of v "pf_mapping m" "\<lambda>v. write_message rt 3 (mapping_size rt v) (write_mapping rt v)"]
  by (simp add: write_profile_def)

lemma profile_location_bound: "\<lbrakk> runtime_ok rt; length (write_profile rt m) < 2 ^ 32; v \<in> set (pf_location m) \<rbrakk> \<Longrightarrow> length (write_location rt v) < 2 ^ 32"
  using message_length [of rt 4 "write_location rt v" "location_size rt v"] length_concat_le [of v "pf_location m" "\<lambda>v. write_message rt 4 (location_size rt v) (write_location rt v)"]
  by (simp add: write_profile_def)

lemma profile_function_bound: "\<lbrakk> runtime_ok rt; length (write_profile rt m) < 2 ^ 32; v \<in> set (pf_function m) \<rbrakk> \<Longrightarrow> length (write_function rt v) < 2 ^ 32"
  using message_length [of rt 5 "write_function rt v" "function_size rt v"] length_concat_le [of v "pf_function m" "\<lambda>v. write_message rt 5 (function_size rt v) (write_function rt v)"]
  by (simp add: write_profile_def)

lemma profile_period_type_bound: "\<lbrakk> runtime_ok rt; length (write_profile rt m) < 2 ^ 32; pf_period_type m = Some v \<rbrakk> \<Longrightarrow> length (write_value_type rt v) < 2 ^ 32"
  using message_length [of rt 11 "write_value_type rt v" "value_type_size rt v"]
  by (simp add: write_profile_def)

lemma profile_size_eq:
  assumes ok: "runtime_ok rt" and bound: "length (write_profile rt m) < 2 ^ 32"
  shows "profile_size rt m = length (write_profile rt m)"
proof -
  have s1: "sum_list (map (\<lambda>v. message_size rt (value_type_size rt v)) (pf_sample_type m)) = length (concat (map (\<lambda>v. write_message rt 1 (value_type_size rt v) (write_value_type rt v)) (pf_sample_type m)))"
    by (rule messages_size_eq [OF ok]) (use value_type_size_eq [OF ok] profile_sample_type_bound [OF ok bound] in simp_all)
  have s2: "sum_list (map (\<lambda>v. message_size rt (sample_size rt v)) (pf_sample m)) = length (concat (map (\<lambda>v. write_message rt 2 (sample_size rt v) (write_sample rt v)) (pf_sample m)))"
    by (rule messages_size_eq [OF ok]) (use sample_size_eq [OF ok profile_sample_bound [OF ok bound]] profile_sample_bound [OF ok bound] in simp_all)
  have s3: "sum_list (map (\<lambda>v. message_size rt (mapping_size rt v)) (pf_mapping m)) = length (concat (map (\<lambda>v. write_message rt 3 (mapping_size rt v) (write_mapping rt v)) (pf_mapping m)))"
    by (rule messages_size_eq [OF ok]) (use mapping_size_eq [OF ok] profile_mapping_bound [OF ok bound] in simp_all)
  have s4: "sum_list (map (\<lambda>v. message_size rt (location_size rt v)) (pf_location m)) = length (concat (map (\<lambda>v. write_message rt 4 (location_size rt v) (write_location rt v)) (pf_location m)))"
    by (rule messages_size_eq [OF ok]) (use location_size_eq [OF ok profile_location_bound [OF ok bound]] profile_location_bound [OF ok bound] in simp_all)
  have s5: "sum_list (map (\<lambda>v. message_size rt (function_size rt v)) (pf_function m)) = length (concat (map (\<lambda>v. write_message rt 5 (function_size rt v) (write_function rt v)) (pf_function m)))"
    by (rule messages_size_eq [OF ok]) (use function_size_eq [OF ok] profile_function_bound [OF ok bound] in simp_all)
  have s6: "sum_list (map (rt_string_size rt 6) (pf_string_table m)) = length (concat (map (rt_string rt 6) (pf_string_table m)))"
    by (rule list_size_laws) (simp_all add: ok)
  have s7: "(if pf_drop_frames m \<noteq> 0 then rt_int64_size rt 7 (pf_drop_frames m) else 0) = length (opt_field (rt_int64 rt 7) 0 (pf_drop_frames m))"
    by (rule opt_size_laws) (simp_all add: ok)
  have s8: "(if pf_keep_frames m \<noteq> 0 then rt_int64_size rt 8 (pf_keep_frames m) else 0) = length (opt_field (rt_int64 rt 8) 0 (pf_keep_frames m))"
    by (rule opt_size_laws) (simp_all add: ok)
  have s9: "(if pf_time_nanos m \<noteq> 0 then rt_int64_size rt 9 (pf_time_nanos m) else 0) = length (opt_field (rt_int64 rt 9) 0 (pf_time_nanos m))"
    by (rule opt_size_laws) (simp_all add: ok)
  have s10: "(if pf_duration_nanos m \<noteq> 0 then rt_int64_size rt 10 (pf_duration_nanos m) else 0) = length (opt_field (rt_int64 rt 10) 0 (pf_duration_nanos m))"
    by (rule opt_size_laws) (simp_all add: ok)
  have s11: "(case pf_period_type m of Some v \<Rightarrow> message_size rt (value_type_size rt v) | None \<Rightarrow> 0) = length (case pf_period_type m of Some v \<Rightarrow> write_message rt 11 (value_type_size rt v) (write_value_type rt v) | None \<Rightarrow> [])"
    using message_size_eq [OF ok, of 11] profile_period_type_bound [OF ok bound] by (simp add: value_type_size_eq [OF ok] split: option.split)
  have s12: "(if pf_period m \<noteq> 0 then rt_int64_size rt 12 (pf_period m) else 0) = length (opt_field (rt_int64 rt 12) 0 (pf_period m))"
    by (rule opt_size_laws) (simp_all add: ok)
  have s13: "sum_list (map (rt_int64_size rt 13) (pf_comment m)) = length (concat (map (rt_int64 rt 13) (pf_comment m)))"
    by (rule list_size_laws) (simp_all add: ok)
  have s14: "(if pf_default_sample_type m \<noteq> 0 then rt_int64_size rt 14 (pf_default_sample_type m) else 0) = length (opt_field (rt_int64 rt 14) 0 (pf_default_sample_type m))"
    by (rule opt_size_laws) (simp_all add: ok)
  show ?thesis unfolding profile_size_def write_profile_def length_append s1 s2 s3 s4 s5 s6 s7 s8 s9 s10 s11 s12 s13 s14 size_laws(5) [OF ok] by simp
qed

lemma profile_sample_type_parses:
  assumes "runtime_ok rt" "\<forall>v. v \<in> set vs \<longrightarrow> writes_back (merge_value_type rt) (value_type_default rt) (write_value_type rt) (value_type_size rt) v"
    and "pf_sample_type d = []"
  shows "parses rt (profile_step rt) (concat (map (\<lambda>v. write_message rt 1 (value_type_size rt v) (write_value_type rt v)) vs)) d (d\<lparr>pf_sample_type := vs\<rparr>)"
  by (rule parses_messages [where put = "\<lambda>v. d\<lparr>pf_sample_type := v\<rparr>" and merge = "merge_value_type rt" and init = "value_type_default rt"]) (use assms in \<open>simp_all add: profile_step_def writes_back_def\<close>)

lemma profile_sample_parses:
  assumes "runtime_ok rt" "\<forall>v. v \<in> set vs \<longrightarrow> writes_back (merge_sample rt) (sample_default rt) (write_sample rt) (sample_size rt) v"
    and "pf_sample d = []"
  shows "parses rt (profile_step rt) (concat (map (\<lambda>v. write_message rt 2 (sample_size rt v) (write_sample rt v)) vs)) d (d\<lparr>pf_sample := vs\<rparr>)"
  by (rule parses_messages [where put = "\<lambda>v. d\<lparr>pf_sample := v\<rparr>" and merge = "merge_sample rt" and init = "sample_default rt"]) (use assms in \<open>simp_all add: profile_step_def writes_back_def\<close>)

lemma profile_mapping_parses:
  assumes "runtime_ok rt" "\<forall>v. v \<in> set vs \<longrightarrow> writes_back (merge_mapping rt) (mapping_default rt) (write_mapping rt) (mapping_size rt) v"
    and "pf_mapping d = []"
  shows "parses rt (profile_step rt) (concat (map (\<lambda>v. write_message rt 3 (mapping_size rt v) (write_mapping rt v)) vs)) d (d\<lparr>pf_mapping := vs\<rparr>)"
  by (rule parses_messages [where put = "\<lambda>v. d\<lparr>pf_mapping := v\<rparr>" and merge = "merge_mapping rt" and init = "mapping_default rt"]) (use assms in \<open>simp_all add: profile_step_def writes_back_def\<close>)

lemma profile_location_parses:
  assumes "runtime_ok rt" "\<forall>v. v \<in> set vs \<longrightarrow> writes_back (merge_location rt) (location_default rt) (write_location rt) (location_size rt) v"
    and "pf_location d = []"
  shows "parses rt (profile_step rt) (concat (map (\<lambda>v. write_message rt 4 (location_size rt v) (write_location rt v)) vs)) d (d\<lparr>pf_location := vs\<rparr>)"
  by (rule parses_messages [where put = "\<lambda>v. d\<lparr>pf_location := v\<rparr>" and merge = "merge_location rt" and init = "location_default rt"]) (use assms in \<open>simp_all add: profile_step_def writes_back_def\<close>)

lemma profile_function_parses:
  assumes "runtime_ok rt" "\<forall>v. v \<in> set vs \<longrightarrow> writes_back (merge_function rt) (function_default rt) (write_function rt) (function_size rt) v"
    and "pf_function d = []"
  shows "parses rt (profile_step rt) (concat (map (\<lambda>v. write_message rt 5 (function_size rt v) (write_function rt v)) vs)) d (d\<lparr>pf_function := vs\<rparr>)"
  by (rule parses_messages [where put = "\<lambda>v. d\<lparr>pf_function := v\<rparr>" and merge = "merge_function rt" and init = "function_default rt"]) (use assms in \<open>simp_all add: profile_step_def writes_back_def\<close>)

lemma profile_string_table_parses: "\<lbrakk> runtime_ok rt; \<forall>v \<in> set vs. rt_utf8 rt v; pf_string_table d = [] \<rbrakk> \<Longrightarrow> parses rt (profile_step rt) (concat (map (rt_string rt 6) vs)) d (d\<lparr>pf_string_table := vs\<rparr>)"
  by (rule parses_list [where tag = 50 and rd = "rt_read_string rt" and put = "\<lambda>v. d\<lparr>pf_string_table := v\<rparr>"]) (use string_law [of rt 6] in \<open>simp_all add: profile_step_def\<close>)

lemma profile_drop_frames_parses: "\<lbrakk> runtime_ok rt; pf_drop_frames d = 0 \<rbrakk> \<Longrightarrow> parses rt (profile_step rt) (opt_field (rt_int64 rt 7) 0 v) d (d\<lparr>pf_drop_frames := v\<rparr>)"
  by (rule parses_opt [where tag = 56 and rd = "rt_read_int64 rt" and put = "\<lambda>v. d\<lparr>pf_drop_frames := v\<rparr>"]) (use int64_law [of rt 7] in \<open>simp_all add: profile_step_def\<close>)

lemma profile_keep_frames_parses: "\<lbrakk> runtime_ok rt; pf_keep_frames d = 0 \<rbrakk> \<Longrightarrow> parses rt (profile_step rt) (opt_field (rt_int64 rt 8) 0 v) d (d\<lparr>pf_keep_frames := v\<rparr>)"
  by (rule parses_opt [where tag = 64 and rd = "rt_read_int64 rt" and put = "\<lambda>v. d\<lparr>pf_keep_frames := v\<rparr>"]) (use int64_law [of rt 8] in \<open>simp_all add: profile_step_def\<close>)

lemma profile_time_nanos_parses: "\<lbrakk> runtime_ok rt; pf_time_nanos d = 0 \<rbrakk> \<Longrightarrow> parses rt (profile_step rt) (opt_field (rt_int64 rt 9) 0 v) d (d\<lparr>pf_time_nanos := v\<rparr>)"
  by (rule parses_opt [where tag = 72 and rd = "rt_read_int64 rt" and put = "\<lambda>v. d\<lparr>pf_time_nanos := v\<rparr>"]) (use int64_law [of rt 9] in \<open>simp_all add: profile_step_def\<close>)

lemma profile_duration_nanos_parses: "\<lbrakk> runtime_ok rt; pf_duration_nanos d = 0 \<rbrakk> \<Longrightarrow> parses rt (profile_step rt) (opt_field (rt_int64 rt 10) 0 v) d (d\<lparr>pf_duration_nanos := v\<rparr>)"
  by (rule parses_opt [where tag = 80 and rd = "rt_read_int64 rt" and put = "\<lambda>v. d\<lparr>pf_duration_nanos := v\<rparr>"]) (use int64_law [of rt 10] in \<open>simp_all add: profile_step_def\<close>)

lemma profile_period_type_parses:
  assumes "runtime_ok rt" "\<forall>v. vs = Some v \<longrightarrow> writes_back (merge_value_type rt) (value_type_default rt) (write_value_type rt) (value_type_size rt) v"
    and "pf_period_type d = None"
  shows "parses rt (profile_step rt) (case vs of Some v \<Rightarrow> write_message rt 11 (value_type_size rt v) (write_value_type rt v) | None \<Rightarrow> []) d (d\<lparr>pf_period_type := vs\<rparr>)"
  by (rule parses_option [where put = "\<lambda>v. d\<lparr>pf_period_type := v\<rparr>" and merge = "merge_value_type rt" and init = "value_type_default rt"]) (use assms in \<open>simp_all add: profile_step_def writes_back_def\<close>)

lemma profile_period_parses: "\<lbrakk> runtime_ok rt; pf_period d = 0 \<rbrakk> \<Longrightarrow> parses rt (profile_step rt) (opt_field (rt_int64 rt 12) 0 v) d (d\<lparr>pf_period := v\<rparr>)"
  by (rule parses_opt [where tag = 96 and rd = "rt_read_int64 rt" and put = "\<lambda>v. d\<lparr>pf_period := v\<rparr>"]) (use int64_law [of rt 12] in \<open>simp_all add: profile_step_def\<close>)

lemma profile_comment_parses: "\<lbrakk> runtime_ok rt; pf_comment d = [] \<rbrakk> \<Longrightarrow> parses rt (profile_step rt) (concat (map (rt_int64 rt 13) vs)) d (d\<lparr>pf_comment := vs\<rparr>)"
  by (rule parses_list [where tag = 104 and rd = "rt_read_int64 rt" and put = "\<lambda>v. d\<lparr>pf_comment := v\<rparr>"]) (use int64_law [of rt 13] in \<open>simp_all add: profile_step_def\<close>)

lemma profile_default_sample_type_parses: "\<lbrakk> runtime_ok rt; pf_default_sample_type d = 0 \<rbrakk> \<Longrightarrow> parses rt (profile_step rt) (opt_field (rt_int64 rt 14) 0 v) d (d\<lparr>pf_default_sample_type := v\<rparr>)"
  by (rule parses_opt [where tag = 112 and rd = "rt_read_int64 rt" and put = "\<lambda>v. d\<lparr>pf_default_sample_type := v\<rparr>"]) (use int64_law [of rt 14] in \<open>simp_all add: profile_step_def\<close>)

lemma parses_profile:
  assumes ok: "runtime_ok rt" and clean: "clean_profile rt m" and bound: "length (write_profile rt m) < 2 ^ 32"
  shows "merge_profile rt (profile_default rt) (write_profile rt m) = Some (Ok m)"
proof -
  have n1: "\<forall>v. v \<in> set (pf_sample_type m) \<longrightarrow> writes_back (merge_value_type rt) (value_type_default rt) (write_value_type rt) (value_type_size rt) v"
    using profile_sample_type_bound [OF ok bound] parses_value_type [OF ok] clean value_type_size_eq [OF ok] by (auto simp: clean_profile_def writes_back_def)
  have n2: "\<forall>v. v \<in> set (pf_sample m) \<longrightarrow> writes_back (merge_sample rt) (sample_default rt) (write_sample rt) (sample_size rt) v"
    using profile_sample_bound [OF ok bound] parses_sample [OF ok] clean sample_size_eq [OF ok profile_sample_bound [OF ok bound]] by (auto simp: clean_profile_def writes_back_def)
  have n3: "\<forall>v. v \<in> set (pf_mapping m) \<longrightarrow> writes_back (merge_mapping rt) (mapping_default rt) (write_mapping rt) (mapping_size rt) v"
    using profile_mapping_bound [OF ok bound] parses_mapping [OF ok] clean mapping_size_eq [OF ok] by (auto simp: clean_profile_def writes_back_def)
  have n4: "\<forall>v. v \<in> set (pf_location m) \<longrightarrow> writes_back (merge_location rt) (location_default rt) (write_location rt) (location_size rt) v"
    using profile_location_bound [OF ok bound] parses_location [OF ok] clean location_size_eq [OF ok profile_location_bound [OF ok bound]] by (auto simp: clean_profile_def writes_back_def)
  have n5: "\<forall>v. v \<in> set (pf_function m) \<longrightarrow> writes_back (merge_function rt) (function_default rt) (write_function rt) (function_size rt) v"
    using profile_function_bound [OF ok bound] parses_function [OF ok] clean function_size_eq [OF ok] by (auto simp: clean_profile_def writes_back_def)
  have n11: "\<forall>v. pf_period_type m = Some v \<longrightarrow> writes_back (merge_value_type rt) (value_type_default rt) (write_value_type rt) (value_type_size rt) v"
    using profile_period_type_bound [OF ok bound] parses_value_type [OF ok] clean value_type_size_eq [OF ok] by (auto simp: clean_profile_def writes_back_def)
  have utf8: "\<forall>v \<in> set (pf_string_table m). rt_utf8 rt v" using clean by (simp add: clean_profile_def)
  have special: "pf_special m = rt_no_unknown rt" using clean by (simp add: clean_profile_def)
  have unknown: "parses rt (profile_step rt) (rt_unknown_bytes rt (pf_special m)) d d" for d
    by (simp add: special no_unknown_law [OF ok] parses_def)
  have "parses rt (profile_step rt) (write_profile rt m) (profile_default rt) ((profile_default rt)\<lparr>pf_sample_type := pf_sample_type m, pf_sample := pf_sample m, pf_mapping := pf_mapping m, pf_location := pf_location m, pf_function := pf_function m, pf_string_table := pf_string_table m, pf_drop_frames := pf_drop_frames m, pf_keep_frames := pf_keep_frames m, pf_time_nanos := pf_time_nanos m, pf_duration_nanos := pf_duration_nanos m, pf_period_type := pf_period_type m, pf_period := pf_period m, pf_comment := pf_comment m, pf_default_sample_type := pf_default_sample_type m\<rparr>)"
    unfolding write_profile_def
    by (rule parses_append [OF profile_sample_type_parses [OF ok n1]
      parses_append [OF profile_sample_parses [OF ok n2]
      parses_append [OF profile_mapping_parses [OF ok n3]
      parses_append [OF profile_location_parses [OF ok n4]
      parses_append [OF profile_function_parses [OF ok n5]
      parses_append [OF profile_string_table_parses [OF ok utf8]
      parses_append [OF profile_drop_frames_parses [OF ok]
      parses_append [OF profile_keep_frames_parses [OF ok]
      parses_append [OF profile_time_nanos_parses [OF ok]
      parses_append [OF profile_duration_nanos_parses [OF ok]
      parses_append [OF profile_period_type_parses [OF ok n11]
      parses_append [OF profile_period_parses [OF ok]
      parses_append [OF profile_comment_parses [OF ok]
      parses_append [OF profile_default_sample_type_parses [OF ok] unknown]]]]]]]]]]]]]])
      (simp_all add: profile_default_def)
  also have "(profile_default rt)\<lparr>pf_sample_type := pf_sample_type m, pf_sample := pf_sample m, pf_mapping := pf_mapping m, pf_location := pf_location m, pf_function := pf_function m, pf_string_table := pf_string_table m, pf_drop_frames := pf_drop_frames m, pf_keep_frames := pf_keep_frames m, pf_time_nanos := pf_time_nanos m, pf_duration_nanos := pf_duration_nanos m, pf_period_type := pf_period_type m, pf_period := pf_period m, pf_comment := pf_comment m, pf_default_sample_type := pf_default_sample_type m\<rparr> = m" using special by (cases m) (simp add: profile_default_def)
  finally show ?thesis by (simp add: merge_profile_def parses_end [OF ok])
qed

section \<open>The wire format\<close>

text \<open>The runtime of the documented format: numbers of seven bits a byte, the lowest first.\<close>

fun varint :: "nat \<Rightarrow> bytes" where
  "varint n = (if n < 128 then [char_of n] else char_of (n mod 128 + 128) # varint (n div 128))"

declare varint.simps [simp del]

fun read_varint :: "bytes \<Rightarrow> (nat \<times> bytes) io_result" where
  "read_varint [] = Err UnexpectedEof"
| "read_varint (c # cs) =
     (if (of_char c :: nat) < 128 then Ok (of_char c, cs)
      else map_ok (\<lambda>(n, rest). (of_char c - 128 + 128 * n, rest)) (read_varint cs))"

definition wire_read_tag :: "bytes \<Rightarrow> (nat option \<times> bytes) io_result" where
  "wire_read_tag input = (if input = [] then Ok (None, []) else map_ok (\<lambda>(n, rest). (Some n, rest)) (read_varint input))"

definition wire_read_len :: "bytes \<Rightarrow> (bytes \<times> bytes) io_result" where
  "wire_read_len input = and_then (read_varint input) (\<lambda>(n, rest). if n \<le> length rest then Ok (take n rest, drop n rest) else Err UnexpectedEof)"

definition ascii :: "string \<Rightarrow> bool" where
  "ascii s = list_all (\<lambda>c. (of_char c :: nat) < 128) s"

fun read_all :: "nat \<Rightarrow> bytes \<Rightarrow> u64 list io_result" where
  "read_all 0 input = Ok []"
| "read_all (Suc k) input =
     (if input = [] then Ok []
      else and_then (read_varint input) (\<lambda>(n, rest). map_ok ((#) (of_nat n)) (read_all k rest)))"

definition wire_read_packed :: "bytes \<Rightarrow> (u64 list \<times> bytes) io_result" where
  "wire_read_packed input = and_then (wire_read_len input) (\<lambda>(body, rest). map_ok (\<lambda>vs. (vs, rest)) (read_all (length body) body))"

definition wire_number :: "nat \<Rightarrow> u64 \<Rightarrow> bytes" where
  "wire_number f v = varint (8 * f) @ varint (unat v)"

definition wire_string :: "nat \<Rightarrow> string \<Rightarrow> bytes" where
  "wire_string f s = varint (8 * f + 2) @ varint (length s) @ s"

definition wire_read_number :: "bytes \<Rightarrow> (u64 \<times> bytes) io_result" where
  "wire_read_number input = map_ok (\<lambda>(n, rest). (of_nat n, rest)) (read_varint input)"

text \<open>Fields with unknown tags are refused.\<close>

definition wire_rt :: "unit runtime" where
  "wire_rt =
     \<lparr>rt_int64 = wire_number, rt_uint64 = wire_number,
      rt_bool = (\<lambda>f b. varint (8 * f) @ varint (of_bool b)), rt_string = wire_string,
      rt_message = (\<lambda>f n body. varint (8 * f + 2) @ varint n @ body),
      rt_unknown_bytes = (\<lambda>_. []), rt_no_unknown = (),
      rt_int64_size = (\<lambda>f v. length (wire_number f v)), rt_uint64_size = (\<lambda>f v. length (wire_number f v)),
      rt_string_size = (\<lambda>f s. length (wire_string f s)), rt_varint_size = (\<lambda>n. length (varint n)),
      rt_unknown_size = (\<lambda>_. 0), rt_utf8 = ascii,
      rt_read_tag = wire_read_tag, rt_read_int64 = wire_read_number, rt_read_uint64 = wire_read_number,
      rt_read_bool = (\<lambda>input. map_ok (\<lambda>(n, rest). (n \<noteq> 0, rest)) (read_varint input)),
      rt_read_string = (\<lambda>input. and_then (wire_read_len input) (\<lambda>(s, rest). if ascii s then Ok (s, rest) else Err InvalidData)),
      rt_read_len = wire_read_len, rt_read_packed_int64 = wire_read_packed, rt_read_packed_uint64 = wire_read_packed,
      rt_read_unknown = (\<lambda>_ _ _. Err InvalidData)\<rparr>"

lemma read_varint: "read_varint (varint n @ rest) = Ok (n, rest)"
proof (induction n rule: varint.induct)
  case (1 n)
  show ?case
  proof (cases "n < 128")
    case True
    then show ?thesis by (subst varint.simps) (simp add: of_char_of)
  next
    case False
    have "n mod 128 + 128 < 256" by simp
    then have "(of_char (char_of (n mod 128 + 128) :: char) :: nat) = n mod 128 + 128" by (simp add: of_char_of del: char_of_nat)
    then show ?thesis using 1 [OF False] False by (subst varint.simps) simp
  qed
qed

lemma varint_not_Nil [simp]: "varint n \<noteq> []"
  by (subst varint.simps) simp

lemma wire_read_tag: "wire_read_tag (varint n @ rest) = Ok (Some n, rest)"
  by (simp add: wire_read_tag_def read_varint)

lemma wire_read_len: "wire_read_len (varint (length body) @ body @ rest) = Ok (body, rest)"
  by (simp add: wire_read_len_def read_varint)

lemma varint_tag_length: "n < 128 \<Longrightarrow> length (varint n) = 1"
  by (subst varint.simps) simp

lemma varint_long_length: "\<not> n < 128 \<Longrightarrow> length (varint n) = Suc (length (varint (n div 128)))"
  by (subst varint.simps) simp

lemma varint_bool_length: "length (varint (of_bool b)) = 1"
  by (rule varint_tag_length) (simp add: of_bool_def)

lemma wire_reads_back:
  assumes "0 < f" "f < 16"
  shows "reads_back wire_rt (8 * f) (wire_number f v) wire_read_number v"
    and "reads_back wire_rt (8 * f) (varint (8 * f) @ varint (of_bool b)) (rt_read_bool wire_rt) b"
    and "ascii s \<Longrightarrow> reads_back wire_rt (8 * f + 2) (wire_string f s) (rt_read_string wire_rt) s"
    and "reads_back wire_rt (8 * f + 2) (varint (8 * f + 2) @ varint (length body) @ body) wire_read_len body"
  by (auto simp: reads_back_def wire_rt_def wire_number_def wire_string_def wire_read_tag wire_read_number_def wire_read_len read_varint)

lemma wire_rt_simps [simp]:
  "rt_int64 wire_rt = wire_number" "rt_uint64 wire_rt = wire_number" "rt_string wire_rt = wire_string"
  "rt_bool wire_rt f b = varint (8 * f) @ varint (of_bool b)" "rt_message wire_rt f n body = varint (8 * f + 2) @ varint n @ body"
  "rt_unknown_bytes wire_rt u = []" "rt_no_unknown wire_rt = ()" "rt_unknown_size wire_rt u = 0"
  "rt_int64_size wire_rt f v = length (wire_number f v)" "rt_uint64_size wire_rt f v = length (wire_number f v)"
  "rt_string_size wire_rt f s = length (wire_string f s)" "rt_varint_size wire_rt n = length (varint n)"
  "rt_utf8 wire_rt = ascii" "rt_read_tag wire_rt = wire_read_tag" "rt_read_int64 wire_rt = wire_read_number"
  "rt_read_uint64 wire_rt = wire_read_number" "rt_read_len wire_rt = wire_read_len"
  by (simp_all add: wire_rt_def)

lemma wire_runtime_ok: "runtime_ok wire_rt"
  unfolding runtime_ok_def using wire_reads_back
  by (simp add: varint_bool_length varint_tag_length) (simp add: wire_read_tag_def)

section \<open>The profiles of the reports\<close>

text \<open>
  The messages that the reports build, with the casts of their numbers and the defaults of the fields
  that they leave out.
\<close>

definition to_proto_location :: "'u runtime \<Rightarrow> gperf_location \<Rightarrow> 'u proto_location" where
  "to_proto_location rt l = (location_default rt)\<lparr>lc_id := of_nat (go_id l), lc_address := of_nat (go_address l),
     lc_line := map (\<lambda>n. (line_default rt)\<lparr>ln_function_id := of_nat (gl_function_id n), ln_line := of_nat (gl_line n)\<rparr>) (go_line l)\<rparr>"

definition to_proto_function :: "'u runtime \<Rightarrow> gperf_function \<Rightarrow> 'u proto_function" where
  "to_proto_function rt f = (function_default rt)\<lparr>fu_id := of_nat (gf_id f), fu_name := of_nat (gf_name f),
     fu_system_name := of_nat (gf_system_name f), fu_filename := of_nat (gf_filename f), fu_start_line := of_nat (gf_start_line f)\<rparr>"

definition to_proto_sample :: "'u runtime \<Rightarrow> gperf_sample \<Rightarrow> 'u proto_sample" where
  "to_proto_sample rt s = (sample_default rt)\<lparr>sm_location_id := map of_nat (gs_location_id s), sm_value := map of_int (gs_value s),
     sm_label := map (\<lambda>l. (label_default rt)\<lparr>lb_key := of_nat (gb_key l), lb_str := of_nat (gb_str l)\<rparr>) (gs_label s)\<rparr>"

definition to_proto :: "'u runtime \<Rightarrow> gperf_profile \<Rightarrow> 'u proto_profile" where
  "to_proto rt p = (profile_default rt)
     \<lparr>pf_sample_type := map (\<lambda>v. (value_type_default rt)\<lparr>vt_type := of_nat (gv_type v), vt_unit := of_nat (gv_unit v)\<rparr>) (gp_sample_type p),
      pf_sample := map (to_proto_sample rt) (gp_sample p), pf_location := map (to_proto_location rt) (gp_location p),
      pf_function := map (to_proto_function rt) (gp_function p), pf_string_table := gp_string_table p\<rparr>"

lemma clean_to_proto: "clean_profile rt (to_proto rt p) \<longleftrightarrow> (\<forall>s \<in> set (gp_string_table p). rt_utf8 rt s)"
  by (auto simp: clean_profile_def clean_sample_def clean_location_def clean_label_def clean_line_def clean_value_type_def clean_function_def
    to_proto_def to_proto_sample_def to_proto_location_def to_proto_function_def profile_default_def sample_default_def label_default_def
    location_default_def line_default_def value_type_default_def function_default_def)

section \<open>Properties\<close>

text \<open>\<open>clear\<close> gives the default instance.\<close>

lemma clear_default:
  "clear_value_type rt v = value_type_default rt" "clear_label rt l = label_default rt" "clear_mapping rt g = mapping_default rt"
  "clear_line rt n = line_default rt" "clear_function rt f = function_default rt" "clear_location rt c = location_default rt"
  "clear_sample rt s = sample_default rt" "clear_profile rt p = profile_default rt"
  by (simp_all add: clear_value_type_def clear_label_def clear_mapping_def clear_line_def clear_function_def clear_location_def
    clear_sample_def clear_profile_def value_type_default_def label_default_def mapping_default_def line_default_def
    function_default_def location_default_def sample_default_def profile_default_def)

text \<open>
  C28: a profile survives the wire. With a runtime that keeps its promises, the bytes of a profile of less
  than four gigabytes whose strings are valid and that has no unknown fields merge back into the same
  profile, with all nested messages, and the computed size, from which the length prefixes are taken, is
  the number of bytes. The profiles of the reports have no unknown fields.
\<close>

theorem profile_wire_roundtrip:
  assumes "runtime_ok rt" "clean_profile rt p" "length (write_profile rt p) < 2 ^ 32"
  shows "merge_profile rt (profile_default rt) (write_profile rt p) = Some (Ok p) \<and> profile_size rt p = length (write_profile rt p) \<and>
    ((\<forall>s \<in> set (gp_string_table q). rt_utf8 rt s) \<longrightarrow> clean_profile rt (to_proto rt q))"
  using parses_profile [OF assms] profile_size_eq [OF assms(1,3)] clean_to_proto by blast

definition sample_label :: "unit proto_label" where
  "sample_label = (label_default wire_rt)\<lparr>lb_key := 1, lb_str := 2\<rparr>"

definition sample_sample :: "unit proto_sample" where
  "sample_sample = (sample_default wire_rt)\<lparr>sm_location_id := [1, 300], sm_value := [5], sm_label := [sample_label]\<rparr>"

definition sample_location :: "unit proto_location" where
  "sample_location = (location_default wire_rt)\<lparr>lc_id := 1, lc_line := [(line_default wire_rt)\<lparr>ln_line := 7\<rparr>], lc_is_folded := True\<rparr>"

definition sample_profile :: "unit proto_profile" where
  "sample_profile = (profile_default wire_rt)
     \<lparr>pf_sample := [sample_sample], pf_location := [sample_location], pf_string_table := [[], ''block'', ''0xc8''],
      pf_period_type := Some ((value_type_default wire_rt)\<lparr>vt_unit := 1\<rparr>)\<rparr>"

lemmas sample_defs = sample_profile_def sample_sample_def sample_label_def sample_location_def profile_default_def sample_default_def
  label_default_def location_default_def line_default_def value_type_default_def

lemmas wire_lengths = write_message_def opt_field_def wire_number_def wire_string_def varint_tag_length varint_long_length

lemma sample_lengths:
  "length (write_label wire_rt sample_label) = 4" "length (write_line wire_rt ((line_default wire_rt)\<lparr>ln_line := 7\<rparr>)) = 2"
  "length (write_value_type wire_rt ((value_type_default wire_rt)\<lparr>vt_unit := 1\<rparr>)) = 2"
  by (simp_all add: write_label_def write_line_def write_value_type_def wire_lengths sample_label_def label_default_def
    line_default_def value_type_default_def)

lemma sample_nested_lengths: "length (write_sample wire_rt sample_sample) = 13" "length (write_location wire_rt sample_location) = 8"
  by (simp_all add: sample_sample_def sample_location_def write_sample_def write_location_def label_size_eq [OF wire_runtime_ok]
    line_size_eq [OF wire_runtime_ok] sample_lengths sample_default_def location_default_def wire_lengths)

theorem profile_wire_roundtrip_witness:
  "merge_profile wire_rt (profile_default wire_rt) (write_profile wire_rt sample_profile) = Some (Ok sample_profile)"
proof -
  have clean: "clean_profile wire_rt sample_profile"
    by (simp add: clean_profile_def clean_sample_def clean_location_def clean_label_def clean_line_def clean_value_type_def ascii_def sample_defs)
  have "sample_size wire_rt sample_sample = 13" "location_size wire_rt sample_location = 8"
    using sample_size_eq [OF wire_runtime_ok, of sample_sample] location_size_eq [OF wire_runtime_ok, of sample_location]
    by (simp_all add: sample_nested_lengths)
  then have "length (write_profile wire_rt sample_profile) < 2 ^ 32"
    by (simp add: write_profile_def sample_profile_def profile_default_def sample_nested_lengths sample_lengths
      value_type_size_eq [OF wire_runtime_ok] wire_lengths)
  from profile_wire_roundtrip [OF wire_runtime_ok clean this] show ?thesis by blast
qed

end
