(* ===== verification/Tls.thy ===== *)
theory Tls
  imports Io_Client
begin

text \<open>
  TLS streams (\<open>crates/net/tls/src\<close>): the bridge that shows an asynchronous stream to the blocking
  interface of the crate \<open>boring\<close> (\<open>bridge.rs\<close>), and the polls and the handshake future on top of it
  (\<open>lib.rs\<close>). What \<open>boring\<close> does in a call is a parameter: a program of calls on the bridge, which
  the model runs. The stream underneath is an interface, a record of polls; the TCP stream on the
  \<open>mio\<close> driver is one.
\<close>

section \<open>Asynchronous streams and the bridge\<close>

text \<open>\<open>AsyncRead\<close> and \<open>AsyncWrite\<close> over a state.\<close>

record 's async_stream =
  as_poll_read :: "waker \<Rightarrow> nat \<Rightarrow> ('s, (nat \<times> bytes) poll) op"
  as_poll_write :: "waker \<Rightarrow> bytes \<Rightarrow> ('s, nat poll) op"
  as_poll_flush :: "waker \<Rightarrow> ('s, unit poll) op"
  as_poll_close :: "waker \<Rightarrow> ('s, unit poll) op"

record 's bridge =
  bg_stream :: 's
  bg_waker :: "waker option"

definition bridge_new :: "'s \<Rightarrow> 's bridge" where
  "bridge_new s = \<lparr>bg_stream = s, bg_waker = None\<rparr>"

definition set_waker :: "waker option \<Rightarrow> 's bridge \<Rightarrow> 's bridge" where
  "set_waker ctx b = b\<lparr>bg_waker := ctx\<rparr>"

definition with_context :: "(waker \<Rightarrow> ('s, 'r) op) \<Rightarrow> ('s bridge, 'r) op" where
  "with_context f b =
     (case bg_waker b of
        None \<Rightarrow> (Panic, b)
      | Some w \<Rightarrow> (let (r, s) = f w (bg_stream b) in (r, b\<lparr>bg_stream := s\<rparr>)))"

fun ready_or_block :: "'a poll \<Rightarrow> 'a io_result" where
  "ready_or_block (Ready x) = Ok x"
| "ready_or_block Pending = Err WouldBlock"

definition bridge_read :: "'s async_stream \<Rightarrow> nat \<Rightarrow> ('s bridge, nat \<times> bytes) op" where
  "bridge_read io len = op_bind (with_context (\<lambda>w. as_poll_read io w len)) (\<lambda>p. op_lift (ready_or_block p))"

definition bridge_write :: "'s async_stream \<Rightarrow> bytes \<Rightarrow> ('s bridge, nat) op" where
  "bridge_write io buf = op_bind (with_context (\<lambda>w. as_poll_write io w buf)) (\<lambda>p. op_lift (ready_or_block p))"

definition bridge_flush :: "'s async_stream \<Rightarrow> ('s bridge, unit) op" where
  "bridge_flush io = op_bind (with_context (as_poll_flush io)) (\<lambda>p. op_lift (ready_or_block p))"

section \<open>The library underneath\<close>

text \<open>
  A call of \<open>boring\<close> reads, writes and flushes the bridge and runs asynchronous callbacks (\<open>True\<close> for
  one that is pending) before it returns.
\<close>

datatype 'a bio =
    BioDone 'a
  | BioRead nat "(nat \<times> bytes) io_result \<Rightarrow> 'a bio"
  | BioWrite bytes "nat io_result \<Rightarrow> 'a bio"
  | BioFlush "unit io_result \<Rightarrow> 'a bio"
  | BioCallback "bool \<Rightarrow> 'a bio"

text \<open>\<open>resume\<close> passes a result of the bridge on, or stops at a panic of it.\<close>

definition resume :: "('r io_result \<Rightarrow> ('s, 'a) op) \<Rightarrow> ('s, 'r) op \<Rightarrow> ('s, 'a) op" where
  "resume k f b = (case f b of (Panic, b') \<Rightarrow> (Panic, b') | (r, b') \<Rightarrow> k r b')"

primrec run_bio ::
  "'s async_stream \<Rightarrow> (waker option \<Rightarrow> 's \<Rightarrow> bool \<times> 's) \<Rightarrow> waker option \<Rightarrow> 'a bio \<Rightarrow> ('s bridge, 'a) op" where
  "run_bio io cb task (BioDone a) = op_lift (Ok a)"
| "run_bio io cb task (BioRead n k) = resume (\<lambda>r. run_bio io cb task (k r)) (bridge_read io n)"
| "run_bio io cb task (BioWrite buf k) = resume (\<lambda>r. run_bio io cb task (k r)) (bridge_write io buf)"
| "run_bio io cb task (BioFlush k) = resume (\<lambda>r. run_bio io cb task (k r)) (bridge_flush io)"
| "run_bio io cb task (BioCallback k) =
     (\<lambda>b. let (pending, s) = cb task (bg_stream b) in run_bio io cb task (k pending) (b\<lparr>bg_stream := s\<rparr>))"

datatype error_code = ZERO_RETURN | WANT_READ | WANT_WRITE | OTHER_CODE

datatype shutdown_result = ShutdownSent | ShutdownReceived | ShutdownErr error_code "io_error option"

datatype handshake_outcome = HandshakeOk | HandshakeWouldBlock | HandshakeFailure | HandshakeSetupFailure

record 'e boring =
  bo_read :: "nat \<Rightarrow> 'e \<Rightarrow> ((nat \<times> bytes) io_result \<times> 'e) bio"
  bo_write :: "bytes \<Rightarrow> 'e \<Rightarrow> (nat io_result \<times> 'e) bio"
  bo_flush :: "'e \<Rightarrow> (unit io_result \<times> 'e) bio"
  bo_shutdown :: "'e \<Rightarrow> (shutdown_result \<times> 'e) bio"
  bo_handshake :: "'e \<Rightarrow> (handshake_outcome \<times> 'e) bio"

section \<open>Streams\<close>

text \<open>An \<open>ssl::SslStream\<close> or a \<open>MidHandshakeSslStream\<close>: the state of \<open>boring\<close>, its task waker and the bridge.\<close>

record ('e, 's) ssl_stream =
  sl_engine :: 'e
  sl_task_waker :: "waker option"
  sl_bridge :: "'s bridge"

type_synonym 's callbacks = "waker option \<Rightarrow> 's \<Rightarrow> bool \<times> 's"

definition run_engine :: "'s async_stream \<Rightarrow> 's callbacks \<Rightarrow> ('e \<Rightarrow> ('a \<times> 'e) bio) \<Rightarrow> (('e, 's) ssl_stream, 'a) op" where
  "run_engine io cb f st =
     (case run_bio io cb (sl_task_waker st) (f (sl_engine st)) (sl_bridge st) of
        (Ok (a, e), b) \<Rightarrow> (Ok a, st\<lparr>sl_engine := e, sl_bridge := b\<rparr>)
      | (_, b) \<Rightarrow> (Panic, st\<lparr>sl_bridge := b\<rparr>))"

text \<open>\<open>run_in_context\<close>: the waker is cleared when the call returns, and not when it panics.\<close>

definition run_in_context :: "waker \<Rightarrow> (('e, 's) ssl_stream, 'a) op \<Rightarrow> (('e, 's) ssl_stream, 'a) op" where
  "run_in_context ctx f st =
     (case f (st\<lparr>sl_bridge := set_waker (Some ctx) (sl_bridge st)\<rparr>) of
        (Panic, st') \<Rightarrow> (Panic, st')
      | (r, st') \<Rightarrow> (r, st'\<lparr>sl_bridge := set_waker None (sl_bridge st')\<rparr>))"

fun cvt :: "'a io_result \<Rightarrow> 'a poll io_result" where
  "cvt (Ok v) = Ok (Ready v)"
| "cvt (Err e) = (if e = WouldBlock then Ok Pending else Err e)"
| "cvt Panic = Panic"

definition ssl_poll_read :: "'s async_stream \<Rightarrow> 's callbacks \<Rightarrow> 'e boring \<Rightarrow> waker \<Rightarrow> nat \<Rightarrow> (('e, 's) ssl_stream, (nat \<times> bytes) poll) op" where
  "ssl_poll_read io cb bo ctx len = run_in_context ctx (op_bind (run_engine io cb (bo_read bo len)) (\<lambda>r. op_lift (cvt r)))"

definition ssl_poll_write :: "'s async_stream \<Rightarrow> 's callbacks \<Rightarrow> 'e boring \<Rightarrow> waker \<Rightarrow> bytes \<Rightarrow> (('e, 's) ssl_stream, nat poll) op" where
  "ssl_poll_write io cb bo ctx buf = run_in_context ctx (op_bind (run_engine io cb (bo_write bo buf)) (\<lambda>r. op_lift (cvt r)))"

definition ssl_poll_flush :: "'s async_stream \<Rightarrow> 's callbacks \<Rightarrow> 'e boring \<Rightarrow> waker \<Rightarrow> (('e, 's) ssl_stream, unit poll) op" where
  "ssl_poll_flush io cb bo ctx = run_in_context ctx (op_bind (run_engine io cb (bo_flush bo)) (\<lambda>r. op_lift (cvt r)))"

definition close_inner :: "'s async_stream \<Rightarrow> waker \<Rightarrow> (('e, 's) ssl_stream, unit poll) op" where
  "close_inner io ctx st =
     (let b = sl_bridge st; (r, s) = as_poll_close io ctx (bg_stream b) in (r, st\<lparr>sl_bridge := b\<lparr>bg_stream := s\<rparr>\<rparr>))"

definition ssl_poll_close :: "'s async_stream \<Rightarrow> 's callbacks \<Rightarrow> 'e boring \<Rightarrow> waker \<Rightarrow> (('e, 's) ssl_stream, unit poll) op" where
  "ssl_poll_close io cb bo ctx =
     op_bind (run_in_context ctx (run_engine io cb (bo_shutdown bo))) (\<lambda>r.
       (case r of
          ShutdownSent \<Rightarrow> close_inner io ctx
        | ShutdownReceived \<Rightarrow> close_inner io ctx
        | ShutdownErr ZERO_RETURN _ \<Rightarrow> close_inner io ctx
        | ShutdownErr WANT_READ _ \<Rightarrow> op_lift (Ok Pending)
        | ShutdownErr WANT_WRITE _ \<Rightarrow> op_lift (Ok Pending)
        | ShutdownErr OTHER_CODE e \<Rightarrow> op_lift (Err (case e of Some e \<Rightarrow> e | None \<Rightarrow> OtherError))))"

section \<open>The handshake\<close>

datatype ('e, 's) handshake_error = FailureWith "('e, 's) ssl_stream" | SetupFailure

type_synonym ('e, 's) handshake_future = "('e, 's) ssl_stream option"

definition handshake_poll ::
  "'s async_stream \<Rightarrow> 's callbacks \<Rightarrow> 'e boring \<Rightarrow> waker \<Rightarrow> ('e, 's) handshake_future \<Rightarrow>
     (('e, 's) handshake_error, ('e, 's) ssl_stream) outcome poll io_result \<times> ('e, 's) handshake_future" where
  "handshake_poll io cb bo ctx fut =
     (case fut of
        None \<Rightarrow> (Panic, None)
      | Some mid \<Rightarrow>
          (case run_engine io cb (bo_handshake bo) (mid\<lparr>sl_bridge := set_waker (Some ctx) (sl_bridge mid), sl_task_waker := Some ctx\<rparr>) of
             (Ok res, st) \<Rightarrow>
               (let done = st\<lparr>sl_bridge := set_waker None (sl_bridge st)\<rparr> in
                case res of
                  HandshakeOk \<Rightarrow> (Ok (Ready (Ok (done\<lparr>sl_task_waker := None\<rparr>))), None)
                | HandshakeWouldBlock \<Rightarrow> (Ok Pending, Some (done\<lparr>sl_task_waker := None\<rparr>))
                | HandshakeFailure \<Rightarrow> (Ok (Ready (Err (FailureWith done))), None)
                | HandshakeSetupFailure \<Rightarrow> (Ok (Ready (Err SetupFailure)), None))
           | (_, st) \<Rightarrow> (Panic, None)))"

text \<open>\<open>connect\<close> and \<open>accept\<close>: \<open>setup\<close> is the new state of \<open>boring\<close>, or \<open>None\<close> when the setup failed.\<close>

definition tls_start :: "'e option \<Rightarrow> 's \<Rightarrow> (('e, 's) handshake_error, ('e, 's) handshake_future) outcome" where
  "tls_start setup stream =
     (case setup of
        None \<Rightarrow> Err SetupFailure
      | Some e \<Rightarrow> Ok (Some \<lparr>sl_engine = e, sl_task_waker = None, sl_bridge = bridge_new stream\<rparr>))"

text \<open>The stream that a failed handshake gives back.\<close>

fun into_source_stream :: "('e, 's) handshake_error \<Rightarrow> 's option" where
  "into_source_stream (FailureWith st) = Some (bg_stream (sl_bridge st))"
| "into_source_stream SetupFailure = None"

section \<open>The TCP stream as a transport\<close>

definition tcp_async :: "'s raw_driver_ext \<Rightarrow> handle \<Rightarrow> 's async_stream" where
  "tcp_async d fd =
     \<lparr>as_poll_read = (\<lambda>w len. tcp_poll_read d fd w len), as_poll_write = (\<lambda>w buf. tcp_poll_write d fd w buf),
      as_poll_flush = (\<lambda>w. tcp_poll_flush), as_poll_close = (\<lambda>w. tcp_poll_close d fd)\<rparr>"

definition no_callbacks :: "'s callbacks" where
  "no_callbacks w s = (False, s)"

section \<open>What the library promises\<close>

text \<open>
  \<open>boring\<close> reports that a call would block only when the last thing it did was a call of the bridge
  that would block, or a callback that is pending; callbacks run during a handshake.
\<close>

primrec blocks_only :: "bool \<Rightarrow> ('a \<Rightarrow> bool) \<Rightarrow> bool \<Rightarrow> 'a bio \<Rightarrow> bool" where
  "blocks_only allow wb blocked (BioDone a) = (wb a \<longrightarrow> blocked)"
| "blocks_only allow wb blocked (BioRead n k) = (\<forall>r. blocks_only allow wb (r = Err WouldBlock) (k r))"
| "blocks_only allow wb blocked (BioWrite buf k) = (\<forall>r. blocks_only allow wb (r = Err WouldBlock) (k r))"
| "blocks_only allow wb blocked (BioFlush k) = (\<forall>r. blocks_only allow wb (r = Err WouldBlock) (k r))"
| "blocks_only allow wb blocked (BioCallback k) = (allow \<and> (\<forall>pending. blocks_only allow wb pending (k pending)))"

fun shutdown_blocked :: "shutdown_result \<Rightarrow> bool" where
  "shutdown_blocked (ShutdownErr WANT_READ _) = True"
| "shutdown_blocked (ShutdownErr WANT_WRITE _) = True"
| "shutdown_blocked _ = False"

fun result_blocked :: "'a io_result \<Rightarrow> bool" where
  "result_blocked (Err WouldBlock) = True"
| "result_blocked _ = False"

fun result_panics :: "'a io_result \<Rightarrow> bool" where
  "result_panics Panic = True"
| "result_panics _ = False"

text \<open>A program whose value satisfies a predicate, whatever the bridge answers.\<close>

primrec bio_all :: "('a \<Rightarrow> bool) \<Rightarrow> 'a bio \<Rightarrow> bool" where
  "bio_all P (BioDone a) = P a"
| "bio_all P (BioRead n k) = (\<forall>r. bio_all P (k r))"
| "bio_all P (BioWrite buf k) = (\<forall>r. bio_all P (k r))"
| "bio_all P (BioFlush k) = (\<forall>r. bio_all P (k r))"
| "bio_all P (BioCallback k) = (\<forall>r. bio_all P (k r))"

definition boring_ok :: "'e boring \<Rightarrow> bool" where
  "boring_ok bo \<longleftrightarrow>
     (\<forall>n e. blocks_only False (\<lambda>(r, _). result_blocked r) False (bo_read bo n e) \<and> bio_all (\<lambda>(r, _). \<not> result_panics r) (bo_read bo n e)) \<and>
     (\<forall>buf e. blocks_only False (\<lambda>(r, _). result_blocked r) False (bo_write bo buf e) \<and> bio_all (\<lambda>(r, _). \<not> result_panics r) (bo_write bo buf e)) \<and>
     (\<forall>e. blocks_only False (\<lambda>(r, _). result_blocked r) False (bo_flush bo e) \<and> bio_all (\<lambda>(r, _). \<not> result_panics r) (bo_flush bo e)) \<and>
     (\<forall>e. blocks_only False (\<lambda>(r, _). shutdown_blocked r) False (bo_shutdown bo e)) \<and>
     (\<forall>e. blocks_only True (\<lambda>(r, _). r = HandshakeWouldBlock) False (bo_handshake bo e))"

section \<open>Streams that wake their tasks\<close>

text \<open>
  The contract of a stream: its polls do not panic, keep it usable, and a pending poll has arranged
  for the task to be woken; an error of a poll is not \<open>WouldBlock\<close>.
\<close>

definition poll_keeps :: "('s \<Rightarrow> bool) \<Rightarrow> (waker \<Rightarrow> 's \<Rightarrow> bool) \<Rightarrow> waker \<Rightarrow> ('s, 'a poll) op \<Rightarrow> 's \<Rightarrow> bool" where
  "poll_keeps live armed w f s \<longleftrightarrow>
     (case f s of (r, s') \<Rightarrow> r \<noteq> Panic \<and> r \<noteq> Err WouldBlock \<and> live s' \<and> (r = Ok Pending \<longrightarrow> armed w s'))"

text \<open>A poll of a TLS stream: it does not panic, takes the waker out of the bridge, and wakes the task when it is pending.\<close>

definition ssl_poll_sound ::
  "('s \<Rightarrow> bool) \<Rightarrow> (waker \<Rightarrow> 's \<Rightarrow> bool) \<Rightarrow> waker \<Rightarrow> 'a poll io_result \<times> ('e, 's) ssl_stream \<Rightarrow> bool" where
  "ssl_poll_sound live armed w = (\<lambda>(r, st). r \<noteq> Panic \<and> bg_waker (sl_bridge st) = None \<and> live (bg_stream (sl_bridge st)) \<and>
     (r = Ok Pending \<longrightarrow> armed w (bg_stream (sl_bridge st))))"

locale waking_stream =
  fixes io :: "'s async_stream"
    and cb :: "'s callbacks"
    and live :: "'s \<Rightarrow> bool"
    and armed :: "waker \<Rightarrow> 's \<Rightarrow> bool"
  assumes read_keeps: "live s \<Longrightarrow> poll_keeps live armed w (as_poll_read io w n) s"
    and write_keeps: "live s \<Longrightarrow> poll_keeps live armed w (as_poll_write io w buf) s"
    and flush_keeps: "live s \<Longrightarrow> poll_keeps live armed w (as_poll_flush io w) s"
    and close_keeps: "\<lbrakk> live s; as_poll_close io w s = (r, s') \<rbrakk> \<Longrightarrow> r \<noteq> Panic \<and> live s' \<and> (r = Ok Pending \<longrightarrow> armed w s')"
    and callback_live: "live s \<Longrightarrow> live (snd (cb t s))"
    and callback_armed: "\<lbrakk> live s; cb (Some w) s = (True, s') \<rbrakk> \<Longrightarrow> armed w s'"
begin

text \<open>A bridge that is in the context of a task.\<close>

definition in_context :: "waker \<Rightarrow> 's bridge \<Rightarrow> bool" where
  "in_context w b \<longleftrightarrow> bg_waker b = Some w \<and> live (bg_stream b)"

lemma with_context_keeps:
  assumes "in_context w b" "poll_keeps live armed w (f w) (bg_stream b)"
  obtains r b' where "op_bind (with_context f) (\<lambda>p. op_lift (ready_or_block p)) b = (r, b')" "r \<noteq> Panic" "in_context w b'"
    "r = Err WouldBlock \<longrightarrow> armed w (bg_stream b')"
proof -
  obtain p s' where f: "f w (bg_stream b) = (p, s')" by fastforce
  let ?b' = "b\<lparr>bg_stream := s'\<rparr>"
  have keeps: "p \<noteq> Panic" "p \<noteq> Err WouldBlock" "live s'" "p = Ok Pending \<longrightarrow> armed w s'"
    using assms(2) f by (simp_all add: poll_keeps_def)
  have ctx: "with_context f b = (p, ?b')" using assms(1) f by (simp add: with_context_def in_context_def)
  define r where "r = (case p of Ok q \<Rightarrow> ready_or_block q | Err e \<Rightarrow> Err e | Panic \<Rightarrow> Panic)"
  have "op_bind (with_context f) (\<lambda>p. op_lift (ready_or_block p)) b = (r, ?b')"
    using ctx by (cases p) (simp_all add: r_def)
  moreover have "r \<noteq> Panic" "r = Err WouldBlock \<longrightarrow> armed w s'"
    using keeps by (cases p; auto simp: r_def elim: ready_or_block.elims)+
  moreover have "in_context w ?b'" using assms(1) keeps(3) by (simp add: in_context_def)
  ultimately show ?thesis using that by simp
qed

lemma bridge_keeps:
  assumes "in_context w b"
  shows "\<exists>r b'. bridge_read io n b = (r, b') \<and> r \<noteq> Panic \<and> in_context w b' \<and> (r = Err WouldBlock \<longrightarrow> armed w (bg_stream b'))"
    and "\<exists>r b'. bridge_write io buf b = (r, b') \<and> r \<noteq> Panic \<and> in_context w b' \<and> (r = Err WouldBlock \<longrightarrow> armed w (bg_stream b'))"
    and "\<exists>r b'. bridge_flush io b = (r, b') \<and> r \<noteq> Panic \<and> in_context w b' \<and> (r = Err WouldBlock \<longrightarrow> armed w (bg_stream b'))"
proof -
  have live: "live (bg_stream b)" using assms by (simp add: in_context_def)
  show "\<exists>r b'. bridge_read io n b = (r, b') \<and> r \<noteq> Panic \<and> in_context w b' \<and> (r = Err WouldBlock \<longrightarrow> armed w (bg_stream b'))"
    unfolding bridge_read_def by (rule with_context_keeps [OF assms, of "\<lambda>w. as_poll_read io w n"]) (use read_keeps [OF live] in blast)+
  show "\<exists>r b'. bridge_write io buf b = (r, b') \<and> r \<noteq> Panic \<and> in_context w b' \<and> (r = Err WouldBlock \<longrightarrow> armed w (bg_stream b'))"
    unfolding bridge_write_def by (rule with_context_keeps [OF assms, of "\<lambda>w. as_poll_write io w buf"]) (use write_keeps [OF live] in blast)+
  show "\<exists>r b'. bridge_flush io b = (r, b') \<and> r \<noteq> Panic \<and> in_context w b' \<and> (r = Err WouldBlock \<longrightarrow> armed w (bg_stream b'))"
    unfolding bridge_flush_def by (rule with_context_keeps [OF assms, of "as_poll_flush io"]) (use flush_keeps [OF live] in blast)+
qed

text \<open>One call of the bridge and the rest of the program.\<close>

lemma resume_run:
  assumes "\<exists>r b'. f b = (r, b') \<and> r \<noteq> Panic \<and> in_context w b' \<and> (r = Err WouldBlock \<longrightarrow> armed w (bg_stream b'))"
    and "\<forall>r. blocks_only allow wb (r = Err WouldBlock) (k r)" "allow \<longrightarrow> task = Some w"
    and "\<And>r b blocked. \<lbrakk> in_context w b; blocks_only allow wb blocked (k r); allow \<longrightarrow> task = Some w; blocked \<longrightarrow> armed w (bg_stream b) \<rbrakk> \<Longrightarrow>
      \<exists>a b'. run_bio io cb task (k r) b = (Ok a, b') \<and> in_context w b' \<and> (wb a \<longrightarrow> armed w (bg_stream b'))"
  shows "\<exists>a b'. resume (\<lambda>r. run_bio io cb task (k r)) f b = (Ok a, b') \<and> in_context w b' \<and> (wb a \<longrightarrow> armed w (bg_stream b'))"
proof -
  obtain r b' where f: "f b = (r, b')" "r \<noteq> Panic" "in_context w b'" "r = Err WouldBlock \<longrightarrow> armed w (bg_stream b')"
    using assms(1) by blast
  have "resume (\<lambda>r. run_bio io cb task (k r)) f b = run_bio io cb task (k r) b'"
    using f(1,2) by (cases r) (simp_all add: resume_def)
  then show ?thesis using assms(4) [OF f(3) assms(2) [rule_format] assms(3) f(4)] by simp
qed

text \<open>A call of the library in the context of a task.\<close>

lemma run_bio_keeps:
  assumes "in_context w b" "blocks_only allow wb blocked p" "allow \<longrightarrow> task = Some w" "blocked \<longrightarrow> armed w (bg_stream b)"
  shows "\<exists>a b'. run_bio io cb task p b = (Ok a, b') \<and> in_context w b' \<and> (wb a \<longrightarrow> armed w (bg_stream b'))"
  using assms
proof (induction p arbitrary: b blocked)
  case (BioRead n k)
  show ?case unfolding run_bio.simps
    by (rule resume_run [where allow = allow and b = b and f = "bridge_read io n" and w = w, OF bridge_keeps(1) [OF BioRead.prems(1)]])
      (use BioRead.prems(2,3) BioRead.IH [OF rangeI] in \<open>simp, simp, blast\<close>)
next
  case (BioWrite buf k)
  show ?case unfolding run_bio.simps
    by (rule resume_run [where allow = allow and b = b and f = "bridge_write io buf" and w = w, OF bridge_keeps(2) [OF BioWrite.prems(1)]])
      (use BioWrite.prems(2,3) BioWrite.IH [OF rangeI] in \<open>simp, simp, blast\<close>)
next
  case (BioFlush k)
  show ?case unfolding run_bio.simps
    by (rule resume_run [where allow = allow and b = b and f = "bridge_flush io" and w = w, OF bridge_keeps(3) [OF BioFlush.prems(1)]])
      (use BioFlush.prems(2,3) BioFlush.IH [OF rangeI] in \<open>simp, simp, blast\<close>)
next
  case (BioCallback k)
  obtain pending s' where cb: "cb task (bg_stream b) = (pending, s')" by fastforce
  have task: "task = Some w" and k: "blocks_only allow wb pending (k pending)" using BioCallback.prems(2,3) by auto
  have "in_context w (b\<lparr>bg_stream := s'\<rparr>)" "pending \<longrightarrow> armed w s'"
    using BioCallback.prems(1) callback_live [of "bg_stream b" task] callback_armed [of "bg_stream b" w s'] cb task
    by (auto simp: in_context_def)
  with BioCallback.IH [OF rangeI, of "b\<lparr>bg_stream := s'\<rparr>" pending] k BioCallback.prems(3) show ?case by (simp add: cb)
qed simp

lemma run_bio_value:
  "\<lbrakk> bio_all P p; run_bio io cb task p b = (Ok a, b') \<rbrakk> \<Longrightarrow> P a"
  by (induction p arbitrary: b) (auto simp: resume_def split: prod.splits outcome.splits)

lemma run_engine_keeps:
  assumes "in_context w (sl_bridge st)" "blocks_only allow (\<lambda>(a, _). wb a) False (f (sl_engine st))" "allow \<longrightarrow> sl_task_waker st = Some w"
  obtains a st' where "run_engine io cb f st = (Ok a, st')" "in_context w (sl_bridge st')" "wb a \<longrightarrow> armed w (bg_stream (sl_bridge st'))"
    "sl_task_waker st' = sl_task_waker st" "\<forall>P. bio_all (\<lambda>(a, _). P a) (f (sl_engine st)) \<longrightarrow> P a"
proof -
  obtain x b' where run: "run_bio io cb (sl_task_waker st) (f (sl_engine st)) (sl_bridge st) = (Ok x, b')" "in_context w b'"
      "(\<lambda>(a, _). wb a) x \<longrightarrow> armed w (bg_stream b')"
    using run_bio_keeps [OF assms(1,2,3)] by blast
  obtain a e where x: "x = (a, e)" by fastforce
  have "run_engine io cb f st = (Ok a, st\<lparr>sl_engine := e, sl_bridge := b'\<rparr>)" using run(1) x by (simp add: run_engine_def)
  moreover have "\<forall>P. bio_all (\<lambda>(a, _). P a) (f (sl_engine st)) \<longrightarrow> P a" using run_bio_value [OF _ run(1)] x by fastforce
  ultimately show ?thesis using that run(2,3) x by simp
qed

lemma poll_in_context:
  assumes "live (bg_stream (sl_bridge st))" "blocks_only False (\<lambda>(r, _). result_blocked r) False (f (sl_engine st))"
    and "bio_all (\<lambda>(r, _). \<not> result_panics r) (f (sl_engine st))"
  shows "ssl_poll_sound live armed w (run_in_context w (op_bind (run_engine io cb f) (\<lambda>r. op_lift (cvt r))) st)"
proof -
  let ?st = "st\<lparr>sl_bridge := set_waker (Some w) (sl_bridge st)\<rparr>"
  have ctx: "in_context w (sl_bridge ?st)" using assms(1) by (simp add: in_context_def set_waker_def)
  obtain r st' where run: "run_engine io cb f ?st = (Ok r, st')" "in_context w (sl_bridge st')"
      "result_blocked r \<longrightarrow> armed w (bg_stream (sl_bridge st'))" "\<forall>P. bio_all (\<lambda>(a, _). P a) (f (sl_engine ?st)) \<longrightarrow> P r"
    by (rule run_engine_keeps [OF ctx, of False result_blocked f]) (use assms(2) in simp_all)
  have "bio_all (\<lambda>(a, _). \<not> result_panics a) (f (sl_engine ?st))" using assms(3) by simp
  with run(4) have no_panic: "\<not> result_panics r" using spec [of _ "\<lambda>r. \<not> result_panics r"] by fast
  have "cvt r \<noteq> Panic" "cvt r = Ok Pending \<longrightarrow> result_blocked r" using no_panic by (cases r; simp)+
  then show ?thesis using run
    by (cases "cvt r") (auto simp: run_in_context_def ssl_poll_sound_def set_waker_def in_context_def)
qed

lemma polls_sound:
  assumes "boring_ok bo" "live (bg_stream (sl_bridge st))"
  shows "ssl_poll_sound live armed w (ssl_poll_read io cb bo w len st)"
    and "ssl_poll_sound live armed w (ssl_poll_write io cb bo w buf st)"
    and "ssl_poll_sound live armed w (ssl_poll_flush io cb bo w st)"
  unfolding ssl_poll_read_def ssl_poll_write_def ssl_poll_flush_def
  using assms by (auto simp: boring_ok_def intro!: poll_in_context)

lemma close_inner_sound:
  assumes "live (bg_stream (sl_bridge st))" "bg_waker (sl_bridge st) = None"
  shows "ssl_poll_sound live armed w (close_inner io w st)"
  using close_keeps [OF assms(1), of w] assms(2)
  by (cases "as_poll_close io w (bg_stream (sl_bridge st))") (auto simp: ssl_poll_sound_def close_inner_def Let_def)

lemma poll_close_sound:
  assumes "boring_ok bo" "live (bg_stream (sl_bridge st))"
  shows "ssl_poll_sound live armed w (ssl_poll_close io cb bo w st)"
proof -
  let ?st = "st\<lparr>sl_bridge := set_waker (Some w) (sl_bridge st)\<rparr>"
  have ctx: "in_context w (sl_bridge ?st)" using assms(2) by (simp add: in_context_def set_waker_def)
  obtain r st' where run: "run_engine io cb (bo_shutdown bo) ?st = (Ok r, st')" "in_context w (sl_bridge st')"
      "shutdown_blocked r \<longrightarrow> armed w (bg_stream (sl_bridge st'))"
    by (rule run_engine_keeps [OF ctx, of False shutdown_blocked "bo_shutdown bo"]) (use assms(1) in \<open>simp_all add: boring_ok_def\<close>)
  let ?st' = "st'\<lparr>sl_bridge := set_waker None (sl_bridge st')\<rparr>"
  have step: "run_in_context w (run_engine io cb (bo_shutdown bo)) st = (Ok r, ?st')" using run(1) by (simp add: run_in_context_def)
  have live: "live (bg_stream (sl_bridge ?st'))" "bg_waker (sl_bridge ?st') = None" using run(2) by (simp_all add: in_context_def set_waker_def)
  note inner = close_inner_sound [OF this, of w]
  show ?thesis
  proof (cases "shutdown_blocked r")
    case True
    then show ?thesis using run(2,3) step
      by (auto simp: ssl_poll_close_def ssl_poll_sound_def set_waker_def in_context_def elim!: shutdown_blocked.elims)
  next
    case False
    then show ?thesis using step inner live
      by (cases r rule: shutdown_blocked.cases) (auto simp: ssl_poll_close_def ssl_poll_sound_def)
  qed
qed

text \<open>
  A poll of a handshake: a pending one keeps the handshake and wakes the task, a complete one has
  used the future up.
\<close>

lemma handshake_poll_sound:
  assumes "boring_ok bo" "live (bg_stream (sl_bridge mid))"
  obtains r fut where "handshake_poll io cb bo w (Some mid) = (Ok r, fut)"
    "case r of
       Pending \<Rightarrow> \<exists>mid'. fut = Some mid' \<and> bg_waker (sl_bridge mid') = None \<and> sl_task_waker mid' = None \<and>
         live (bg_stream (sl_bridge mid')) \<and> armed w (bg_stream (sl_bridge mid'))
     | Ready (Ok st) \<Rightarrow> fut = None \<and> bg_waker (sl_bridge st) = None \<and> sl_task_waker st = None \<and> live (bg_stream (sl_bridge st))
     | Ready (Err e) \<Rightarrow> fut = None \<and> (\<forall>s. into_source_stream e = Some s \<longrightarrow> live s)
     | Ready Panic \<Rightarrow> False"
proof -
  let ?mid = "mid\<lparr>sl_bridge := set_waker (Some w) (sl_bridge mid), sl_task_waker := Some w\<rparr>"
  have ctx: "in_context w (sl_bridge ?mid)" using assms(2) by (simp add: in_context_def set_waker_def)
  obtain res st where run: "run_engine io cb (bo_handshake bo) ?mid = (Ok res, st)" "in_context w (sl_bridge st)"
      "res = HandshakeWouldBlock \<longrightarrow> armed w (bg_stream (sl_bridge st))"
    by (rule run_engine_keeps [OF ctx, of True "\<lambda>r. r = HandshakeWouldBlock" "bo_handshake bo"]) (use assms(1) in \<open>simp_all add: boring_ok_def\<close>)
  obtain r fut where hp: "handshake_poll io cb bo w (Some mid) = (Ok r, fut)" using run(1) by (cases res) (simp_all add: handshake_poll_def Let_def)
  show ?thesis
    by (rule that [OF hp]) (use hp run in \<open>cases res; auto simp: handshake_poll_def Let_def set_waker_def in_context_def\<close>)
qed

end

section \<open>TCP on the \<open>mio\<close> driver\<close>

definition tcp_live :: "handle \<Rightarrow> 'w mio_state \<Rightarrow> bool" where
  "tcp_live fd s \<longleftrightarrow> h_desc fd = DTcpStream \<and> handle_ready fd s \<and> boxes_fresh s"

definition tcp_armed :: "handle \<Rightarrow> waker \<Rightarrow> 'w mio_state \<Rightarrow> bool" where
  "tcp_armed fd w s \<longleftrightarrow> (\<exists>p rp i. ms_pollers s p = Some rp \<and> i \<in> {Readable, Writable} \<and> waiting rp i (h_token fd) = Some w)"

lemma tcp_live_call:
  assumes "tcp_live fd s" "io_command c" "fd_cntl (mio_driver os fuel) fd c s = (r, s')"
  shows "r \<noteq> Panic" "tcp_live fd s'"
  using safe_io_command [of fd s c os fuel] assms handle_ready_grows [of fd s s']
  by (auto simp: tcp_live_def safe_op_def)

text \<open>A command that would block has armed the waker.\<close>

lemma nonblocking_armed:
  assumes "ms_pollers s p = Some rp" "nonblocking_call fuel p (h_token fd) i w f s = (Err e, s')" "i \<in> {Readable, Writable}"
  shows "tcp_armed fd w s'"
proof -
  have "ms_pollers s' p = Some (rp_add_waker (h_token fd) i w rp)"
    using assms(2) by (auto simp: nonblocking_call_eq [OF assms(1)] split: prod.splits sum.splits)
  then show ?thesis using waiting_add_waker [OF assms(3), of "h_token fd" w rp i "h_token fd"] assms(3)
    unfolding tcp_armed_def by auto
qed

lemma tcp_call_armed:
  assumes live: "tcp_live fd s"
  shows "fd_cntl (mio_driver os fuel) fd (CRead w n) s = (Err e, s') \<Longrightarrow> tcp_armed fd w s'"
    and "fd_cntl (mio_driver os fuel) fd (CWrite w buf) s = (Err e, s') \<Longrightarrow> tcp_armed fd w s'"
proof -
  obtain p rp m where m: "ms_heap s (h_data fd) = Some (OSocket DTcpStream m)" "mw_poller m = Some p" "ms_pollers s p = Some rp" "h_desc fd = DTcpStream"
    using live by (auto simp: tcp_live_def handle_ready_def is_socket_def)
  have "fd_cntl (mio_driver os fuel) fd (CRead w n) s = op_map (\<lambda>data. (RespDataLen (length data), data))
        (nonblocking_call fuel p (h_token fd) Readable w (os_read os (mw_value m) n)) s"
    using m by (simp add: fd_cntl_def mio_driver_def mio_method_defs socket_call_def poller_of_def op_map_def)
  then show "fd_cntl (mio_driver os fuel) fd (CRead w n) s = (Err e, s') \<Longrightarrow> tcp_armed fd w s'"
    using nonblocking_armed [OF m(3), of fuel fd Readable w "os_read os (mw_value m) n" e s'] by (auto simp: op_map_def prod_eq_iff)
  have "fd_cntl (mio_driver os fuel) fd (CWrite w buf) s = op_map (\<lambda>n. (RespDataLen n, []))
        (nonblocking_call fuel p (h_token fd) Writable w (os_write os (mw_value m) buf)) s"
    using m by (simp add: fd_cntl_def mio_driver_def mio_method_defs socket_call_def poller_of_def op_map_def)
  then show "fd_cntl (mio_driver os fuel) fd (CWrite w buf) s = (Err e, s') \<Longrightarrow> tcp_armed fd w s'"
    using nonblocking_armed [OF m(3), of fuel fd Writable w "os_write os (mw_value m) buf" e s'] by (auto simp: op_map_def prod_eq_iff)
qed

lemma tcp_response:
  assumes "h_desc fd = DTcpStream"
  shows "fd_cntl (mio_driver os fuel) fd (CRead w n) s = (Ok x, s') \<Longrightarrow> \<exists>k data. x = (RespDataLen k, data)"
    and "fd_cntl (mio_driver os fuel) fd (CWrite w buf) s = (Ok x, s') \<Longrightarrow> \<exists>k data. x = (RespDataLen k, data)"
  using assms by (auto simp: fd_cntl_def op_map_Ok)

text \<open>A poll over a command that answers with a length.\<close>

lemma poll_keeps_command:
  assumes "tcp_live fd s" "io_command c"
    and "\<And>e s'. fd_cntl (mio_driver os fuel) fd c s = (Err e, s') \<Longrightarrow> tcp_armed fd w s'"
    and "\<And>x s'. fd_cntl (mio_driver os fuel) fd c s = (Ok x, s') \<Longrightarrow> \<exists>k data. x = (RespDataLen k, data)"
    and "\<And>k data. f (RespDataLen k, data) = op_lift (Ok (g k data))"
  shows "poll_keeps (tcp_live fd) (tcp_armed fd) w (poll_would_block (op_bind (fd_cntl (mio_driver os fuel) fd c) f)) s"
proof -
  obtain r s' where r: "fd_cntl (mio_driver os fuel) fd c s = (r, s')" by fastforce
  note live = tcp_live_call [OF assms(1,2) r]
  show ?thesis
  proof (cases r)
    case (Ok x)
    then obtain k data where "x = (RespDataLen k, data)" using assms(4) r by blast
    then show ?thesis using r Ok assms(5) live by (simp add: poll_keeps_def poll_would_block_def)
  next
    case (Err e)
    then show ?thesis using r assms(3) live by (simp add: poll_keeps_def poll_would_block_def)
  qed (use live in simp)
qed

interpretation mio_tcp: waking_stream "tcp_async (mio_driver os fuel) fd" no_callbacks "tcp_live fd" "tcp_armed fd"
  for os :: "'w os" and fuel fd
proof unfold_locales
  fix s :: "'w mio_state" and w n assume live: "tcp_live fd s"
  then have d: "h_desc fd = DTcpStream" by (simp add: tcp_live_def)
  show "poll_keeps (tcp_live fd) (tcp_armed fd) w (as_poll_read (tcp_async (mio_driver os fuel) fd) w n) s"
    unfolding tcp_async_def tcp_poll_read_def async_stream.select_convs
    by (rule poll_keeps_command [OF live _ tcp_call_armed(1) [OF live] tcp_response(1) [OF d], where g = "\<lambda>k data. (k, data)"])
      (simp_all add: fun_eq_iff op_map_def)
next
  fix s :: "'w mio_state" and w buf assume live: "tcp_live fd s"
  then have d: "h_desc fd = DTcpStream" by (simp add: tcp_live_def)
  show "poll_keeps (tcp_live fd) (tcp_armed fd) w (as_poll_write (tcp_async (mio_driver os fuel) fd) w buf) s"
    unfolding tcp_async_def tcp_poll_write_def async_stream.select_convs
    by (rule poll_keeps_command [OF live _ tcp_call_armed(2) [OF live] tcp_response(2) [OF d], where g = "\<lambda>k data. k"]) simp_all
next
  fix s :: "'w mio_state" and w assume live: "tcp_live fd s"
  then show "poll_keeps (tcp_live fd) (tcp_armed fd) w (as_poll_flush (tcp_async (mio_driver os fuel) fd) w) s"
    by (simp add: poll_keeps_def tcp_async_def tcp_poll_flush_def)
next
  fix s s' :: "'w mio_state" and w r
  assume live: "tcp_live fd s" and close: "as_poll_close (tcp_async (mio_driver os fuel) fd) w s = (r, s')"
  obtain x s1 where x: "fd_cntl (mio_driver os fuel) fd (CShutdown ShutBoth) s = (x, s1)" by fastforce
  from tcp_live_call [OF live _ x] x close show "r \<noteq> Panic \<and> tcp_live fd s' \<and> (r = Ok Pending \<longrightarrow> tcp_armed fd w s')"
    by (auto simp: tcp_async_def tcp_poll_close_def tcp_shutdown_def op_map_def)
qed (simp_all add: no_callbacks_def)

section \<open>Properties\<close>

text \<open>
  C29: the polls of a TLS stream over TCP. Whatever \<open>boring\<close> does in a call, with its promise that it
  reports a blocked call only after the transport blocked: no poll finds the bridge without a waker or
  panics otherwise, every poll takes the waker out of the bridge again, the TCP stream stays usable, and
  a pending poll has registered the waker of the task in the poller for the TCP stream.
\<close>

theorem ssl_stream_polls_sound:
  assumes "boring_ok bo" "tcp_live fd (bg_stream (sl_bridge st))"
  shows "ssl_poll_sound (tcp_live fd) (tcp_armed fd) w (ssl_poll_read (tcp_async (mio_driver os fuel) fd) no_callbacks bo w len st) \<and>
    ssl_poll_sound (tcp_live fd) (tcp_armed fd) w (ssl_poll_write (tcp_async (mio_driver os fuel) fd) no_callbacks bo w buf st) \<and>
    ssl_poll_sound (tcp_live fd) (tcp_armed fd) w (ssl_poll_flush (tcp_async (mio_driver os fuel) fd) no_callbacks bo w st) \<and>
    ssl_poll_sound (tcp_live fd) (tcp_armed fd) w (ssl_poll_close (tcp_async (mio_driver os fuel) fd) no_callbacks bo w st)"
  using mio_tcp.polls_sound [OF assms] mio_tcp.poll_close_sound [OF assms] by blast

text \<open>A library that passes everything through and ends a session by sending one byte.\<close>

definition plain_boring :: "unit boring" where
  "plain_boring =
     \<lparr>bo_read = (\<lambda>n e. BioRead n (\<lambda>r. BioDone (if r = Panic then Err OtherError else r, e))),
      bo_write = (\<lambda>buf e. BioWrite buf (\<lambda>r. BioDone (if r = Panic then Err OtherError else r, e))),
      bo_flush = (\<lambda>e. BioFlush (\<lambda>r. BioDone (if r = Panic then Err OtherError else r, e))),
      bo_shutdown = (\<lambda>e. BioWrite [CHR ''x''] (\<lambda>r. BioDone
        (case r of Ok _ \<Rightarrow> ShutdownSent | Err e \<Rightarrow> if e = WouldBlock then ShutdownErr WANT_WRITE None else ShutdownErr OTHER_CODE (Some e)
          | Panic \<Rightarrow> ShutdownErr OTHER_CODE None, e))),
      bo_handshake = (\<lambda>e. BioRead 1 (\<lambda>r. BioDone
        (case r of Ok _ \<Rightarrow> HandshakeOk | Err e \<Rightarrow> if e = WouldBlock then HandshakeWouldBlock else HandshakeFailure | Panic \<Rightarrow> HandshakeFailure, e)))\<rparr>"

lemma plain_boring_ok: "boring_ok plain_boring"
  by (auto simp: boring_ok_def plain_boring_def split: outcome.splits elim: result_blocked.elims result_panics.elims)

definition sample_tcp :: handle where
  "sample_tcp = \<lparr>h_token = 5, h_desc = DTcpStream, h_user_defined_desc = None, h_data = 9\<rparr>"

definition sample_tcp_state :: "(nat \<times> mio_event list) mio_state" where
  "sample_tcp_state = (one_poller (0, []) (raw_mio_poller_new 1000000 0))
     \<lparr>ms_heap := [0 \<mapsto> OPoller 0, 9 \<mapsto> OSocket DTcpStream \<lparr>mw_value = 3, mw_poller = Some 0, mw_once = True\<rparr>], ms_next_box := 10\<rparr>"

lemma sample_tcp_live: "tcp_live sample_tcp sample_tcp_state"
  by (auto simp: tcp_live_def handle_ready_def is_socket_def one_poller_def boxes_fresh_def sample_tcp_def sample_tcp_state_def)

theorem ssl_stream_polls_sound_witness:
  "ssl_poll_sound (tcp_live sample_tcp) (tcp_armed sample_tcp) 7 (ssl_poll_read (tcp_async (mio_driver blocked_os 1) sample_tcp) no_callbacks plain_boring 7 100
     \<lparr>sl_engine = (), sl_task_waker = None, sl_bridge = bridge_new sample_tcp_state\<rparr>)"
proof -
  let ?st = "\<lparr>sl_engine = (), sl_task_waker = None, sl_bridge = bridge_new sample_tcp_state\<rparr>"
  have "tcp_live sample_tcp (bg_stream (sl_bridge ?st))" using sample_tcp_live by (simp add: bridge_new_def)
  from ssl_stream_polls_sound [OF plain_boring_ok this] show ?thesis by blast
qed



text \<open>A handshake that fails leaves its task waker in the library's state, unlike the other outcomes.\<close>

lemma failed_handshake_keeps_task_waker:
  "handshake_poll io cb bo w (Some mid) = (Ok (Ready (Err (FailureWith st))), fut) \<Longrightarrow> sl_task_waker st = Some w"
  by (auto simp: handshake_poll_def run_engine_def Let_def split: prod.splits outcome.splits handshake_outcome.splits)

end
