(* ===== verification/Rproxy.thy ===== *)
theory Rproxy
  imports Tls
begin

text \<open>
  The reverse proxy (\<open>crates/rproxy/src\<close>): sessions (\<open>utils.rs\<close>), the proxy with its counters and the
  tasks it spawns (\<open>rproxy.rs\<close>), and its listeners (\<open>listener/tcp.rs\<close>, \<open>listener/quic.rs\<close>). The
  handshaker is a trait of the user: what its future answers is an argument. The sessions are shared
  between the proxy and the handshaker; they are entries of a store.
\<close>

section \<open>Sessions\<close>

datatype proxy_conn_id = ConnTcp nat | ConnQuicStream bytes bytes u64

record session_flag =
  sf_closed :: "unit io_result option"
  sf_waker :: "waker option"

definition session_new :: session_flag where
  "session_new = \<lparr>sf_closed = None, sf_waker = None\<rparr>"

text \<open>The waker that is woken, and the flag.\<close>

definition closed_with :: "unit io_result \<Rightarrow> session_flag \<Rightarrow> waker option \<times> session_flag" where
  "closed_with r flag = (sf_waker flag, flag\<lparr>sf_closed := Some r, sf_waker := None\<rparr>)"

definition session_poll :: "waker \<Rightarrow> session_flag \<Rightarrow> unit io_result poll \<times> session_flag" where
  "session_poll w flag =
     (case sf_closed flag of
        Some r \<Rightarrow> (Ready r, flag\<lparr>sf_closed := None\<rparr>)
      | None \<Rightarrow> (Pending, flag\<lparr>sf_waker := Some w\<rparr>))"

section \<open>The proxy\<close>

text \<open>
  A spawned task is the future of \<open>Rproxy::handshake\<close>: it waits for the handshaker, then for the session
  that it returned. Tasks are known by their position.
\<close>

datatype handshake_task =
    TaskHandshake proxy_conn_id
  | TaskSession proxy_conn_id nat
  | TaskFailed proxy_conn_id io_error
  | TaskClosed proxy_conn_id "unit io_result"

record proxy =
  px_conns :: usize
  px_closed_conns :: usize
  px_sessions :: "nat \<rightharpoonup> session_flag"
  px_tasks :: "handshake_task list"
  px_woken :: "waker list"

definition proxy_new :: proxy where
  "proxy_new = \<lparr>px_conns = 0, px_closed_conns = 0, px_sessions = Map.empty, px_tasks = [], px_woken = []\<rparr>"

record proxy_stats =
  ps_actived :: usize
  ps_closed :: usize

definition stats :: "proxy \<Rightarrow> proxy_stats" where
  "stats p = \<lparr>ps_actived = px_conns p, ps_closed = px_closed_conns p\<rparr>"

text \<open>The second half of \<open>handshake\<close>: \<open>session.await\<close> and the counters after it.\<close>

definition await_session :: "waker \<Rightarrow> nat \<Rightarrow> proxy_conn_id \<Rightarrow> nat \<Rightarrow> (proxy, unit poll) op" where
  "await_session w i cid n p =
     (case px_sessions p n of
        None \<Rightarrow> (Panic, p)
      | Some flag \<Rightarrow>
          (case session_poll w flag of
             (Pending, flag') \<Rightarrow> (Ok Pending, p\<lparr>px_sessions := (px_sessions p)(n \<mapsto> flag'), px_tasks := (px_tasks p)[i := TaskSession cid n]\<rparr>)
           | (Ready r, flag') \<Rightarrow>
               (Ok (Ready ()), p\<lparr>px_sessions := (px_sessions p)(n \<mapsto> flag'), px_tasks := (px_tasks p)[i := TaskClosed cid r],
                  px_conns := px_conns p - 1, px_closed_conns := px_closed_conns p + 1\<rparr>)))"

text \<open>
  One poll of the task at position \<open>i\<close>; \<open>answer\<close> is the answer of the handshaker's future, a session of
  the store. A task that has completed is not polled.
\<close>

definition handshake_task_poll :: "nat io_result poll \<Rightarrow> waker \<Rightarrow> nat \<Rightarrow> (proxy, unit poll) op" where
  "handshake_task_poll answer w i p =
     (case px_tasks p ! i of
        TaskHandshake cid \<Rightarrow>
          (case answer of
             Pending \<Rightarrow> (Ok Pending, p)
           | Ready (Ok n) \<Rightarrow> await_session w i cid n (p\<lparr>px_conns := px_conns p + 1\<rparr>)
           | Ready (Err e) \<Rightarrow> (Ok (Ready ()), p\<lparr>px_tasks := (px_tasks p)[i := TaskFailed cid e]\<rparr>)
           | Ready Panic \<Rightarrow> (Panic, p))
      | TaskSession cid n \<Rightarrow> await_session w i cid n p
      | _ \<Rightarrow> (Ok (Ready ()), p))"

text \<open>\<open>Rproxy::accept\<close>: one task for every connection that the listener gives, until it gives none.\<close>

definition spawn_handshake :: "proxy_conn_id \<Rightarrow> proxy \<Rightarrow> proxy" where
  "spawn_handshake cid p = p\<lparr>px_tasks := px_tasks p @ [TaskHandshake cid]\<rparr>"

fun accept_loop :: "proxy_conn_id option list \<Rightarrow> proxy \<Rightarrow> proxy" where
  "accept_loop [] p = p"
| "accept_loop (Some cid # answers) p = accept_loop answers (spawn_handshake cid p)"
| "accept_loop (None # answers) p = p"

text \<open>What the handshaker does to its sessions.\<close>

definition open_session :: "nat \<Rightarrow> proxy \<Rightarrow> proxy" where
  "open_session n p = p\<lparr>px_sessions := (px_sessions p)(n \<mapsto> session_new)\<rparr>"

definition close_session :: "unit io_result \<Rightarrow> nat \<Rightarrow> proxy \<Rightarrow> proxy" where
  "close_session r n p =
     (case px_sessions p n of
        None \<Rightarrow> p
      | Some flag \<Rightarrow>
          (let (waker, flag') = closed_with r flag in
           p\<lparr>px_sessions := (px_sessions p)(n \<mapsto> flag'), px_woken := px_woken p @ (case waker of Some w \<Rightarrow> [w] | None \<Rightarrow> [])\<rparr>))"

section \<open>Listeners\<close>

text \<open>The TCP listener, over the answer of its \<open>accept\<close> and a new identifier.\<close>

definition tcp_listener_accept :: "nat \<Rightarrow> (handle \<times> sock_addr) io_result \<Rightarrow> (proxy_conn_id \<times> handle) option" where
  "tcp_listener_accept uuid answer = (case answer of Ok (conn, _) \<Rightarrow> Some (ConnTcp uuid, conn) | _ \<Rightarrow> None)"

text \<open>
  One poll of the TLS listener. It waits for a connection or for the handshake \<open>'f\<close> of one; \<open>accept\<close> and
  \<open>handshake\<close> are the polls of the two, \<open>start\<close> gives the handshake of a connection or \<open>None\<close> when its
  setup failed. The outer \<open>None\<close> is a poll that does not return.
\<close>

datatype 'f tls_phase = Accepting | Handshaking 'f

partial_function (option) tls_listener_poll ::
  "('s, 'c poll) op \<Rightarrow> ('c \<Rightarrow> 'f option) \<Rightarrow> ('f \<Rightarrow> 's \<Rightarrow> ('st option poll io_result \<times> 'f) \<times> 's) \<Rightarrow> 'f tls_phase \<Rightarrow> 's \<Rightarrow>
     ('st option poll io_result \<times> 'f tls_phase \<times> 's) option" where
  "tls_listener_poll accept start handshake phase s =
     (case phase of
        Accepting \<Rightarrow>
          (case accept s of
             (Ok Pending, s') \<Rightarrow> Some (Ok Pending, Accepting, s')
           | (Ok (Ready conn), s') \<Rightarrow>
               (case start conn of
                  None \<Rightarrow> tls_listener_poll accept start handshake Accepting s'
                | Some f \<Rightarrow> tls_listener_poll accept start handshake (Handshaking f) s')
           | (Err e, s') \<Rightarrow> Some (Ok (Ready None), Accepting, s')
           | (Panic, s') \<Rightarrow> Some (Panic, Accepting, s'))
      | Handshaking f \<Rightarrow>
          (case handshake f s of
             ((Ok Pending, f'), s') \<Rightarrow> Some (Ok Pending, Handshaking f', s')
           | ((Ok (Ready (Some st)), f'), s') \<Rightarrow> Some (Ok (Ready (Some st)), Accepting, s')
           | ((Ok (Ready None), f'), s') \<Rightarrow> tls_listener_poll accept start handshake Accepting s'
           | ((_, f'), s') \<Rightarrow> Some (Panic, Accepting, s')))"

text \<open>
  The task of one connection of a \<open>QuicStreamListener\<close>: it sends every stream that it accepts into the
  channel until the connection gives no more or the channel is broken. A stream is given with the
  answer of the channel.
\<close>

fun quic_conn_task :: "bytes \<Rightarrow> bytes \<Rightarrow> (u64 \<times> bool) option list \<Rightarrow> proxy_conn_id list" where
  "quic_conn_task scid dcid [] = []"
| "quic_conn_task scid dcid (None # answers) = []"
| "quic_conn_task scid dcid (Some (sid, sent) # answers) =
     (if sent then ConnQuicStream scid dcid sid # quic_conn_task scid dcid answers else [])"

section \<open>Runs of the proxy\<close>

text \<open>
  The proxy accepts connections, the handshaker opens and closes sessions, and the executor polls tasks,
  in any order. A handshaker answers with a session that it has opened.
\<close>

definition answer_ok :: "proxy \<Rightarrow> nat io_result poll \<Rightarrow> bool" where
  "answer_ok p answer = (case answer of Pending \<Rightarrow> True | Ready (Ok n) \<Rightarrow> n \<in> dom (px_sessions p) | Ready (Err e) \<Rightarrow> True | Ready Panic \<Rightarrow> False)"

inductive proxy_step :: "proxy \<Rightarrow> proxy \<Rightarrow> bool" where
  accept: "proxy_step p (spawn_handshake cid p)"
| opened: "n \<notin> dom (px_sessions p) \<Longrightarrow> proxy_step p (open_session n p)"
| closed: "proxy_step p (close_session r n p)"
| polled: "\<lbrakk> i < length (px_tasks p); answer_ok p answer; handshake_task_poll answer w i p = (Ok x, p') \<rbrakk> \<Longrightarrow> proxy_step p p'"

fun in_session :: "handshake_task \<Rightarrow> bool" where
  "in_session (TaskSession _ _) = True"
| "in_session _ = False"

fun session_over :: "handshake_task \<Rightarrow> bool" where
  "session_over (TaskClosed _ _) = True"
| "session_over _ = False"

definition proxy_inv :: "proxy \<Rightarrow> bool" where
  "proxy_inv p \<longleftrightarrow> px_conns p = of_nat (length (filter in_session (px_tasks p))) \<and>
     px_closed_conns p = of_nat (length (filter session_over (px_tasks p))) \<and>
     (\<forall>cid n. TaskSession cid n \<in> set (px_tasks p) \<longrightarrow> n \<in> dom (px_sessions p))"

lemma filter_update_count:
  "i < length xs \<Longrightarrow>
     length (filter P (xs[i := y])) + (if P (xs ! i) then 1 else 0) = length (filter P xs) + (if P y then 1 else 0)"
proof (induction xs arbitrary: i)
  case (Cons x xs)
  show ?case
  proof (cases i)
    case (Suc j)
    then show ?thesis using Cons.IH [of j] Cons.prems by (simp split: if_splits)
  qed simp
qed simp

text \<open>The task at position \<open>i\<close> moves on; \<open>k\<close> and \<open>l\<close> are what that adds to the counters.\<close>

lemma proxy_inv_move:
  assumes "proxy_inv p" "i < length (px_tasks p)" "dom (px_sessions p) \<subseteq> dom sess"
    and "\<And>cid n. t = TaskSession cid n \<Longrightarrow> n \<in> dom sess"
  shows "proxy_inv (p\<lparr>px_sessions := sess, px_tasks := (px_tasks p)[i := t],
    px_conns := px_conns p + of_bool (in_session t) - of_bool (in_session (px_tasks p ! i)),
    px_closed_conns := px_closed_conns p + of_bool (session_over t) - of_bool (session_over (px_tasks p ! i))\<rparr>)"
proof -
  let ?xs = "px_tasks p"
  have count: "(of_nat (length (filter P ?xs)) + of_bool (P t) - of_bool (P (?xs ! i)) :: usize) = of_nat (length (filter P (?xs[i := t])))" for P
    using arg_cong [OF filter_update_count [OF assms(2), of P t], of "of_nat :: nat \<Rightarrow> usize"] by (auto simp: algebra_simps of_bool_def)
  have "n \<in> dom sess" if "TaskSession cid n \<in> set (?xs[i := t])" for cid n
    using that assms(1,3,4) set_update_subset_insert [of ?xs i t] unfolding proxy_inv_def by blast
  then show ?thesis using assms(1) by (simp add: proxy_inv_def count)
qed

lemma await_session_inv:
  assumes inv: "proxy_inv p" and i: "i < length (px_tasks p)" and n: "n \<in> dom (px_sessions p)"
    and task: "px_tasks p ! i = TaskHandshake cid \<and> q = p\<lparr>px_conns := px_conns p + 1\<rparr> \<or> px_tasks p ! i = TaskSession cid n \<and> q = p"
  shows "\<exists>x p'. await_session w i cid n q = (Ok x, p') \<and> proxy_inv p'"
proof -
  obtain flag where flag: "px_sessions p n = Some flag" using n by blast
  obtain x flag' where poll: "session_poll w flag = (x, flag')" by fastforce
  let ?sess = "(px_sessions p)(n \<mapsto> flag')"
  have sub: "dom (px_sessions p) \<subseteq> dom ?sess" by auto
  show ?thesis
  proof (cases x)
    case (Ready r)
    then show ?thesis
      using proxy_inv_move [OF inv i sub, of "TaskClosed cid r"] task flag poll by (auto simp: await_session_def)
  next
    case Pending
    then show ?thesis
      using proxy_inv_move [OF inv i sub, of "TaskSession cid n"] task flag poll by (auto simp: await_session_def proxy_inv_def)
  qed
qed

lemma handshake_task_poll_inv:
  assumes inv: "proxy_inv p" and i: "i < length (px_tasks p)" and answer: "answer_ok p answer"
  shows "\<exists>x p'. handshake_task_poll answer w i p = (Ok x, p') \<and> proxy_inv p'"
proof (cases "px_tasks p ! i")
  case (TaskHandshake cid)
  show ?thesis
  proof (cases answer)
    case (Ready res)
    show ?thesis
    proof (cases res)
      case (Ok n)
      then show ?thesis
        using TaskHandshake Ready answer await_session_inv [OF inv i, of n cid "p\<lparr>px_conns := px_conns p + 1\<rparr>" w]
        by (simp add: handshake_task_poll_def answer_ok_def)
    next
      case (Err e)
      then show ?thesis
        using TaskHandshake Ready proxy_inv_move [OF inv i, of "px_sessions p" "TaskFailed cid e"] by (simp add: handshake_task_poll_def)
    qed (use answer Ready in \<open>simp add: answer_ok_def\<close>)
  qed (use TaskHandshake inv in \<open>simp add: handshake_task_poll_def\<close>)
next
  case (TaskSession cid n)
  then have "n \<in> dom (px_sessions p)" using inv i by (metis proxy_inv_def nth_mem)
  then show ?thesis using TaskSession await_session_inv [OF inv i] by (simp add: handshake_task_poll_def)
qed (use inv in \<open>simp_all add: handshake_task_poll_def\<close>)

lemma proxy_step_inv: "\<lbrakk> proxy_step p p'; proxy_inv p \<rbrakk> \<Longrightarrow> proxy_inv p'"
proof (induction rule: proxy_step.induct)
  case (polled i p answer w x p')
  then show ?case using handshake_task_poll_inv [of p i answer w] by fastforce
qed (auto simp: proxy_inv_def spawn_handshake_def open_session_def close_session_def split: option.splits prod.splits)

lemma reachable_inv: "proxy_step\<^sup>*\<^sup>* proxy_new p \<Longrightarrow> proxy_inv p"
  by (induction rule: rtranclp_induct) (auto simp: proxy_inv_def proxy_new_def dest: proxy_step_inv [unfolded proxy_inv_def])

section \<open>Properties\<close>

text \<open>
  C30: the counters of the proxy. However accepting, opening and closing sessions and polling tasks
  interleave, the statistics are the number of tasks that wait for their session and the number of
  those whose session is over, and no poll of a task panics.
\<close>

theorem proxy_counters:
  assumes "proxy_step\<^sup>*\<^sup>* proxy_new p"
  shows "stats p = \<lparr>ps_actived = of_nat (length (filter in_session (px_tasks p))), ps_closed = of_nat (length (filter session_over (px_tasks p)))\<rparr> \<and>
    (\<forall>i answer w. i < length (px_tasks p) \<longrightarrow> answer_ok p answer \<longrightarrow> fst (handshake_task_poll answer w i p) \<noteq> Panic)"
  using reachable_inv [OF assms] handshake_task_poll_inv [OF reachable_inv [OF assms]]
  by (auto simp: proxy_inv_def stats_def) (metis fst_conv outcome.distinct(3))

definition sample_proxy :: proxy where
  "sample_proxy = open_session 4 (spawn_handshake (ConnTcp 1) proxy_new)"

lemma sample_proxy_reachable: "proxy_step\<^sup>*\<^sup>* proxy_new sample_proxy"
proof -
  have "proxy_step proxy_new (spawn_handshake (ConnTcp 1) proxy_new)" by (rule proxy_step.accept)
  moreover have "proxy_step (spawn_handshake (ConnTcp 1) proxy_new) sample_proxy"
    unfolding sample_proxy_def by (rule proxy_step.opened) (simp add: spawn_handshake_def proxy_new_def)
  ultimately show ?thesis by simp
qed

theorem proxy_counters_witness:
  "stats sample_proxy = \<lparr>ps_actived = 0, ps_closed = 0\<rparr> \<and> fst (handshake_task_poll (Ready (Ok 4)) 9 0 sample_proxy) \<noteq> Panic"
proof -
  have "length (px_tasks sample_proxy) = 1" "answer_ok sample_proxy (Ready (Ok 4))" "filter in_session (px_tasks sample_proxy) = []"
      "filter session_over (px_tasks sample_proxy) = []"
    by (simp_all add: sample_proxy_def answer_ok_def open_session_def spawn_handshake_def proxy_new_def)
  then show ?thesis using proxy_counters [OF sample_proxy_reachable] by simp
qed

text \<open>
  A session that ends completes its task. When the poll of a waiting task is pending, closing its
  session wakes the task, and the next poll of the task completes it with the result that the session
  was closed with; the connection moves from the active to the closed ones.
\<close>

theorem session_close_completes:
  assumes "i < length (px_tasks p)" "px_tasks p ! i = TaskSession cid n" "handshake_task_poll answer w i p = (Ok Pending, p1)"
    and "p2 = close_session r n p1"
  shows "w \<in> set (px_woken p2) \<and>
    (\<exists>p3. handshake_task_poll answer' w' i p2 = (Ok (Ready ()), p3) \<and> px_tasks p3 ! i = TaskClosed cid r \<and>
       ps_actived (stats p3) = ps_actived (stats p) - 1 \<and> ps_closed (stats p3) = ps_closed (stats p) + 1)"
proof -
  obtain flag where flag: "px_sessions p n = Some flag" "sf_closed flag = None"
    using assms(2,3) by (auto simp: handshake_task_poll_def await_session_def session_poll_def split: option.splits prod.splits poll.splits)
  have p1: "p1 = p\<lparr>px_sessions := (px_sessions p)(n \<mapsto> flag\<lparr>sf_waker := Some w\<rparr>), px_tasks := (px_tasks p)[i := TaskSession cid n]\<rparr>"
    using assms(2,3) flag by (simp add: handshake_task_poll_def await_session_def session_poll_def)
  have "p2 = p1\<lparr>px_sessions := (px_sessions p)(n \<mapsto> flag\<lparr>sf_closed := Some r, sf_waker := None\<rparr>), px_woken := px_woken p @ [w]\<rparr>"
    using assms(4) by (simp add: p1 close_session_def closed_with_def)
  then show ?thesis using assms(1) p1
    by (simp add: handshake_task_poll_def await_session_def session_poll_def stats_def)
qed

theorem session_close_completes_witness:
  "\<exists>p1. handshake_task_poll Pending 9 0 (sample_proxy\<lparr>px_tasks := [TaskSession (ConnTcp 1) 4], px_conns := 1\<rparr>) = (Ok Pending, p1) \<and>
     9 \<in> set (px_woken (close_session (Err BrokenPipe) 4 p1)) \<and>
     (\<exists>p3. handshake_task_poll Pending 8 0 (close_session (Err BrokenPipe) 4 p1) = (Ok (Ready ()), p3) \<and> px_tasks p3 ! 0 = TaskClosed (ConnTcp 1) (Err BrokenPipe))"
proof -
  let ?p = "sample_proxy\<lparr>px_tasks := [TaskSession (ConnTcp 1) 4], px_conns := 1\<rparr>"
  obtain p1 where p1: "handshake_task_poll Pending 9 0 ?p = (Ok Pending, p1)"
    by (simp add: handshake_task_poll_def await_session_def session_poll_def sample_proxy_def open_session_def session_new_def)
  have "0 < length (px_tasks ?p)" "px_tasks ?p ! 0 = TaskSession (ConnTcp 1) 4" by simp_all
  from session_close_completes [OF this p1 refl, of "Err BrokenPipe" Pending 8] p1 show ?thesis by blast
qed

text \<open>
  One client holds the TLS listener. While the handshake of a connection is pending, a poll of the
  listener is pending and does not accept: it is the same whatever connections are ready and whatever
  becomes of the others.
\<close>

theorem tls_listener_head_of_line:
  assumes "handshake f s = ((Ok Pending, f'), s')"
  shows "tls_listener_poll accept start handshake (Handshaking f) s = Some (Ok Pending, Handshaking f', s')"
  by (subst tls_listener_poll.simps) (simp add: assms)

theorem tls_listener_head_of_line_witness:
  "tls_listener_poll (\<lambda>s. (Ok (Ready 1), s + 1)) Some (\<lambda>f s. ((Ok (Pending :: unit option poll), f), s)) (Handshaking (0 :: nat)) (5 :: nat)
     = Some (Ok Pending, Handshaking 0, 5)"
  by (rule tls_listener_head_of_line) simp

text \<open>An error of one \<open>accept\<close> ends the loop of the proxy: the connections that come after it are not served.\<close>

lemma accept_error_ends_proxy:
  assumes "\<forall>a \<in> set before. a \<noteq> None"
  shows "accept_loop (before @ map_option fst (tcp_listener_accept uuid (Err e)) # after) p = accept_loop before p"
  using assms by (induction before arbitrary: p) (auto simp: tcp_listener_accept_def)

text \<open>A session that is closed twice before its task is polled keeps the second result.\<close>

lemma second_close_overwrites: "session_poll w (snd (closed_with r2 (snd (closed_with r1 flag)))) = (Ready r2, flag\<lparr>sf_closed := None, sf_waker := None\<rparr>)"
  by (simp add: session_poll_def closed_with_def)

text \<open>A second future of the same session, a clone, is not completed.\<close>

lemma clone_keeps_waiting:
  "sf_closed flag = None \<Longrightarrow> session_poll w2 (snd (session_poll w1 (snd (closed_with r flag)))) = (Pending, flag\<lparr>sf_waker := Some w2\<rparr>)"
  by (simp add: session_poll_def closed_with_def)

text \<open>The task of a QUIC connection passes its streams on in their order, up to the first that the channel refuses.\<close>

lemma quic_conn_task_prefix:
  "quic_conn_task scid dcid (map (\<lambda>sid. Some (sid, True)) sids @ Some (sid, False) # answers) = map (ConnQuicStream scid dcid) sids"
  by (induction sids) auto

end
