(* ===== verification/Quic_Handles.thy ===== *)
theory Quic_Handles
  imports Quic_Client "HOL-Library.Multiset"
begin

text \<open>
  The reference-counted handles of \<open>crates/net/quic\<close>: \<open>QuicConn\<close> and \<open>QuicStream\<close> (\<open>conn.rs\<close>) and the
  \<open>Drop\<close> of \<open>QuicConnState\<close> (\<open>state/conn.rs\<close>), for one connection. A handle owns references to the shared
  state, to the counter whose last reference closes the connection, and to the counter whose last
  reference closes the stream; closing is a spawned task that owns references of its own. What closes
  what, how often and in which order is a property of the counts, whichever handles the program clones and
  drops and whenever the executor runs the tasks.
\<close>

section \<open>Counters, handles and tasks\<close>

text \<open>
  The spawned tasks: of \<open>Drop for QuicConnDrop\<close>, which owns a \<open>QuicConnState\<close>; of \<open>Drop for
  QuicConnState\<close>, which owns one and forgets it; of \<open>Drop for QuicStreamDrop\<close>, which owns the \<open>QuicConn\<close> with
  the given counter.
\<close>

datatype close_task = CloseConn | RaiiClose | CloseStream stream_id nat

text \<open>The calls that the tasks made, in their order.\<close>

datatype drop_call = CallCloseStream stream_id | CallClose | CallRaiiClose

text \<open>
  The strong count of the shared state, the counts of the live \<open>Arc<QuicConnDrop>\<close>, and the counts of the
  live \<open>Arc<QuicStreamDrop>\<close> with their stream and the counter of their \<open>QuicConn\<close>. \<open>hl_forgotten\<close> is the
  number of references that \<open>mem::forget\<close> took; \<open>hl_log\<close>, \<open>hl_created\<close> and \<open>hl_froms\<close> are the history: the
  calls, the streams and the number of \<open>QuicConn::from\<close>.
\<close>

record 'q handles =
  hl_conn :: "'q conn_state"
  hl_strong :: nat
  hl_counters :: "nat \<rightharpoonup> nat"
  hl_streams :: "nat \<rightharpoonup> nat \<times> stream_id \<times> nat"
  hl_next :: nat
  hl_tasks :: "close_task list"
  hl_forgotten :: nat
  hl_log :: "drop_call list"
  hl_created :: "stream_id list"
  hl_froms :: nat

definition handles_new :: "'q conn_state \<Rightarrow> 'q handles" where
  "handles_new c =
     \<lparr>hl_conn = c, hl_strong = 1, hl_counters = Map.empty, hl_streams = Map.empty, hl_next = 0, hl_tasks = [],
      hl_forgotten = 0, hl_log = [], hl_created = [], hl_froms = 0\<rparr>"

definition state_clone :: "'q handles \<Rightarrow> 'q handles" where
  "state_clone w = w\<lparr>hl_strong := hl_strong w + 1\<rparr>"

text \<open>\<open>Drop for QuicConnState\<close>: the test of the strong count, then the drop of the field.\<close>

definition last_check :: "'q handles \<Rightarrow> 'q handles" where
  "last_check w = (if hl_strong w = 1 then (state_clone w)\<lparr>hl_tasks := hl_tasks w @ [RaiiClose]\<rparr> else w)"

definition strong_dec :: "'q handles \<Rightarrow> 'q handles" where
  "strong_dec w = w\<lparr>hl_strong := hl_strong w - 1\<rparr>"

definition state_drop :: "'q handles \<Rightarrow> 'q handles" where
  "state_drop w = strong_dec (last_check w)"

text \<open>
  \<open>QuicConn\<close>: \<open>From<QuicConnState>\<close>, \<open>Clone\<close> and the drop of its two fields, the state and then the counter.
  A \<open>QuicConn\<close> is its counter; \<open>None\<close> is the use of a counter that has been freed.
\<close>

definition conn_from :: "'q handles \<Rightarrow> nat \<times> 'q handles" where
  "conn_from w =
     (let w1 = state_clone w in
      (hl_next w1, w1\<lparr>hl_counters := (hl_counters w1)(hl_next w1 \<mapsto> 1), hl_next := hl_next w1 + 1, hl_froms := hl_froms w1 + 1\<rparr>))"

definition counter_clone :: "nat \<Rightarrow> 'q handles \<Rightarrow> 'q handles option" where
  "counter_clone k w = map_option (\<lambda>n. w\<lparr>hl_counters := (hl_counters w)(k \<mapsto> n + 1)\<rparr>) (hl_counters w k)"

definition conn_clone :: "nat \<Rightarrow> 'q handles \<Rightarrow> 'q handles option" where
  "conn_clone k w = counter_clone k (state_clone w)"

definition counter_drop :: "nat \<Rightarrow> 'q handles \<Rightarrow> 'q handles option" where
  "counter_drop k w =
     map_option (\<lambda>n.
       if n = 1
       then let w1 = state_clone w; w2 = w1\<lparr>hl_tasks := hl_tasks w1 @ [CloseConn], hl_counters := (hl_counters w1)(k := None)\<rparr> in
            state_drop w2
       else w\<lparr>hl_counters := (hl_counters w)(k \<mapsto> n - 1)\<rparr>) (hl_counters w k)"

definition conn_drop :: "nat \<Rightarrow> 'q handles \<Rightarrow> 'q handles option" where
  "conn_drop k w = counter_drop k (state_drop w)"

text \<open>\<open>QuicStream\<close>: \<open>From<(QuicConn, u64)>\<close>, which keeps the \<open>QuicConn\<close> and clones it for the counter, \<open>Clone\<close> and the drop.\<close>

definition stream_from :: "nat \<Rightarrow> stream_id \<Rightarrow> 'q handles \<Rightarrow> (nat \<times> 'q handles) option" where
  "stream_from k i w =
     map_option (\<lambda>w1.
       (hl_next w1, w1\<lparr>hl_streams := (hl_streams w1)(hl_next w1 \<mapsto> (1, i, k)), hl_next := hl_next w1 + 1, hl_created := hl_created w1 @ [i]\<rparr>))
     (conn_clone k w)"

definition stream_clone :: "nat \<Rightarrow> 'q handles \<Rightarrow> 'q handles option" where
  "stream_clone s w =
     (case hl_streams w s of
        None \<Rightarrow> None
      | Some (n, i, k) \<Rightarrow> map_option (\<lambda>w1. w1\<lparr>hl_streams := (hl_streams w1)(s \<mapsto> (n + 1, i, k))\<rparr>) (conn_clone k w))"

definition stream_counter_drop :: "nat \<Rightarrow> 'q handles \<Rightarrow> 'q handles option" where
  "stream_counter_drop s w =
     (case hl_streams w s of
        None \<Rightarrow> None
      | Some (n, i, k) \<Rightarrow>
          if n = 1
          then Option.bind (conn_clone k w) (\<lambda>w1.
                 conn_drop k (w1\<lparr>hl_tasks := hl_tasks w1 @ [CloseStream i k], hl_streams := (hl_streams w1)(s := None)\<rparr>))
          else Some (w\<lparr>hl_streams := (hl_streams w)(s \<mapsto> (n - 1, i, k))\<rparr>))"

definition stream_drop :: "nat \<Rightarrow> nat \<Rightarrow> 'q handles \<Rightarrow> 'q handles option" where
  "stream_drop k s w = Option.bind (conn_drop k w) (stream_counter_drop s)"

text \<open>
  \<open>open_stream\<close> and \<open>accept_stream\<close> of a \<open>QuicConn\<close>; \<open>accepted\<close> is the answer of the state's \<open>accept\<close>.
\<close>

definition stream_of_conn :: "nat \<Rightarrow> stream_id \<Rightarrow> 'q handles \<Rightarrow> (nat \<times> 'q handles) option" where
  "stream_of_conn k i w = Option.bind (conn_clone k w) (stream_from k i)"

definition quic_open_stream :: "'q quiche \<Rightarrow> nat \<Rightarrow> 'q handles \<Rightarrow> (nat io_result \<times> 'q handles) option" where
  "quic_open_stream api k w =
     (case open_stream api (hl_conn w) of
        (Ok i, c) \<Rightarrow> map_option (\<lambda>(s, w'). (Ok s, w')) (stream_of_conn k i (w\<lparr>hl_conn := c\<rparr>))
      | (Err e, c) \<Rightarrow> Some (Err e, w\<lparr>hl_conn := c\<rparr>)
      | (Panic, c) \<Rightarrow> Some (Panic, w\<lparr>hl_conn := c\<rparr>))"

definition quic_accept_stream :: "nat \<Rightarrow> stream_id option \<Rightarrow> 'q handles \<Rightarrow> (nat option \<times> 'q handles) option" where
  "quic_accept_stream k accepted w =
     (case accepted of
        Some i \<Rightarrow> map_option (\<lambda>(s, w'). (Some s, w')) (stream_of_conn k i w)
      | None \<Rightarrow> Some (None, w))"

text \<open>
  A spawned task runs to its end: it makes its call and drops what it owns. The task of \<open>Drop for
  QuicConnState\<close> unwraps the result of \<open>close\<close> and forgets its reference; when it panics, the unwinding
  drops it instead.
\<close>

definition run_task :: "'q quiche \<Rightarrow> close_task \<Rightarrow> 'q handles \<Rightarrow> 'q handles option" where
  "run_task api t w =
     (case t of
        CloseConn \<Rightarrow> Some (state_drop (w\<lparr>hl_conn := quic_conn_drop api (hl_conn w), hl_log := hl_log w @ [CallClose]\<rparr>))
      | RaiiClose \<Rightarrow>
          (case conn_close api False 0 ''raii drop'' (hl_conn w) of
             (Ok _, c) \<Rightarrow> Some (w\<lparr>hl_conn := c, hl_log := hl_log w @ [CallRaiiClose], hl_forgotten := hl_forgotten w + 1\<rparr>)
           | (_, c) \<Rightarrow> Some (state_drop (w\<lparr>hl_conn := c, hl_log := hl_log w @ [CallRaiiClose]\<rparr>)))
      | CloseStream i k \<Rightarrow> conn_drop k (w\<lparr>hl_conn := quic_stream_drop api i (hl_conn w), hl_log := hl_log w @ [CallCloseStream i]\<rparr>))"

text \<open>
  \<open>run_client_loop\<close> takes a \<open>QuicConn\<close> and clones it: the receive and the send loop own one each. The
  state of a connection that \<open>connect_with\<close> made becomes a \<open>QuicConn\<close>; \<open>connect\<close> gives a clone of it to the
  loops and returns it.
\<close>

definition run_client_loop :: "nat \<Rightarrow> 'q handles \<Rightarrow> 'q handles option" where
  "run_client_loop k w = conn_clone k w"

definition client_connected :: "'q handles \<Rightarrow> (nat \<times> 'q handles) option" where
  "client_connected w = (let (k, w1) = conn_from w in map_option (Pair k) (Option.bind (conn_clone k w1) (run_client_loop k)))"

text \<open>The executor runs the tasks in the order of their spawning, at most \<open>n\<close> of them.\<close>

fun run_tasks :: "'q quiche \<Rightarrow> nat \<Rightarrow> 'q handles \<Rightarrow> 'q handles option" where
  "run_tasks api 0 w = Some w"
| "run_tasks api (Suc n) w =
     (case hl_tasks w of
        [] \<Rightarrow> Some w
      | t # ts \<Rightarrow> Option.bind (run_task api t (w\<lparr>hl_tasks := ts\<rparr>)) (run_tasks api n))"

text \<open>
  The handles that a program owns: a \<open>QuicConnState\<close>, a \<open>QuicConn\<close>, a \<open>QuicStream\<close> with the counter of its
  \<open>QuicConn\<close>. The program clones and drops what it owns, the executor runs any task, and the connection
  changes in between.
\<close>

datatype quic_handle = HState | HConn nat | HStream nat nat

inductive handle_step :: "'q quiche \<Rightarrow> 'q handles \<times> quic_handle multiset \<Rightarrow> 'q handles \<times> quic_handle multiset \<Rightarrow> bool" for api where
  clone_state: "HState \<in># H \<Longrightarrow> handle_step api (w, H) (state_clone w, add_mset HState H)"
| drop_state: "handle_step api (w, add_mset HState H) (state_drop w, H)"
| from_state: "conn_from w = (k, w') \<Longrightarrow> handle_step api (w, add_mset HState H) (w', add_mset (HConn k) H)"
| clone_conn: "\<lbrakk> HConn k \<in># H; conn_clone k w = Some w' \<rbrakk> \<Longrightarrow> handle_step api (w, H) (w', add_mset (HConn k) H)"
| drop_conn: "conn_drop k w = Some w' \<Longrightarrow> handle_step api (w, add_mset (HConn k) H) (w', H)"
| opened: "\<lbrakk> HConn k \<in># H; quic_open_stream api k w = Some (Ok s, w') \<rbrakk> \<Longrightarrow> handle_step api (w, H) (w', add_mset (HStream k s) H)"
| accepted: "\<lbrakk> HConn k \<in># H; quic_accept_stream k (Some i) w = Some (Some s, w') \<rbrakk> \<Longrightarrow> handle_step api (w, H) (w', add_mset (HStream k s) H)"
| clone_stream: "\<lbrakk> HStream k s \<in># H; stream_clone s w = Some w' \<rbrakk> \<Longrightarrow> handle_step api (w, H) (w', add_mset (HStream k s) H)"
| stream_conn: "\<lbrakk> HStream k s \<in># H; conn_clone k w = Some w' \<rbrakk> \<Longrightarrow> handle_step api (w, H) (w', add_mset (HConn k) H)"
| drop_stream: "stream_drop k s w = Some w' \<Longrightarrow> handle_step api (w, add_mset (HStream k s) H) (w', H)"
| run: "\<lbrakk> hl_tasks w = ts @ t # us; run_task api t (w\<lparr>hl_tasks := ts @ us\<rparr>) = Some w' \<rbrakk> \<Longrightarrow> handle_step api (w, H) (w', H)"
| used: "handle_step api (w, H) (w\<lparr>hl_conn := c\<rparr>, H)"

abbreviation handle_reach :: "'q quiche \<Rightarrow> 'q conn_state \<Rightarrow> 'q handles \<Rightarrow> quic_handle multiset \<Rightarrow> bool" where
  "handle_reach api c w H \<equiv> (handle_step api)\<^sup>*\<^sup>* (handles_new c, {#HState#}) (w, H)"

section \<open>The counts\<close>

text \<open>
  A handle is made of references. The invariant says what the counts are when the references \<open>M\<close> are owned
  outside of the model's state, so that each operation is a transfer of references and its lemma says
  which: a live counter of a connection owns a reference to the state, a live counter of a stream and a
  task that closes a stream own a \<open>QuicConn\<close>, the other tasks and \<open>mem::forget\<close> own a reference to the state.
\<close>

datatype ref = RState | RCounter nat | RStream nat nat

fun handle_refs :: "quic_handle \<Rightarrow> ref multiset" where
  "handle_refs HState = {#RState#}"
| "handle_refs (HConn k) = {#RState, RCounter k#}"
| "handle_refs (HStream k s) = {#RState, RCounter k, RStream s k#}"

definition owned_refs :: "quic_handle multiset \<Rightarrow> ref multiset" where
  "owned_refs H = \<Sum>\<^sub># (image_mset handle_refs H)"

definition conn_streams :: "(nat \<rightharpoonup> nat \<times> stream_id \<times> nat) \<Rightarrow> nat \<Rightarrow> nat set" where
  "conn_streams S k = {s. \<exists>n i. S s = Some (n, i, k)}"

fun task_conn :: "nat \<Rightarrow> close_task \<Rightarrow> bool" where
  "task_conn k (CloseStream i k') \<longleftrightarrow> k' = k"
| "task_conn k _ \<longleftrightarrow> False"

definition raii_refs :: "'q handles \<Rightarrow> nat" where
  "raii_refs w = count_list (hl_tasks w) RaiiClose + hl_forgotten w"

definition live_tables_ok :: "'q handles \<Rightarrow> bool" where
  "live_tables_ok w \<longleftrightarrow>
     finite (dom (hl_counters w)) \<and> finite (dom (hl_streams w)) \<and>
     (\<forall>x. hl_counters w x \<noteq> None \<or> hl_streams w x \<noteq> None \<longrightarrow> x < hl_next w) \<and>
     (\<forall>k. hl_counters w k \<noteq> Some 0) \<and> (\<forall>s i k. hl_streams w s \<noteq> Some (0, i, k))"

definition strong_ok :: "'q handles \<Rightarrow> ref multiset \<Rightarrow> bool" where
  "strong_ok w M \<longleftrightarrow>
     0 < hl_strong w \<and> (raii_refs w = 0 \<or> raii_refs w = 1 \<and> hl_strong w = 1) \<and>
     count M RState + card (dom (hl_counters w)) + card (dom (hl_streams w)) + length (hl_tasks w) + hl_forgotten w = hl_strong w"

definition counters_ok :: "'q handles \<Rightarrow> ref multiset \<Rightarrow> bool" where
  "counters_ok w M \<longleftrightarrow>
     (\<forall>k. (case hl_counters w k of None \<Rightarrow> 0 | Some n \<Rightarrow> n)
          = count M (RCounter k) + card (conn_streams (hl_streams w) k) + length (filter (task_conn k) (hl_tasks w)))"

definition stream_counters_ok :: "'q handles \<Rightarrow> ref multiset \<Rightarrow> bool" where
  "stream_counters_ok w M \<longleftrightarrow>
     (\<forall>s k. count M (RStream s k) = (case hl_streams w s of None \<Rightarrow> 0 | Some (n, i, k') \<Rightarrow> if k' = k then n else 0))"

definition counts_ok :: "'q handles \<Rightarrow> ref multiset \<Rightarrow> bool" where
  "counts_ok w M \<longleftrightarrow> live_tables_ok w \<and> strong_ok w M \<and> counters_ok w M \<and> stream_counters_ok w M"

lemma owned_refs_simps [simp]:
  "owned_refs {#} = {#}" "owned_refs (add_mset h H) = handle_refs h + owned_refs H"
  by (simp_all add: owned_refs_def)

lemma conn_streams_upd [simp]:
  "conn_streams (S(s := None)) k = conn_streams S k - {s}"
  "conn_streams (S(s \<mapsto> (n, i, k'))) k = (if k' = k then insert s (conn_streams S k) else conn_streams S k - {s})"
  by (auto simp: conn_streams_def)

lemma finite_conn_streams [simp]: "finite (dom S) \<Longrightarrow> finite (conn_streams S k)"
  by (rule finite_subset [of _ "dom S"]) (auto simp: conn_streams_def)

lemma card_dom_remove:
  assumes "finite (dom m)" "m k = Some v"
  shows "Suc (card (dom (m(k := None)))) = card (dom m)"
proof -
  have "dom (m(k := None)) = dom m - {k}" "k \<in> dom m" using assms(2) by auto
  then show ?thesis using card_Suc_Diff1 [OF assms(1), of k] by simp
qed

lemma counts_new: "counts_ok (handles_new c) {#RState#}"
  by (simp add: counts_ok_def live_tables_ok_def strong_ok_def counters_ok_def stream_counters_ok_def handles_new_def raii_refs_def conn_streams_def)

lemmas state_defs = state_drop_def strong_dec_def last_check_def state_clone_def

text \<open>What the strong count depends on.\<close>

lemma strong_ok_same:
  "\<lbrakk> strong_ok w M; hl_strong w' = hl_strong w; count M' RState = count M RState; dom (hl_counters w') = dom (hl_counters w);
     dom (hl_streams w') = dom (hl_streams w); hl_tasks w' = hl_tasks w; hl_forgotten w' = hl_forgotten w \<rbrakk> \<Longrightarrow> strong_ok w' M'"
  by (simp add: strong_ok_def raii_refs_def)

lemma no_raii:
  "\<lbrakk> strong_ok w M; 0 < count M RState + card (dom (hl_counters w)) + card (dom (hl_streams w)) \<rbrakk> \<Longrightarrow> raii_refs w = 0"
  using count_le_length [of "hl_tasks w" RaiiClose] unfolding strong_ok_def raii_refs_def by linarith

lemma state_clone_counts:
  assumes "counts_ok w M" "0 < count M RState + card (dom (hl_counters w)) + card (dom (hl_streams w))"
  shows "counts_ok (state_clone w) (add_mset RState M)"
proof -
  have w: "strong_ok w M" using assms(1) by (simp add: counts_ok_def)
  have "raii_refs (state_clone w) = 0" using no_raii [OF w assms(2)] by (simp add: raii_refs_def state_clone_def)
  then have "strong_ok (state_clone w) (add_mset RState M)" using w by (simp add: strong_ok_def state_clone_def)
  with assms show ?thesis
    by (simp add: counts_ok_def live_tables_ok_def counters_ok_def stream_counters_ok_def state_clone_def)
qed

lemma state_drop_strong: "strong_ok w (add_mset RState M) \<Longrightarrow> strong_ok (state_drop w) M"
  using no_raii [of w "add_mset RState M"]
  by (cases "hl_strong w = 1") (auto simp: strong_ok_def state_defs raii_refs_def)

lemma state_drop_counts:
  assumes "counts_ok w (add_mset RState M)"
  shows "counts_ok (state_drop w) M"
proof -
  have "strong_ok (state_drop w) M" using assms unfolding counts_ok_def by (blast intro: state_drop_strong)
  with assms show ?thesis
    by (cases "hl_strong w = 1") (simp_all add: counts_ok_def live_tables_ok_def counters_ok_def stream_counters_ok_def state_defs)
qed

text \<open>A counter is live while a reference to it exists.\<close>

lemma counter_live:
  "\<lbrakk> counters_ok w M; RCounter k \<in># M \<or> s \<in> conn_streams (hl_streams w) k \<and> finite (dom (hl_streams w)) \<rbrakk> \<Longrightarrow> \<exists>n. hl_counters w k = Some n \<and> 0 < n"
  unfolding counters_ok_def
  by (drule spec [of _ k]) (auto simp: card_eq_0_iff count_eq_zero_iff split: option.splits)

lemma counter_clone_counts:
  assumes "counts_ok w M" "hl_counters w k = Some n"
  shows "\<exists>w'. counter_clone k w = Some w' \<and> counts_ok w' (add_mset (RCounter k) M) \<and> dom (hl_counters w') = dom (hl_counters w) \<and>
    w' = w\<lparr>hl_counters := hl_counters w'\<rparr>"
proof -
  let ?w = "w\<lparr>hl_counters := (hl_counters w)(k \<mapsto> n + 1)\<rparr>"
  have "dom (hl_counters ?w) = dom (hl_counters w)" using assms(2) by auto
  moreover have "live_tables_ok ?w" using assms by (auto simp: counts_ok_def live_tables_ok_def)
  moreover have "strong_ok ?w (add_mset (RCounter k) M)"
    using assms(1) calculation(1) unfolding counts_ok_def by (elim conjE strong_ok_same) simp_all
  moreover have "counters_ok ?w (add_mset (RCounter k) M)"
    unfolding counters_ok_def
  proof
    fix j
    show "(case hl_counters ?w j of None \<Rightarrow> 0 | Some n \<Rightarrow> n) = count (add_mset (RCounter k) M) (RCounter j) +
        card (conn_streams (hl_streams ?w) j) + length (filter (task_conn j) (hl_tasks ?w))"
      using assms by (cases "j = k") (auto simp: counts_ok_def counters_ok_def dest: spec [of _ j])
  qed
  moreover have "stream_counters_ok ?w (add_mset (RCounter k) M)" using assms by (simp add: counts_ok_def stream_counters_ok_def)
  ultimately show ?thesis using assms(2) by (simp add: counter_clone_def counts_ok_def)
qed

lemma counter_drop_counts:
  assumes "counts_ok w (add_mset (RCounter k) M)"
  shows "\<exists>w'. counter_drop k w = Some w' \<and> counts_ok w' M"
proof -
  obtain n where n: "hl_counters w k = Some n" "0 < n"
    using counter_live [of w "add_mset (RCounter k) M" k] assms by (auto simp: counts_ok_def)
  have refs: "(case hl_counters w j of None \<Rightarrow> 0 | Some n \<Rightarrow> n) = count (add_mset (RCounter k) M) (RCounter j) +
        card (conn_streams (hl_streams w) j) + length (filter (task_conn j) (hl_tasks w))" for j
    using assms by (simp add: counts_ok_def counters_ok_def)
  show ?thesis
  proof (cases "n = 1")
    case True
    let ?w = "(state_clone w)\<lparr>hl_tasks := hl_tasks w @ [CloseConn], hl_counters := (hl_counters w)(k := None)\<rparr>"
    have card: "Suc (card (dom (hl_counters ?w))) = card (dom (hl_counters w))"
      using card_dom_remove [of "hl_counters w" k n] n assms by (simp add: counts_ok_def live_tables_ok_def del: dom_fun_upd)
    have strong: "strong_ok w (add_mset (RCounter k) M)" using assms by (simp add: counts_ok_def)
    moreover have "raii_refs w = 0" using no_raii [OF strong] card by simp
    ultimately have "strong_ok ?w (add_mset RState M)"
      using card unfolding strong_ok_def by (elim conjE) (simp add: state_clone_def raii_refs_def del: dom_fun_upd)
    moreover have "counters_ok ?w (add_mset RState M)"
      unfolding counters_ok_def
    proof
      fix j
      show "(case hl_counters ?w j of None \<Rightarrow> 0 | Some n \<Rightarrow> n) = count (add_mset RState M) (RCounter j) +
          card (conn_streams (hl_streams ?w) j) + length (filter (task_conn j) (hl_tasks ?w))"
        using refs [of j] n True by (cases "j = k") (simp_all add: state_clone_def)
    qed
    moreover have "live_tables_ok ?w" "stream_counters_ok ?w (add_mset RState M)"
      using assms by (auto simp: counts_ok_def live_tables_ok_def stream_counters_ok_def state_clone_def)
    ultimately have "counts_ok (state_drop ?w) M" using state_drop_counts counts_ok_def by blast
    then show ?thesis using n True by (simp add: counter_drop_def Let_def state_clone_def)
  next
    case False
    let ?w = "w\<lparr>hl_counters := (hl_counters w)(k \<mapsto> n - 1)\<rparr>"
    have "dom (hl_counters ?w) = dom (hl_counters w)" using n by auto
    then have "strong_ok ?w M" using assms unfolding counts_ok_def by (elim conjE strong_ok_same) simp_all
    moreover have "counters_ok ?w M"
      unfolding counters_ok_def
    proof
      fix j
      show "(case hl_counters ?w j of None \<Rightarrow> 0 | Some n \<Rightarrow> n) = count M (RCounter j) +
          card (conn_streams (hl_streams ?w) j) + length (filter (task_conn j) (hl_tasks ?w))"
        using refs [of j] n by (cases "j = k") auto
    qed
    moreover have "live_tables_ok ?w" "stream_counters_ok ?w M"
      using assms n False by (auto simp: counts_ok_def live_tables_ok_def stream_counters_ok_def)
    ultimately show ?thesis using n False by (simp add: counter_drop_def counts_ok_def)
  qed
qed

lemma conn_clone_counts:
  assumes "counts_ok w M" "hl_counters w k = Some n"
  shows "\<exists>w'. conn_clone k w = Some w' \<and> counts_ok w' ({#RState, RCounter k#} + M) \<and> dom (hl_counters w') = dom (hl_counters w) \<and>
    w' = w\<lparr>hl_strong := hl_strong w + 1, hl_counters := hl_counters w'\<rparr>"
proof -
  have "0 < card (dom (hl_counters w))" using assms by (auto simp: counts_ok_def live_tables_ok_def card_gt_0_iff)
  with state_clone_counts [OF assms(1)] have c: "counts_ok (state_clone w) (add_mset RState M)" by simp
  have "hl_counters (state_clone w) k = Some n" using assms(2) by (simp add: state_clone_def)
  from counter_clone_counts [OF c this] show ?thesis
    unfolding conn_clone_def by (elim exE conjE, intro exI conjI) (auto simp: state_clone_def add_mset_commute)
qed

lemma conn_drop_counts:
  assumes "counts_ok w ({#RState, RCounter k#} + M)"
  shows "\<exists>w'. conn_drop k w = Some w' \<and> counts_ok w' M"
  unfolding conn_drop_def using state_drop_counts [of w "add_mset (RCounter k) M"] assms
  by (intro counter_drop_counts) simp

lemma fresh_next: "live_tables_ok w \<Longrightarrow> hl_counters w (hl_next w) = None \<and> hl_streams w (hl_next w) = None"
  unfolding live_tables_ok_def by (meson less_irrefl)

lemma conn_from_counts:
  assumes "counts_ok w (add_mset RState M)" "conn_from w = (k, w')"
  shows "counts_ok w' ({#RState, RCounter k#} + M)"
proof -
  have c: "counts_ok (state_clone w) (add_mset RState (add_mset RState M))" by (rule state_clone_counts [OF assms(1)]) simp
  have w': "k = hl_next w" "w' = (state_clone w)\<lparr>hl_counters := (hl_counters w)(hl_next w \<mapsto> 1), hl_next := hl_next w + 1, hl_froms := hl_froms w + 1\<rparr>"
    using assms(2) by (auto simp: conn_from_def Let_def state_clone_def)
  have new: "hl_counters w k = None" using assms(1) w'(1) fresh_next by (auto simp: counts_ok_def)
  then have "k \<notin> dom (hl_counters w)" "finite (dom (hl_counters w))" using assms(1) by (auto simp: counts_ok_def live_tables_ok_def)
  then have "card (dom (hl_counters w')) = Suc (card (dom (hl_counters w)))" by (simp add: w')
  then have "strong_ok w' ({#RState, RCounter k#} + M)"
    using c unfolding counts_ok_def strong_ok_def by (elim conjE) (simp add: w'(2) state_clone_def raii_refs_def)
  moreover have "counters_ok w' ({#RState, RCounter k#} + M)"
    unfolding counters_ok_def
  proof
    fix j
    show "(case hl_counters w' j of None \<Rightarrow> 0 | Some n \<Rightarrow> n) = count ({#RState, RCounter k#} + M) (RCounter j) +
        card (conn_streams (hl_streams w') j) + length (filter (task_conn j) (hl_tasks w'))"
      using assms(1) new by (cases "j = k") (auto simp: counts_ok_def counters_ok_def w' state_clone_def dest: spec [of _ j])
  qed
  moreover have "live_tables_ok w'" "stream_counters_ok w' ({#RState, RCounter k#} + M)"
    using assms(1) by (auto simp: counts_ok_def live_tables_ok_def stream_counters_ok_def w' state_clone_def less_Suc_eq)
  ultimately show ?thesis by (simp add: counts_ok_def)
qed

text \<open>A new counter of a stream takes over the references of a \<open>QuicConn\<close>, and the last drop gives them to the task.\<close>

lemma new_stream_counts:
  assumes "counts_ok w ({#RState, RCounter k#} + M)" "s = hl_next w"
  shows "counts_ok (w\<lparr>hl_streams := (hl_streams w)(s \<mapsto> (1, i, k)), hl_next := s + 1, hl_created := ids\<rparr>) (add_mset (RStream s k) M)"
    (is "counts_ok ?w _")
proof -
  have new: "hl_streams w s = None" using assms fresh_next by (auto simp: counts_ok_def)
  have fin: "finite (dom (hl_streams w))" using assms by (simp add: counts_ok_def live_tables_ok_def)
  from new have "s \<notin> dom (hl_streams w)" by auto
  then have "card (dom (hl_streams ?w)) = Suc (card (dom (hl_streams w)))" using fin by simp
  then have "strong_ok ?w (add_mset (RStream s k) M)"
    using assms(1) unfolding counts_ok_def strong_ok_def by (elim conjE) (simp add: raii_refs_def)
  moreover have "counters_ok ?w (add_mset (RStream s k) M)"
    unfolding counters_ok_def
  proof
    fix j
    have "s \<notin> conn_streams (hl_streams w) j" using new by (simp add: conn_streams_def)
    then show "(case hl_counters ?w j of None \<Rightarrow> 0 | Some n \<Rightarrow> n) = count (add_mset (RStream s k) M) (RCounter j) +
        card (conn_streams (hl_streams ?w) j) + length (filter (task_conn j) (hl_tasks ?w))"
      using assms(1) fin by (cases "j = k") (auto simp: counts_ok_def counters_ok_def dest: spec [of _ j])
  qed
  moreover have "live_tables_ok ?w" using assms by (auto simp: counts_ok_def live_tables_ok_def less_Suc_eq)
  moreover have "stream_counters_ok ?w (add_mset (RStream s k) M)"
    using assms(1) new by (auto simp: counts_ok_def stream_counters_ok_def)
  ultimately show ?thesis by (simp add: counts_ok_def)
qed

lemma stream_of_conn_counts:
  assumes "counts_ok w M" "hl_counters w k = Some n"
  shows "\<exists>s w'. stream_of_conn k i w = Some (s, w') \<and> counts_ok w' ({#RState, RCounter k, RStream s k#} + M)"
proof -
  obtain w1 where w1: "conn_clone k w = Some w1" "counts_ok w1 ({#RState, RCounter k#} + M)" "dom (hl_counters w1) = dom (hl_counters w)"
    using conn_clone_counts [OF assms] by blast
  then obtain n1 where n1: "hl_counters w1 k = Some n1" using assms(2) by blast
  obtain w2 where w2: "conn_clone k w1 = Some w2" "counts_ok w2 ({#RState, RCounter k#} + ({#RState, RCounter k#} + M))"
    using conn_clone_counts [OF w1(2) n1] by blast
  from new_stream_counts [OF w2(2) refl, of "hl_created w2 @ [i]" i] w1(1) w2(1) show ?thesis
    by (simp add: stream_of_conn_def stream_from_def add_mset_commute)
qed

lemma stream_of_ref:
  "\<lbrakk> stream_counters_ok w M; RStream s k \<in># M \<rbrakk> \<Longrightarrow> \<exists>n i. hl_streams w s = Some (n, i, k) \<and> n = count M (RStream s k)"
  unfolding stream_counters_ok_def
  by (drule spec [of _ s], drule spec [of _ k]) (auto simp: count_eq_zero_iff split: option.splits if_splits)

lemma count_stream_counts:
  assumes "counts_ok w M" "hl_streams w s = Some (n, i, k)" "0 < m"
    and "\<forall>r. r \<noteq> RStream s k \<longrightarrow> count M' r = count M r" "count M' (RStream s k) = m"
  shows "counts_ok (w\<lparr>hl_streams := (hl_streams w)(s \<mapsto> (m, i, k))\<rparr>) M'" (is "counts_ok ?w _")
proof -
  have "dom (hl_streams ?w) = dom (hl_streams w)" using assms(2) by auto
  then have "strong_ok ?w M'" using assms(1,4) unfolding counts_ok_def by (elim conjE strong_ok_same) simp_all
  moreover have "conn_streams (hl_streams ?w) j = conn_streams (hl_streams w) j" for j
    using assms(2) by (auto simp: conn_streams_def)
  then have "counters_ok ?w M'" using assms(1,4) by (simp add: counts_ok_def counters_ok_def)
  moreover have "live_tables_ok ?w" using assms(1,2,3) by (auto simp: counts_ok_def live_tables_ok_def)
  moreover have "stream_counters_ok ?w M'"
    using assms(1,2,4,5) by (auto simp: counts_ok_def stream_counters_ok_def split: option.splits)
  ultimately show ?thesis by (simp add: counts_ok_def)
qed

lemma free_stream_counts:
  assumes "counts_ok w (add_mset (RStream s k) M)" "hl_streams w s = Some (1, i, k)"
  shows "counts_ok (w\<lparr>hl_tasks := hl_tasks w @ [CloseStream i k], hl_streams := (hl_streams w)(s := None)\<rparr>) M" (is "counts_ok ?w _")
proof -
  have s: "s \<in> dom (hl_streams w)" "finite (dom (hl_streams w))" using assms by (auto simp: counts_ok_def live_tables_ok_def)
  have card: "Suc (card (dom (hl_streams ?w))) = card (dom (hl_streams w))"
    using card_dom_remove [of "hl_streams w" s] s(2) assms(2) by (simp del: dom_fun_upd)
  then have "strong_ok ?w M"
    using assms(1) unfolding counts_ok_def strong_ok_def by (elim conjE) (simp add: raii_refs_def del: dom_fun_upd)
  moreover have "counters_ok ?w M"
    unfolding counters_ok_def
  proof
    fix j
    have "s \<in> conn_streams (hl_streams w) j \<longleftrightarrow> j = k" using assms(2) by (auto simp: conn_streams_def)
    moreover have "Suc (card (conn_streams (hl_streams w) k - {s})) = card (conn_streams (hl_streams w) k)"
      using s assms(2) by (intro card_Suc_Diff1) (auto simp: conn_streams_def intro!: finite_conn_streams [unfolded conn_streams_def])
    ultimately show "(case hl_counters ?w j of None \<Rightarrow> 0 | Some n \<Rightarrow> n) = count M (RCounter j) +
        card (conn_streams (hl_streams ?w) j) + length (filter (task_conn j) (hl_tasks ?w))"
      using assms(1) by (cases "j = k") (auto simp: counts_ok_def counters_ok_def dest: spec [of _ j])
  qed
  moreover have "live_tables_ok ?w" using assms(1) by (auto simp: counts_ok_def live_tables_ok_def)
  moreover have "stream_counters_ok ?w M"
    unfolding stream_counters_ok_def
  proof (intro allI)
    fix t j
    have "count (add_mset (RStream s k) M) (RStream t j) = (case hl_streams w t of None \<Rightarrow> 0 | Some (n, i, k') \<Rightarrow> if k' = j then n else 0)"
      using assms(1) by (simp add: counts_ok_def stream_counters_ok_def)
    then show "count M (RStream t j) = (case hl_streams ?w t of None \<Rightarrow> 0 | Some (n, i, k') \<Rightarrow> if k' = j then n else 0)"
      using assms(2) by (cases "t = s"; cases "j = k") auto
  qed
  ultimately show ?thesis by (simp add: counts_ok_def)
qed

lemma stream_counter_drop_counts:
  assumes "counts_ok w (add_mset (RStream s k) M)"
  shows "\<exists>w'. stream_counter_drop s w = Some w' \<and> counts_ok w' M"
proof -
  obtain n i where n: "hl_streams w s = Some (n, i, k)" "n = Suc (count M (RStream s k))"
    using stream_of_ref [of w "add_mset (RStream s k) M" s k] assms by (auto simp: counts_ok_def)
  show ?thesis
  proof (cases "n = 1")
    case True
    have "s \<in> conn_streams (hl_streams w) k" using n by (simp add: conn_streams_def)
    then obtain m where "hl_counters w k = Some m"
      using counter_live [of w "add_mset (RStream s k) M" k s] assms by (auto simp: counts_ok_def live_tables_ok_def)
    then obtain w1 where w1: "conn_clone k w = Some w1" "counts_ok w1 (add_mset (RStream s k) ({#RState, RCounter k#} + M))"
        "w1 = w\<lparr>hl_strong := hl_strong w + 1, hl_counters := hl_counters w1\<rparr>"
      using conn_clone_counts [OF assms, of k m] by (auto simp: add_mset_commute)
    have "hl_streams w1 s = Some (1, i, k)" using n True by (subst w1(3)) simp
    from conn_drop_counts [OF free_stream_counts [OF w1(2) this]] n True w1(1) show ?thesis
      by (simp add: stream_counter_drop_def)
  next
    case False
    have "counts_ok (w\<lparr>hl_streams := (hl_streams w)(s \<mapsto> (n - 1, i, k))\<rparr>) M"
      by (rule count_stream_counts [OF assms n(1)]) (use False n(2) in auto)
    moreover have "stream_counter_drop s w = Some (w\<lparr>hl_streams := (hl_streams w)(s \<mapsto> (n - 1, i, k))\<rparr>)"
      using n(1) False by (simp add: stream_counter_drop_def del: One_nat_def)
    ultimately show ?thesis by blast
  qed
qed

lemma stream_drop_counts:
  assumes "counts_ok w (handle_refs (HStream k s) + M)"
  shows "\<exists>w'. stream_drop k s w = Some w' \<and> counts_ok w' M"
proof -
  obtain w1 where "conn_drop k w = Some w1" "counts_ok w1 (add_mset (RStream s k) M)"
    using conn_drop_counts [of w k "add_mset (RStream s k) M"] assms by (auto simp: add_mset_commute)
  then show ?thesis using stream_counter_drop_counts [of w1 s k M] by (simp add: stream_drop_def)
qed

lemma stream_clone_counts:
  assumes "counts_ok w M" "RStream s k \<in># M"
  shows "\<exists>w'. stream_clone s w = Some w' \<and> counts_ok w' (handle_refs (HStream k s) + M)"
proof -
  obtain n i where n: "hl_streams w s = Some (n, i, k)" "n = count M (RStream s k)"
    using stream_of_ref [OF _ assms(2), of w] assms(1) by (auto simp: counts_ok_def)
  have "s \<in> conn_streams (hl_streams w) k" using n by (simp add: conn_streams_def)
  then obtain m where "hl_counters w k = Some m"
    using counter_live [of w M k s] assms by (auto simp: counts_ok_def live_tables_ok_def)
  then obtain w1 where w1: "conn_clone k w = Some w1" "counts_ok w1 ({#RState, RCounter k#} + M)"
      "w1 = w\<lparr>hl_strong := hl_strong w + 1, hl_counters := hl_counters w1\<rparr>"
    using conn_clone_counts [OF assms(1), of k m] by auto
  have "hl_streams w1 s = Some (n, i, k)" using n by (subst w1(3)) simp
  from count_stream_counts [OF w1(2) this, of "n + 1" "handle_refs (HStream k s) + M"] n w1(1) show ?thesis
    by (simp add: stream_clone_def)
qed

text \<open>Taking a task out of the pool hands its references to its run.\<close>

fun task_refs :: "close_task \<Rightarrow> ref multiset" where
  "task_refs (CloseStream i k) = {#RState, RCounter k#}"
| "task_refs _ = {#RState#}"

lemma take_task_counts:
  assumes "counts_ok w M" "hl_tasks w = ts @ t # us"
  shows "counts_ok (w\<lparr>hl_tasks := ts @ us\<rparr>) (task_refs t + M)" (is "counts_ok ?w ?M")
proof -
  have "strong_ok ?w ?M"
    using assms unfolding counts_ok_def strong_ok_def by (cases t) (auto simp: raii_refs_def)
  moreover have "counters_ok ?w ?M"
    unfolding counters_ok_def
  proof
    fix j
    show "(case hl_counters ?w j of None \<Rightarrow> 0 | Some n \<Rightarrow> n) = count ?M (RCounter j) +
        card (conn_streams (hl_streams ?w) j) + length (filter (task_conn j) (hl_tasks ?w))"
      using assms by (cases t) (auto simp: counts_ok_def counters_ok_def dest: spec [of _ j])
  qed
  moreover have "live_tables_ok ?w" using assms(1) by (simp add: counts_ok_def live_tables_ok_def)
  moreover have "stream_counters_ok ?w ?M" using assms(1) by (cases t) (auto simp: counts_ok_def stream_counters_ok_def)
  ultimately show ?thesis by (simp add: counts_ok_def)
qed

lemma counts_ok_history [simp]:
  "counts_ok (w\<lparr>hl_conn := c\<rparr>) M = counts_ok w M" "counts_ok (w\<lparr>hl_log := l\<rparr>) M = counts_ok w M"
  by (simp_all add: counts_ok_def live_tables_ok_def strong_ok_def counters_ok_def stream_counters_ok_def raii_refs_def)

text \<open>The promise of \<open>quiche\<close>: closing succeeds or reports \<open>Done\<close>, when the connection is closed already.\<close>

definition close_ok :: "'q quiche \<Rightarrow> bool" where
  "close_ok api \<longleftrightarrow> (\<forall>app err reason q. fst (q_close api app err reason q) \<in> {Inl Done, Inr ()})"

lemma close_ok_conn:
  assumes "close_ok api"
  shows "\<exists>c'. conn_close api app err reason c = (Ok (), c')"
proof -
  obtain r q where r: "q_close api app err reason (cs_quiche c) = (r, q)" by fastforce
  then have "r = Inl Done \<or> r = Inr ()" using assms unfolding close_ok_def by (metis empty_iff fst_conv insert_iff)
  then show ?thesis using r by (auto simp: conn_close_def quiche_op_def)
qed

lemma run_task_counts:
  assumes "counts_ok w M" "hl_tasks w = ts @ t # us" "close_ok api"
  shows "\<exists>w'. run_task api t (w\<lparr>hl_tasks := ts @ us\<rparr>) = Some w' \<and> counts_ok w' M"
proof (cases t)
  case CloseConn
  then show ?thesis using take_task_counts [OF assms(1,2)] by (simp add: run_task_def state_drop_counts)
next
  case (CloseStream i k)
  then show ?thesis using take_task_counts [OF assms(1,2)]
    by (simp add: run_task_def conn_drop_counts)
next
  case RaiiClose
  obtain c' where c': "conn_close api False 0 ''raii drop'' (hl_conn w) = (Ok (), c')" using close_ok_conn [OF assms(3)] by blast
  have strong: "strong_ok w M" using assms(1) by (simp add: counts_ok_def)
  have "0 < raii_refs w" using assms(2) RaiiClose by (simp add: raii_refs_def)
  with strong have "raii_refs w = 1" "hl_strong w = 1" by (auto simp: strong_ok_def)
  let ?w = "w\<lparr>hl_tasks := ts @ us, hl_conn := c', hl_log := hl_log w @ [CallRaiiClose], hl_forgotten := hl_forgotten w + 1\<rparr>"
  have "strong_ok ?w M" using strong \<open>raii_refs w = 1\<close> \<open>hl_strong w = 1\<close> assms(2) RaiiClose
    by (auto simp: strong_ok_def raii_refs_def)
  moreover have "counters_ok ?w M" using assms(1,2) RaiiClose by (simp add: counts_ok_def counters_ok_def)
  ultimately have "counts_ok ?w M" using assms(1) by (simp add: counts_ok_def live_tables_ok_def stream_counters_ok_def)
  then show ?thesis using c' RaiiClose by (simp add: run_task_def)
qed

lemma owned_refs_in: "\<lbrakk> h \<in># H; r \<in># handle_refs h \<rbrakk> \<Longrightarrow> r \<in># owned_refs H"
  by (induction H) auto

lemma owned_counter: "\<lbrakk> counts_ok w (owned_refs H); HConn k \<in># H \<or> HStream k s \<in># H \<rbrakk> \<Longrightarrow> \<exists>n. hl_counters w k = Some n"
  using counter_live [of w "owned_refs H" k] owned_refs_in [of _ H "RCounter k"] unfolding counts_ok_def by fastforce

text \<open>What a program owns can always be used: no operation meets a freed counter.\<close>

lemma owned_usable:
  assumes "counts_ok w (owned_refs H)"
  shows "HConn k \<in># H \<or> HStream k s \<in># H \<Longrightarrow> \<exists>w'. conn_clone k w = Some w' \<and> counts_ok w' (handle_refs (HConn k) + owned_refs H)"
    and "HConn k \<in># H \<Longrightarrow> \<exists>s w'. stream_of_conn k i w = Some (s, w') \<and> counts_ok w' (handle_refs (HStream k s) + owned_refs H)"
    and "HStream k s \<in># H \<Longrightarrow> \<exists>w'. stream_clone s w = Some w' \<and> counts_ok w' (handle_refs (HStream k s) + owned_refs H)"
    and "HState \<in># H \<Longrightarrow> counts_ok (state_clone w) (handle_refs HState + owned_refs H)"
proof -
  show "\<exists>w'. conn_clone k w = Some w' \<and> counts_ok w' (handle_refs (HConn k) + owned_refs H)" if own: "HConn k \<in># H \<or> HStream k s \<in># H"
    using owned_counter [OF assms own] conn_clone_counts [OF assms] by fastforce
  show "\<exists>s w'. stream_of_conn k i w = Some (s, w') \<and> counts_ok w' (handle_refs (HStream k s) + owned_refs H)" if own: "HConn k \<in># H"
    using owned_counter [OF assms disjI1 [OF own]] stream_of_conn_counts [OF assms] by fastforce
  show "\<exists>w'. stream_clone s w = Some w' \<and> counts_ok w' (handle_refs (HStream k s) + owned_refs H)" if own: "HStream k s \<in># H"
    by (rule stream_clone_counts [OF assms owned_refs_in [OF own]]) simp
  show "counts_ok (state_clone w) (handle_refs HState + owned_refs H)" if own: "HState \<in># H"
    using state_clone_counts [OF assms] owned_refs_in [OF own, of RState] by (simp add: count_greater_zero_iff [symmetric] del: count_greater_zero_iff)
qed

lemma handle_step_counts:
  assumes "handle_step api x y" "close_ok api" "counts_ok (fst x) (owned_refs (snd x))"
  shows "counts_ok (fst y) (owned_refs (snd y))"
  using assms
proof (induction rule: handle_step.induct)
  case (opened k H w s w')
  obtain i c where "open_stream api (hl_conn w) = (Ok i, c)"
    using opened by (auto simp: quic_open_stream_def split: prod.splits outcome.splits)
  then show ?case using owned_usable(2) [of "w\<lparr>hl_conn := c\<rparr>" H k i] opened by (auto simp: quic_open_stream_def)
next
  case (accepted k H i w s w')
  then show ?case using owned_usable(2) [of w H k i] by (auto simp: quic_accept_stream_def)
next
  case (run w ts t us w' H)
  then show ?case using run_task_counts [of w "owned_refs H" ts t us api] by auto
next
  case (clone_conn k H w w')
  then show ?case using owned_usable(1) [of w H k] by auto
next
  case (stream_conn k s H w w')
  then show ?case using owned_usable(1) [of w H k s] by auto
next
  case (clone_stream k s H w w')
  then show ?case using owned_usable(3) [of w H k s] by auto
next
  case (drop_conn k w w' H)
  then show ?case using conn_drop_counts [of w k "owned_refs H"] by auto
next
  case (drop_stream k s w w' H)
  then show ?case using stream_drop_counts [of w k s "owned_refs H"] by auto
next
  case (from_state w k w' H)
  then show ?case using conn_from_counts [of w "owned_refs H" k w'] by auto
qed (auto simp: owned_usable(4) [simplified] state_drop_counts)

lemma handle_reach_counts:
  assumes "handle_reach api c w H" "close_ok api"
  shows "counts_ok w (owned_refs H)"
proof -
  have "counts_ok (fst y) (owned_refs (snd y))" if "(handle_step api)\<^sup>*\<^sup>* (handles_new c, {#HState#}) y" for y
    using that by (induction rule: rtranclp_induct) (auto simp: counts_new intro: handle_step_counts [OF _ assms(2)])
  from this [OF assms(1)] show ?thesis by simp
qed

section \<open>The history\<close>

text \<open>
  Every \<open>QuicConn::from\<close> is still live, or its task waits, or its \<open>close\<close> has been called; the same for the
  counters of every stream.
\<close>

definition id_streams :: "(nat \<rightharpoonup> nat \<times> stream_id \<times> nat) \<Rightarrow> stream_id \<Rightarrow> nat set" where
  "id_streams S i = {s. \<exists>n k. S s = Some (n, i, k)}"

fun closes_stream :: "stream_id \<Rightarrow> close_task \<Rightarrow> bool" where
  "closes_stream i (CloseStream i' k) \<longleftrightarrow> i' = i"
| "closes_stream i _ \<longleftrightarrow> False"

definition history_ok :: "'q handles \<Rightarrow> bool" where
  "history_ok w \<longleftrightarrow>
     hl_froms w = card (dom (hl_counters w)) + count_list (hl_tasks w) CloseConn + count_list (hl_log w) CallClose \<and>
     (\<forall>i. count_list (hl_created w) i
          = card (id_streams (hl_streams w) i) + length (filter (closes_stream i) (hl_tasks w)) + count_list (hl_log w) (CallCloseStream i))"

lemma id_streams_upd [simp]:
  "id_streams (S(s := None)) i = id_streams S i - {s}"
  "id_streams (S(s \<mapsto> (n, j, k))) i = (if j = i then insert s (id_streams S i) else id_streams S i - {s})"
  by (auto simp: id_streams_def)

lemma finite_id_streams [simp]: "finite (dom S) \<Longrightarrow> finite (id_streams S i)"
  by (rule finite_subset [of _ "dom S"]) (auto simp: id_streams_def)

lemma history_new: "history_ok (handles_new c)"
  by (simp add: history_ok_def handles_new_def id_streams_def)

lemma state_clone_history [simp]: "history_ok (state_clone w) = history_ok w" "live_tables_ok (state_clone w) = live_tables_ok w"
  by (simp_all add: history_ok_def live_tables_ok_def state_clone_def)

lemma state_drop_history [simp]: "history_ok (state_drop w) = history_ok w" "live_tables_ok (state_drop w) = live_tables_ok w"
  by (cases "hl_strong w = 1"; simp add: history_ok_def live_tables_ok_def state_defs)+

lemma conn_clone_history: "\<lbrakk> history_ok w; conn_clone k w = Some w' \<rbrakk> \<Longrightarrow> history_ok w'"
  by (auto simp: conn_clone_def counter_clone_def history_ok_def state_clone_def insert_absorb domI)

lemma counter_drop_history:
  assumes "history_ok w" "live_tables_ok w" "counter_drop k w = Some w'"
  shows "history_ok w' \<and> live_tables_ok w'"
proof -
  obtain n where n: "hl_counters w k = Some n" using assms(3) by (auto simp: counter_drop_def)
  show ?thesis
  proof (cases "n = 1")
    case True
    let ?w = "(state_clone w)\<lparr>hl_tasks := hl_tasks w @ [CloseConn], hl_counters := (hl_counters w)(k := None)\<rparr>"
    have "Suc (card (dom (hl_counters ?w))) = card (dom (hl_counters w))"
      using card_dom_remove [of "hl_counters w" k n] n assms(2) by (simp add: live_tables_ok_def del: dom_fun_upd)
    then have "history_ok ?w" using assms(1) by (simp add: history_ok_def state_clone_def del: dom_fun_upd)
    moreover have "live_tables_ok ?w" using assms(2) by (auto simp: live_tables_ok_def state_clone_def)
    moreover have "w' = state_drop ?w" using assms(3) n True by (simp add: counter_drop_def state_clone_def)
    ultimately show ?thesis by simp
  next
    case False
    then have "w' = w\<lparr>hl_counters := (hl_counters w)(k \<mapsto> n - 1)\<rparr>" using assms(3) n by (simp add: counter_drop_def)
    moreover have "n \<noteq> 0" using n assms(2) unfolding live_tables_ok_def by metis
    ultimately show ?thesis using assms(1,2) n False by (auto simp: history_ok_def live_tables_ok_def insert_absorb domI)
  qed
qed

lemma conn_drop_history: "\<lbrakk> history_ok w; live_tables_ok w; conn_drop k w = Some w' \<rbrakk> \<Longrightarrow> history_ok w' \<and> live_tables_ok w'"
  unfolding conn_drop_def by (erule (1) counter_drop_history [of "state_drop w", simplified])

lemma conn_clone_tables: "\<lbrakk> live_tables_ok w; conn_clone k w = Some w' \<rbrakk> \<Longrightarrow> live_tables_ok w' \<and> hl_streams w' = hl_streams w"
  by (auto simp: conn_clone_def counter_clone_def live_tables_ok_def state_clone_def split: if_splits)

lemma stream_counter_drop_history:
  assumes "history_ok w" "live_tables_ok w" "stream_counter_drop s w = Some w'"
  shows "history_ok w'"
proof -
  obtain n i k where n: "hl_streams w s = Some (n, i, k)" using assms(3) by (auto simp: stream_counter_drop_def split: option.splits)
  show ?thesis
  proof (cases "n = 1")
    case True
    obtain w1 where w1: "conn_clone k w = Some w1"
        "conn_drop k (w1\<lparr>hl_tasks := hl_tasks w1 @ [CloseStream i k], hl_streams := (hl_streams w1)(s := None)\<rparr>) = Some w'"
      using assms(3) n True by (auto simp: stream_counter_drop_def split: bind_splits)
    have t1: "live_tables_ok w1" "hl_streams w1 s = Some (1, i, k)" "history_ok w1"
      using conn_clone_tables [OF assms(2) w1(1)] conn_clone_history [OF assms(1) w1(1)] n True by auto
    then have fin: "finite (id_streams (hl_streams w1) j)" for j by (simp add: live_tables_ok_def)
    have s: "s \<in> id_streams (hl_streams w1) j \<longleftrightarrow> j = i" for j using t1(2) by (auto simp: id_streams_def)
    then have "Suc (card (id_streams (hl_streams w1) i - {s})) = card (id_streams (hl_streams w1) i)"
      using fin by (intro card_Suc_Diff1) auto
    then have "history_ok (w1\<lparr>hl_tasks := hl_tasks w1 @ [CloseStream i k], hl_streams := (hl_streams w1)(s := None)\<rparr>)"
      using t1(3) s unfolding history_ok_def by (auto simp: fun_upd_def [symmetric] simp del: fun_upd_apply)
    moreover have "live_tables_ok (w1\<lparr>hl_tasks := hl_tasks w1 @ [CloseStream i k], hl_streams := (hl_streams w1)(s := None)\<rparr>)"
      using t1(1) by (auto simp: live_tables_ok_def)
    ultimately show ?thesis using conn_drop_history w1(2) by blast
  next
    case False
    then have "w' = w\<lparr>hl_streams := (hl_streams w)(s \<mapsto> (n - 1, i, k))\<rparr>" using assms(3) n by (simp add: stream_counter_drop_def)
    moreover have "id_streams (hl_streams w) j = (if i = j then insert s (id_streams (hl_streams w) j) else id_streams (hl_streams w) j - {s})" for j
      using n by (auto simp: id_streams_def)
    ultimately show ?thesis using assms(1) by (auto simp: history_ok_def)
  qed
qed

lemma stream_from_history:
  assumes "history_ok w" "live_tables_ok w" "stream_of_conn k i w = Some (s, w')"
  shows "history_ok w'"
proof -
  obtain w1 w2 where w: "conn_clone k w = Some w1" "conn_clone k w1 = Some w2" "s = hl_next w2"
      "w' = w2\<lparr>hl_streams := (hl_streams w2)(hl_next w2 \<mapsto> (1, i, k)), hl_next := hl_next w2 + 1, hl_created := hl_created w2 @ [i]\<rparr>"
    using assms(3) by (auto simp: stream_of_conn_def stream_from_def split: bind_splits)
  have w2: "history_ok w2" "live_tables_ok w2"
    using conn_clone_history conn_clone_tables w(1,2) assms(1,2) by blast+
  then have "hl_streams w2 (hl_next w2) = None" using fresh_next by blast
  then have "hl_next w2 \<notin> id_streams (hl_streams w2) j" for j by (simp add: id_streams_def)
  then show ?thesis using w2 by (auto simp: w(4) history_ok_def live_tables_ok_def)
qed

lemma stream_clone_history:
  assumes "history_ok w" "stream_clone s w = Some w'" "live_tables_ok w"
  shows "history_ok w'"
proof -
  obtain n i k w1 where w: "hl_streams w s = Some (n, i, k)" "conn_clone k w = Some w1"
      "w' = w1\<lparr>hl_streams := (hl_streams w1)(s \<mapsto> (n + 1, i, k))\<rparr>"
    using assms(2) by (auto simp: stream_clone_def split: option.splits)
  have "history_ok w1" "hl_streams w1 s = Some (n, i, k)"
    using conn_clone_history [OF assms(1) w(2)] conn_clone_tables [OF assms(3) w(2)] w(1) by simp_all
  moreover from this have "id_streams (hl_streams w1) j = (if i = j then insert s (id_streams (hl_streams w1) j) else id_streams (hl_streams w1) j - {s})" for j
    by (auto simp: id_streams_def)
  ultimately show ?thesis by (auto simp: w(3) history_ok_def)
qed

lemma conn_from_history: "\<lbrakk> history_ok w; live_tables_ok w; conn_from w = (k, w') \<rbrakk> \<Longrightarrow> history_ok w'"
  using fresh_next [of w] by (auto simp: conn_from_def Let_def state_clone_def history_ok_def live_tables_ok_def domIff)

lemma run_task_history:
  assumes "history_ok w" "live_tables_ok w" "hl_tasks w = ts @ t # us" "run_task api t (w\<lparr>hl_tasks := ts @ us\<rparr>) = Some w'" "close_ok api"
  shows "history_ok w'"
proof (cases t)
  case CloseConn
  let ?w = "w\<lparr>hl_tasks := ts @ us, hl_conn := quic_conn_drop api (hl_conn w), hl_log := hl_log w @ [CallClose]\<rparr>"
  have "history_ok ?w" using assms(1,3) CloseConn by (simp add: history_ok_def)
  then show ?thesis using assms(4) CloseConn by (auto simp: run_task_def)
next
  case RaiiClose
  then show ?thesis using assms(1,3,4) close_ok_conn [OF assms(5), of False 0 "''raii drop''" "hl_conn w"]
    by (auto simp: run_task_def history_ok_def)
next
  case (CloseStream i k)
  let ?w = "w\<lparr>hl_tasks := ts @ us, hl_conn := quic_stream_drop api i (hl_conn w), hl_log := hl_log w @ [CallCloseStream i]\<rparr>"
  have "history_ok ?w" using assms(1,3) CloseStream by (auto simp: history_ok_def)
  moreover have "live_tables_ok ?w" using assms(2) by (simp add: live_tables_ok_def)
  moreover have "conn_drop k ?w = Some w'" using assms(4) CloseStream by (simp add: run_task_def)
  ultimately show ?thesis using conn_drop_history by blast
qed

lemma stream_drop_history: "\<lbrakk> history_ok w; live_tables_ok w; stream_drop k s w = Some w' \<rbrakk> \<Longrightarrow> history_ok w'"
  unfolding stream_drop_def
  by (drule iffD1 [OF bind_eq_Some_conv], elim exE conjE, drule (2) conn_drop_history, elim conjE, rule stream_counter_drop_history)

lemma handle_step_history:
  assumes "handle_step api x y" "close_ok api" "history_ok (fst x)" "live_tables_ok (fst x)"
  shows "history_ok (fst y)"
  using assms
proof (induction rule: handle_step.induct)
  case (opened k H w s w')
  obtain i c where "open_stream api (hl_conn w) = (Ok i, c)"
    using opened by (auto simp: quic_open_stream_def split: prod.splits outcome.splits)
  moreover have "history_ok (w\<lparr>hl_conn := c\<rparr>)" "live_tables_ok (w\<lparr>hl_conn := c\<rparr>)" using opened.prems by (simp_all add: history_ok_def live_tables_ok_def)
  ultimately show ?case using stream_from_history opened.hyps(2) by (fastforce simp: quic_open_stream_def)
next
  case (accepted k H i w s w')
  then show ?case using stream_from_history by (fastforce simp: quic_accept_stream_def)
next
  case (used w H c)
  then show ?case by (simp add: history_ok_def)
qed (auto intro: conn_clone_history conn_from_history stream_clone_history stream_drop_history run_task_history dest: conn_drop_history)

text \<open>
  While there is one \<open>QuicConn::from\<close>, the calls come in this order: the streams, the connection, and the
  close of the last reference. Only the tasks make calls.
\<close>

definition call_order :: "drop_call list \<Rightarrow> nat \<Rightarrow> bool" where
  "call_order log forgotten \<longleftrightarrow>
     (\<exists>ids m. log = map CallCloseStream ids @ replicate m CallClose @ replicate forgotten CallRaiiClose)"

definition log_ok :: "'q handles \<Rightarrow> bool" where
  "log_ok w \<longleftrightarrow> (hl_froms w \<le> 1 \<longrightarrow> call_order (hl_log w) (hl_forgotten w))"

definition quiet :: "'q handles \<Rightarrow> 'q handles \<Rightarrow> bool" where
  "quiet w w' \<longleftrightarrow> hl_log w' = hl_log w \<and> hl_forgotten w' = hl_forgotten w \<and> hl_froms w' = hl_froms w \<and> hl_created w' = hl_created w"

lemma quiet_log: "\<lbrakk> quiet w w'; log_ok w \<rbrakk> \<Longrightarrow> log_ok w'"
  by (auto simp: quiet_def log_ok_def)

lemma quiet_trans: "\<lbrakk> quiet w w1; quiet w1 w2 \<rbrakk> \<Longrightarrow> quiet w w2"
  by (simp add: quiet_def)

lemma state_quiet: "quiet w (state_clone w)" "quiet w (state_drop w)"
  by (simp_all add: quiet_def state_defs)

lemma counter_drop_quiet: "counter_drop k w = Some w' \<Longrightarrow> quiet w w'"
  by (auto simp: counter_drop_def quiet_def state_defs Let_def)

lemma conn_clone_quiet: "conn_clone k w = Some w' \<Longrightarrow> quiet w w'"
  by (auto simp: conn_clone_def counter_clone_def quiet_def state_defs)

lemma conn_drop_quiet: "conn_drop k w = Some w' \<Longrightarrow> quiet w w'"
  unfolding conn_drop_def by (rule quiet_trans [OF state_quiet(2) counter_drop_quiet])

lemma stream_drop_quiet:
  assumes "stream_drop k s w = Some w'"
  shows "quiet w w'"
proof -
  obtain w1 where w1: "conn_drop k w = Some w1" "stream_counter_drop s w1 = Some w'"
    using assms by (auto simp: stream_drop_def split: bind_splits)
  have "quiet w1 w'" using w1(2)
    by (auto simp: stream_counter_drop_def quiet_def split: option.splits if_splits bind_splits
      dest!: conn_clone_quiet [unfolded quiet_def] conn_drop_quiet [unfolded quiet_def])
  with conn_drop_quiet [OF w1(1)] show ?thesis by (rule quiet_trans)
qed

lemma stream_clone_quiet: "stream_clone s w = Some w' \<Longrightarrow> quiet w w'"
  by (auto simp: stream_clone_def quiet_def split: option.splits dest!: conn_clone_quiet [unfolded quiet_def])

lemma stream_of_conn_log: "\<lbrakk> stream_of_conn k i w = Some (s, w'); log_ok w \<rbrakk> \<Longrightarrow> log_ok w'"
  by (auto simp: stream_of_conn_def stream_from_def log_ok_def split: bind_splits dest!: conn_clone_quiet [unfolded quiet_def])

lemma conn_from_log: "\<lbrakk> conn_from w = (k, w'); log_ok w \<rbrakk> \<Longrightarrow> log_ok w'"
  by (auto simp: conn_from_def log_ok_def state_clone_def Let_def)

lemma no_raii_task:
  assumes "strong_ok w M" "hl_tasks w = ts @ t # us" "t \<noteq> RaiiClose"
  shows "raii_refs w = 0"
  using assms count_le_length [of ts RaiiClose] count_le_length [of us RaiiClose] by (auto simp: strong_ok_def raii_refs_def)

lemma run_task_log:
  assumes "counts_ok w M" "history_ok w" "log_ok w" "close_ok api"
    and "hl_tasks w = ts @ t # us" "run_task api t (w\<lparr>hl_tasks := ts @ us\<rparr>) = Some w'"
  shows "log_ok w'"
proof (cases t)
  case RaiiClose
  then have "hl_log w' = hl_log w @ [CallRaiiClose]" "hl_forgotten w' = hl_forgotten w + 1" "hl_froms w' = hl_froms w"
    using assms(6) close_ok_conn [OF assms(4), of False 0 "''raii drop''" "hl_conn w"] by (auto simp: run_task_def)
  then show ?thesis using assms(3) unfolding log_ok_def call_order_def by (metis Suc_eq_plus1 append_assoc replicate_append_same replicate_Suc)
next
  case CloseConn
  have "hl_forgotten w = 0" using no_raii_task [OF _ assms(5)] assms(1) CloseConn by (auto simp: counts_ok_def raii_refs_def)
  moreover have "hl_log w' = hl_log w @ [CallClose]" "hl_forgotten w' = hl_forgotten w" "hl_froms w' = hl_froms w"
    using assms(6) CloseConn by (auto simp: run_task_def state_defs)
  ultimately show ?thesis using assms(3) unfolding log_ok_def call_order_def by (metis append.right_neutral append_assoc replicate_0 replicate_append_same replicate_Suc)
next
  case (CloseStream i k)
  have "hl_forgotten w = 0" using no_raii_task [OF _ assms(5)] assms(1) CloseStream by (auto simp: counts_ok_def raii_refs_def)
  moreover have w': "hl_log w' = hl_log w @ [CallCloseStream i]" "hl_forgotten w' = hl_forgotten w" "hl_froms w' = hl_froms w"
    using assms(6) CloseStream conn_drop_quiet by (fastforce simp: run_task_def quiet_def)+
  moreover have "hl_counters w k \<noteq> None"
    using assms(1,5) CloseStream by (auto simp: counts_ok_def counters_ok_def dest: spec [of _ k] split: option.splits)
  then have "0 < card (dom (hl_counters w))" using assms(1) by (auto simp: counts_ok_def live_tables_ok_def card_gt_0_iff)
  then have "count_list (hl_log w) CallClose = 0" if "hl_froms w' \<le> 1" using assms(2) that w'(3) by (simp add: history_ok_def)
  moreover have "m = 0" if "hl_log w = map CallCloseStream ids @ replicate m CallClose @ []" "count_list (hl_log w) CallClose = 0" for ids m
    using that by (cases m) auto
  ultimately show ?thesis using assms(3) unfolding log_ok_def call_order_def
    by (metis (no_types, lifting) append.right_neutral le_trans list.simps(8,9) map_append replicate_0)
qed

lemma handle_step_log:
  assumes "handle_step api x y" "close_ok api" "counts_ok (fst x) (owned_refs (snd x))" "history_ok (fst x)" "log_ok (fst x)"
  shows "log_ok (fst y)"
  using assms
proof (induction rule: handle_step.induct)
  case (opened k H w s w')
  obtain i c where "open_stream api (hl_conn w) = (Ok i, c)"
    using opened by (auto simp: quic_open_stream_def split: prod.splits outcome.splits)
  moreover have "log_ok (w\<lparr>hl_conn := c\<rparr>)" using opened.prems by (simp add: log_ok_def)
  ultimately show ?case using stream_of_conn_log opened.hyps(2) by (fastforce simp: quic_open_stream_def)
next
  case (accepted k H i w s w')
  then show ?case using stream_of_conn_log by (fastforce simp: quic_accept_stream_def)
next
  case (used w H c)
  then show ?case by (simp add: log_ok_def)
next
  case (run w ts t us w' H)
  then show ?case using run_task_log [of w "owned_refs H" api ts t us w'] by simp
qed (auto intro: quiet_log [OF state_quiet(1)] quiet_log [OF state_quiet(2)] quiet_log [OF conn_clone_quiet] quiet_log [OF conn_drop_quiet]
  quiet_log [OF stream_drop_quiet] quiet_log [OF stream_clone_quiet] conn_from_log)

lemma counts_tables: "counts_ok w M \<Longrightarrow> live_tables_ok w"
  by (simp add: counts_ok_def)

definition handles_inv :: "'q handles \<Rightarrow> quic_handle multiset \<Rightarrow> bool" where
  "handles_inv w H \<longleftrightarrow> counts_ok w (owned_refs H) \<and> history_ok w \<and> log_ok w"

lemma handle_reach_inv:
  assumes "handle_reach api c w H" "close_ok api"
  shows "handles_inv w H"
proof -
  have "handles_inv (fst y) (snd y)" if "(handle_step api)\<^sup>*\<^sup>* (handles_new c, {#HState#}) y" for y
    using that
  proof (induction rule: rtranclp_induct)
    case base
    have "log_ok (handles_new c)" by (simp add: log_ok_def call_order_def handles_new_def)
    then show ?case by (simp add: handles_inv_def counts_new history_new)
  next
    case (step y z)
    then show ?case unfolding handles_inv_def
      using handle_step_counts [OF step(2) assms(2)] handle_step_history [OF step(2) assms(2)] handle_step_log [OF step(2) assms(2)] counts_tables
      by blast
  qed
  from this [OF assms(1)] show ?thesis by simp
qed

lemma call_counts:
  "count_list (map CallCloseStream ids) CallClose = 0" "count_list (map CallCloseStream ids) (CallCloseStream i) = count_list ids i"
  "count_list (replicate m CallClose) CallClose = m" "count_list (replicate m CallClose) (CallCloseStream i) = 0"
proof -
  show "count_list (map CallCloseStream ids) CallClose = 0" "count_list (map CallCloseStream ids) (CallCloseStream i) = count_list ids i"
    by (induction ids) auto
  show "count_list (replicate m CallClose) CallClose = m" "count_list (replicate m CallClose) (CallCloseStream i) = 0"
    by (induction m) auto
qed

text \<open>At rest, without handles and tasks, one reference is left: the forgotten one.\<close>

lemma at_rest:
  assumes "handles_inv w {#}" "hl_tasks w = []" "hl_froms w \<le> 1"
  shows "hl_strong w = 1 \<and>
    (\<exists>ids. hl_log w = map CallCloseStream ids @ replicate (hl_froms w) CallClose @ [CallRaiiClose] \<and> mset ids = mset (hl_created w))"
proof -
  have c: "counts_ok w {#}" "history_ok w" "log_ok w" using assms(1) by (simp_all add: handles_inv_def)
  have S: "hl_streams w = Map.empty"
  proof
    fix s
    have "hl_streams w s \<noteq> Some (n, i, k)" for n i k
    proof
      assume some: "hl_streams w s = Some (n, i, k)"
      have "count {#} (RStream s k) = (case hl_streams w s of None \<Rightarrow> 0 | Some (n, i, k') \<Rightarrow> if k' = k then n else 0)"
        using c(1) unfolding counts_ok_def stream_counters_ok_def by blast
      then have "n = 0" using some by simp
      with some c(1) show False by (simp add: counts_ok_def live_tables_ok_def)
    qed
    then show "hl_streams w s = None" by (cases "hl_streams w s") auto
  qed
  have C: "hl_counters w = Map.empty"
  proof
    fix k
    have "(case hl_counters w k of None \<Rightarrow> 0 | Some n \<Rightarrow> n) = 0"
      using c(1) S assms(2) by (simp add: counts_ok_def counters_ok_def conn_streams_def)
    moreover have "hl_counters w k \<noteq> Some 0" using c(1) by (simp add: counts_ok_def live_tables_ok_def)
    ultimately show "hl_counters w k = None" by (cases "hl_counters w k") auto
  qed
  have strong: "hl_strong w = 1" "hl_forgotten w = 1"
    using c(1) assms(2) S C by (auto simp: counts_ok_def strong_ok_def raii_refs_def)
  obtain ids m where log: "hl_log w = map CallCloseStream ids @ replicate m CallClose @ [CallRaiiClose]"
    using c(3) assms(3) strong(2) by (auto simp: log_ok_def call_order_def)
  have "m = hl_froms w" using c(2) C assms(2) log by (simp add: history_ok_def call_counts)
  moreover have "mset ids = mset (hl_created w)"
    using c(2) S assms(2) log by (intro multiset_eqI) (simp add: history_ok_def id_streams_def count_mset call_counts)
  ultimately show ?thesis using strong(1) log by blast
qed

text \<open>
  The tasks run out: a live counter stands for two tasks to come, its own and that of the last reference,
  and the last reference is dropped once.
\<close>

definition task_bound :: "'q handles \<Rightarrow> nat" where
  "task_bound w = 2 * card (dom (hl_counters w)) + length (hl_tasks w) + (1 - raii_refs w)"

lemma state_drop_bound: "strong_ok w (add_mset RState M) \<Longrightarrow> task_bound (state_drop w) = task_bound w"
  using no_raii [of w "add_mset RState M"]
  by (cases "hl_strong w = 1") (simp_all add: task_bound_def state_defs raii_refs_def)

lemma counter_drop_bound:
  assumes "counts_ok w (add_mset (RCounter k) M)" "counter_drop k w = Some w'"
  shows "task_bound w' \<le> task_bound w"
proof -
  obtain n where n: "hl_counters w k = Some n" using assms(2) by (auto simp: counter_drop_def)
  have card: "Suc (card (dom ((hl_counters w)(k := None)))) = card (dom (hl_counters w))"
    using card_dom_remove [of "hl_counters w" k n] n assms(1) by (simp add: counts_ok_def live_tables_ok_def del: dom_fun_upd)
  have strong: "strong_ok w (add_mset (RCounter k) M)" using assms(1) by (simp add: counts_ok_def)
  have raii: "raii_refs w = 0" using no_raii [OF strong] card by simp
  show ?thesis
  proof (cases "n = 1")
    case True
    let ?w = "(state_clone w)\<lparr>hl_tasks := hl_tasks w @ [CloseConn], hl_counters := (hl_counters w)(k := None)\<rparr>"
    have "strong_ok ?w (add_mset RState M)"
      using strong raii card unfolding strong_ok_def by (elim conjE) (simp add: state_clone_def raii_refs_def del: dom_fun_upd)
    from state_drop_bound [OF this] have "task_bound w' = task_bound ?w"
      using assms(2) n True by (simp add: counter_drop_def state_clone_def)
    then show ?thesis using card raii by (simp add: task_bound_def raii_refs_def state_clone_def del: dom_fun_upd)
  next
    case False
    then have "w' = w\<lparr>hl_counters := (hl_counters w)(k \<mapsto> n - 1)\<rparr>" using assms(2) n by (simp add: counter_drop_def)
    then show ?thesis using n by (simp add: task_bound_def raii_refs_def insert_absorb domI)
  qed
qed

lemma run_task_bound:
  assumes "counts_ok w M" "close_ok api" "hl_tasks w = t # us" "run_task api t (w\<lparr>hl_tasks := us\<rparr>) = Some w'"
  shows "task_bound w' < task_bound w"
proof -
  have take: "counts_ok (w\<lparr>hl_tasks := us\<rparr>) (task_refs t + M)" using take_task_counts [OF assms(1), of "[]" t us] assms(3) by simp
  show ?thesis
  proof (cases t)
    case RaiiClose
    then show ?thesis using assms(3,4) close_ok_conn [OF assms(2), of False 0 "''raii drop''" "hl_conn w"]
      by (auto simp: run_task_def task_bound_def raii_refs_def)
  next
    case CloseConn
    let ?w = "w\<lparr>hl_tasks := us, hl_conn := quic_conn_drop api (hl_conn w), hl_log := hl_log w @ [CallClose]\<rparr>"
    have "counts_ok ?w (add_mset RState M)" using take CloseConn by simp
    then have "task_bound (state_drop ?w) = task_bound ?w" using state_drop_bound counts_ok_def by blast
    then show ?thesis using assms(3,4) CloseConn by (auto simp: run_task_def task_bound_def raii_refs_def)
  next
    case (CloseStream i k)
    let ?w = "w\<lparr>hl_tasks := us, hl_conn := quic_stream_drop api i (hl_conn w), hl_log := hl_log w @ [CallCloseStream i]\<rparr>"
    have c: "counts_ok ?w (add_mset RState (add_mset (RCounter k) M))" using take CloseStream by simp
    then have "task_bound (state_drop ?w) = task_bound ?w" using state_drop_bound counts_ok_def by blast
    moreover have "counter_drop k (state_drop ?w) = Some w'" using assms(4) CloseStream by (simp add: run_task_def conn_drop_def)
    then have "task_bound w' \<le> task_bound (state_drop ?w)" using counter_drop_bound [OF state_drop_counts [OF c]] by blast
    moreover have "task_bound ?w < task_bound w" using assms(3) CloseStream by (simp add: task_bound_def raii_refs_def)
    ultimately show ?thesis by linarith
  qed
qed

lemma run_task_keeps:
  assumes "run_task api t w = Some w'"
  shows "hl_froms w' = hl_froms w \<and> hl_created w' = hl_created w"
  using assms by (auto simp: run_task_def state_defs split: close_task.splits prod.splits outcome.splits dest!: conn_drop_quiet [unfolded quiet_def])

lemma run_tasks_end:
  assumes "handle_reach api c w H" "close_ok api" "task_bound w \<le> n"
  shows "\<exists>w'. run_tasks api n w = Some w' \<and> hl_tasks w' = [] \<and> handle_reach api c w' H \<and> hl_froms w' = hl_froms w \<and> hl_created w' = hl_created w"
  using assms(1,3)
proof (induction n arbitrary: w)
  case 0
  then show ?case by (simp add: task_bound_def)
next
  case (Suc n)
  show ?case
  proof (cases "hl_tasks w")
    case Nil
    then show ?thesis using Suc.prems(1) by simp
  next
    case (Cons t us)
    have counts: "counts_ok w (owned_refs H)" using handle_reach_inv [OF Suc.prems(1) assms(2)] by (simp add: handles_inv_def)
    obtain w1 where w1: "run_task api t (w\<lparr>hl_tasks := us\<rparr>) = Some w1"
      using run_task_counts [OF counts, of "[]" t us] Cons assms(2) by auto
    have "handle_step api (w, H) (w1, H)" using handle_step.run [of w "[]" t us api w1 H] Cons w1 by simp
    with Suc.prems(1) have "handle_reach api c w1 H" by (rule rtranclp.rtrancl_into_rtrancl)
    moreover have "task_bound w1 \<le> n" using run_task_bound [OF counts assms(2) Cons w1] Suc.prems(2) by simp
    ultimately show ?thesis using Suc.IH [of w1] w1 Cons run_task_keeps [OF w1] by simp
  qed
qed

section \<open>Properties\<close>


text \<open>A program that makes a \<open>QuicConn\<close>, accepts the stream 4 on it, and still owns both.\<close>

definition sample_handles :: "sample_q handles" where
  "sample_handles = snd (the (stream_of_conn 0 4 (snd (conn_from (handles_new (conn_new sample_quiche 0 [] 100 5))))))"

lemma sample_close_ok: "close_ok sample_quiche"
  by (auto simp: close_ok_def sample_quiche_def)

lemmas handle_evals = handles_new_def conn_from_def stream_of_conn_def stream_from_def conn_clone_def counter_clone_def state_clone_def
  conn_drop_def counter_drop_def stream_drop_def stream_counter_drop_def state_drop_def strong_dec_def last_check_def Let_def

lemma sample_handles_reach: "handle_reach sample_quiche (conn_new sample_quiche 0 [] 100 5) sample_handles {#HStream 0 1, HConn 0#}"
proof -
  let ?c = "conn_new sample_quiche 0 [] 100 5"
  let ?w = "snd (conn_from (handles_new ?c))"
  have "handle_step sample_quiche (handles_new ?c, {#HState#}) (?w, {#HConn 0#})"
    by (rule handle_step.from_state [of "handles_new ?c" 0 ?w sample_quiche "{#}"]) (simp add: conn_from_def handles_new_def state_clone_def)
  moreover have "handle_step sample_quiche (?w, {#HConn 0#}) (sample_handles, {#HStream 0 1, HConn 0#})"
    by (rule handle_step.accepted [where i = 4]) (simp_all add: quic_accept_stream_def sample_handles_def handle_evals)
  ultimately show ?thesis by simp
qed




text \<open>
  A \<open>QuicConn\<close> that is owned keeps the connection open, so the loops of a client do: they own two clones
  until an error ends them, and dropping every other handle closes nothing.
\<close>

lemma owned_conn_keeps_open:
  assumes "handle_reach api c w H" "close_ok api" "HConn k \<in># H" "hl_froms w \<le> 1"
  shows "CallClose \<notin> set (hl_log w) \<and> CloseConn \<notin> set (hl_tasks w) \<and> raii_refs w = 0"
proof -
  have inv: "counts_ok w (owned_refs H)" "history_ok w" using handle_reach_inv [OF assms(1,2)] by (simp_all add: handles_inv_def)
  have "hl_counters w k \<noteq> None" using owned_counter [OF inv(1) disjI1 [OF assms(3)]] by auto
  then have card: "0 < card (dom (hl_counters w))" using inv(1) by (auto simp: counts_ok_def live_tables_ok_def card_gt_0_iff)
  then have "count_list (hl_tasks w) CloseConn = 0" "count_list (hl_log w) CallClose = 0"
    using inv(2) assms(4) by (simp_all add: history_ok_def)
  moreover have "raii_refs w = 0" using no_raii inv(1) card by (auto simp: counts_ok_def)
  ultimately show ?thesis by (simp add: count_list_0_iff)
qed

lemma client_drop_keeps_open:
  assumes "client_connected (handles_new c) = Some (k, w)" "conn_drop k w = Some w'" "close_ok api"
  shows "handle_reach api c w' {#HConn k, HConn k#} \<and> hl_log w' = [] \<and> hl_tasks w' = []"
proof -
  obtain w1 where w1: "conn_from (handles_new c) = (k, w1)" using assms(1) by (auto simp: client_connected_def Let_def split: prod.splits)
  then obtain w2 where w2: "conn_clone k w1 = Some w2" "conn_clone k w2 = Some w"
    using assms(1) by (auto simp: client_connected_def run_client_loop_def split: bind_splits)
  have "handle_step api (handles_new c, {#HState#}) (w1, {#HConn k#})" by (rule handle_step.from_state [of _ k w1 api "{#}"]) (rule w1)
  moreover have "handle_step api (w1, {#HConn k#}) (w2, {#HConn k, HConn k#})" by (rule handle_step.clone_conn) (simp_all add: w2)
  moreover have "handle_step api (w2, {#HConn k, HConn k#}) (w, {#HConn k, HConn k, HConn k#})" by (rule handle_step.clone_conn) (simp_all add: w2)
  moreover have "handle_step api (w, {#HConn k, HConn k, HConn k#}) (w', {#HConn k, HConn k#})" by (rule handle_step.drop_conn [OF assms(2)])
  ultimately have "handle_reach api c w' {#HConn k, HConn k#}" by (meson converse_rtranclp_into_rtranclp rtranclp.rtrancl_refl)
  moreover have "hl_log w' = [] \<and> hl_tasks w' = []" using w1 w2 assms(2) by (auto simp: handle_evals)
  ultimately show ?thesis by blast
qed

text \<open>
  The test of the strong count and the drop of the field are two steps: when two threads drop the last two
  references, both may see two, and the state is freed without a close.
\<close>

lemma concurrent_drops_skip_close:
  assumes "hl_strong w = 2"
  shows "hl_strong (strong_dec (strong_dec (last_check (last_check w)))) = 0 \<and> hl_tasks (strong_dec (strong_dec (last_check (last_check w)))) = hl_tasks w"
  using assms by (simp add: last_check_def strong_dec_def)

text \<open>\<open>close\<close> wakes nobody: a task that waits to send the next packet does not learn of it.\<close>

lemma close_wakes_nobody: "cs_mediator (snd (conn_close api app err reason c)) = cs_mediator c"
  by (auto simp: conn_close_def quiche_op_def split: prod.splits sum.splits quiche_error.splits)

end
