(* ===== verification/Heap_Hooks.thy ===== *)
theory Heap_Hooks
  imports Profiler
begin

text \<open>
  The heap profiler behind the global allocator, on many threads and with the allocations that it makes
  itself. \<open>crates/pprof/src/c/mod.rs\<close> and \<open>external.cpp\<close> give it a recursive mutex around the blocks, one
  around the unwinder, and a counter per thread that tells a call of a hook from a call inside a hook.
  A call of \<open>register\<close>, \<open>unregister\<close> or \<open>report\<close> (\<open>profiler/heap.rs\<close>) is an activation that moves in atomic
  steps; growing a vector or the hash map, or dropping a block, is a new activation on top of it.
\<close>

section \<open>The recursive mutex and the guard of reentrancy\<close>

record recursive_mutex =
  rm_owner :: "nat option"
  rm_count :: nat

definition rm_create :: recursive_mutex where
  "rm_create = \<lparr>rm_owner = None, rm_count = 0\<rparr>"

text \<open>\<open>None\<close>: the thread has to wait.\<close>

definition rm_lock :: "nat \<Rightarrow> recursive_mutex \<Rightarrow> recursive_mutex option" where
  "rm_lock t m =
     (case rm_owner m of
        None \<Rightarrow> Some \<lparr>rm_owner = Some t, rm_count = 1\<rparr>
      | Some u \<Rightarrow> if u = t then Some (m\<lparr>rm_count := rm_count m + 1\<rparr>) else None)"

text \<open>\<open>None\<close>: undefined, the thread does not own the mutex.\<close>

definition rm_unlock :: "nat \<Rightarrow> recursive_mutex \<Rightarrow> recursive_mutex option" where
  "rm_unlock t m =
     (if rm_owner m = Some t
      then Some (if rm_count m = 1 then rm_create else m\<lparr>rm_count := rm_count m - 1\<rparr>)
      else None)"

section \<open>Activations\<close>

text \<open>
  Where a call of \<open>register\<close> stands: at \<open>Reentrancy::new\<close>, at the lock of the unwinder, in \<open>get_backtrace\<close>, at
  the lock of the blocks with the frames, at the insertion, at the release of the lock, at the two atomic
  additions, at the drop of the guard; the flag says whether the block was recorded.
\<close>

datatype reg_pc = RegEnter | RegBtLock | RegTrace | RegLock "nat list" | RegInsert "nat list" | RegUnlock | RegCount | RegSize | RegLeave bool

text \<open>
  \<open>unregister\<close> and then \<open>System.dealloc\<close>: at the lock, at the removal, at the release with whether there was a
  block, whose drop frees its frames, at the two atomic subtractions, at the release of the memory.
\<close>

datatype unreg_pc = UnregLock | UnregRemove | UnregUnlock bool | UnregCount | UnregSize | UnregFree

text \<open>
  \<open>report\<close>: at \<open>Reentrancy::new\<close>, at the lock of the blocks, in \<open>snapshot\<close>, at the release, in the loop with
  the number of blocks left, in \<open>frames_to_symbols\<close> under the lock of the unwinder, at the drop of the guard.
\<close>

datatype rep_pc = RepEnter | RepLock | RepSnapshot | RepUnlock nat | RepBody nat | RepSymbols nat | RepLeave

text \<open>An activation with its pointer and size.\<close>

datatype hook_call = Reg reg_pc nat nat | Unreg unreg_pc nat nat | Rep rep_pc

text \<open>
  The shared state: the profiler, the two mutexes, the counter of every thread, the activations of every
  thread with the running one first, and the allocator: the size of a live pointer and the thread in whose
  hook it is. \<open>hk_counted\<close> and \<open>hk_sized\<close> are the history of the atomic counters: the pointers that are
  counted in them.
\<close>

record hooks =
  hk_heap :: heap_profiler
  hk_mutex :: recursive_mutex
  hk_backtrace :: recursive_mutex
  hk_depth :: "nat \<Rightarrow> nat"
  hk_stack :: "nat \<Rightarrow> hook_call list"
  hk_live :: "nat \<rightharpoonup> nat \<times> nat option"
  hk_counted :: "nat set"
  hk_sized :: "nat set"

definition hooks_new :: hooks where
  "hooks_new = \<lparr>hk_heap = heap_profiler_new, hk_mutex = rm_create, hk_backtrace = rm_create, hk_depth = (\<lambda>_. 0), hk_stack = (\<lambda>_. []),
     hk_live = Map.empty, hk_counted = {}, hk_sized = {}\<rparr>"

text \<open>\<open>Reentrancy::new\<close> and its drop on the thread \<open>t\<close>.\<close>

definition guard_new :: "nat \<Rightarrow> hooks \<Rightarrow> bool \<times> hooks" where
  "guard_new t w = (reentrancy_ok (hk_depth w t), w\<lparr>hk_depth := (hk_depth w)(t := hk_depth w t + 1)\<rparr>)"

definition guard_drop :: "nat \<Rightarrow> hooks \<Rightarrow> hooks" where
  "guard_drop t w = w\<lparr>hk_depth := (hk_depth w)(t := hk_depth w t - 1)\<rparr>"

definition lock_blocks :: "nat \<Rightarrow> hooks \<Rightarrow> hooks option" where
  "lock_blocks t w = map_option (\<lambda>m. w\<lparr>hk_mutex := m\<rparr>) (rm_lock t (hk_mutex w))"

definition unlock_blocks :: "nat \<Rightarrow> hooks \<Rightarrow> hooks option" where
  "unlock_blocks t w = map_option (\<lambda>m. w\<lparr>hk_mutex := m\<rparr>) (rm_unlock t (hk_mutex w))"

definition backtrace_lock :: "nat \<Rightarrow> hooks \<Rightarrow> hooks option" where
  "backtrace_lock t w = map_option (\<lambda>m. w\<lparr>hk_backtrace := m\<rparr>) (rm_lock t (hk_backtrace w))"

definition backtrace_unlock :: "nat \<Rightarrow> hooks \<Rightarrow> hooks option" where
  "backtrace_unlock t w = map_option (\<lambda>m. w\<lparr>hk_backtrace := m\<rparr>) (rm_unlock t (hk_backtrace w))"

text \<open>
  One step of an activation: the activation after it, \<open>None\<close> when it returns, and the state. \<open>frames\<close> is what
  the unwinder gave, \<open>again\<close> what the report answered. The step of the whole is \<open>None\<close> when the thread waits.
\<close>

fun reg_advance :: "nat \<Rightarrow> nat list \<Rightarrow> reg_pc \<Rightarrow> nat \<Rightarrow> nat \<Rightarrow> hooks \<Rightarrow> (reg_pc option \<times> hooks) option" where
  "reg_advance t frames RegEnter ptr sz w = (let (ok, w') = guard_new t w in Some (Some (if ok then RegBtLock else RegLeave False), w'))"
| "reg_advance t frames RegBtLock ptr sz w = map_option (Pair (Some RegTrace)) (backtrace_lock t w)"
| "reg_advance t frames RegTrace ptr sz w = map_option (Pair (Some (RegLock frames))) (backtrace_unlock t w)"
| "reg_advance t frames (RegLock bt) ptr sz w = map_option (Pair (Some (RegInsert bt))) (lock_blocks t w)"
| "reg_advance t frames (RegInsert bt) ptr sz w =
     Some (Some RegUnlock, w\<lparr>hk_heap := (hk_heap w)\<lparr>hp_blocks := (hp_blocks (hk_heap w))(ptr \<mapsto> \<lparr>hb_size = sz, hb_frames = bt\<rparr>)\<rparr>\<rparr>)"
| "reg_advance t frames RegUnlock ptr sz w = map_option (Pair (Some RegCount)) (unlock_blocks t w)"
| "reg_advance t frames RegCount ptr sz w =
     Some (Some RegSize, w\<lparr>hk_heap := (hk_heap w)\<lparr>hp_counter := hp_counter (hk_heap w) + 1\<rparr>, hk_counted := insert ptr (hk_counted w)\<rparr>)"
| "reg_advance t frames RegSize ptr sz w =
     Some (Some (RegLeave True), w\<lparr>hk_heap := (hk_heap w)\<lparr>hp_memory_size := hp_memory_size (hk_heap w) + of_nat sz\<rparr>, hk_sized := insert ptr (hk_sized w)\<rparr>)"
| "reg_advance t frames (RegLeave recorded) ptr sz w = Some (None, (guard_drop t w)\<lparr>hk_live := (hk_live w)(ptr \<mapsto> (sz, None))\<rparr>)"

fun unreg_advance :: "nat \<Rightarrow> unreg_pc \<Rightarrow> nat \<Rightarrow> nat \<Rightarrow> hooks \<Rightarrow> (unreg_pc option \<times> hooks) option" where
  "unreg_advance t UnregLock ptr sz w = map_option (Pair (Some UnregRemove)) (lock_blocks t w)"
| "unreg_advance t UnregRemove ptr sz w =
     (let (b, blocks) = map_remove ptr (hp_blocks (hk_heap w)) in
      Some (Some (UnregUnlock (b \<noteq> None)), w\<lparr>hk_heap := (hk_heap w)\<lparr>hp_blocks := blocks\<rparr>\<rparr>))"
| "unreg_advance t (UnregUnlock some) ptr sz w = map_option (Pair (Some (if some then UnregCount else UnregFree))) (unlock_blocks t w)"
| "unreg_advance t UnregCount ptr sz w =
     Some (Some UnregSize, w\<lparr>hk_heap := (hk_heap w)\<lparr>hp_counter := hp_counter (hk_heap w) - 1\<rparr>, hk_counted := hk_counted w - {ptr}\<rparr>)"
| "unreg_advance t UnregSize ptr sz w =
     Some (Some UnregFree, w\<lparr>hk_heap := (hk_heap w)\<lparr>hp_memory_size := hp_memory_size (hk_heap w) - of_nat sz\<rparr>, hk_sized := hk_sized w - {ptr}\<rparr>)"
| "unreg_advance t UnregFree ptr sz w = Some (None, w\<lparr>hk_live := (hk_live w)(ptr := None)\<rparr>)"

fun rep_advance :: "nat \<Rightarrow> bool \<Rightarrow> rep_pc \<Rightarrow> hooks \<Rightarrow> (rep_pc option \<times> hooks) option" where
  "rep_advance t again RepEnter w = (let (ok, w') = guard_new t w in Some (Some (if ok then RepLock else RepLeave), w'))"
| "rep_advance t again RepLock w = map_option (Pair (Some RepSnapshot)) (lock_blocks t w)"
| "rep_advance t again RepSnapshot w = Some (Some (RepUnlock (card (dom (hp_blocks (hk_heap w))))), w)"
| "rep_advance t again (RepUnlock n) w = map_option (Pair (Some (RepBody n))) (unlock_blocks t w)"
| "rep_advance t again (RepBody n) w =
     (case n of 0 \<Rightarrow> Some (Some RepLeave, w) | Suc m \<Rightarrow> map_option (Pair (Some (RepSymbols m))) (backtrace_lock t w))"
| "rep_advance t again (RepSymbols n) w = map_option (Pair (Some (RepBody (if again then n else 0)))) (backtrace_unlock t w)"
| "rep_advance t again RepLeave w = Some (None, guard_drop t w)"

definition hook_advance :: "nat \<Rightarrow> nat list \<Rightarrow> bool \<Rightarrow> hook_call \<Rightarrow> hooks \<Rightarrow> (hook_call option \<times> hooks) option" where
  "hook_advance t frames again c w =
     (case c of
        Reg pc ptr sz \<Rightarrow> map_option (\<lambda>(r, w'). (map_option (\<lambda>pc'. Reg pc' ptr sz) r, w')) (reg_advance t frames pc ptr sz w)
      | Unreg pc ptr sz \<Rightarrow> map_option (\<lambda>(r, w'). (map_option (\<lambda>pc'. Unreg pc' ptr sz) r, w')) (unreg_advance t pc ptr sz w)
      | Rep pc \<Rightarrow> map_option (\<lambda>(r, w'). (map_option Rep r, w')) (rep_advance t again pc w))"

definition replace_top :: "nat \<Rightarrow> hook_call option \<Rightarrow> hooks \<Rightarrow> hooks" where
  "replace_top t r w = w\<lparr>hk_stack := (hk_stack w)(t := (case r of None \<Rightarrow> [] | Some c \<Rightarrow> [c]) @ tl (hk_stack w t))\<rparr>"

text \<open>
  Where an activation may allocate and where it may free: while the unwinder and the hash map grow their
  memory, in the loop of the report, and where the frames of a block are dropped.
\<close>

fun may_alloc :: "hook_call \<Rightarrow> bool" where
  "may_alloc (Reg pc ptr sz) \<longleftrightarrow> (case pc of RegTrace \<Rightarrow> True | RegInsert bt \<Rightarrow> True | _ \<Rightarrow> False)"
| "may_alloc (Unreg pc ptr sz) \<longleftrightarrow> False"
| "may_alloc (Rep pc) \<longleftrightarrow> (case pc of RepSnapshot \<Rightarrow> True | RepBody n \<Rightarrow> True | RepSymbols n \<Rightarrow> True | _ \<Rightarrow> False)"

fun may_dealloc :: "hook_call \<Rightarrow> bool" where
  "may_dealloc (Unreg pc ptr sz) \<longleftrightarrow> pc = UnregUnlock True"
| "may_dealloc c \<longleftrightarrow> may_alloc c \<or> (\<exists>ptr sz. c = Reg RegUnlock ptr sz)"

text \<open>
  The steps. The system gives fresh memory of a size that is not zero, and a pointer is freed once, after
  its allocation has returned, with its size.
\<close>

inductive hook_step :: "hooks \<Rightarrow> hooks \<Rightarrow> bool" where
  alloc: "\<lbrakk> hk_live w ptr = None; 0 < sz; case hk_stack w t of [] \<Rightarrow> True | c # _ \<Rightarrow> may_alloc c \<rbrakk> \<Longrightarrow>
    hook_step w (w\<lparr>hk_live := (hk_live w)(ptr \<mapsto> (sz, Some t)), hk_stack := (hk_stack w)(t := Reg RegEnter ptr sz # hk_stack w t)\<rparr>)"
| dealloc: "\<lbrakk> hk_live w ptr = Some (sz, None); case hk_stack w t of [] \<Rightarrow> True | c # _ \<Rightarrow> may_dealloc c \<rbrakk> \<Longrightarrow>
    hook_step w (w\<lparr>hk_live := (hk_live w)(ptr \<mapsto> (sz, Some t)), hk_stack := (hk_stack w)(t := Unreg UnregLock ptr sz # hk_stack w t)\<rparr>)"
| report: "hk_stack w t = [] \<Longrightarrow> hook_step w (w\<lparr>hk_stack := (hk_stack w)(t := [Rep RepEnter])\<rparr>)"
| advance: "\<lbrakk> hk_stack w t = c # rest; hook_advance t frames again c w = Some (r, w') \<rbrakk> \<Longrightarrow> hook_step w (replace_top t r w')"

section \<open>Who holds what\<close>

fun holds_guard :: "hook_call \<Rightarrow> bool" where
  "holds_guard (Reg pc ptr sz) \<longleftrightarrow> pc \<noteq> RegEnter"
| "holds_guard (Unreg pc ptr sz) \<longleftrightarrow> False"
| "holds_guard (Rep pc) \<longleftrightarrow> pc \<noteq> RepEnter"

fun holds_blocks :: "hook_call \<Rightarrow> bool" where
  "holds_blocks (Reg pc ptr sz) \<longleftrightarrow> (case pc of RegInsert bt \<Rightarrow> True | RegUnlock \<Rightarrow> True | _ \<Rightarrow> False)"
| "holds_blocks (Unreg pc ptr sz) \<longleftrightarrow> (case pc of UnregRemove \<Rightarrow> True | UnregUnlock b \<Rightarrow> True | _ \<Rightarrow> False)"
| "holds_blocks (Rep pc) \<longleftrightarrow> (case pc of RepSnapshot \<Rightarrow> True | RepUnlock n \<Rightarrow> True | _ \<Rightarrow> False)"

fun holds_backtrace :: "hook_call \<Rightarrow> bool" where
  "holds_backtrace (Reg pc ptr sz) \<longleftrightarrow> pc = RegTrace"
| "holds_backtrace (Unreg pc ptr sz) \<longleftrightarrow> False"
| "holds_backtrace (Rep pc) \<longleftrightarrow> (case pc of RepSymbols n \<Rightarrow> True | _ \<Rightarrow> False)"

text \<open>The activation records its block.\<close>

fun recording :: "hook_call \<Rightarrow> bool" where
  "recording (Reg pc ptr sz) \<longleftrightarrow> pc \<noteq> RegEnter \<and> pc \<noteq> RegLeave False"
| "recording c \<longleftrightarrow> False"

fun nests :: "hook_call \<Rightarrow> hook_call \<Rightarrow> bool" where
  "nests (Reg pc ptr sz) d \<longleftrightarrow> may_alloc d"
| "nests (Unreg pc ptr sz) d \<longleftrightarrow> may_dealloc d"
| "nests (Rep pc) d \<longleftrightarrow> False"

text \<open>An activation that records has no guard under it, and every activation was started where it may be.\<close>

fun stack_ok :: "hook_call list \<Rightarrow> bool" where
  "stack_ok [] \<longleftrightarrow> True"
| "stack_ok (c # rest) \<longleftrightarrow>
     (recording c \<longrightarrow> filter holds_guard rest = []) \<and> (case rest of [] \<Rightarrow> True | d # _ \<Rightarrow> nests c d) \<and> stack_ok rest"

definition held :: "(hook_call \<Rightarrow> bool) \<Rightarrow> hook_call list \<Rightarrow> nat" where
  "held P stk = length (filter P stk)"

definition rm_ok :: "(hook_call \<Rightarrow> bool) \<Rightarrow> recursive_mutex \<Rightarrow> (nat \<Rightarrow> hook_call list) \<Rightarrow> bool" where
  "rm_ok P m stk \<longleftrightarrow> (rm_owner m = None \<longleftrightarrow> rm_count m = 0) \<and> (\<forall>t. held P (stk t) = (if rm_owner m = Some t then rm_count m else 0))"

definition locks_ok :: "hooks \<Rightarrow> bool" where
  "locks_ok w \<longleftrightarrow> rm_ok holds_blocks (hk_mutex w) (hk_stack w) \<and> rm_ok holds_backtrace (hk_backtrace w) (hk_stack w) \<and>
     (\<forall>t. hk_depth w t = held holds_guard (hk_stack w t)) \<and> (\<forall>t. stack_ok (hk_stack w t))"

lemma held_simps [simp]: "held P [] = 0" "held P (c # stk) = (if P c then Suc (held P stk) else held P stk)"
  by (simp_all add: held_def)

lemma rm_ok_lock:
  assumes "rm_ok P m stk" "rm_lock t m = Some m'" "held P s = Suc (held P (stk t))"
  shows "rm_ok P m' (stk(t := s))"
  using assms by (auto simp: rm_ok_def rm_lock_def split: option.splits if_splits)

lemma rm_ok_unlock:
  assumes "rm_ok P m stk" "Suc (held P s) = held P (stk t)"
  shows "\<exists>m'. rm_unlock t m = Some m' \<and> rm_ok P m' (stk(t := s))"
proof -
  have t: "rm_owner m = Some t" "rm_count m = Suc (held P s)" "\<forall>u. u \<noteq> t \<longrightarrow> held P (stk u) = 0"
    using assms unfolding rm_ok_def by (metis nat.distinct(1) option.inject)+
  then show ?thesis by (auto simp: rm_unlock_def rm_create_def rm_ok_def)
qed

lemma rm_ok_same: "\<lbrakk> rm_ok P m stk; held P s = held P (stk t) \<rbrakk> \<Longrightarrow> rm_ok P m (stk(t := s))"
  by (auto simp: rm_ok_def)

definition holds_opt :: "(hook_call \<Rightarrow> bool) \<Rightarrow> hook_call option \<Rightarrow> bool" where
  "holds_opt P r \<longleftrightarrow> (case r of None \<Rightarrow> False | Some c \<Rightarrow> P c)"

text \<open>What a step does to a mutex follows from who holds it before and after.\<close>

definition mutex_moves :: "(hook_call \<Rightarrow> bool) \<Rightarrow> nat \<Rightarrow> hook_call \<Rightarrow> hook_call option \<Rightarrow> recursive_mutex \<Rightarrow> recursive_mutex \<Rightarrow> bool" where
  "mutex_moves P t c r m m' \<longleftrightarrow>
     (if P c then if holds_opt P r then m' = m else rm_unlock t m = Some m'
      else if holds_opt P r then rm_lock t m = Some m' else m' = m)"

lemma mutex_moves_ok:
  assumes "rm_ok P m stk" "mutex_moves P t c r m m'" "stk t = c # rest"
  shows "rm_ok P m' (stk(t := (case r of None \<Rightarrow> [] | Some c \<Rightarrow> [c]) @ rest))"
proof -
  let ?s = "(case r of None \<Rightarrow> [] | Some c \<Rightarrow> [c]) @ rest"
  have s: "held P ?s = (if holds_opt P r then Suc (held P rest) else held P rest)" by (simp add: holds_opt_def split: option.splits)
  show ?thesis
  proof (cases "P c = holds_opt P r")
    case True
    then have "m' = m" "held P ?s = held P (stk t)" using assms(2,3) s by (auto simp: mutex_moves_def split: if_splits)
    then show ?thesis using rm_ok_same [OF assms(1)] by simp
  next
    case False
    then show ?thesis
      using assms s rm_ok_lock [OF assms(1), of t m' ?s] rm_ok_unlock [OF assms(1), of ?s t] by (cases "P c") (auto simp: mutex_moves_def)
  qed
qed

lemmas advance_defs = hook_advance_def mutex_moves_def holds_opt_def guard_new_def guard_drop_def
  lock_blocks_def unlock_blocks_def backtrace_lock_def backtrace_unlock_def

lemma hook_advance_moves:
  assumes "hook_advance t frames again c w = Some (r, w')"
  shows "hk_stack w' = hk_stack w \<and> mutex_moves holds_blocks t c r (hk_mutex w) (hk_mutex w') \<and>
    mutex_moves holds_backtrace t c r (hk_backtrace w) (hk_backtrace w') \<and>
    hk_depth w' = (hk_depth w)(t := hk_depth w t + (if holds_opt holds_guard r then 1 else 0) - (if holds_guard c then 1 else 0))"
proof (cases c)
  case (Reg pc ptr sz)
  then show ?thesis using assms by (cases pc) (auto simp: advance_defs split: if_splits)
next
  case (Unreg pc ptr sz)
  then show ?thesis using assms by (cases pc) (auto simp: advance_defs split: if_splits prod.splits)
next
  case (Rep pc)
  then show ?thesis using assms by (cases pc) (auto simp: advance_defs split: if_splits nat.splits)
qed

lemma hook_advance_stack:
  assumes "hook_advance t frames again c w = Some (Some c', w')" "stack_ok (c # rest)" "hk_depth w t = held holds_guard (c # rest)"
  shows "stack_ok (c' # rest)"
proof -
  have nests: "nests c' d = nests c d" for d
    using assms(1) by (cases c) (auto simp: hook_advance_def)
  have "recording c \<or> hk_depth w t = 0 \<and> \<not> holds_guard c" if "recording c'"
  proof (cases c)
    case (Reg pc ptr sz)
    then show ?thesis using assms(1) that
      by (cases pc) (auto simp: advance_defs reentrancy_ok_def split: if_splits)
  qed (use assms(1) that in \<open>auto simp: hook_advance_def\<close>)
  then have "filter holds_guard rest = []" if "recording c'" using assms(2,3) that by (auto simp: held_def)
  then show ?thesis using assms(2) nests by (auto split: list.splits)
qed

lemma advance_locks:
  assumes "locks_ok w" "hk_stack w t = c # rest" "hook_advance t frames again c w = Some (r, w')"
  shows "locks_ok (replace_top t r w')"
proof -
  let ?s = "(case r of None \<Rightarrow> [] | Some c \<Rightarrow> [c]) @ rest"
  note moves = hook_advance_moves [OF assms(3)]
  have stack: "hk_stack (replace_top t r w') = (hk_stack w)(t := ?s)" using moves assms(2) by (simp add: replace_top_def)
  have "hk_depth w' u = held holds_guard (((hk_stack w)(t := ?s)) u)" for u
    using assms(1,2) moves by (auto simp: locks_ok_def holds_opt_def split: option.splits)
  moreover have "stack_ok ?s"
  proof (cases r)
    case None
    then show ?thesis using assms(1,2) unfolding locks_ok_def by (metis append_Nil option.simps(4) stack_ok.simps(2))
  next
    case (Some c')
    have "stack_ok (c # rest)" "hk_depth w t = held holds_guard (c # rest)" using assms(1,2) unfolding locks_ok_def by metis+
    then show ?thesis using hook_advance_stack assms(3) Some by auto
  qed
  moreover have "rm_ok holds_blocks (hk_mutex w') ((hk_stack w)(t := ?s))" "rm_ok holds_backtrace (hk_backtrace w') ((hk_stack w)(t := ?s))"
    using mutex_moves_ok assms(1,2) moves unfolding locks_ok_def by blast+
  ultimately show ?thesis using assms(1) stack by (simp add: locks_ok_def replace_top_def)
qed

lemma push_locks:
  assumes "locks_ok w" "\<not> holds_blocks c" "\<not> holds_backtrace c" "\<not> holds_guard c" "\<not> recording c"
    "case hk_stack w t of [] \<Rightarrow> True | d # _ \<Rightarrow> nests c d"
  shows "locks_ok (w\<lparr>hk_live := l, hk_stack := (hk_stack w)(t := c # hk_stack w t)\<rparr>)"
  using assms by (auto simp: locks_ok_def intro!: rm_ok_same)

lemma hook_step_locks:
  assumes "hook_step w w'" "locks_ok w"
  shows "locks_ok w'"
  using assms
proof (induction rule: hook_step.induct)
  case (report w t)
  then show ?case using push_locks [of w "Rep RepEnter" t "hk_live w"] by simp
next
  case (alloc w ptr sz t)
  then show ?case by (intro push_locks) (auto split: list.splits)
next
  case (dealloc w ptr sz t)
  then show ?case by (intro push_locks) (auto split: list.splits)
qed (rule advance_locks)

section \<open>Pointers\<close>

text \<open>
  A pointer is in the hash map, counted, and in the memory size; in between, where its activation stands
  says in which.
\<close>

definition status :: "hooks \<Rightarrow> nat \<Rightarrow> bool \<times> bool \<times> bool" where
  "status w p = (p \<in> dom (hp_blocks (hk_heap w)), p \<in> hk_counted w, p \<in> hk_sized w)"

fun uniform :: "bool \<times> bool \<times> bool \<Rightarrow> bool" where
  "uniform (a, b, c) \<longleftrightarrow> a = b \<and> b = c"

fun call_ptr :: "hook_call \<Rightarrow> (nat \<times> nat) option" where
  "call_ptr (Reg pc ptr sz) = Some (ptr, sz)"
| "call_ptr (Unreg pc ptr sz) = Some (ptr, sz)"
| "call_ptr (Rep pc) = None"

fun call_status :: "hook_call \<Rightarrow> bool \<times> bool \<times> bool \<Rightarrow> bool" where
  "call_status (Reg pc ptr sz) st \<longleftrightarrow>
     (case pc of
        RegUnlock \<Rightarrow> st = (True, False, False) | RegCount \<Rightarrow> st = (True, False, False) | RegSize \<Rightarrow> st = (True, True, False)
      | RegLeave b \<Rightarrow> st = (b, b, b) | _ \<Rightarrow> st = (False, False, False))"
| "call_status (Unreg pc ptr sz) st \<longleftrightarrow>
     (case pc of
        UnregUnlock b \<Rightarrow> st = (False, b, b) | UnregCount \<Rightarrow> st = (False, True, True) | UnregSize \<Rightarrow> st = (False, False, True)
      | UnregFree \<Rightarrow> st = (False, False, False) | _ \<Rightarrow> uniform st)"
| "call_status (Rep pc) st \<longleftrightarrow> True"

definition stack_ptrs :: "hook_call list \<Rightarrow> (nat \<times> nat) list" where
  "stack_ptrs stk = List.map_filter call_ptr stk"

definition ptrs_ok :: "hooks \<Rightarrow> bool" where
  "ptrs_ok w \<longleftrightarrow>
     (\<forall>t. distinct (map fst (stack_ptrs (hk_stack w t)))) \<and>
     (\<forall>t p sz. (p, sz) \<in> set (stack_ptrs (hk_stack w t)) \<longleftrightarrow> hk_live w p = Some (sz, Some t)) \<and>
     (\<forall>p. hk_live w p = None \<longrightarrow> status w p = (False, False, False)) \<and>
     (\<forall>p sz. hk_live w p = Some (sz, None) \<longrightarrow> uniform (status w p)) \<and>
     (\<forall>t. \<forall>c \<in> set (hk_stack w t). \<forall>p sz. call_ptr c = Some (p, sz) \<longrightarrow> call_status c (status w p)) \<and>
     (\<forall>p sz st. hk_live w p = Some (sz, st) \<longrightarrow> 0 < sz) \<and>
     (\<forall>p b. hp_blocks (hk_heap w) p = Some b \<longrightarrow> map_option fst (hk_live w p) = Some (hb_size b))"

lemma stack_ptrs_simps [simp]:
  "stack_ptrs [] = []" "stack_ptrs (c # stk) = (case call_ptr c of None \<Rightarrow> stack_ptrs stk | Some x \<Rightarrow> x # stack_ptrs stk)"
  by (simp_all add: stack_ptrs_def map_filter_simps split: option.split)

lemma stack_ptrs_mem: "\<lbrakk> c \<in> set stk; call_ptr c = Some x \<rbrakk> \<Longrightarrow> x \<in> set (stack_ptrs stk)"
  by (induction stk) (auto split: option.splits)

text \<open>A step changes the status of its own pointer only, and follows its positions.\<close>

definition moves_ptr :: "hook_call \<Rightarrow> hook_call option \<Rightarrow> hooks \<Rightarrow> hooks \<Rightarrow> nat \<Rightarrow> nat \<Rightarrow> bool" where
  "moves_ptr c r w w' p sz \<longleftrightarrow>
     (\<forall>q. q \<noteq> p \<longrightarrow> status w' q = status w q \<and> hk_live w' q = hk_live w q \<and> hp_blocks (hk_heap w') q = hp_blocks (hk_heap w) q) \<and>
     (hp_blocks (hk_heap w') p = hp_blocks (hk_heap w) p \<or> hp_blocks (hk_heap w') p = None \<or> map_option hb_size (hp_blocks (hk_heap w') p) = Some sz) \<and>
     (case r of
        Some c' \<Rightarrow> call_ptr c' = Some (p, sz) \<and> hk_live w' p = hk_live w p \<and> call_status c' (status w' p)
      | None \<Rightarrow> status w' p = status w p \<and>
          (hk_live w' p = Some (sz, None) \<and> uniform (status w p) \<or> hk_live w' p = None \<and> status w p = (False, False, False)))"

lemma hook_advance_ptr:
  assumes "hook_advance t frames again c w = Some (r, w')" "call_ptr c = Some (p, sz)" "call_status c (status w p)"
  shows "moves_ptr c r w w' p sz"
proof (cases c)
  case (Reg pc ptr sz')
  then have "ptr = p" "sz' = sz" using assms(2) by simp_all
  then show ?thesis using assms Reg
    by (cases pc) (auto simp: advance_defs moves_ptr_def status_def split: if_splits)
next
  case (Unreg pc ptr sz')
  then have "ptr = p" "sz' = sz" using assms(2) by simp_all
  then show ?thesis using assms Unreg
    by (cases pc) (auto simp: advance_defs moves_ptr_def status_def map_remove_def split: if_splits option.splits)
qed (use assms(2) in simp)

lemma hook_advance_report:
  "\<lbrakk> hook_advance t frames again (Rep pc) w = Some (r, w') \<rbrakk> \<Longrightarrow>
     hk_heap w' = hk_heap w \<and> hk_live w' = hk_live w \<and> hk_counted w' = hk_counted w \<and> hk_sized w' = hk_sized w \<and> (\<forall>c. r = Some c \<longrightarrow> call_ptr c = None)"
  by (cases pc) (auto simp: advance_defs split: if_splits nat.splits)

text \<open>The parts of the invariant, as rules.\<close>

lemma ptrs_okD:
  assumes "ptrs_ok w"
  shows "distinct (map fst (stack_ptrs (hk_stack w t)))"
    and "(p, sz) \<in> set (stack_ptrs (hk_stack w t)) \<longleftrightarrow> hk_live w p = Some (sz, Some t)"
    and "hk_live w p = None \<Longrightarrow> status w p = (False, False, False)"
    and "hk_live w p = Some (sz, None) \<Longrightarrow> uniform (status w p)"
    and "\<lbrakk> c \<in> set (hk_stack w t); call_ptr c = Some (p, sz) \<rbrakk> \<Longrightarrow> call_status c (status w p)"
    and "hk_live w p = Some (sz, st) \<Longrightarrow> 0 < sz"
    and "hp_blocks (hk_heap w) p = Some b \<Longrightarrow> map_option fst (hk_live w p) = Some (hb_size b)"
  using assms unfolding ptrs_ok_def by blast+

text \<open>No other activation has the pointer of the running one.\<close>

lemma own_ptr:
  assumes "ptrs_ok w" "hk_stack w t = c # rest" "call_ptr c = Some (p, sz)" "d \<in> set (hk_stack w u)" "call_ptr d = Some (q, n)"
    and "u \<noteq> t \<or> d \<in> set rest"
  shows "q \<noteq> p"
proof
  assume "q = p"
  have live: "hk_live w p = Some (sz, Some t)" using ptrs_okD(2) [OF assms(1), of p sz t] assms(2,3) by simp
  have "hk_live w q = Some (n, Some u)" using ptrs_okD(2) [OF assms(1), of q n u] stack_ptrs_mem [OF assms(4,5)] by simp
  then have "u = t" using live \<open>q = p\<close> by simp
  then have "(q, n) \<in> set (stack_ptrs rest)" using assms(5,6) stack_ptrs_mem by blast
  then show False using ptrs_okD(1) [OF assms(1), of t] assms(2,3) \<open>q = p\<close> by force
qed

lemma advance_ptrs:
  assumes "ptrs_ok w" "hk_stack w t = c # rest" "hook_advance t frames again c w = Some (r, w')" "call_ptr c = Some (p, sz)"
  shows "ptrs_ok (replace_top t r w')"
proof -
  let ?s = "(case r of None \<Rightarrow> [] | Some c \<Rightarrow> [c]) @ rest" and ?w = "replace_top t r w'"
  have cs: "call_status c (status w p)" by (rule ptrs_okD(5) [OF assms(1) _ assms(4), of t]) (simp add: assms(2))
  have mv: "moves_ptr c r w w' p sz" by (rule hook_advance_ptr [OF assms(3,4) cs])
  have stack: "hk_stack ?w = (hk_stack w)(t := ?s)" using hook_advance_moves [OF assms(3)] assms(2) by (simp add: replace_top_def)
  have same: "hk_live ?w = hk_live w'" "status ?w = status w'" "hk_heap ?w = hk_heap w'" by (simp_all add: replace_top_def status_def fun_eq_iff)
  have live: "hk_live w p = Some (sz, Some t)" using ptrs_okD(2) [OF assms(1), of p sz t] assms(2,4) by simp
  have others: "q \<noteq> p \<Longrightarrow> status w' q = status w q \<and> hk_live w' q = hk_live w q \<and> hp_blocks (hk_heap w') q = hp_blocks (hk_heap w) q" for q
    using mv by (simp add: moves_ptr_def)
  have ptrs: "stack_ptrs ?s = (if r = None then stack_ptrs rest else (p, sz) # stack_ptrs rest)"
    using mv by (auto simp: moves_ptr_def split: option.splits)
  have fresh: "p \<notin> fst ` set (stack_ptrs rest)" using ptrs_okD(1) [OF assms(1), of t] assms(2,4) by simp
  show ?thesis unfolding ptrs_ok_def
  proof (intro conjI allI impI ballI)
    fix u show "distinct (map fst (stack_ptrs (hk_stack ?w u)))"
      using ptrs_okD(1) [OF assms(1), of u] ptrs_okD(1) [OF assms(1), of t] assms(2,4) by (auto simp: stack ptrs)
  next
    fix u q n
    have "(q, n) \<in> set (stack_ptrs (hk_stack w u)) \<longleftrightarrow> hk_live w q = Some (n, Some u)" by (rule ptrs_okD(2) [OF assms(1)])
    moreover have "(q, n) \<in> set (stack_ptrs (hk_stack ?w u)) \<longleftrightarrow> (q, n) \<in> set (stack_ptrs (hk_stack w u))" if "q \<noteq> p"
      using that assms(2,4) by (simp add: stack ptrs)
    moreover have "(p, n) \<in> set (stack_ptrs ?s) \<longleftrightarrow> r \<noteq> None \<and> n = sz" unfolding ptrs using fresh by (auto simp: image_iff)
    moreover have "hk_live w' p = (if r = None then hk_live w' p else Some (sz, Some t))" "r = None \<Longrightarrow> hk_live w' p \<noteq> Some (n, Some u)"
      using mv live by (auto simp: moves_ptr_def split: option.splits)
    ultimately show "(q, n) \<in> set (stack_ptrs (hk_stack ?w u)) \<longleftrightarrow> hk_live ?w q = Some (n, Some u)"
      using others [of q] live unfolding stack same by (cases "q = p"; cases "u = t") (auto split: if_splits)
  next
    fix q assume "hk_live ?w q = None"
    then show "status ?w q = (False, False, False)"
      using mv others [of q] ptrs_okD(3) [OF assms(1), of q] live by (cases "q = p") (auto simp: same moves_ptr_def split: option.splits)
  next
    fix q n assume "hk_live ?w q = Some (n, None)"
    then show "uniform (status ?w q)"
      using mv others [of q] ptrs_okD(4) [OF assms(1), of q n] live by (cases "q = p") (auto simp: same moves_ptr_def split: option.splits)
  next
    fix u d q n assume d: "d \<in> set (hk_stack ?w u)" "call_ptr d = Some (q, n)"
    show "call_status d (status ?w q)"
    proof (cases "u = t \<and> r = Some d")
      case True
      then show ?thesis using mv d(2) unfolding same by (auto simp: moves_ptr_def)
    next
      case False
      then have old: "d \<in> set (hk_stack w u)" "u \<noteq> t \<or> d \<in> set rest" using d(1) assms(2) by (auto simp: stack split: option.splits if_splits)
      then have "q \<noteq> p" using own_ptr [OF assms(1,2,4) old(1) d(2)] by blast
      then show ?thesis using others [of q] ptrs_okD(5) [OF assms(1) old(1) d(2)] by (simp add: same)
    qed
  next
    fix q n st assume "hk_live ?w q = Some (n, st)"
    then show "0 < n" using mv others [of q] live ptrs_okD(6) [OF assms(1)] by (cases "q = p") (auto simp: same moves_ptr_def split: option.splits)
  next
    fix q b assume b: "hp_blocks (hk_heap ?w) q = Some b"
    show "map_option fst (hk_live ?w q) = Some (hb_size b)"
    proof (cases "q = p")
      case True
      have "hb_size b = sz" using mv b True live ptrs_okD(7) [OF assms(1), of p b] by (auto simp: same moves_ptr_def)
      moreover have "hk_live w' p \<noteq> None"
      proof
        assume "hk_live w' p = None"
        then have "status w' p = (False, False, False)" using mv live by (auto simp: moves_ptr_def split: option.splits)
        then show False using b True by (auto simp: same status_def)
      qed
      ultimately show ?thesis using mv live True by (auto simp: same moves_ptr_def split: option.splits)
    qed (use b others ptrs_okD(7) [OF assms(1)] in \<open>simp add: same\<close>)
  qed
qed

lemma push_ptrs:
  assumes "ptrs_ok w" "hk_live w p = None \<and> 0 < sz \<or> hk_live w p = Some (sz, None)" "call_ptr c = Some (p, sz)" "call_status c (status w p)"
  shows "ptrs_ok (w\<lparr>hk_live := (hk_live w)(p \<mapsto> (sz, Some t)), hk_stack := (hk_stack w)(t := c # hk_stack w t)\<rparr>)" (is "ptrs_ok ?w")
proof -
  have st: "status ?w = status w" by (simp add: status_def fun_eq_iff)
  have out: "(p, n) \<notin> set (stack_ptrs (hk_stack w u))" for n u using ptrs_okD(2) [OF assms(1), of p n u] assms(2) by auto
  show ?thesis unfolding ptrs_ok_def st
  proof (intro conjI allI impI ballI)
    fix u show "distinct (map fst (stack_ptrs (hk_stack ?w u)))"
      using ptrs_okD(1) [OF assms(1), of u] out assms(3) by auto
  next
    fix u q n show "(q, n) \<in> set (stack_ptrs (hk_stack ?w u)) \<longleftrightarrow> hk_live ?w q = Some (n, Some u)"
      using ptrs_okD(2) [OF assms(1), of q n u] out assms(3) by auto
  next
    fix q assume "hk_live ?w q = None"
    then show "status w q = (False, False, False)" using ptrs_okD(3) [OF assms(1), of q] by (simp split: if_splits)
  next
    fix q n assume "hk_live ?w q = Some (n, None)"
    then show "uniform (status w q)" using ptrs_okD(4) [OF assms(1), of q n] by (simp split: if_splits)
  next
    fix u d q n assume "d \<in> set (hk_stack ?w u)" "call_ptr d = Some (q, n)"
    then show "call_status d (status w q)" using ptrs_okD(5) [OF assms(1), of d u q n] assms(3,4) by (auto split: if_splits)
  next
    fix q n st assume "hk_live ?w q = Some (n, st)"
    then show "0 < n" using ptrs_okD(6) [OF assms(1)] assms(2) by (auto split: if_splits)
  next
    fix q b assume "hp_blocks (hk_heap ?w) q = Some b"
    then show "map_option fst (hk_live ?w q) = Some (hb_size b)"
      using ptrs_okD(7) [OF assms(1), of q b] ptrs_okD(3) [OF assms(1), of p] assms(2) by (auto simp: status_def)
  qed
qed

lemma hook_step_ptrs:
  assumes "hook_step w w'" "ptrs_ok w"
  shows "ptrs_ok w'"
  using assms
proof (induction rule: hook_step.induct)
  case (alloc w ptr sz t)
  then show ?case using push_ptrs [of w ptr sz "Reg RegEnter ptr sz" t] ptrs_okD(3) [of w ptr] by simp
next
  case (dealloc w ptr sz t)
  then show ?case using push_ptrs [of w ptr sz "Unreg UnregLock ptr sz" t] ptrs_okD(4) [of w ptr sz] by simp
next
  case (report w t)
  then show ?case by (auto simp: ptrs_ok_def status_def dest: spec [of _ t])
next
  case (advance w t c rest frames again r w')
  show ?case
  proof (cases "call_ptr c")
    case None
    then obtain pc where c: "c = Rep pc" by (cases c) auto
    have "hk_stack w' = hk_stack w" using hook_advance_moves [OF advance.hyps(2)] by blast
    then have w': "hk_stack (replace_top t r w') = (hk_stack w)(t := (case r of None \<Rightarrow> [] | Some c \<Rightarrow> [c]) @ rest)" "hk_live (replace_top t r w') = hk_live w"
        "hk_heap (replace_top t r w') = hk_heap w" "status (replace_top t r w') = status w" "\<forall>d. r = Some d \<longrightarrow> call_ptr d = None"
      using hook_advance_report [of t frames again pc w r w'] advance.hyps c by (auto simp: replace_top_def status_def fun_eq_iff)
    have "stack_ptrs (hk_stack (replace_top t r w') u) = stack_ptrs (hk_stack w u)" for u
      using w'(1,5) advance.hyps(1) None by (auto split: option.splits)
    moreover have "call_status d (status w q)" if "d \<in> set (hk_stack (replace_top t r w') u)" "call_ptr d = Some (q, n)" for u d q n
      using that w'(1,5) advance.hyps(1) ptrs_okD(5) [OF advance.prems, of d u q n] by (auto split: option.splits if_splits)
    ultimately show ?thesis using advance.prems unfolding ptrs_ok_def w'(2,3,4) by auto
  qed (use advance advance_ptrs in \<open>auto split: prod.splits\<close>)
qed

section \<open>The counters\<close>

definition sizes :: "hooks \<Rightarrow> nat \<Rightarrow> nat" where
  "sizes w p = (case hk_live w p of None \<Rightarrow> 0 | Some (sz, _) \<Rightarrow> sz)"

definition sums_ok :: "hooks \<Rightarrow> bool" where
  "sums_ok w \<longleftrightarrow> finite (dom (hp_blocks (hk_heap w))) \<and> finite (hk_counted w) \<and> finite (hk_sized w) \<and>
     hp_counter (hk_heap w) = of_nat (card (hk_counted w)) \<and> hp_memory_size (hk_heap w) = of_nat (\<Sum>p \<in> hk_sized w. sizes w p)"

lemma sums_ok_sizes:
  assumes "sums_ok w" "\<forall>p \<in> hk_sized w. sizes w' p = sizes w p" "hk_heap w' = hk_heap w" "hk_counted w' = hk_counted w" "hk_sized w' = hk_sized w"
  shows "sums_ok w'"
proof -
  have "(\<Sum>p \<in> hk_sized w. sizes w' p) = (\<Sum>p \<in> hk_sized w. sizes w p)" by (rule sum.cong) (use assms(2) in auto)
  then show ?thesis using assms by (simp add: sums_ok_def)
qed

text \<open>A step that touches the sums only by its own pointer.\<close>

lemma sums_ok_move:
  assumes "sums_ok w" "finite (dom (hp_blocks (hk_heap w')))" "hk_live w' = hk_live w"
    and "hk_counted w' = hk_counted w \<and> hp_counter (hk_heap w') = hp_counter (hk_heap w) \<or>
      p \<notin> hk_counted w \<and> hk_counted w' = insert p (hk_counted w) \<and> hp_counter (hk_heap w') = hp_counter (hk_heap w) + 1 \<or>
      p \<in> hk_counted w \<and> hk_counted w' = hk_counted w - {p} \<and> hp_counter (hk_heap w') = hp_counter (hk_heap w) - 1"
    and "hk_sized w' = hk_sized w \<and> hp_memory_size (hk_heap w') = hp_memory_size (hk_heap w) \<or>
      p \<notin> hk_sized w \<and> hk_sized w' = insert p (hk_sized w) \<and> hp_memory_size (hk_heap w') = hp_memory_size (hk_heap w) + of_nat (sizes w p) \<or>
      p \<in> hk_sized w \<and> hk_sized w' = hk_sized w - {p} \<and> hp_memory_size (hk_heap w') = hp_memory_size (hk_heap w) - of_nat (sizes w p)"
  shows "sums_ok w'"
proof -
  have fin: "finite (hk_counted w)" "finite (hk_sized w)" and counter: "hp_counter (hk_heap w) = of_nat (card (hk_counted w))"
    and mem: "hp_memory_size (hk_heap w) = of_nat (sum (sizes w) (hk_sized w))" using assms(1) by (simp_all add: sums_ok_def)
  have sizes: "sizes w' = sizes w" using assms(3) by (simp add: sizes_def fun_eq_iff)
  have minus: "(of_nat a :: usize) = of_nat (b + a) - of_nat b" for a b by simp
  have "of_nat (card (hk_counted w - {p})) = (of_nat (card (hk_counted w)) :: usize) - 1" if "p \<in> hk_counted w"
    using minus [of "card (hk_counted w - {p})" 1] card.remove [OF fin(1) that] by (simp only: plus_1_eq_Suc of_nat_1)
  then have "hp_counter (hk_heap w') = of_nat (card (hk_counted w'))" "finite (hk_counted w')"
    using assms(4) fin unfolding counter by (elim disjE conjE; simp)+
  moreover have "of_nat (sum (sizes w) (hk_sized w - {p})) = (of_nat (sum (sizes w) (hk_sized w)) :: usize) - of_nat (sizes w p)" if "p \<in> hk_sized w"
    using minus [of "sum (sizes w) (hk_sized w - {p})" "sizes w p"] sum.remove [OF fin(2) that, of "sizes w"] by (simp only:)
  then have "hp_memory_size (hk_heap w') = of_nat (sum (sizes w) (hk_sized w'))" "finite (hk_sized w')"
    using assms(5) fin unfolding mem by (elim disjE conjE; simp del: of_nat_sum)+
  ultimately show ?thesis using assms(2) by (simp add: sums_ok_def sizes del: of_nat_sum)
qed

lemma advance_sums:
  assumes "sums_ok w" "hook_advance t frames again c w = Some (r, w')"
    and "\<forall>p sz. call_ptr c = Some (p, sz) \<longrightarrow> call_status c (status w p) \<and> hk_live w p = Some (sz, Some t)"
  shows "sums_ok (replace_top t r w')"
proof (cases c)
  case (Rep pc)
  then show ?thesis using hook_advance_report [of t frames again pc w r w'] assms(1,2)
    by (intro sums_ok_sizes [OF assms(1)]) (auto simp: replace_top_def sizes_def)
next
  case (Reg pc p sz)
  then have p: "call_status c (status w p)" "sizes w p = sz" "hk_live w p = Some (sz, Some t)" using assms(3) by (auto simp: sizes_def)
  have fin: "finite (dom (hp_blocks (hk_heap w)))" using assms(1) by (simp add: sums_ok_def)
  show ?thesis
  proof (cases "\<exists>b. pc = RegLeave b")
    case True
    then show ?thesis using assms(2) Reg p(3) by (intro sums_ok_sizes [OF assms(1)]) (auto simp: advance_defs replace_top_def sizes_def)
  next
    case False
    then show ?thesis using assms(2) Reg p fin
      by (intro sums_ok_move [OF assms(1), of _ p]) (cases pc; auto simp: advance_defs replace_top_def status_def split: if_splits)+
  qed
next
  case (Unreg pc p sz)
  then have p: "call_status c (status w p)" "sizes w p = sz" using assms(3) by (auto simp: sizes_def)
  have fin: "finite (dom (hp_blocks (hk_heap w)))" using assms(1) by (simp add: sums_ok_def)
  show ?thesis
  proof (cases "pc = UnregFree")
    case True
    then have "p \<notin> hk_sized w" using p(1) Unreg by (simp add: status_def)
    then show ?thesis using assms(2) Unreg True
      by (intro sums_ok_sizes [OF assms(1)]) (auto simp: advance_defs replace_top_def sizes_def)
  next
    case False
    have w': "hk_live w' = hk_live w" "finite (dom (hp_blocks (hk_heap w')))"
      using assms(2) Unreg False fin by (cases pc; auto simp: advance_defs map_remove_def)+
    have "hk_counted w' = hk_counted w \<and> hp_counter (hk_heap w') = hp_counter (hk_heap w) \<or>
        p \<in> hk_counted w \<and> hk_counted w' = hk_counted w - {p} \<and> hp_counter (hk_heap w') = hp_counter (hk_heap w) - 1"
      using assms(2) Unreg False p(1) by (cases pc) (auto simp: advance_defs map_remove_def status_def)
    moreover have "hk_sized w' = hk_sized w \<and> hp_memory_size (hk_heap w') = hp_memory_size (hk_heap w) \<or>
        p \<in> hk_sized w \<and> hk_sized w' = hk_sized w - {p} \<and> hp_memory_size (hk_heap w') = hp_memory_size (hk_heap w) - of_nat (sizes w p)"
      using assms(2) Unreg False p by (cases pc) (auto simp: advance_defs map_remove_def status_def)
    ultimately show ?thesis
      by (intro sums_ok_move [OF assms(1), of _ p]) (simp_all add: replace_top_def w', blast+)
  qed
qed

lemma hook_step_sums:
  assumes "hook_step w w'" "ptrs_ok w" "sums_ok w"
  shows "sums_ok w'"
  using assms
proof (induction rule: hook_step.induct)
  case (alloc w ptr sz t)
  have "ptr \<notin> hk_sized w" using ptrs_okD(3) [OF alloc.prems(1) alloc.hyps(1)] by (simp add: status_def)
  then show ?case by (intro sums_ok_sizes [OF alloc.prems(2)]) (auto simp: sizes_def)
next
  case (dealloc w ptr sz t)
  then show ?case by (intro sums_ok_sizes [OF dealloc.prems(2)]) (auto simp: sizes_def)
next
  case (report w t)
  then show ?case by (intro sums_ok_sizes [OF report.prems(2)]) (auto simp: sizes_def)
next
  case (advance w t c rest frames again r w')
  have "call_status c (status w p) \<and> hk_live w p = Some (sz, Some t)" if "call_ptr c = Some (p, sz)" for p sz
    using that ptrs_okD(5) [OF advance.prems(1), of c t p sz] ptrs_okD(2) [OF advance.prems(1), of p sz t] advance.hyps(1) by simp
  then show ?case using advance_sums [OF advance.prems(2) advance.hyps(2)] by blast
qed

definition hooks_inv :: "hooks \<Rightarrow> bool" where
  "hooks_inv w \<longleftrightarrow> locks_ok w \<and> ptrs_ok w \<and> sums_ok w"

lemma hooks_inv_new: "hooks_inv hooks_new"
  by (simp add: hooks_inv_def locks_ok_def ptrs_ok_def sums_ok_def rm_ok_def hooks_new_def rm_create_def status_def heap_profiler_new_def)

lemma hook_reach_inv: "hook_step\<^sup>*\<^sup>* hooks_new w \<Longrightarrow> hooks_inv w"
  by (induction rule: rtranclp_induct)
    (use hooks_inv_new in \<open>auto simp: hooks_inv_def intro: hook_step_locks hook_step_ptrs hook_step_sums\<close>)

text \<open>At rest every live pointer has returned, so that the three sets agree.\<close>

lemma hooks_at_rest:
  assumes "hooks_inv w" "\<forall>t. hk_stack w t = []"
  shows "heap_inv (\<lambda>p. map_option fst (hk_live w p)) (hk_heap w)"
proof -
  have p: "ptrs_ok w" and sums: "sums_ok w" using assms(1) by (simp_all add: hooks_inv_def)
  have "uniform (status w q)" for q
  proof (cases "hk_live w q")
    case (Some x)
    obtain sz st where x: "x = (sz, st)" by fastforce
    have "st = None" using ptrs_okD(2) [OF p, of q sz "the st"] assms(2) Some x by (cases st) auto
    then show ?thesis using ptrs_okD(4) [OF p, of q sz] Some x by simp
  qed (use ptrs_okD(3) [OF p, of q] in simp)
  then have eq: "hk_counted w = dom (hp_blocks (hk_heap w))" "hk_sized w = dom (hp_blocks (hk_heap w))" by (auto simp: status_def)
  have block: "map_option fst (hk_live w q) = Some (hb_size b) \<and> 0 < hb_size b" if "hp_blocks (hk_heap w) q = Some b" for q b
    using ptrs_okD(7) [OF p that] ptrs_okD(6) [OF p, of q] by auto
  then have "sizes w q = hb_size (the (hp_blocks (hk_heap w) q))" if "q \<in> dom (hp_blocks (hk_heap w))" for q
    using that by (fastforce simp: sizes_def split: option.splits)
  then have "sum (sizes w) (dom (hp_blocks (hk_heap w))) = blocks_size (hp_blocks (hk_heap w))"
    unfolding blocks_size_def by (intro sum.cong) auto
  then show ?thesis using sums block eq by (simp add: heap_inv_def sums_ok_def del: of_nat_sum)
qed

section \<open>Waiting\<close>

fun waits_blocks :: "hook_call \<Rightarrow> bool" where
  "waits_blocks (Reg pc ptr sz) \<longleftrightarrow> (case pc of RegLock bt \<Rightarrow> True | _ \<Rightarrow> False)"
| "waits_blocks (Unreg pc ptr sz) \<longleftrightarrow> pc = UnregLock"
| "waits_blocks (Rep pc) \<longleftrightarrow> pc = RepLock"

fun waits_backtrace :: "hook_call \<Rightarrow> bool" where
  "waits_backtrace (Reg pc ptr sz) \<longleftrightarrow> pc = RegBtLock"
| "waits_backtrace (Unreg pc ptr sz) \<longleftrightarrow> False"
| "waits_backtrace (Rep pc) \<longleftrightarrow> (case pc of RepBody (Suc n) \<Rightarrow> True | _ \<Rightarrow> False)"

definition blocked :: "hooks \<Rightarrow> nat \<Rightarrow> hook_call \<Rightarrow> bool" where
  "blocked w t c \<longleftrightarrow> waits_blocks c \<and> rm_lock t (hk_mutex w) = None \<or> waits_backtrace c \<and> rm_lock t (hk_backtrace w) = None"

lemma unlock_held: "\<lbrakk> rm_ok P m stk; stk t = c # rest; P c \<rbrakk> \<Longrightarrow> \<exists>m'. rm_unlock t m = Some m'"
  using rm_ok_unlock [of P m stk rest t] by auto

lemma not_blocked_advances:
  assumes "locks_ok w" "hk_stack w t = c # rest" "\<not> blocked w t c"
  shows "hook_advance t frames again c w \<noteq> None"
proof -
  have blocks: "\<exists>m. rm_unlock t (hk_mutex w) = Some m" if "holds_blocks c"
    using unlock_held [of holds_blocks "hk_mutex w" "hk_stack w" t c rest] assms(1,2) that by (simp add: locks_ok_def)
  have backtrace: "\<exists>m. rm_unlock t (hk_backtrace w) = Some m" if "holds_backtrace c"
    using unlock_held [of holds_backtrace "hk_backtrace w" "hk_stack w" t c rest] assms(1,2) that by (simp add: locks_ok_def)
  show ?thesis
  proof (cases c)
    case (Reg pc ptr sz)
    then show ?thesis using assms(3) blocks backtrace by (cases pc) (auto simp: advance_defs blocked_def)
  next
    case (Unreg pc ptr sz)
    then show ?thesis using assms(3) blocks by (cases pc) (auto simp: advance_defs blocked_def split: prod.splits)
  next
    case (Rep pc)
    then show ?thesis using assms(3) blocks backtrace by (cases pc) (auto simp: advance_defs blocked_def split: nat.splits)
  qed
qed

text \<open>Over a call that frees there are only calls that free, so the unwinder is never entered with the blocks locked.\<close>

lemma no_unreg_below: "\<lbrakk> stack_ok (c # rest); \<nexists>pc ptr sz. c = Unreg pc ptr sz \<rbrakk> \<Longrightarrow> \<forall>d \<in> set rest. \<nexists>pc ptr sz. d = Unreg pc ptr sz"
proof (induction rest arbitrary: c)
  case (Cons d rest)
  have "\<nexists>pc ptr sz. d = Unreg pc ptr sz" using Cons.prems by (cases c) auto
  moreover have "stack_ok (d # rest)" using Cons.prems(1) by simp
  ultimately show ?case using Cons.IH [of d] by auto
qed simp

lemma backtrace_before_blocks:
  assumes "stack_ok (c # rest)" "waits_backtrace c"
  shows "held holds_blocks (c # rest) = 0"
proof (cases c)
  case (Reg pc ptr sz)
  then have rest: "filter holds_guard rest = []" "\<forall>d \<in> set rest. \<nexists>pc ptr sz. d = Unreg pc ptr sz"
    using assms no_unreg_below [OF assms(1)] by auto
  have "\<not> holds_blocks d" if "d \<in> set rest" for d
    using rest that by (cases d) (auto simp: filter_empty_conv split: reg_pc.splits rep_pc.splits)
  then have "held holds_blocks rest = 0" by (simp add: held_def filter_empty_conv)
  then show ?thesis using Reg assms(2) by simp
next
  case (Rep pc)
  then have "rest = []" using assms(1) by (cases rest) auto
  then show ?thesis using Rep assms(2) by (auto split: rep_pc.splits)
qed (use assms(2) in simp)

lemma blocks_owner_runs:
  assumes "locks_ok w" "rm_owner (hk_mutex w) = Some u"
  shows "\<exists>c rest. hk_stack w u = c # rest \<and> \<not> blocked w u c"
proof -
  have held: "0 < held holds_blocks (hk_stack w u)" using assms unfolding locks_ok_def rm_ok_def by (metis gr0I option.distinct(1))
  then obtain c rest where c: "hk_stack w u = c # rest" by (cases "hk_stack w u") auto
  have "stack_ok (c # rest)" using assms(1) c unfolding locks_ok_def by metis
  then have "\<not> waits_backtrace c" using backtrace_before_blocks held c by fastforce
  moreover have "rm_lock u (hk_mutex w) \<noteq> None" using assms(2) by (simp add: rm_lock_def)
  ultimately show ?thesis using c by (simp add: blocked_def)
qed

lemma someone_runs:
  assumes "locks_ok w" "hk_stack w t = c # rest"
  shows "\<exists>u d rest. hk_stack w u = d # rest \<and> \<not> blocked w u d"
proof -
  have owner: "\<exists>u. rm_owner m = Some u" if "rm_lock v m = None" for v m using that by (auto simp: rm_lock_def split: option.splits)
  have blocks: ?thesis if "rm_lock v (hk_mutex w) = None" for v
    using owner [OF that] blocks_owner_runs [OF assms(1)] by blast
  show ?thesis
  proof (cases "blocked w t c")
    case True
    show ?thesis
    proof (cases "rm_lock t (hk_mutex w) = None")
      case False
      then have "rm_lock t (hk_backtrace w) = None" using True by (auto simp: blocked_def)
      then obtain u where u: "rm_owner (hk_backtrace w) = Some u" using owner by blast
      then have "0 < held holds_backtrace (hk_stack w u)" using assms(1) unfolding locks_ok_def rm_ok_def by (metis gr0I option.distinct(1))
      then obtain d rest where d: "hk_stack w u = d # rest" by (cases "hk_stack w u") auto
      have "rm_lock u (hk_backtrace w) \<noteq> None" using u by (simp add: rm_lock_def)
      then have "rm_lock u (hk_mutex w) = None" if "blocked w u d" using that by (auto simp: blocked_def)
      then show ?thesis using d blocks by blast
    qed (rule blocks)
  qed (use assms(2) in blast)
qed

section \<open>One thread alone\<close>

text \<open>Up to \<open>n\<close> steps of the running activation of one thread; \<open>None\<close> when it has to wait.\<close>

fun hook_steps :: "nat \<Rightarrow> nat list \<Rightarrow> bool \<Rightarrow> nat \<Rightarrow> hooks \<Rightarrow> hooks option" where
  "hook_steps t frames again 0 w = Some w"
| "hook_steps t frames again (Suc n) w =
     (case hk_stack w t of
        [] \<Rightarrow> Some w
      | c # _ \<Rightarrow> (case hook_advance t frames again c w of None \<Rightarrow> None | Some (r, w') \<Rightarrow> hook_steps t frames again n (replace_top t r w')))"

lemma hook_steps_reach: "hook_steps t frames again n w = Some w' \<Longrightarrow> hook_step\<^sup>*\<^sup>* w w'"
proof (induction n arbitrary: w)
  case (Suc n)
  show ?case
  proof (cases "hk_stack w t")
    case (Cons c rest)
    then obtain r v where "hook_advance t frames again c w = Some (r, v)" "hook_steps t frames again n (replace_top t r v) = Some w'"
      using Suc.prems by (auto split: option.splits)
    then show ?thesis using Suc.IH hook_step.advance [OF Cons] by (meson converse_rtranclp_into_rtranclp)
  qed (use Suc.prems in simp)
qed simp

lemma rm_lock_free: "rm_owner m = None \<or> rm_owner m = Some t \<Longrightarrow> \<exists>m' m''. rm_lock t m = Some m' \<and> rm_unlock t m' = Some m''"
  by (auto simp: rm_lock_def rm_unlock_def)

lemmas run_evals = advance_defs replace_top_def numeral_eq_Suc

lemma register_run:
  assumes "rm_lock t (hk_mutex w) = Some m1" "rm_unlock t m1 = Some m2" "rm_lock t (hk_backtrace w) = Some b1" "rm_unlock t b1 = Some b2"
    and "hk_stack w t = Reg RegEnter ptr sz # rest"
  shows "\<exists>w'. hook_steps t frames again (if reentrancy_ok (hk_depth w t) then 9 else 2) w = Some w' \<and> hk_stack w' = (hk_stack w)(t := rest) \<and>
    hk_heap w' = heap_register (hk_depth w t) frames ptr sz (hk_heap w) \<and> hk_depth w' = hk_depth w \<and> hk_live w' = (hk_live w)(ptr \<mapsto> (sz, None))"
  using assms by (cases "reentrancy_ok (hk_depth w t)") (simp_all add: run_evals heap_register_def)

lemma unregister_run:
  assumes "rm_lock t (hk_mutex w) = Some m1" "rm_unlock t m1 = Some m2" "hk_stack w t = Unreg UnregLock ptr sz # rest"
  shows "\<exists>w'. hook_steps t frames again (if hp_blocks (hk_heap w) ptr = None then 4 else 6) w = Some w' \<and> hk_stack w' = (hk_stack w)(t := rest) \<and>
    hk_heap w' = heap_unregister ptr sz (hk_heap w) \<and> hk_depth w' = hk_depth w \<and> hk_live w' = (hk_live w)(ptr := None)"
  using assms by (cases "hp_blocks (hk_heap w) ptr") (simp_all add: run_evals heap_unregister_def map_remove_def fun_upd_idem)

section \<open>Properties\<close>

text \<open>
  C31: the hooks of the allocator account for the memory on every thread. Whatever threads allocate, free and
  report and whatever the profiler itself allocates inside its hooks: one thread at a time is inside the lock
  of the blocks; a call inside another guarded call of its thread records nothing; and when no hook runs, the
  counter and the memory size are those of the recorded blocks, every recorded block is live memory of
  its size, and the counters of reentrancy are zero.
\<close>

theorem heap_hooks_account:
  assumes "hook_step\<^sup>*\<^sup>* hooks_new w"
  shows "(\<forall>t u. held holds_blocks (hk_stack w t) > 0 \<and> held holds_blocks (hk_stack w u) > 0 \<longrightarrow> t = u) \<and>
    (\<forall>t outer inner c. hk_stack w t = inner @ c # outer \<and> recording c \<longrightarrow> filter holds_guard outer = []) \<and>
    ((\<forall>t. hk_stack w t = []) \<longrightarrow> heap_inv (\<lambda>p. map_option fst (hk_live w p)) (hk_heap w) \<and> (\<forall>t. hk_depth w t = 0))"
proof -
  have inv: "hooks_inv w" "locks_ok w" using hook_reach_inv [OF assms] by (simp_all add: hooks_inv_def)
  have "stack_ok (inner @ c # outer) \<Longrightarrow> recording c \<Longrightarrow> filter holds_guard outer = []" for inner c outer by (induction inner) auto
  moreover have "stack_ok (hk_stack w t)" "hk_depth w t = held holds_guard (hk_stack w t)" for t using inv(2) by (simp_all add: locks_ok_def)
  moreover have "t = u" if "held holds_blocks (hk_stack w t) > 0" "held holds_blocks (hk_stack w u) > 0" for t u
    using inv(2) that unfolding locks_ok_def rm_ok_def by (metis less_irrefl option.inject)
  ultimately show ?thesis using hooks_at_rest [OF inv(1)] by (metis held_simps(1))
qed

text \<open>
  C32: the hooks do not deadlock. In every state that threads reach, when some hook is running, some thread
  whose hook runs can take its next step: the lock of the unwinder is always taken before that of the blocks,
  and both are recursive.
\<close>

theorem heap_hooks_no_deadlock:
  assumes "hook_step\<^sup>*\<^sup>* hooks_new w" "hk_stack w t \<noteq> []"
  shows "\<exists>u c rest. hk_stack w u = c # rest \<and> (\<forall>frames again. hook_advance u frames again c w \<noteq> None)"
proof -
  have locks: "locks_ok w" using hook_reach_inv [OF assms(1)] by (simp add: hooks_inv_def)
  obtain c rest where "hk_stack w t = c # rest" using assms(2) by (cases "hk_stack w t") auto
  then obtain u d rest' where "hk_stack w u = d # rest'" "\<not> blocked w u d" using someone_runs [OF locks] by blast
  then show ?thesis using not_blocked_advances [OF locks] by blast
qed

text \<open>A thread that has allocated one block.\<close>

definition sample_hooks :: hooks where
  "sample_hooks = hooks_new\<lparr>hk_live := [100 \<mapsto> (16, Some 0)], hk_stack := (\<lambda>_. [])(0 := [Reg RegEnter 100 16])\<rparr>"

lemma sample_hooks_step: "hook_step hooks_new sample_hooks"
  using hook_step.alloc [of hooks_new 100 16 0] by (simp add: sample_hooks_def hooks_new_def)

theorem heap_hooks_account_witness:
  "\<exists>w. hook_steps 0 [7, 8] True 9 sample_hooks = Some w \<and> hp_counter (hk_heap w) = 1 \<and> heap_inv (\<lambda>p. map_option fst (hk_live w p)) (hk_heap w)"
proof -
  obtain m1 m2 where m: "rm_lock 0 (hk_mutex sample_hooks) = Some m1" "rm_unlock 0 m1 = Some m2" "rm_lock 0 (hk_backtrace sample_hooks) = Some m1"
    using rm_lock_free [of rm_create 0] by (auto simp: sample_hooks_def hooks_new_def rm_create_def)
  have "hk_stack sample_hooks 0 = [Reg RegEnter 100 16]" "reentrancy_ok (hk_depth sample_hooks 0)" "hk_depth sample_hooks 0 = 0"
      "(hk_stack sample_hooks)(0 := []) = (\<lambda>_. [])" "hk_heap sample_hooks = heap_profiler_new"
    by (auto simp: sample_hooks_def hooks_new_def reentrancy_ok_def)
  then obtain w where w: "hook_steps 0 [7, 8] True 9 sample_hooks = Some w" "hk_stack w = (\<lambda>_. [])"
      "hk_heap w = heap_register 0 [7, 8] 100 16 heap_profiler_new"
    using register_run [OF m(1,2,3,2), of 100 16 "[]" "[7, 8]" True] by auto
  have "hook_step\<^sup>*\<^sup>* hooks_new w" using sample_hooks_step hook_steps_reach [OF w(1)] by (rule converse_rtranclp_into_rtranclp)
  from heap_hooks_account [OF this] w show ?thesis by (simp add: heap_register_def reentrancy_ok_def heap_profiler_new_def)
qed

theorem heap_hooks_no_deadlock_witness:
  "\<exists>u c rest. hk_stack sample_hooks u = c # rest \<and> hook_advance u [] False c sample_hooks \<noteq> None"
proof -
  have "hk_stack sample_hooks 0 \<noteq> []" by (simp add: sample_hooks_def)
  from heap_hooks_no_deadlock [OF r_into_rtranclp [of hook_step, OF sample_hooks_step] this] show ?thesis by blast
qed



end
