(* ===== verification/Driver_Table.thy ===== *)
theory Driver_Table
  imports Io_Driver
begin

text \<open>
  \<open>Driver\<close> of \<open>crates/io/src/driver.rs\<close>: a driver of any type behind a pointer to a header that begins with a
  hand-written table of functions. A function of the table is the instance of a generic function for a
  type and casts the pointer to a header of that type. Types are numbers; \<open>impls\<close> gives the implementation of
  \<open>RawDriver\<close> and \<open>Clone\<close> for each. \<open>None\<close> is undefined behaviour: a pointer to a freed header, or a
  cast to a type that the header does not have.
\<close>

section \<open>Headers and tables\<close>

record ('r, 's) raw_driver =
  rd_fd_open :: "'r \<Rightarrow> description \<Rightarrow> open_flags \<Rightarrow> ('s, handle) op"
  rd_fd_cntl :: "'r \<Rightarrow> handle \<Rightarrow> cmd \<Rightarrow> ('s, cmd_resp \<times> bytes) op"
  rd_fd_close :: "'r \<Rightarrow> handle \<Rightarrow> ('s, unit) op"
  rd_clone :: "'r \<Rightarrow> 'r"

text \<open>The table: the type of the instance that each entry points to.\<close>

record driver_vtable =
  vt_fd_open :: nat
  vt_fd_cntl :: nat
  vt_fd_close :: nat
  vt_clone :: nat
  vt_drop :: nat

definition vtable_new :: "nat \<Rightarrow> driver_vtable" where
  "vtable_new R = \<lparr>vt_fd_open = R, vt_fd_cntl = R, vt_fd_close = R, vt_clone = R, vt_drop = R\<rparr>"

text \<open>A header in the memory, with the type that it was allocated with.\<close>

record 'r driver_header =
  dh_vtable :: driver_vtable
  dh_data :: 'r
  dh_type :: nat

record ('r, 's) driver_mem =
  dm_boxes :: "nat \<rightharpoonup> 'r driver_header"
  dm_next :: nat
  dm_state :: 's

definition box_into_raw :: "'r driver_header \<Rightarrow> ('r, 's) driver_mem \<Rightarrow> nat \<times> ('r, 's) driver_mem" where
  "box_into_raw h m = (dm_next m, m\<lparr>dm_boxes := (dm_boxes m)(dm_next m \<mapsto> h), dm_next := dm_next m + 1\<rparr>)"

definition cast_header :: "nat \<Rightarrow> nat \<Rightarrow> ('r, 's) driver_mem \<Rightarrow> 'r driver_header option" where
  "cast_header R ptr m = (case dm_boxes m ptr of None \<Rightarrow> None | Some h \<Rightarrow> if dh_type h = R then Some h else None)"

definition on_state :: "('s, 'x) op \<Rightarrow> ('r, 's) driver_mem \<Rightarrow> 'x io_result \<times> ('r, 's) driver_mem" where
  "on_state f m = (let (r, s) = f (dm_state m) in (r, m\<lparr>dm_state := s\<rparr>))"

text \<open>The five functions of the table, for the type \<open>R\<close>.\<close>

definition table_fd_open :: "(nat \<Rightarrow> ('r, 's) raw_driver) \<Rightarrow> nat \<Rightarrow> nat \<Rightarrow> description \<Rightarrow> open_flags \<Rightarrow> ('r, 's) driver_mem \<Rightarrow> (handle io_result \<times> ('r, 's) driver_mem) option" where
  "table_fd_open impls R ptr desc flags m = map_option (\<lambda>h. on_state (rd_fd_open (impls R) (dh_data h) desc flags) m) (cast_header R ptr m)"

definition table_fd_cntl :: "(nat \<Rightarrow> ('r, 's) raw_driver) \<Rightarrow> nat \<Rightarrow> nat \<Rightarrow> handle \<Rightarrow> cmd \<Rightarrow> ('r, 's) driver_mem \<Rightarrow> ((cmd_resp \<times> bytes) io_result \<times> ('r, 's) driver_mem) option" where
  "table_fd_cntl impls R ptr fd cmd m = map_option (\<lambda>h. on_state (rd_fd_cntl (impls R) (dh_data h) fd cmd) m) (cast_header R ptr m)"

definition table_fd_close :: "(nat \<Rightarrow> ('r, 's) raw_driver) \<Rightarrow> nat \<Rightarrow> nat \<Rightarrow> handle \<Rightarrow> ('r, 's) driver_mem \<Rightarrow> (unit io_result \<times> ('r, 's) driver_mem) option" where
  "table_fd_close impls R ptr fd m = map_option (\<lambda>h. on_state (rd_fd_close (impls R) (dh_data h) fd) m) (cast_header R ptr m)"

definition table_clone :: "(nat \<Rightarrow> ('r, 's) raw_driver) \<Rightarrow> nat \<Rightarrow> nat \<Rightarrow> ('r, 's) driver_mem \<Rightarrow> (nat \<times> ('r, 's) driver_mem) option" where
  "table_clone impls R ptr m = map_option (\<lambda>h. box_into_raw (h\<lparr>dh_data := rd_clone (impls R) (dh_data h)\<rparr>) m) (cast_header R ptr m)"

definition table_drop :: "nat \<Rightarrow> nat \<Rightarrow> ('r, 's) driver_mem \<Rightarrow> ('r, 's) driver_mem option" where
  "table_drop R ptr m = map_option (\<lambda>h. m\<lparr>dm_boxes := (dm_boxes m)(ptr := None)\<rparr>) (cast_header R ptr m)"

section \<open>The methods of Driver\<close>

definition driver_new :: "nat \<Rightarrow> 'r \<Rightarrow> ('r, 's) driver_mem \<Rightarrow> nat \<times> ('r, 's) driver_mem" where
  "driver_new R raw m = box_into_raw \<lparr>dh_vtable = vtable_new R, dh_data = raw, dh_type = R\<rparr> m"

definition driver_fd_open :: "(nat \<Rightarrow> ('r, 's) raw_driver) \<Rightarrow> nat \<Rightarrow> description \<Rightarrow> open_flags \<Rightarrow> ('r, 's) driver_mem \<Rightarrow> (handle io_result \<times> ('r, 's) driver_mem) option" where
  "driver_fd_open impls ptr desc flags m =
     Option.bind (dm_boxes m ptr) (\<lambda>h. table_fd_open impls (vt_fd_open (dh_vtable h)) ptr desc flags m)"

definition driver_fd_cntl :: "(nat \<Rightarrow> ('r, 's) raw_driver) \<Rightarrow> nat \<Rightarrow> handle \<Rightarrow> cmd \<Rightarrow> ('r, 's) driver_mem \<Rightarrow> ((cmd_resp \<times> bytes) io_result \<times> ('r, 's) driver_mem) option" where
  "driver_fd_cntl impls ptr fd cmd m = Option.bind (dm_boxes m ptr) (\<lambda>h. table_fd_cntl impls (vt_fd_cntl (dh_vtable h)) ptr fd cmd m)"

definition driver_fd_close :: "(nat \<Rightarrow> ('r, 's) raw_driver) \<Rightarrow> nat \<Rightarrow> handle \<Rightarrow> ('r, 's) driver_mem \<Rightarrow> (unit io_result \<times> ('r, 's) driver_mem) option" where
  "driver_fd_close impls ptr fd m = Option.bind (dm_boxes m ptr) (\<lambda>h. table_fd_close impls (vt_fd_close (dh_vtable h)) ptr fd m)"

definition driver_clone :: "(nat \<Rightarrow> ('r, 's) raw_driver) \<Rightarrow> nat \<Rightarrow> ('r, 's) driver_mem \<Rightarrow> (nat \<times> ('r, 's) driver_mem) option" where
  "driver_clone impls ptr m = Option.bind (dm_boxes m ptr) (\<lambda>h. table_clone impls (vt_clone (dh_vtable h)) ptr m)"

definition driver_drop :: "nat \<Rightarrow> ('r, 's) driver_mem \<Rightarrow> ('r, 's) driver_mem option" where
  "driver_drop ptr m = Option.bind (dm_boxes m ptr) (\<lambda>h. table_drop (vt_drop (dh_vtable h)) ptr m)"

section \<open>A program that owns drivers\<close>

text \<open>
  A program keeps drivers in variables. The specification keeps the raw driver in the variable and calls
  its methods; the implementation keeps the pointer.
\<close>

datatype 'r driver_op =
    DNew nat nat 'r
  | DClone nat nat
  | DDrop nat
  | DOpen nat description open_flags
  | DCntl nat handle cmd
  | DClose nat handle

datatype driver_result = DNone | DOpened "handle io_result" | DAnswer "(cmd_resp \<times> bytes) io_result" | DClosed "unit io_result"

fun spec_op :: "(nat \<Rightarrow> ('r, 's) raw_driver) \<Rightarrow> 'r driver_op \<Rightarrow> (nat \<rightharpoonup> nat \<times> 'r) \<times> 's \<Rightarrow> (driver_result \<times> (nat \<rightharpoonup> nat \<times> 'r) \<times> 's) option" where
  "spec_op impls (DNew x R raw) (D, s) = (if D x = None then Some (DNone, D(x \<mapsto> (R, raw)), s) else None)"
| "spec_op impls (DClone x y) (D, s) =
     (case D x of None \<Rightarrow> None | Some (R, raw) \<Rightarrow> if D y = None then Some (DNone, D(y \<mapsto> (R, rd_clone (impls R) raw)), s) else None)"
| "spec_op impls (DDrop x) (D, s) = (case D x of None \<Rightarrow> None | Some _ \<Rightarrow> Some (DNone, D(x := None), s))"
| "spec_op impls (DOpen x desc flags) (D, s) =
     (case D x of None \<Rightarrow> None | Some (R, raw) \<Rightarrow> (let (r, s') = rd_fd_open (impls R) raw desc flags s in Some (DOpened r, D, s')))"
| "spec_op impls (DCntl x fd cmd) (D, s) =
     (case D x of None \<Rightarrow> None | Some (R, raw) \<Rightarrow> (let (r, s') = rd_fd_cntl (impls R) raw fd cmd s in Some (DAnswer r, D, s')))"
| "spec_op impls (DClose x fd) (D, s) =
     (case D x of None \<Rightarrow> None | Some (R, raw) \<Rightarrow> (let (r, s') = rd_fd_close (impls R) raw fd s in Some (DClosed r, D, s')))"

fun impl_op ::
  "(nat \<Rightarrow> ('r, 's) raw_driver) \<Rightarrow> 'r driver_op \<Rightarrow> (nat \<rightharpoonup> nat) \<times> ('r, 's) driver_mem \<Rightarrow>
     (driver_result \<times> (nat \<rightharpoonup> nat) \<times> ('r, 's) driver_mem) option" where
  "impl_op impls (DNew x R raw) (V, m) = (let (ptr, m') = driver_new R raw m in Some (DNone, V(x \<mapsto> ptr), m'))"
| "impl_op impls (DClone x y) (V, m) =
     Option.bind (V x) (\<lambda>ptr. map_option (\<lambda>(ptr', m'). (DNone, V(y \<mapsto> ptr'), m')) (driver_clone impls ptr m))"
| "impl_op impls (DDrop x) (V, m) = Option.bind (V x) (\<lambda>ptr. map_option (\<lambda>m'. (DNone, V(x := None), m')) (driver_drop ptr m))"
| "impl_op impls (DOpen x desc flags) (V, m) =
     Option.bind (V x) (\<lambda>ptr. map_option (\<lambda>(r, m'). (DOpened r, V, m')) (driver_fd_open impls ptr desc flags m))"
| "impl_op impls (DCntl x fd cmd) (V, m) =
     Option.bind (V x) (\<lambda>ptr. map_option (\<lambda>(r, m'). (DAnswer r, V, m')) (driver_fd_cntl impls ptr fd cmd m))"
| "impl_op impls (DClose x fd) (V, m) =
     Option.bind (V x) (\<lambda>ptr. map_option (\<lambda>(r, m'). (DClosed r, V, m')) (driver_fd_close impls ptr fd m))"

text \<open>Every variable has a header of its own with the table of its type, and every header belongs to a variable.\<close>

definition represents :: "(nat \<rightharpoonup> nat \<times> 'r) \<times> 's \<Rightarrow> (nat \<rightharpoonup> nat) \<times> ('r, 's) driver_mem \<Rightarrow> bool" where
  "represents a c \<longleftrightarrow>
     (case (a, c) of ((D, s), (V, m)) \<Rightarrow>
        dom V = dom D \<and> owns V (dm_boxes m) \<and> dm_state m = s \<and> (\<forall>ptr \<in> dom (dm_boxes m). ptr < dm_next m) \<and>
        (\<forall>x R raw. D x = Some (R, raw) \<longrightarrow> dm_boxes m (the (V x)) = Some \<lparr>dh_vtable = vtable_new R, dh_data = raw, dh_type = R\<rparr>))"

lemma represents_var:
  assumes "represents (D, s) (V, m)" "D x = Some (R, raw)"
  shows "\<exists>ptr. V x = Some ptr \<and> dm_boxes m ptr = Some \<lparr>dh_vtable = vtable_new R, dh_data = raw, dh_type = R\<rparr>"
  using assms by (force simp: represents_def dom_def)

lemma represents_new:
  assumes "represents (D, s) (V, m)" "D x = None" "box_into_raw \<lparr>dh_vtable = vtable_new R, dh_data = raw, dh_type = R\<rparr> m = (ptr, m')"
  shows "represents (D(x \<mapsto> (R, raw)), s) (V(x \<mapsto> ptr), m')"
proof -
  let ?h = "\<lparr>dh_vtable = vtable_new R, dh_data = raw, dh_type = R\<rparr>"
  have m': "ptr = dm_next m" "m' = m\<lparr>dm_boxes := (dm_boxes m)(ptr \<mapsto> ?h), dm_next := dm_next m + 1\<rparr>"
    using assms(3) by (auto simp: box_into_raw_def)
  have r: "dom V = dom D" "owns V (dm_boxes m)" "dm_state m = s" "\<And>q. q \<in> dom (dm_boxes m) \<Longrightarrow> q < dm_next m"
      "\<And>x R raw. D x = Some (R, raw) \<Longrightarrow> dm_boxes m (the (V x)) = Some \<lparr>dh_vtable = vtable_new R, dh_data = raw, dh_type = R\<rparr>"
    using assms(1) by (auto simp: represents_def)
  have Vx: "V x = None" using r(1) assms(2) by (metis domIff)
  have fresh: "dm_boxes m ptr = None" using r(4) [of ptr] m'(1) by (cases "dm_boxes m ptr") auto
  have "owns (V(x \<mapsto> ptr)) (dm_boxes m')" using owns_new [OF r(2) Vx fresh, of ?h] by (simp add: m'(2))
  moreover have "dm_boxes m' (the ((V(x \<mapsto> ptr)) y)) = Some \<lparr>dh_vtable = vtable_new R', dh_data = raw', dh_type = R'\<rparr>"
    if "(D(x \<mapsto> (R, raw))) y = Some (R', raw')" for y R' raw'
    using that r(5) [of y R' raw'] fresh by (cases "y = x") (auto simp: m'(2))
  moreover have "q < dm_next m'" if "q \<in> dom (dm_boxes m')" for q
    using that r(4) [of q] by (cases "q = ptr") (auto simp: m')
  ultimately show ?thesis using r(1,3) m'(2) unfolding represents_def by simp
qed

lemma represents_drop:
  assumes "represents (D, s) (V, m)" "V x = Some ptr"
  shows "represents (D(x := None), s) (V(x := None), m\<lparr>dm_boxes := (dm_boxes m)(ptr := None)\<rparr>)"
proof -
  have r: "dom V = dom D" "owns V (dm_boxes m)" "dm_state m = s" "\<forall>q \<in> dom (dm_boxes m). q < dm_next m"
      "\<And>x R raw. D x = Some (R, raw) \<Longrightarrow> dm_boxes m (the (V x)) = Some \<lparr>dh_vtable = vtable_new R, dh_data = raw, dh_type = R\<rparr>"
    using assms(1) by (auto simp: represents_def)
  have "dm_boxes (m\<lparr>dm_boxes := (dm_boxes m)(ptr := None)\<rparr>) (the ((V(x := None)) y)) = Some \<lparr>dh_vtable = vtable_new R, dh_data = raw, dh_type = R\<rparr>"
    if "(D(x := None)) y = Some (R, raw)" for y R raw
  proof -
    have y: "y \<noteq> x" "D y = Some (R, raw)" using that by (auto split: if_splits)
    then obtain q where "V y = Some q" using r(1) by blast
    then have "the (V y) \<noteq> ptr" using owns_uniq [OF r(2) assms(2)] y(1) by auto
    then show ?thesis using r(5) [OF y(2)] y(1) by simp
  qed
  then show ?thesis using r(1,3,4) owns_free [OF r(2) assms(2)] unfolding represents_def by simp
qed

lemmas table_defs = table_fd_open_def table_fd_cntl_def table_fd_close_def table_clone_def table_drop_def cast_header_def on_state_def
  driver_fd_open_def driver_fd_cntl_def driver_fd_close_def driver_clone_def driver_drop_def driver_new_def vtable_new_def

lemma represents_state: "represents (D, s) (V, m) \<Longrightarrow> represents (D, s') (V, m\<lparr>dm_state := s'\<rparr>) \<and> dm_state m = s"
  by (auto simp: represents_def)

lemma impl_op_simulates:
  assumes "represents (D, s) (V, m)" "spec_op impls d (D, s) = Some (r, a')"
  shows "\<exists>c'. impl_op impls d (V, m) = Some (r, c') \<and> represents a' c'"
proof (cases d)
  case (DNew x R raw)
  obtain ptr m' where b: "box_into_raw \<lparr>dh_vtable = vtable_new R, dh_data = raw, dh_type = R\<rparr> m = (ptr, m')" by fastforce
  then show ?thesis using assms(2) DNew represents_new [OF assms(1) _ b, of x] by (auto simp: driver_new_def split: if_splits)
next
  case (DClone x y)
  then obtain R raw where x: "D x = Some (R, raw)" "D y = None" "r = DNone" "a' = (D(y \<mapsto> (R, rd_clone (impls R) raw)), s)"
    using assms(2) by (auto split: option.splits if_splits)
  obtain ptr where ptr: "V x = Some ptr" "dm_boxes m ptr = Some \<lparr>dh_vtable = vtable_new R, dh_data = raw, dh_type = R\<rparr>"
    using represents_var [OF assms(1) x(1)] by blast
  obtain ptr' m' where b: "box_into_raw \<lparr>dh_vtable = vtable_new R, dh_data = rd_clone (impls R) raw, dh_type = R\<rparr> m = (ptr', m')" by fastforce
  then show ?thesis using DClone x(3,4) ptr represents_new [OF assms(1) x(2) b]
    by (auto simp: table_defs)
next
  case (DDrop x)
  then obtain R raw where x: "D x = Some (R, raw)" "r = DNone" "a' = (D(x := None), s)" using assms(2) by (auto split: option.splits)
  then show ?thesis using DDrop represents_var [OF assms(1) x(1)] represents_drop [OF assms(1)] by (auto simp: table_defs)
next
  case (DOpen x desc flags)
  then obtain R raw where x: "D x = Some (R, raw)" using assms(2) by (auto split: option.splits)
  then show ?thesis using DOpen assms(2) represents_var [OF assms(1) x] represents_state [OF assms(1)] by (auto simp: table_defs split: prod.splits)
next
  case (DCntl x fd cmd)
  then obtain R raw where x: "D x = Some (R, raw)" using assms(2) by (auto split: option.splits)
  then show ?thesis using DCntl assms(2) represents_var [OF assms(1) x] represents_state [OF assms(1)] by (auto simp: table_defs split: prod.splits)
next
  case (DClose x fd)
  then obtain R raw where x: "D x = Some (R, raw)" using assms(2) by (auto split: option.splits)
  then show ?thesis using DClose assms(2) represents_var [OF assms(1) x] represents_state [OF assms(1)] by (auto simp: table_defs split: prod.splits)
qed

lemma impl_run_simulates:
  assumes "represents a c" "run_ops (spec_op impls) ops a = Some (rs, a')"
  shows "\<exists>c'. run_ops (impl_op impls) ops c = Some (rs, c') \<and> represents a' c'"
proof (rule run_ops_simulates [of represents "spec_op impls" "impl_op impls", OF _ assms])
  show "\<exists>c'. impl_op impls d c = Some (r, c') \<and> represents a' c'" if "represents a c" "spec_op impls d a = Some (r, a')" for d a c r a'
    using that impl_op_simulates [of "fst a" "snd a" "fst c" "snd c" impls d r a'] by simp
qed

section \<open>Properties\<close>

text \<open>
  C36: the table of functions is transparent. A program over drivers of any types, which uses a driver only
  while it owns it, behaves as if it called the raw drivers directly: no call goes through a freed header or
  a wrong cast, every call gives the same result and the same state, and the headers in the memory are
  those of the drivers that the program still owns, one for each.
\<close>

theorem driver_table_refines:
  assumes "run_ops (spec_op impls) ops (Map.empty, s) = Some (rs, D, s')"
  shows "\<exists>V m. run_ops (impl_op impls) ops (Map.empty, \<lparr>dm_boxes = Map.empty, dm_next = n, dm_state = s\<rparr>) = Some (rs, V, m) \<and>
    dm_state m = s' \<and> dom V = dom D \<and> bij_betw (the \<circ> V) (dom D) (dom (dm_boxes m))"
proof -
  have "represents (Map.empty, s) (Map.empty, \<lparr>dm_boxes = Map.empty, dm_next = n, dm_state = s\<rparr>)" by (simp add: represents_def)
  from impl_run_simulates [OF this assms] obtain V m where
    run: "run_ops (impl_op impls) ops (Map.empty, \<lparr>dm_boxes = Map.empty, dm_next = n, dm_state = s\<rparr>) = Some (rs, V, m)" and rep: "represents (D, s') (V, m)"
    by fastforce
  have V: "dom V = dom D" "owns V (dm_boxes m)" "dm_state m = s'" using rep by (auto simp: represents_def)
  then show ?thesis using run owns_bij [OF V(2)] by (intro exI [of _ V] exI [of _ m]) simp
qed

text \<open>Two types of drivers: one counts its calls by one, the other by its value.\<close>

definition sample_impls :: "nat \<Rightarrow> (nat, nat) raw_driver" where
  "sample_impls R =
     \<lparr>rd_fd_open = (\<lambda>raw desc flags s. (Err OtherError, s + 1)),
      rd_fd_cntl = (\<lambda>raw fd c s. (Err WouldBlock, s + (if R = 0 then 1 else raw))),
      rd_fd_close = (\<lambda>raw fd s. (Ok (), s)), rd_clone = (\<lambda>raw. raw)\<rparr>"

definition sample_ops :: "nat driver_op list" where
  "sample_ops = (let fd = \<lparr>h_token = 1, h_desc = DFile, h_user_defined_desc = None, h_data = 0\<rparr> in [DNew 0 0 5, DNew 1 1 7, DClone 1 2, DDrop 1, DCntl 0 fd CTryClone, DCntl 2 fd CTryClone])"

theorem driver_table_refines_witness:
  "\<exists>V m. run_ops (impl_op sample_impls) sample_ops (Map.empty, \<lparr>dm_boxes = Map.empty, dm_next = 0, dm_state = 0\<rparr>)
     = Some ([DNone, DNone, DNone, DNone, DAnswer (Err WouldBlock), DAnswer (Err WouldBlock)], V, m) \<and> dm_state m = 8 \<and> dom V = {0, 2}"
proof -
  have "run_ops (spec_op sample_impls) sample_ops (Map.empty, 0)
      = Some ([DNone, DNone, DNone, DNone, DAnswer (Err WouldBlock), DAnswer (Err WouldBlock)], [0 \<mapsto> (0, 5), 2 \<mapsto> (1, 7)], 8)"
    by (simp add: sample_ops_def sample_impls_def Let_def fun_upd_twist fun_upd_idem)
  from driver_table_refines [OF this, of 0] show ?thesis by auto
qed

end
