(* ===== verification/Batcher_Threads.thy ===== *)
theory Batcher_Threads
  imports Future_Batcher
begin

text \<open>
  \<open>FutureBatcher\<close> of \<open>crates/future/src/batching.rs\<close> on many threads. \<open>WakerHost\<close> keeps the system waker behind
  an atomic pointer to a box; \<open>wake\<close>, \<open>push\<close>, \<open>close\<close> and the poll of the batch take and replace it without a lock.
  A call moves in atomic steps: an access to an atomic, an operation of the queue or of the pending map, the
  allocation or the release of a box. The allocator may give out an address again that a thread has loaded before.
\<close>

section \<open>The shared memory\<close>

text \<open>
  The waker in a box is a task. \<open>bm_woken\<close> are the tasks that were woken since they were last polled;
  \<open>bm_ub\<close> is set by a release of a box that is not allocated.
\<close>

record 'f batch_mem =
  bm_idgen :: usize
  bm_pending :: "usize \<rightharpoonup> 'f"
  bm_queue :: "usize list"
  bm_ptr :: "nat option"
  bm_boxes :: "nat \<rightharpoonup> nat"
  bm_counter :: usize
  bm_closed :: bool
  bm_woken :: "nat set"
  bm_ub :: bool

text \<open>\<open>Box::from_raw\<close>, which takes the waker out and releases the box.\<close>

definition box_take :: "nat \<Rightarrow> 'f batch_mem \<Rightarrow> nat option \<times> 'f batch_mem" where
  "box_take a m =
     (case bm_boxes m a of
        None \<Rightarrow> (None, m\<lparr>bm_ub := True\<rparr>)
      | Some w \<Rightarrow> (Some w, m\<lparr>bm_boxes := (bm_boxes m)(a := None)\<rparr>))"

definition box_wake :: "nat \<Rightarrow> 'f batch_mem \<Rightarrow> 'f batch_mem" where
  "box_wake a m =
     (case box_take a m of (None, m') \<Rightarrow> m' | (Some w, m') \<Rightarrow> m'\<lparr>bm_woken := insert w (bm_woken m')\<rparr>)"

text \<open>\<open>compare_exchange_weak(waker_ptr, null)\<close>, which may fail without a reason.\<close>

definition host_cas :: "bool \<Rightarrow> nat \<Rightarrow> 'f batch_mem \<Rightarrow> bool \<times> 'f batch_mem" where
  "host_cas weak a m = (if bm_ptr m = Some a \<and> \<not> weak then (True, m\<lparr>bm_ptr := None\<rparr>) else (False, m))"

definition host_swap :: "nat \<Rightarrow> 'f batch_mem \<Rightarrow> nat option \<times> 'f batch_mem" where
  "host_swap a m = (bm_ptr m, m\<lparr>bm_ptr := Some a\<rparr>)"

definition close_cas :: "'f batch_mem \<Rightarrow> bool \<times> 'f batch_mem" where
  "close_cas m = (if bm_closed m then (False, m) else (True, m\<lparr>bm_closed := True\<rparr>))"

section \<open>The threads\<close>

text \<open>
  A thread that pushes a future, wakes one or closes the batcher: at the insertion, at the push to the queue,
  and in \<open>WakerHost::wake\<close> at the load, at the exchange, at the wake with the box it took. A future that
  wakes itself while it is polled is a thread here, which runs while the poll is at the future.
\<close>

datatype 'f wk_pc = WkIdle | WkInsert usize 'f | WkPush usize | WkLoad | WkCas nat | WkWake nat

fun wk_advance :: "bool \<Rightarrow> 'f wk_pc \<Rightarrow> 'f batch_mem \<Rightarrow> 'f wk_pc \<times> 'f batch_mem" where
  "wk_advance weak WkIdle m = (WkIdle, m)"
| "wk_advance weak (WkInsert i f) m = (WkPush i, m\<lparr>bm_pending := (bm_pending m)(i \<mapsto> f)\<rparr>)"
| "wk_advance weak (WkPush i) m = (WkLoad, m\<lparr>bm_queue := bm_queue m @ [i]\<rparr>)"
| "wk_advance weak WkLoad m = (case bm_ptr m of None \<Rightarrow> (WkIdle, m) | Some a \<Rightarrow> (WkCas a, m))"
| "wk_advance weak (WkCas a) m = (let (ok, m') = host_cas weak a m in (if ok then WkWake a else WkLoad, m'))"
| "wk_advance weak (WkWake a) m = (WkIdle, box_wake a m)"

definition push_begin :: "'f \<Rightarrow> 'f batch_mem \<Rightarrow> 'f wk_pc \<times> 'f batch_mem" where
  "push_begin f m = (WkInsert (bm_idgen m) f, m\<lparr>bm_idgen := bm_idgen m + 1\<rparr>)"

definition close_begin :: "'f batch_mem \<Rightarrow> 'f wk_pc \<times> 'f batch_mem" where
  "close_begin m = (let (ok, m') = close_cas m in (if ok then WkLoad else WkIdle, m'))"

text \<open>
  The poll of the batch with the waker \<open>w\<close>: at the first test of \<open>closed\<close>, in \<open>add_waker\<close> at the allocation, at
  the swap, at the drop of the old box, then in the loop, at the removal of the waker with the result of a
  ready future, at the two exits. \<open>PoFailed\<close> is a failed assertion, \<open>PoPanicked\<close> a panic of a future.
\<close>

datatype ('f, 'r) po_pc =
    PoStart | PoReturned "'r option poll" | PoFailed | PoPanicked
  | PoClosed nat | PoNew nat | PoSwap nat | PoFree nat
  | PoPop | PoGot usize | PoRemove usize | PoFut usize 'f | PoInsert usize 'f
  | PoReadyLoad 'r | PoReadyCas 'r nat | PoReadyFree 'r nat | PoReadyLeave 'r
  | PoLeave | PoCheck

datatype ('f, 'r) fut_out = FutPending 'f | FutReady 'r | FutPanic

definition po_begin :: "nat \<Rightarrow> 'f batch_mem \<Rightarrow> ('f, 'r) po_pc \<times> 'f batch_mem" where
  "po_begin w m =
     (if bm_counter m = 0 then PoClosed w else PoFailed,
      m\<lparr>bm_counter := bm_counter m + 1, bm_woken := bm_woken m - {w}\<rparr>)"

definition po_leave :: "('f, 'r) po_pc \<Rightarrow> 'f batch_mem \<Rightarrow> ('f, 'r) po_pc \<times> 'f batch_mem" where
  "po_leave p m = (if bm_counter m = 1 then p else PoFailed, m\<lparr>bm_counter := bm_counter m - 1\<rparr>)"

fun po_advance :: "nat \<Rightarrow> bool \<Rightarrow> ('f, 'r) fut_out \<Rightarrow> ('f, 'r) po_pc \<Rightarrow> 'f batch_mem \<Rightarrow> ('f, 'r) po_pc \<times> 'f batch_mem" where
  "po_advance a weak out (PoClosed w) m = (if bm_closed m then PoReturned (Ready None) else PoNew w, m)"
| "po_advance a weak out (PoNew w) m = (PoSwap a, m\<lparr>bm_boxes := (bm_boxes m)(a \<mapsto> w)\<rparr>)"
| "po_advance a weak out (PoSwap b) m =
     (let (old, m') = host_swap b m in (case old of None \<Rightarrow> PoPop | Some c \<Rightarrow> PoFree c, m'))"
| "po_advance a weak out (PoFree b) m = (PoPop, snd (box_take b m))"
| "po_advance a weak out PoPop m =
     (case bm_queue m of [] \<Rightarrow> (PoLeave, m) | i # q \<Rightarrow> (PoGot i, m\<lparr>bm_queue := q\<rparr>))"
| "po_advance a weak out (PoGot i) m = (if bm_closed m then PoReturned (Ready None) else PoRemove i, m)"
| "po_advance a weak out (PoRemove i) m =
     (let (f, p) = map_remove i (bm_pending m) in
      (case f of None \<Rightarrow> PoPop | Some f' \<Rightarrow> PoFut i f', m\<lparr>bm_pending := p\<rparr>))"
| "po_advance a weak out (PoFut i f) m =
     (case out of FutPending f' \<Rightarrow> PoInsert i f' | FutReady r \<Rightarrow> PoReadyLoad r | FutPanic \<Rightarrow> PoPanicked, m)"
| "po_advance a weak out (PoInsert i f) m = (PoPop, m\<lparr>bm_pending := (bm_pending m)(i \<mapsto> f)\<rparr>)"
| "po_advance a weak out (PoReadyLoad r) m = (case bm_ptr m of None \<Rightarrow> PoReadyLeave r | Some b \<Rightarrow> PoReadyCas r b, m)"
| "po_advance a weak out (PoReadyCas r b) m =
     (let (ok, m') = host_cas weak b m in (if ok then PoReadyFree r b else PoReadyLoad r, m'))"
| "po_advance a weak out (PoReadyFree r b) m = (PoReadyLeave r, snd (box_take b m))"
| "po_advance a weak out (PoReadyLeave r) m = po_leave (PoReturned (Ready (Some r))) m"
| "po_advance a weak out PoLeave m = po_leave PoCheck m"
| "po_advance a weak out PoCheck m = (PoReturned (if bm_closed m then Ready None else Pending), m)"
| "po_advance a weak out p m = (p, m)"

text \<open>The whole: the threads, the poll, and the task that polled last.\<close>

record ('f, 'r) batch_run =
  br_mem :: "'f batch_mem"
  br_wk :: "nat \<Rightarrow> 'f wk_pc"
  br_po :: "('f, 'r) po_pc"
  br_task :: nat

definition batch_run_new :: "('f, 'r) batch_run" where
  "batch_run_new =
     \<lparr>br_mem = \<lparr>bm_idgen = 0, bm_pending = Map.empty, bm_queue = [], bm_ptr = None, bm_boxes = Map.empty, bm_counter = 0,
        bm_closed = False, bm_woken = {}, bm_ub = False\<rparr>,
      br_wk = (\<lambda>_. WkIdle), br_po = PoStart, br_task = 0\<rparr>"

definition br_set_wk :: "nat \<Rightarrow> 'f wk_pc \<times> 'f batch_mem \<Rightarrow> ('f, 'r) batch_run \<Rightarrow> ('f, 'r) batch_run" where
  "br_set_wk t pm s = s\<lparr>br_wk := (br_wk s)(t := fst pm), br_mem := snd pm\<rparr>"

definition br_set_po :: "('f, 'r) po_pc \<times> 'f batch_mem \<Rightarrow> ('f, 'r) batch_run \<Rightarrow> ('f, 'r) batch_run" where
  "br_set_po pm s = s\<lparr>br_po := fst pm, br_mem := snd pm\<rparr>"

fun po_resting :: "('f, 'r) po_pc \<Rightarrow> bool" where
  "po_resting PoStart = True"
| "po_resting (PoReturned r) = True"
| "po_resting _ = False"

text \<open>
  Calls begin at any time with any arguments; a poll begins when the last one has returned. A new box
  gets any address that is free.
\<close>

inductive batch_step :: "('f, 'r) batch_run \<Rightarrow> ('f, 'r) batch_run \<Rightarrow> bool" where
  begin_push: "br_wk s t = WkIdle \<Longrightarrow> batch_step s (br_set_wk t (push_begin f (br_mem s)) s)"
| begin_wake: "br_wk s t = WkIdle \<Longrightarrow> batch_step s (br_set_wk t (WkPush i, br_mem s) s)"
| begin_close: "br_wk s t = WkIdle \<Longrightarrow> batch_step s (br_set_wk t (close_begin (br_mem s)) s)"
| advance_wk: "batch_step s (br_set_wk t (wk_advance weak (br_wk s t) (br_mem s)) s)"
| begin_poll: "po_resting (br_po s) \<Longrightarrow> batch_step s ((br_set_po (po_begin w (br_mem s)) s)\<lparr>br_task := w\<rparr>)"
| advance_po: "bm_boxes (br_mem s) a = None \<Longrightarrow> batch_step s (br_set_po (po_advance a weak out (br_po s) (br_mem s)) s)"

inductive batch_reach :: "('f, 'r) batch_run \<Rightarrow> bool" where
  init: "batch_reach batch_run_new"
| move: "\<lbrakk> batch_reach s; batch_step s s' \<rbrakk> \<Longrightarrow> batch_reach s'"

section \<open>Every box has one owner\<close>

datatype box_holder = HostPtr | PollCall | WakeCall nat

fun wk_box :: "'f wk_pc \<Rightarrow> nat option" where
  "wk_box (WkWake a) = Some a"
| "wk_box _ = None"

fun po_box :: "('f, 'r) po_pc \<Rightarrow> nat option" where
  "po_box (PoSwap a) = Some a"
| "po_box (PoFree a) = Some a"
| "po_box (PoReadyFree r a) = Some a"
| "po_box _ = None"

fun box_of :: "('f, 'r) batch_run \<Rightarrow> box_holder \<rightharpoonup> nat" where
  "box_of s HostPtr = bm_ptr (br_mem s)"
| "box_of s PollCall = po_box (br_po s)"
| "box_of s (WakeCall t) = wk_box (br_wk s t)"

definition boxes_ok :: "('f, 'r) batch_run \<Rightarrow> bool" where
  "boxes_ok s \<longleftrightarrow> \<not> bm_ub (br_mem s) \<and> owns (box_of s) (bm_boxes (br_mem s))"

lemma box_of_wk: "box_of (br_set_wk t (p, m) s) = (box_of s)(HostPtr := bm_ptr m, WakeCall t := wk_box p)"
proof
  show "box_of (br_set_wk t (p, m) s) h = ((box_of s)(HostPtr := bm_ptr m, WakeCall t := wk_box p)) h" for h
    by (cases h) (auto simp: br_set_wk_def)
qed

lemma box_of_po: "box_of (br_set_po (p, m) s) = (box_of s)(HostPtr := bm_ptr m, PollCall := po_box p)"
proof
  show "box_of (br_set_po (p, m) s) h = ((box_of s)(HostPtr := bm_ptr m, PollCall := po_box p)) h" for h
    by (cases h) (auto simp: br_set_po_def)
qed

text \<open>A step that leaves the pointer, the boxes and the box of the thread alone.\<close>

definition same_boxes :: "'f batch_mem \<Rightarrow> 'f batch_mem \<Rightarrow> bool" where
  "same_boxes m m' \<longleftrightarrow> bm_ptr m' = bm_ptr m \<and> bm_boxes m' = bm_boxes m \<and> bm_ub m' = bm_ub m"

lemma boxes_keep_wk: "\<lbrakk> boxes_ok s; wk_box p = wk_box (br_wk s t); same_boxes (br_mem s) m \<rbrakk> \<Longrightarrow> boxes_ok (br_set_wk t (p, m) s)"
  unfolding boxes_ok_def box_of_wk same_boxes_def by (simp add: br_set_wk_def fun_upd_idem)

lemma boxes_keep_po: "\<lbrakk> boxes_ok s; po_box p = po_box (br_po s); same_boxes (br_mem s) m \<rbrakk> \<Longrightarrow> boxes_ok (br_set_po (p, m) s)"
  unfolding boxes_ok_def box_of_po same_boxes_def by (simp add: br_set_po_def fun_upd_idem)

lemma box_take_held:
  assumes "boxes_ok s" "box_of s h = Some a"
  shows "\<exists>w. bm_boxes (br_mem s) a = Some w \<and> box_take a (br_mem s) = (Some w, (br_mem s)\<lparr>bm_boxes := (bm_boxes (br_mem s))(a := None)\<rparr>)"
  using assms ownsD [of "box_of s" "bm_boxes (br_mem s)" h a] by (auto simp: boxes_ok_def box_take_def)

lemma boxes_ok_wk:
  assumes "boxes_ok s"
  shows "boxes_ok (br_set_wk t (wk_advance weak (br_wk s t) (br_mem s)) s)"
proof (cases "br_wk s t")
  case (WkCas a)
  show ?thesis
  proof (cases "bm_ptr (br_mem s) = Some a \<and> \<not> weak")
    case True
    then have "owns ((box_of s)(HostPtr := None, WakeCall t \<mapsto> a)) (bm_boxes (br_mem s))"
      using assms WkCas by (intro owns_move) (auto simp: boxes_ok_def)
    then show ?thesis using True WkCas assms by (simp add: boxes_ok_def box_of_wk host_cas_def) (simp add: br_set_wk_def)
  next
    case False
    then show ?thesis using WkCas assms by (auto simp: host_cas_def same_boxes_def intro!: boxes_keep_wk)
  qed
next
  case (WkWake a)
  then have h: "box_of s (WakeCall t) = Some a" by simp
  have "owns ((box_of s)(WakeCall t := None)) ((bm_boxes (br_mem s))(a := None))" using assms h by (intro owns_free) (auto simp: boxes_ok_def)
  moreover have "(box_of s)(HostPtr := bm_ptr (br_mem s), WakeCall t := None) = (box_of s)(WakeCall t := None)" by (simp add: fun_upd_idem)
  ultimately show ?thesis using WkWake assms box_take_held [OF assms h]
    by (auto simp: boxes_ok_def box_of_wk box_wake_def) (simp_all add: br_set_wk_def)
qed (use assms in \<open>auto simp: same_boxes_def intro!: boxes_keep_wk split: option.splits\<close>)

lemma boxes_free_po:
  assumes "boxes_ok s" "po_box (br_po s) = Some a" "po_box p = None"
  shows "boxes_ok (br_set_po (p, snd (box_take a (br_mem s))) s)"
proof -
  have h: "box_of s PollCall = Some a" using assms(2) by simp
  have "owns ((box_of s)(PollCall := None)) ((bm_boxes (br_mem s))(a := None))" using assms(1) h by (intro owns_free) (auto simp: boxes_ok_def)
  moreover have "(box_of s)(HostPtr := bm_ptr (br_mem s), PollCall := None) = (box_of s)(PollCall := None)" by (simp add: fun_upd_idem)
  ultimately show ?thesis using assms(1,3) box_take_held [OF assms(1) h]
    by (auto simp: boxes_ok_def box_of_po) (simp_all add: br_set_po_def)
qed

lemma boxes_ok_po:
  assumes "boxes_ok s" "bm_boxes (br_mem s) a = None"
  shows "boxes_ok (br_set_po (po_advance a weak out (br_po s) (br_mem s)) s)"
proof (cases "br_po s")
  case (PoNew w)
  have "owns ((box_of s)(PollCall \<mapsto> a)) ((bm_boxes (br_mem s))(a \<mapsto> w))" using assms PoNew by (intro owns_new) (auto simp: boxes_ok_def)
  moreover have "(box_of s)(HostPtr := bm_ptr (br_mem s), PollCall \<mapsto> a) = (box_of s)(PollCall \<mapsto> a)" by (simp add: fun_upd_idem)
  ultimately show ?thesis using PoNew assms(1) by (simp add: boxes_ok_def box_of_po) (simp add: br_set_po_def)
next
  case (PoSwap b)
  have "owns ((box_of s)(PollCall := box_of s HostPtr, HostPtr \<mapsto> b)) (bm_boxes (br_mem s))"
    using assms(1) PoSwap by (intro owns_swap) (auto simp: boxes_ok_def)
  moreover have "po_box (case bm_ptr (br_mem s) of None \<Rightarrow> (PoPop :: ('a, 'b) po_pc) | Some c \<Rightarrow> PoFree c) = bm_ptr (br_mem s)" by (simp split: option.split)
  ultimately show ?thesis using PoSwap assms(1)
    by (simp add: boxes_ok_def box_of_po host_swap_def fun_upd_twist) (simp add: br_set_po_def)
next
  case (PoFree b)
  then show ?thesis using boxes_free_po [OF assms(1), of b PoPop] by simp
next
  case (PoReadyCas r b)
  show ?thesis
  proof (cases "bm_ptr (br_mem s) = Some b \<and> \<not> weak")
    case True
    then have "owns ((box_of s)(HostPtr := None, PollCall \<mapsto> b)) (bm_boxes (br_mem s))"
      using assms(1) PoReadyCas by (intro owns_move) (auto simp: boxes_ok_def)
    then show ?thesis using True PoReadyCas assms(1) by (simp add: boxes_ok_def box_of_po host_cas_def) (simp add: br_set_po_def)
  next
    case False
    then show ?thesis using PoReadyCas assms(1) by (auto simp: host_cas_def same_boxes_def intro!: boxes_keep_po)
  qed
next
  case (PoReadyFree r b)
  then show ?thesis using boxes_free_po [OF assms(1), of b "PoReadyLeave r"] by simp
qed (use assms(1) in \<open>auto simp: same_boxes_def po_leave_def map_remove_def intro!: boxes_keep_po split: option.splits list.splits fut_out.splits\<close>)

lemma boxes_ok_step: "\<lbrakk> batch_step s s'; boxes_ok s \<rbrakk> \<Longrightarrow> boxes_ok s'"
proof (induction rule: batch_step.induct)
  case (begin_poll s w)
  have "boxes_ok (br_set_po (po_begin w (br_mem s)) s)"
    using begin_poll by (cases "br_po s") (auto simp: po_begin_def same_boxes_def intro!: boxes_keep_po)
  moreover have "box_of (s'\<lparr>br_task := w\<rparr>) = box_of s'" for s' :: "('a, 'b) batch_run"
  proof
    show "box_of (s'\<lparr>br_task := w\<rparr>) h = box_of s' h" for h by (cases h) auto
  qed
  ultimately show ?case by (simp add: boxes_ok_def)
qed (auto simp: push_begin_def close_begin_def close_cas_def same_boxes_def intro!: boxes_keep_wk boxes_ok_wk boxes_ok_po)

lemma boxes_ok_reach: "batch_reach s \<Longrightarrow> boxes_ok s"
proof (induction rule: batch_reach.induct)
  case init
  have "box_of (batch_run_new :: ('a, 'b) batch_run) = Map.empty"
  proof
    show "box_of (batch_run_new :: ('a, 'b) batch_run) h = None" for h by (cases h) (auto simp: batch_run_new_def)
  qed
  then show ?case by (simp add: boxes_ok_def) (simp add: batch_run_new_def)
qed (rule boxes_ok_step)

section \<open>No wakeup is lost\<close>

text \<open>
  The task that polled last has been woken or is about to be; its waker is in the host; a thread that has
  pushed an identifier or set the closed flag is on its way to the host.
\<close>

definition alarmed :: "('f, 'r) batch_run \<Rightarrow> bool" where
  "alarmed s \<longleftrightarrow> br_task s \<in> bm_woken (br_mem s) \<or> (\<exists>t a. br_wk s t = WkWake a \<and> bm_boxes (br_mem s) a = Some (br_task s))"

definition armed :: "('f, 'r) batch_run \<Rightarrow> bool" where
  "armed s \<longleftrightarrow> (\<exists>a. bm_ptr (br_mem s) = Some a \<and> bm_boxes (br_mem s) a = Some (br_task s))"

definition inflight :: "('f, 'r) batch_run \<Rightarrow> bool" where
  "inflight s \<longleftrightarrow> (\<exists>t. br_wk s t = WkLoad \<or> (\<exists>a. br_wk s t = WkCas a))"

fun po_armed :: "('f, 'r) po_pc \<Rightarrow> bool" where
  "po_armed (PoFree a) = True"
| "po_armed PoPop = True"
| "po_armed (PoGot i) = True"
| "po_armed (PoRemove i) = True"
| "po_armed (PoFut i f) = True"
| "po_armed (PoInsert i f) = True"
| "po_armed PoLeave = True"
| "po_armed PoCheck = True"
| "po_armed (PoReturned Pending) = True"
| "po_armed _ = False"

fun po_drained :: "('f, 'r) po_pc \<Rightarrow> bool" where
  "po_drained PoLeave = True"
| "po_drained PoCheck = True"
| "po_drained (PoReturned Pending) = True"
| "po_drained _ = False"

fun po_waker :: "('f, 'r) po_pc \<Rightarrow> 'f batch_mem \<Rightarrow> nat option" where
  "po_waker (PoClosed w) m = Some w"
| "po_waker (PoNew w) m = Some w"
| "po_waker (PoSwap b) m = bm_boxes m b"
| "po_waker _ m = None"

definition wake_ok :: "('f, 'r) batch_run \<Rightarrow> bool" where
  "wake_ok s \<longleftrightarrow>
     (po_waker (br_po s) (br_mem s) \<in> {None, Some (br_task s)}) \<and>
     (po_armed (br_po s) \<longrightarrow> armed s \<or> alarmed s) \<and>
     (po_drained (br_po s) \<longrightarrow> bm_queue (br_mem s) \<noteq> [] \<longrightarrow> alarmed s \<or> inflight s) \<and>
     (br_po s = PoReturned Pending \<longrightarrow> bm_closed (br_mem s) \<longrightarrow> alarmed s \<or> inflight s)"

lemma holder_uniq: "\<lbrakk> boxes_ok s; box_of s h = Some a; box_of s k = Some a \<rbrakk> \<Longrightarrow> h = k"
  unfolding boxes_ok_def using owns_uniq by metis

text \<open>The steps of a thread.\<close>

lemma wk_advance_box:
  assumes "boxes_ok s" "bm_boxes (br_mem s) b = Some w" "br_wk s t \<noteq> WkWake b"
  shows "bm_boxes (snd (wk_advance weak (br_wk s t) (br_mem s))) b = Some w"
  using assms by (cases "br_wk s t") (auto simp: host_cas_def box_wake_def box_take_def split: option.splits)

lemma wk_alarmed:
  assumes "boxes_ok s" "alarmed s"
  shows "alarmed (br_set_wk t (wk_advance weak (br_wk s t) (br_mem s)) s)"
proof -
  let ?m = "snd (wk_advance weak (br_wk s t) (br_mem s))"
  have mono: "bm_woken (br_mem s) \<subseteq> bm_woken ?m"
    by (cases "br_wk s t") (auto simp: host_cas_def box_wake_def box_take_def split: option.splits)
  show ?thesis
  proof (cases "br_task s \<in> bm_woken (br_mem s)")
    case True
    then show ?thesis using mono by (auto simp: alarmed_def br_set_wk_def)
  next
    case False
    then obtain u a where u: "br_wk s u = WkWake a" "bm_boxes (br_mem s) a = Some (br_task s)" using assms(2) by (auto simp: alarmed_def)
    show ?thesis
    proof (cases "u = t")
      case True
      then show ?thesis using u by (auto simp: alarmed_def br_set_wk_def box_wake_def box_take_def)
    next
      case False
      then have "br_wk s t \<noteq> WkWake a" using holder_uniq [OF assms(1), of "WakeCall u" a "WakeCall t"] u(1) by auto
      then have "bm_boxes ?m a = Some (br_task s)" using wk_advance_box [OF assms(1) u(2)] by simp
      then show ?thesis using u(1) False unfolding alarmed_def br_set_wk_def by (intro disjI2 exI [of _ u] exI [of _ a]) simp
    qed
  qed
qed

lemma wk_armed:
  assumes "boxes_ok s" "armed s"
  shows "let s' = br_set_wk t (wk_advance weak (br_wk s t) (br_mem s)) s in armed s' \<or> alarmed s'"
proof -
  obtain a where a: "bm_ptr (br_mem s) = Some a" "bm_boxes (br_mem s) a = Some (br_task s)" using assms(2) by (auto simp: armed_def)
  have "br_wk s t \<noteq> WkWake a" using holder_uniq [OF assms(1), of "WakeCall t" a HostPtr] a(1) by auto
  then show ?thesis using a
    by (cases "br_wk s t") (auto simp: armed_def alarmed_def br_set_wk_def host_cas_def box_wake_def box_take_def split: option.splits)
qed

lemma wk_inflight:
  assumes "boxes_ok s" "inflight s" "armed s \<or> alarmed s"
  shows "let s' = br_set_wk t (wk_advance weak (br_wk s t) (br_mem s)) s in alarmed s' \<or> inflight s'"
proof (cases "alarmed s")
  case True
  then show ?thesis using wk_alarmed [OF assms(1)] by (simp add: Let_def)
next
  case False
  then obtain a where a: "bm_ptr (br_mem s) = Some a" "bm_boxes (br_mem s) a = Some (br_task s)" using assms(3) by (auto simp: armed_def)
  obtain u where u: "br_wk s u = WkLoad \<or> (\<exists>b. br_wk s u = WkCas b)" using assms(2) by (auto simp: inflight_def)
  show ?thesis
  proof (cases "u = t")
    case True
    then show ?thesis using u a by (auto simp: alarmed_def inflight_def br_set_wk_def host_cas_def)
  next
    case False
    then show ?thesis using u unfolding inflight_def br_set_wk_def Let_def by - (rule disjI2, rule exI [of _ u], simp)
  qed
qed

lemma wake_ok_wk:
  assumes "boxes_ok s" "wake_ok s"
  shows "wake_ok (br_set_wk t (wk_advance weak (br_wk s t) (br_mem s)) s)" (is "wake_ok ?s")
proof -
  have po: "br_po ?s = br_po s" "br_task ?s = br_task s" "br_mem ?s = snd (wk_advance weak (br_wk s t) (br_mem s))" by (simp_all add: br_set_wk_def)
  have w: "po_waker (br_po s) (br_mem s) \<in> {None, Some (br_task s)}" "po_armed (br_po s) \<Longrightarrow> armed s \<or> alarmed s"
    "\<lbrakk> po_drained (br_po s); bm_queue (br_mem s) \<noteq> [] \<rbrakk> \<Longrightarrow> alarmed s \<or> inflight s"
    "\<lbrakk> br_po s = PoReturned Pending; bm_closed (br_mem s) \<rbrakk> \<Longrightarrow> alarmed s \<or> inflight s"
    using assms(2) by (auto simp: wake_ok_def)
  have 1: "po_waker (br_po ?s) (br_mem ?s) \<in> {None, Some (br_task s)}"
  proof (cases "br_po s")
    case (PoSwap b)
    then have b: "bm_boxes (br_mem s) b = Some (br_task s)"
      using w(1) assms(1) ownsD [of "box_of s" "bm_boxes (br_mem s)" PollCall b] by (auto simp: boxes_ok_def)
    have "br_wk s t \<noteq> WkWake b" using holder_uniq [OF assms(1), of "WakeCall t" b PollCall] PoSwap by auto
    then show ?thesis using wk_advance_box [OF assms(1) b] PoSwap by (simp add: po)
  qed (use w(1) in \<open>auto simp: po\<close>)
  have 2: "armed ?s \<or> alarmed ?s" if "po_armed (br_po s)" using w(2) [OF that] wk_armed [OF assms(1)] wk_alarmed [OF assms(1)] by (auto simp: Let_def)
  have fl: "alarmed ?s \<or> inflight ?s" if "alarmed s \<or> inflight s" "po_armed (br_po s)"
    using that w(2) wk_alarmed [OF assms(1)] wk_inflight [OF assms(1)] by (auto simp: Let_def)
  have q: "bm_queue (br_mem ?s) = bm_queue (br_mem s) \<or> inflight ?s"
    by (cases "br_wk s t") (auto simp: inflight_def br_set_wk_def host_cas_def box_wake_def box_take_def split: option.splits)
  have c: "bm_closed (br_mem ?s) = bm_closed (br_mem s)"
    by (cases "br_wk s t") (auto simp: br_set_wk_def host_cas_def box_wake_def box_take_def split: option.splits)
  have d: "po_armed (br_po s)" if "po_drained (br_po s)" using that by (cases "br_po s" rule: po_drained.cases) auto
  show ?thesis unfolding wake_ok_def po(1,2) using 1 2 fl q c d w(3,4) by (auto simp: po)
qed

text \<open>The beginning of a call.\<close>

lemma wake_ok_begin:
  assumes "wake_ok s" "br_wk s t = WkIdle" "wk_box p = None" "same_boxes (br_mem s) m" "bm_woken m = bm_woken (br_mem s)" "bm_queue m = bm_queue (br_mem s)"
    "bm_closed m = bm_closed (br_mem s) \<or> p = WkLoad"
  shows "wake_ok (br_set_wk t (p, m) s)" (is "wake_ok ?s")
proof -
  have s: "br_po ?s = br_po s" "br_task ?s = br_task s" "br_mem ?s = m" "br_wk ?s = (br_wk s)(t := p)" by (simp_all add: br_set_wk_def)
  have m: "bm_ptr m = bm_ptr (br_mem s)" "bm_boxes m = bm_boxes (br_mem s)" using assms(4) by (auto simp: same_boxes_def)
  have 1: "armed ?s = armed s" by (simp add: armed_def s m)
  have 2: "alarmed ?s" if al: "alarmed s"
  proof (cases "br_task s \<in> bm_woken (br_mem s)")
    case False
    then obtain u a where u: "br_wk s u = WkWake a" "bm_boxes (br_mem s) a = Some (br_task s)" using al by (auto simp: alarmed_def)
    then have "br_wk ?s u = WkWake a" using assms(2) by (auto simp: s)
    then show ?thesis using u(2) unfolding alarmed_def s m by blast
  qed (simp add: alarmed_def s assms(5))
  have 3: "inflight ?s" if fl: "inflight s"
  proof -
    obtain u where u: "br_wk s u = WkLoad \<or> (\<exists>b. br_wk s u = WkCas b)" using fl by (auto simp: inflight_def)
    then have "br_wk ?s u = br_wk s u" using assms(2) by (auto simp: s)
    then show ?thesis using u unfolding inflight_def by metis
  qed
  have 4: "inflight ?s" if "p = WkLoad" unfolding inflight_def s(4) by (rule exI [of _ t]) (simp add: that)
  have "po_waker (br_po s) m = po_waker (br_po s) (br_mem s)" by (cases "br_po s") (simp_all add: m)
  then show ?thesis using assms(1,6,7) 1 2 3 4 unfolding wake_ok_def s by auto
qed

text \<open>The steps of the poll.\<close>

lemma po_advance_box:
  assumes "boxes_ok s" "bm_boxes (br_mem s) a = None" "box_of s h = Some b" "h \<noteq> PollCall"
  shows "bm_boxes (snd (po_advance a weak out (br_po s) (br_mem s))) b = bm_boxes (br_mem s) b"
proof -
  have "po_box (br_po s) \<noteq> Some b" using holder_uniq [OF assms(1,3), of PollCall] assms(4) by auto
  moreover have "b \<noteq> a" using assms(1-3) ownsD [of "box_of s" "bm_boxes (br_mem s)" h b] by (auto simp: boxes_ok_def)
  ultimately show ?thesis
    by (cases "br_po s") (auto simp: host_cas_def host_swap_def box_take_def po_leave_def map_remove_def split: option.splits list.splits)
qed

lemma po_alarmed:
  assumes "boxes_ok s" "bm_boxes (br_mem s) a = None" "alarmed s"
  shows "alarmed (br_set_po (po_advance a weak out (br_po s) (br_mem s)) s)" (is "alarmed ?s")
proof -
  have s: "br_wk ?s = br_wk s" "br_task ?s = br_task s" "br_mem ?s = snd (po_advance a weak out (br_po s) (br_mem s))" by (simp_all add: br_set_po_def)
  have "bm_woken (br_mem ?s) = bm_woken (br_mem s)" unfolding s(3)
    by (cases "br_po s") (auto simp: host_cas_def host_swap_def box_take_def po_leave_def map_remove_def split: option.splits list.splits)
  moreover have "bm_boxes (br_mem ?s) b = bm_boxes (br_mem s) b" if "br_wk s t = WkWake b" for t b
    using po_advance_box [OF assms(1,2), of "WakeCall t" b] that by (simp add: s)
  ultimately show ?thesis using assms(3) unfolding alarmed_def s(1,2) by metis
qed

lemma po_armed_keep:
  assumes "boxes_ok s" "bm_boxes (br_mem s) a = None" "po_armed (br_po s)" "armed s \<or> alarmed s"
  shows "let s' = br_set_po (po_advance a weak out (br_po s) (br_mem s)) s in armed s' \<or> alarmed s'" (is "let s' = ?s in _")
proof (cases "alarmed s")
  case False
  then obtain b where b: "bm_ptr (br_mem s) = Some b" "bm_boxes (br_mem s) b = Some (br_task s)" using assms(4) by (auto simp: armed_def)
  have "bm_ptr (snd (po_advance a weak out (br_po s) (br_mem s))) = Some b" using assms(3) b(1)
    by (cases "br_po s") (auto simp: box_take_def po_leave_def map_remove_def split: option.splits list.splits)
  moreover have "bm_boxes (snd (po_advance a weak out (br_po s) (br_mem s))) b = Some (br_task s)"
    using po_advance_box [OF assms(1,2), of HostPtr b] b by simp
  ultimately show ?thesis by (simp add: Let_def armed_def br_set_po_def)
qed (use po_alarmed [OF assms(1,2)] in \<open>simp add: Let_def\<close>)

lemma po_armed_step:
  assumes "boxes_ok s" "bm_boxes (br_mem s) a = None" "wake_ok s" "po_armed (fst (po_advance a weak out (br_po s) (br_mem s)))"
  shows "let s' = br_set_po (po_advance a weak out (br_po s) (br_mem s)) s in armed s' \<or> alarmed s'"
proof (cases "po_armed (br_po s)")
  case True
  then show ?thesis using po_armed_keep [OF assms(1,2) True] assms(3) by (simp add: wake_ok_def)
next
  case False
  then obtain b where b: "br_po s = PoSwap b" using assms(4)
    by (cases "br_po s") (auto simp: po_leave_def host_cas_def map_remove_def split: if_splits option.splits fut_out.splits poll.splits)
  then have "bm_boxes (br_mem s) b = Some (br_task s)"
    using assms(1,3) ownsD [of "box_of s" "bm_boxes (br_mem s)" PollCall b] by (auto simp: boxes_ok_def wake_ok_def)
  then show ?thesis using b by (simp add: armed_def br_set_po_def host_swap_def)
qed

lemma wake_ok_po:
  assumes "boxes_ok s" "wake_ok s" "bm_boxes (br_mem s) a = None"
  shows "wake_ok (br_set_po (po_advance a weak out (br_po s) (br_mem s)) s)" (is "wake_ok ?s")
proof -
  let ?p = "fst (po_advance a weak out (br_po s) (br_mem s))" and ?m = "snd (po_advance a weak out (br_po s) (br_mem s))"
  have s: "br_po ?s = ?p" "br_task ?s = br_task s" "br_mem ?s = ?m" by (simp_all add: br_set_po_def)
  have w: "po_waker (br_po s) (br_mem s) \<in> {None, Some (br_task s)}" "\<lbrakk> po_drained (br_po s); bm_queue (br_mem s) \<noteq> [] \<rbrakk> \<Longrightarrow> alarmed s \<or> inflight s"
    "\<lbrakk> br_po s = PoReturned Pending; bm_closed (br_mem s) \<rbrakk> \<Longrightarrow> alarmed s \<or> inflight s"
    using assms(2) by (auto simp: wake_ok_def)
  have fl: "alarmed ?s \<or> inflight ?s" if "alarmed s \<or> inflight s"
    using that po_alarmed [OF assms(1,3)] by (auto simp: inflight_def br_set_po_def)
  have 1: "po_waker ?p ?m \<in> {None, Some (br_task s)}" using w(1)
    by (cases "br_po s") (auto simp: po_leave_def host_cas_def host_swap_def map_remove_def split: option.splits list.splits fut_out.splits)
  have 2: "armed ?s \<or> alarmed ?s" if "po_armed ?p" using po_armed_step [OF assms(1,3,2) that] by (simp add: Let_def)
  have 3: "bm_queue ?m = [] \<or> (po_drained (br_po s) \<and> bm_queue ?m = bm_queue (br_mem s))" if "po_drained ?p" using that
    by (cases "br_po s") (auto simp: po_leave_def host_cas_def host_swap_def map_remove_def split: option.splits list.splits fut_out.splits if_splits poll.splits)
  have 4: "\<not> bm_closed ?m \<or> (br_po s = PoReturned Pending \<and> bm_closed (br_mem s))" if "?p = PoReturned Pending" using that
    by (cases "br_po s") (auto simp: po_leave_def host_cas_def host_swap_def map_remove_def split: option.splits list.splits fut_out.splits if_splits)
  have q: "alarmed ?s \<or> inflight ?s" if "po_drained ?p" "bm_queue ?m \<noteq> []" using 3 [OF that(1)] that(2) w(2) fl by auto
  have c: "alarmed ?s \<or> inflight ?s" if "?p = PoReturned Pending" "bm_closed ?m" using 4 [OF that(1)] that(2) w(3) fl by auto
  show ?thesis unfolding wake_ok_def s using 1 2 q c by blast
qed

lemma wake_ok_step:
  assumes "batch_step s s'" "boxes_ok s" "wake_ok s"
  shows "wake_ok s'"
  using assms
proof (induction rule: batch_step.induct)
  case (begin_poll s w)
  then show ?case by (auto simp: wake_ok_def po_begin_def br_set_po_def)
qed (auto simp: push_begin_def close_begin_def close_cas_def same_boxes_def intro!: wake_ok_wk wake_ok_po wake_ok_begin)

lemma wake_ok_reach: "batch_reach s \<Longrightarrow> wake_ok s"
proof (induction rule: batch_reach.induct)
  case (move s s')
  then show ?case using wake_ok_step boxes_ok_reach by blast
qed (simp add: wake_ok_def batch_run_new_def)

section \<open>The counter of polls\<close>

fun po_inside :: "('f, 'r) po_pc \<Rightarrow> bool" where
  "po_inside PoStart = False"
| "po_inside (PoReturned r) = False"
| "po_inside PoCheck = False"
| "po_inside _ = True"

definition counter_ok :: "('f, 'r) batch_run \<Rightarrow> bool" where
  "counter_ok s \<longleftrightarrow> bm_closed (br_mem s) \<or> (br_po s \<noteq> PoFailed \<and> bm_counter (br_mem s) = of_bool (po_inside (br_po s)))"

lemma counter_ok_step:
  assumes "batch_step s s'" "counter_ok s"
  shows "counter_ok s'"
  using assms
proof (induction rule: batch_step.induct)
  case (advance_wk s t weak)
  then show ?case by (cases "br_wk s t") (auto simp: counter_ok_def br_set_wk_def host_cas_def box_wake_def box_take_def split: option.splits)
next
  case (begin_poll s w)
  then show ?case by (cases "br_po s") (auto simp: counter_ok_def br_set_po_def po_begin_def)
next
  case (advance_po s a weak out)
  then show ?case
    by (cases "br_po s")
       (auto simp: counter_ok_def br_set_po_def po_leave_def host_cas_def host_swap_def box_take_def map_remove_def split: option.splits list.splits fut_out.splits)
qed (auto simp: counter_ok_def br_set_wk_def push_begin_def close_begin_def close_cas_def)

lemma counter_ok_reach: "batch_reach s \<Longrightarrow> counter_ok s"
  by (induction rule: batch_reach.induct) (simp add: counter_ok_def batch_run_new_def, rule counter_ok_step)

section \<open>Calls that run alone\<close>

text \<open>The sequential batcher of \<open>Future_Batcher\<close> that a memory stands for.\<close>

definition stands_for :: "'f batch_mem \<Rightarrow> 'f batcher \<Rightarrow> bool" where
  "stands_for m b \<longleftrightarrow>
     bm_idgen m = fb_idgen b \<and> bm_pending m = fb_pending b \<and> bm_queue m = q_items (fb_wakeups b) \<and> q_inv (fb_wakeups b) \<and>
     Option.bind (bm_ptr m) (bm_boxes m) = fb_raw_waker b \<and> set_option (bm_ptr m) \<subseteq> dom (bm_boxes m) \<and>
     bm_counter m = fb_await_counter b \<and> bm_closed m = fb_closed b"

definition wk_alone :: "nat \<Rightarrow> 'f wk_pc \<times> 'f batch_mem \<Rightarrow> 'f wk_pc \<times> 'f batch_mem" where
  "wk_alone n = (\<lambda>(p, m). wk_advance False p m) ^^ n"

lemma wk_alone_simps [simp]:
  "wk_alone 0 pm = pm" "wk_alone (Suc n) (p, m) = wk_alone n (wk_advance False p m)" "wk_alone n (WkIdle, m) = (WkIdle, m)"
proof -
  show "wk_alone n (WkIdle, m) = (WkIdle, m)" by (induction n) (simp_all add: wk_alone_def)
qed (simp_all add: wk_alone_def funpow_Suc_right del: funpow.simps(2))

text \<open>\<open>WakerHost::wake\<close> in three steps.\<close>

lemma raw_wake_alone:
  assumes "stands_for m b"
  shows "\<exists>m'. wk_alone 3 (WkLoad, m) = (WkIdle, m') \<and> stands_for m' (raw_wake b) \<and>
    bm_woken m' = bm_woken m \<union> set_option (fb_raw_waker b) \<and> bm_ub m' = bm_ub m"
proof (cases "bm_ptr m")
  case None
  then have "raw_wake b = b" using assms by (simp add: stands_for_def raw_wake_def remove_waker_def)
  then show ?thesis using None assms by (auto simp: numeral_3_eq_3 stands_for_def)
next
  case (Some a)
  then have "bm_boxes m a = fb_raw_waker b" "a \<in> dom (bm_boxes m)" using assms unfolding stands_for_def by simp_all
  then obtain w where w: "bm_boxes m a = Some w" "fb_raw_waker b = Some w" by (metis domD)
  let ?m = "m\<lparr>bm_ptr := None, bm_boxes := (bm_boxes m)(a := None), bm_woken := insert w (bm_woken m)\<rparr>"
  have "wk_alone 3 (WkLoad, m) = (WkIdle, ?m)" using Some w by (simp add: numeral_3_eq_3 host_cas_def box_wake_def box_take_def)
  moreover have "stands_for ?m (raw_wake b)" using assms by (simp add: stands_for_def)
  ultimately show ?thesis using w(2) by auto
qed

lemma wake_alone:
  assumes "stands_for m b" "q_count (fb_wakeups b) < 2 ^ 64 - 1"
  shows "\<exists>m'. wk_alone 4 (WkPush i, m) = (WkIdle, m') \<and> stands_for m' (batcher_wake i b)"
proof -
  have "stands_for (m\<lparr>bm_queue := bm_queue m @ [i]\<rparr>) (b\<lparr>fb_wakeups := queue_push i (fb_wakeups b)\<rparr>)"
    using assms lq.items_push [of "fb_wakeups b" i] lq.inv_push [of "fb_wakeups b" i] by (simp add: stands_for_def q_items_def)
  from raw_wake_alone [OF this] show ?thesis by (auto simp: batcher_wake_def numeral_eq_Suc)
qed

lemma push_alone:
  assumes "stands_for m b" "q_count (fb_wakeups b) < 2 ^ 64 - 1"
  shows "\<exists>m'. wk_alone (Suc 4) (push_begin f m) = (WkIdle, m') \<and> stands_for m' (snd (batcher_push f b))"
proof -
  let ?i = "fb_idgen b"
  let ?m = "m\<lparr>bm_idgen := ?i + 1, bm_pending := (bm_pending m)(?i \<mapsto> f)\<rparr>"
  have i: "bm_idgen m = ?i" using assms(1) by (simp add: stands_for_def)
  have "wk_alone (Suc 4) (push_begin f m) = wk_alone 4 (WkPush ?i, ?m)" by (simp only: push_begin_def wk_alone_simps(2) wk_advance.simps i) simp
  moreover have "stands_for ?m (pending_insert ?i f (b\<lparr>fb_idgen := ?i + 1\<rparr>))" using assms(1) by (simp add: stands_for_def pending_insert_def)
  from wake_alone [OF this, of ?i] assms(2) obtain m' where "wk_alone 4 (WkPush ?i, ?m) = (WkIdle, m')"
    "stands_for m' (batcher_wake ?i (pending_insert ?i f (b\<lparr>fb_idgen := ?i + 1\<rparr>)))" by (auto simp: pending_insert_def)
  ultimately show ?thesis by (auto simp: batcher_push_def Let_def batcher_wake_def)
qed

lemma close_alone:
  assumes "stands_for m b"
  shows "\<exists>m'. wk_alone 3 (close_begin m) = (WkIdle, m') \<and> stands_for m' (batcher_close b)"
proof (cases "bm_closed m")
  case False
  then have "stands_for (m\<lparr>bm_closed := True\<rparr>) (b\<lparr>fb_closed := True\<rparr>)" using assms by (simp add: stands_for_def)
  from raw_wake_alone [OF this] show ?thesis using False assms by (auto simp: close_begin_def close_cas_def batcher_close_def stands_for_def)
qed (use assms in \<open>auto simp: close_begin_def close_cas_def batcher_close_def stands_for_def\<close>)

section \<open>Properties\<close>

text \<open>
  C17: the lock-free exchange of the system waker is free of data races. In every interleaving of pushes, wakes,
  closes and polls, also when the allocator reuses an address that a thread still compares with, no box is
  released twice or used after its release, every allocated box belongs to the host, to one thread or to the
  poll, none is leaked, and the assertion on the counter of polls fails only on a closed batcher.
\<close>

theorem waker_host_safe:
  assumes "batch_reach s"
  shows "\<not> bm_ub (br_mem s) \<and> bij_betw (the \<circ> box_of s) (dom (box_of s)) (dom (bm_boxes (br_mem s))) \<and>
    (bm_closed (br_mem s) \<or> br_po s \<noteq> PoFailed)"
proof -
  have "\<not> bm_ub (br_mem s)" "owns (box_of s) (bm_boxes (br_mem s))" using boxes_ok_reach [OF assms] by (auto simp: boxes_ok_def)
  then show ?thesis using owns_bij [of "box_of s" "bm_boxes (br_mem s)"] counter_ok_reach [OF assms] by (auto simp: counter_ok_def)
qed

text \<open>
  C16: no wakeup of the batch is lost. When the poll has returned \<open>Pending\<close> and an identifier is queued or the
  batcher is closed, the task that polled has been woken, or a thread holds its waker and wakes it next, or
  a thread is on its way to the waker; and when no thread is in a call and the task was not woken, then
  nothing is queued, the batcher is open, and the only box is in the host and has the waker of the task.
\<close>

theorem batcher_no_lost_wakeup:
  assumes "batch_reach s" "br_po s = PoReturned Pending"
  shows "((bm_queue (br_mem s) = [] \<and> \<not> bm_closed (br_mem s)) \<or> alarmed s \<or> inflight s) \<and>
    ((\<exists>t. br_wk s t \<noteq> WkIdle) \<or> br_task s \<in> bm_woken (br_mem s) \<or>
     (bm_queue (br_mem s) = [] \<and> \<not> bm_closed (br_mem s) \<and>
      (\<exists>a. bm_ptr (br_mem s) = Some a \<and> bm_boxes (br_mem s) = [a \<mapsto> br_task s])))"
proof -
  have w: "armed s \<or> alarmed s" "(bm_queue (br_mem s) = [] \<and> \<not> bm_closed (br_mem s)) \<or> alarmed s \<or> inflight s"
    using wake_ok_reach [OF assms(1)] assms(2) by (auto simp: wake_ok_def)
  have "\<exists>a. bm_ptr (br_mem s) = Some a \<and> bm_boxes (br_mem s) = [a \<mapsto> br_task s]"
    if quiet: "\<And>t. br_wk s t = WkIdle" and n: "\<not> alarmed s"
  proof -
    obtain a where a: "bm_ptr (br_mem s) = Some a" "bm_boxes (br_mem s) a = Some (br_task s)" using w(1) n by (auto simp: armed_def)
    have own: "owns (box_of s) (bm_boxes (br_mem s))" using boxes_ok_reach [OF assms(1)] by (simp add: boxes_ok_def)
    have "bm_boxes (br_mem s) b = None" if "b \<noteq> a" for b
    proof (rule ccontr)
      assume "bm_boxes (br_mem s) b \<noteq> None"
      then obtain h where "box_of s h = Some b" using owns_ex [OF own] by blast
      then show False using quiet assms(2) a(1) that by (cases h) auto
    qed
    then have "bm_boxes (br_mem s) = [a \<mapsto> br_task s]" using a(2) by (intro ext) auto
    then show ?thesis using a(1) by blast
  qed
  moreover have "\<not> inflight s \<and> (alarmed s \<longleftrightarrow> br_task s \<in> bm_woken (br_mem s))" if "\<And>t. br_wk s t = WkIdle"
    using that by (simp add: alarmed_def inflight_def)
  ultimately show ?thesis using w(2) by blast
qed

text \<open>
  A run: a task polls and waits; a thread pushes a future and stops before it takes the waker.
\<close>

definition sample_polled :: "(nat, nat) batch_run" where
  "sample_polled =
     \<lparr>br_mem = \<lparr>bm_idgen = 0, bm_pending = Map.empty, bm_queue = [], bm_ptr = Some 5, bm_boxes = [5 \<mapsto> 7], bm_counter = 0,
        bm_closed = False, bm_woken = {}, bm_ub = False\<rparr>,
      br_wk = (\<lambda>_. WkIdle), br_po = PoReturned Pending, br_task = 7\<rparr>"

definition sample_pushed :: "(nat, nat) batch_run" where
  "sample_pushed = sample_polled\<lparr>br_mem := (br_mem sample_polled)\<lparr>bm_idgen := 1, bm_pending := [0 \<mapsto> 3], bm_queue := [0]\<rparr>,
     br_wk := (\<lambda>_. WkIdle)(1 := WkLoad)\<rparr>"

lemma reach_po:
  assumes "batch_reach s" "bm_boxes (br_mem s) a = None" "s' = br_set_po (po_advance a False FutPanic (br_po s) (br_mem s)) s"
  shows "batch_reach s'"
  using assms(1) advance_po [OF assms(2), of False FutPanic] unfolding assms(3) by (rule batch_reach.move)

lemma reach_wk: "\<lbrakk> batch_reach s; s' = br_set_wk t (wk_advance False (br_wk s t) (br_mem s)) s \<rbrakk> \<Longrightarrow> batch_reach s'"
  using batch_reach.move advance_wk by blast

lemmas sample_run_defs = sample_polled_def sample_pushed_def batch_run_new_def br_set_po_def br_set_wk_def po_begin_def push_begin_def host_swap_def po_leave_def

lemma sample_polled_reach: "batch_reach sample_polled"
proof -
  let ?n = "batch_run_new :: (nat, nat) batch_run"
  have "batch_reach ((br_set_po (po_begin 7 (br_mem ?n)) ?n)\<lparr>br_task := 7\<rparr>)" (is "batch_reach ?a")
    by (rule batch_reach.move [OF batch_reach.init]) (rule begin_poll, simp add: batch_run_new_def)
  then have "batch_reach (?a\<lparr>br_po := PoNew 7\<rparr>)" (is "batch_reach ?b") by (rule reach_po [of _ 5]) (simp_all add: sample_run_defs)
  then have "batch_reach (?b\<lparr>br_po := PoSwap 5, br_mem := (br_mem ?b)\<lparr>bm_boxes := [5 \<mapsto> 7]\<rparr>\<rparr>)" (is "batch_reach ?c")
    by (rule reach_po [of _ 5]) (simp_all add: sample_run_defs)
  then have "batch_reach (?c\<lparr>br_po := PoPop, br_mem := (br_mem ?c)\<lparr>bm_ptr := Some 5\<rparr>\<rparr>)" (is "batch_reach ?d")
    by (rule reach_po [of _ 6]) (simp_all add: sample_run_defs)
  then have "batch_reach (?d\<lparr>br_po := PoLeave\<rparr>)" (is "batch_reach ?e") by (rule reach_po [of _ 6]) (simp_all add: sample_run_defs)
  then have "batch_reach (?e\<lparr>br_po := PoCheck, br_mem := (br_mem ?e)\<lparr>bm_counter := 0\<rparr>\<rparr>)" by (rule reach_po [of _ 6]) (simp_all add: sample_run_defs)
  then show ?thesis by (rule reach_po [of _ 6]) (simp_all add: sample_run_defs)
qed

lemma sample_pushed_reach: "batch_reach sample_pushed"
proof -
  have "batch_reach (br_set_wk 1 (push_begin 3 (br_mem sample_polled)) sample_polled)" (is "batch_reach ?a")
    by (rule batch_reach.move [OF sample_polled_reach]) (rule begin_push, simp add: sample_polled_def)
  then have "batch_reach (br_set_wk 1 (WkPush 0, (br_mem sample_polled)\<lparr>bm_idgen := 1, bm_pending := [0 \<mapsto> 3]\<rparr>) ?a)"
    by (rule reach_wk [of _ _ 1]) (simp add: sample_run_defs)
  then show ?thesis by (rule reach_wk [of _ _ 1]) (simp add: sample_run_defs)
qed

theorem waker_host_safe_witness: "\<not> bm_ub (br_mem sample_pushed) \<and> dom (bm_boxes (br_mem sample_pushed)) = {5} \<and> br_po sample_pushed = PoReturned Pending"
  using waker_host_safe [OF sample_pushed_reach] by (simp add: sample_pushed_def sample_polled_def)

theorem batcher_no_lost_wakeup_witness: "bm_queue (br_mem sample_pushed) = [0] \<and> inflight sample_pushed"
proof -
  have "br_po sample_pushed = PoReturned Pending" "bm_queue (br_mem sample_pushed) = [0]" by (simp_all add: sample_run_defs)
  moreover have "\<not> alarmed sample_pushed" by (simp add: alarmed_def sample_run_defs)
  ultimately show ?thesis using batcher_no_lost_wakeup [OF sample_pushed_reach] by simp
qed

end
