(* ===== verification/Batcher_Wakers.thy ===== *)
theory Batcher_Wakers
  imports Future_Batcher
begin

text \<open>
  The raw wakers that \<open>crates/future/src/batching.rs\<close> hands to the futures of a batch: a pointer to a boxed
  \<open>BatcherWaker\<close> with the hand-written table \<open>WAKER_VTABLE\<close> of \<open>clone\<close>, \<open>wake\<close>, \<open>wake_by_ref\<close> and \<open>drop\<close>. Each takes
  the box back from the pointer; \<open>None\<close> is undefined behaviour, a pointer to a box that was released.
\<close>

section \<open>The table\<close>

record batcher_waker =
  bw_future_id :: usize

record 'f waker_mem =
  wt_boxes :: "nat \<rightharpoonup> batcher_waker"
  wt_next :: nat
  wt_batcher :: "'f batcher"

definition waker_into_raw :: "batcher_waker \<Rightarrow> 'f waker_mem \<Rightarrow> nat \<times> 'f waker_mem" where
  "waker_into_raw w m = (wt_next m, m\<lparr>wt_boxes := (wt_boxes m)(wt_next m \<mapsto> w), wt_next := wt_next m + 1\<rparr>)"

definition waker_from_raw :: "nat \<Rightarrow> 'f waker_mem \<Rightarrow> (batcher_waker \<times> 'f waker_mem) option" where
  "waker_from_raw ptr m = map_option (\<lambda>w. (w, m\<lparr>wt_boxes := (wt_boxes m)(ptr := None)\<rparr>)) (wt_boxes m ptr)"

text \<open>\<open>Box::into_raw\<close> of a box that came from a pointer gives the same pointer.\<close>

definition waker_put_back :: "nat \<Rightarrow> batcher_waker \<Rightarrow> 'f waker_mem \<Rightarrow> 'f waker_mem" where
  "waker_put_back ptr w m = m\<lparr>wt_boxes := (wt_boxes m)(ptr \<mapsto> w)\<rparr>"

definition new_batcher_waker :: "usize \<Rightarrow> 'f waker_mem \<Rightarrow> nat \<times> 'f waker_mem" where
  "new_batcher_waker future_id m = waker_into_raw \<lparr>bw_future_id = future_id\<rparr> m"

definition waker_signal :: "batcher_waker \<Rightarrow> 'f waker_mem \<Rightarrow> 'f waker_mem" where
  "waker_signal w m = m\<lparr>wt_batcher := batcher_wake (bw_future_id w) (wt_batcher m)\<rparr>"

definition batch_future_waker_clone :: "nat \<Rightarrow> 'f waker_mem \<Rightarrow> (nat \<times> 'f waker_mem) option" where
  "batch_future_waker_clone ptr m =
     map_option (\<lambda>(waker, m1). waker_into_raw waker (waker_put_back ptr waker m1)) (waker_from_raw ptr m)"

definition batch_future_waker_wake :: "nat \<Rightarrow> 'f waker_mem \<Rightarrow> 'f waker_mem option" where
  "batch_future_waker_wake ptr m = map_option (\<lambda>(waker, m1). waker_signal waker m1) (waker_from_raw ptr m)"

definition batch_future_waker_wake_by_ref :: "nat \<Rightarrow> 'f waker_mem \<Rightarrow> 'f waker_mem option" where
  "batch_future_waker_wake_by_ref ptr m =
     map_option (\<lambda>(waker, m1). waker_put_back ptr waker (waker_signal waker m1)) (waker_from_raw ptr m)"

definition batch_future_waker_drop :: "nat \<Rightarrow> 'f waker_mem \<Rightarrow> 'f waker_mem option" where
  "batch_future_waker_drop ptr m = map_option snd (waker_from_raw ptr m)"

section \<open>Programs that own wakers\<close>

text \<open>
  The futures keep wakers in variables, by the rules of \<open>Waker\<close>: \<open>wake\<close> and \<open>drop\<close> consume it. In the
  specification a waker is the identifier of its future.
\<close>

datatype waker_op = BNew nat usize | BClone nat nat | BWake nat | BWakeByRef nat | BDrop nat

fun wspec_op :: "waker_op \<Rightarrow> (nat \<rightharpoonup> batcher_waker) \<times> 'f batcher \<Rightarrow> (unit \<times> (nat \<rightharpoonup> batcher_waker) \<times> 'f batcher) option" where
  "wspec_op (BNew x i) (D, b) = (if D x = None then Some ((), D(x \<mapsto> \<lparr>bw_future_id = i\<rparr>), b) else None)"
| "wspec_op (BClone x y) (D, b) = (case D x of None \<Rightarrow> None | Some w \<Rightarrow> if D y = None then Some ((), D(y \<mapsto> w), b) else None)"
| "wspec_op (BWake x) (D, b) = map_option (\<lambda>w. ((), D(x := None), batcher_wake (bw_future_id w) b)) (D x)"
| "wspec_op (BWakeByRef x) (D, b) = map_option (\<lambda>w. ((), D, batcher_wake (bw_future_id w) b)) (D x)"
| "wspec_op (BDrop x) (D, b) = map_option (\<lambda>w. ((), D(x := None), b)) (D x)"

fun wimpl_op :: "waker_op \<Rightarrow> (nat \<rightharpoonup> nat) \<times> 'f waker_mem \<Rightarrow> (unit \<times> (nat \<rightharpoonup> nat) \<times> 'f waker_mem) option" where
  "wimpl_op (BNew x i) (V, m) = (let (ptr, m') = new_batcher_waker i m in Some ((), V(x \<mapsto> ptr), m'))"
| "wimpl_op (BClone x y) (V, m) =
     Option.bind (V x) (\<lambda>ptr. map_option (\<lambda>(ptr', m'). ((), V(y \<mapsto> ptr'), m')) (batch_future_waker_clone ptr m))"
| "wimpl_op (BWake x) (V, m) = Option.bind (V x) (\<lambda>ptr. map_option (\<lambda>m'. ((), V(x := None), m')) (batch_future_waker_wake ptr m))"
| "wimpl_op (BWakeByRef x) (V, m) = Option.bind (V x) (\<lambda>ptr. map_option (\<lambda>m'. ((), V, m')) (batch_future_waker_wake_by_ref ptr m))"
| "wimpl_op (BDrop x) (V, m) = Option.bind (V x) (\<lambda>ptr. map_option (\<lambda>m'. ((), V(x := None), m')) (batch_future_waker_drop ptr m))"

definition wrep :: "(nat \<rightharpoonup> batcher_waker) \<times> 'f batcher \<Rightarrow> (nat \<rightharpoonup> nat) \<times> 'f waker_mem \<Rightarrow> bool" where
  "wrep a c \<longleftrightarrow>
     (case (a, c) of ((D, b), (V, m)) \<Rightarrow>
        D = wt_boxes m \<circ>\<^sub>m V \<and> owns V (wt_boxes m) \<and> wt_batcher m = b \<and> dom (wt_boxes m) \<subseteq> {..<wt_next m})"

lemma wrep_var:
  assumes "wrep (D, b) (V, m)" "D x = Some w"
  shows "\<exists>ptr. V x = Some ptr \<and> wt_boxes m ptr = Some w"
  using assms by (auto simp: wrep_def map_comp_Some_iff)

lemma wrep_new:
  assumes "wrep (D, b) (V, m)" "D x = None" "waker_into_raw w m = (ptr, m')"
  shows "wrep (D(x \<mapsto> w), b) (V(x \<mapsto> ptr), m')"
proof -
  have m': "ptr = wt_next m" "m' = m\<lparr>wt_boxes := (wt_boxes m)(ptr \<mapsto> w), wt_next := wt_next m + 1\<rparr>" using assms(3) by (auto simp: waker_into_raw_def)
  have r: "D = wt_boxes m \<circ>\<^sub>m V" "owns V (wt_boxes m)" "wt_batcher m = b" "dom (wt_boxes m) \<subseteq> {..<wt_next m}" using assms(1) by (auto simp: wrep_def)
  have fresh: "wt_boxes m ptr = None" using r(4) m'(1) by (cases "wt_boxes m ptr") auto
  have Vx: "V x = None" using assms(2) r(1) ownsD [OF r(2), of x] by (cases "V x") auto
  show ?thesis using owns_new [OF r(2) Vx fresh, of w] owns_comp_new [OF r(2) Vx fresh, of w] r(1,3,4) m'
    unfolding wrep_def by (auto simp: less_Suc_eq)
qed

lemma wrep_free:
  assumes "wrep (D, b) (V, m)" "V x = Some ptr"
  shows "wrep (D(x := None), b) (V(x := None), m\<lparr>wt_boxes := (wt_boxes m)(ptr := None)\<rparr>)"
  using assms owns_free [of V "wt_boxes m" x ptr] owns_comp_free [of V "wt_boxes m" x ptr] by (auto simp: wrep_def)

lemma wrep_signal: "wrep (D, b) (V, m) \<Longrightarrow> wrep (D, batcher_wake (bw_future_id w) b) (V, waker_signal w m)"
  by (simp add: wrep_def waker_signal_def)

lemma put_back [simp]: "wt_boxes m ptr = Some w \<Longrightarrow> waker_put_back ptr w (m\<lparr>wt_boxes := (wt_boxes m)(ptr := None)\<rparr>) = m"
  by (simp add: waker_put_back_def fun_upd_idem)

lemma signal_put_back: "waker_put_back ptr w (waker_signal v m) = waker_signal v (waker_put_back ptr w m)"
  by (simp add: waker_put_back_def waker_signal_def)

lemmas waker_table_defs = batch_future_waker_clone_def batch_future_waker_wake_def batch_future_waker_wake_by_ref_def
  batch_future_waker_drop_def waker_from_raw_def

lemma wimpl_simulates:
  assumes "wrep (D, b) (V, m)" "wspec_op d (D, b) = Some (r, a')"
  shows "\<exists>c'. wimpl_op d (V, m) = Some (r, c') \<and> wrep a' c'"
proof (cases d)
  case (BNew x i)
  obtain ptr m' where n: "waker_into_raw \<lparr>bw_future_id = i\<rparr> m = (ptr, m')" by fastforce
  then show ?thesis using BNew assms(2) wrep_new [OF assms(1) _ n, of x] by (auto simp: new_batcher_waker_def split: if_splits)
next
  case (BClone x y)
  then obtain w where w: "D x = Some w" "D y = None" "a' = (D(y \<mapsto> w), b)" using assms(2) by (auto split: option.splits if_splits)
  obtain ptr where p: "V x = Some ptr" "wt_boxes m ptr = Some w" using wrep_var [OF assms(1) w(1)] by blast
  obtain ptr' m' where n: "waker_into_raw w m = (ptr', m')" by fastforce
  then show ?thesis using BClone p w(3) wrep_new [OF assms(1) w(2) n] by (simp add: waker_table_defs)
next
  case (BWake x)
  then obtain w where w: "D x = Some w" "a' = (D(x := None), batcher_wake (bw_future_id w) b)" using assms(2) by auto
  obtain ptr where p: "V x = Some ptr" "wt_boxes m ptr = Some w" using wrep_var [OF assms(1) w(1)] by blast
  then show ?thesis using BWake w(2) wrep_signal [OF wrep_free [OF assms(1) p(1)], of w] by (simp add: waker_table_defs)
next
  case (BWakeByRef x)
  then obtain w where w: "D x = Some w" "a' = (D, batcher_wake (bw_future_id w) b)" using assms(2) by auto
  obtain ptr where p: "V x = Some ptr" "wt_boxes m ptr = Some w" using wrep_var [OF assms(1) w(1)] by blast
  then show ?thesis using BWakeByRef w(2) wrep_signal [OF assms(1), of w] by (simp add: waker_table_defs signal_put_back)
next
  case (BDrop x)
  then obtain w where w: "D x = Some w" "a' = (D(x := None), b)" using assms(2) by auto
  obtain ptr where p: "V x = Some ptr" "wt_boxes m ptr = Some w" using wrep_var [OF assms(1) w(1)] by blast
  then show ?thesis using BDrop w(2) wrep_free [OF assms(1) p(1)] by (simp add: waker_table_defs)
qed

lemma wimpl_run_simulates:
  assumes "wrep a c" "run_ops wspec_op ops a = Some (rs, a')"
  shows "\<exists>c'. run_ops wimpl_op ops c = Some (rs, c') \<and> wrep a' c'"
proof (rule run_ops_simulates [of wrep wspec_op wimpl_op, OF _ assms])
  show "\<exists>c'. wimpl_op d c = Some (r, c') \<and> wrep a' c'" if "wrep a c" "wspec_op d a = Some (r, a')" for d a c r a'
    using that wimpl_simulates [of "fst a" "snd a" "fst c" "snd c" d r a'] by simp
qed

section \<open>Properties\<close>

text \<open>
  The raw wakers behave as values. A program that clones, wakes and drops only wakers that it owns never
  reaches a released box; every \<open>wake\<close> and \<open>wake_by_ref\<close>, of a clone too, queues the future that the waker
  was made for and wakes the batch; and the boxes that are left are those of the wakers still owned.
\<close>

theorem waker_table_refines:
  assumes "run_ops wspec_op ops (Map.empty, b) = Some (rs, D, b')"
  shows "\<exists>V m. run_ops wimpl_op ops (Map.empty, \<lparr>wt_boxes = Map.empty, wt_next = n, wt_batcher = b\<rparr>) = Some (rs, V, m) \<and>
    wt_batcher m = b' \<and> wt_boxes m \<circ>\<^sub>m V = D \<and> bij_betw (the \<circ> V) (dom V) (dom (wt_boxes m))"
proof -
  have "wrep (Map.empty, b) (Map.empty, \<lparr>wt_boxes = Map.empty, wt_next = n, wt_batcher = b\<rparr>)" by (simp add: wrep_def)
  from wimpl_run_simulates [OF this assms] obtain V m where
    run: "run_ops wimpl_op ops (Map.empty, \<lparr>wt_boxes = Map.empty, wt_next = n, wt_batcher = b\<rparr>) = Some (rs, V, m)" and rep: "wrep (D, b') (V, m)"
    by fastforce
  then show ?thesis using owns_bij [of V "wt_boxes m"] by (auto simp: wrep_def)
qed

theorem waker_table_refines_witness:
  "\<exists>V m. run_ops wimpl_op [BNew 0 4, BClone 0 1, BWake 0, BWakeByRef 1, BClone 1 0, BDrop 1]
      (Map.empty, \<lparr>wt_boxes = Map.empty, wt_next = 10, wt_batcher = batcher_new :: nat batcher\<rparr>) = Some (replicate 6 (), V, m) \<and>
    wt_batcher m = batcher_wake 4 (batcher_wake 4 batcher_new) \<and> wt_boxes m \<circ>\<^sub>m V = [0 \<mapsto> \<lparr>bw_future_id = 4\<rparr>]"
proof -
  have "run_ops wspec_op [BNew 0 4, BClone 0 1, BWake 0, BWakeByRef 1, BClone 1 0, BDrop 1] (Map.empty, batcher_new :: nat batcher)
      = Some (replicate 6 (), [0 \<mapsto> \<lparr>bw_future_id = 4\<rparr>], batcher_wake 4 (batcher_wake 4 batcher_new))"
    by (simp add: fun_upd_twist fun_upd_idem numeral_eq_Suc)
  from waker_table_refines [OF this, of 10] show ?thesis by blast
qed

end
