(* ===== verification/Parking_Lock.thy ===== *)
theory Parking_Lock
  imports Spin_Mutex
begin

text \<open>
  \<open>SpinMutex\<close> of \<open>crates/sync/src/parking_lot.rs\<close>: the same trait \<open>Lockable\<close> over a mutex of the crate
  \<open>parking_lot\<close>, which is a record of operations here. The adapter keeps the guard of that mutex in an option,
  which its destructor takes out. It is a \<open>lockable\<close> when the mutex below is one.
\<close>

record ('d, 'm, 'g) raw_mutex =
  rw_new :: "'d \<Rightarrow> 'm"
  rw_lock :: "'m \<Rightarrow> ('g \<times> 'm) option"
  rw_try_lock :: "'m \<Rightarrow> 'g option \<times> 'm"
  rw_unlock :: "'g \<Rightarrow> 'm \<Rightarrow> 'm"
  rw_deref :: "'g \<Rightarrow> 'm \<Rightarrow> 'd"
  rw_deref_mut :: "'g \<Rightarrow> ('d \<Rightarrow> 'd) \<Rightarrow> 'm \<Rightarrow> 'm"

record 'g parking_guard =
  pg_guard :: "'g option"

definition parking_new :: "('d, 'm, 'g) raw_mutex \<Rightarrow> 'd \<Rightarrow> 'm" where
  "parking_new api t = rw_new api t"

text \<open>\<open>None\<close>: the thread is blocked.\<close>

definition parking_lock :: "('d, 'm, 'g) raw_mutex \<Rightarrow> 'm \<Rightarrow> ('g parking_guard \<times> 'm) option" where
  "parking_lock api m = map_option (\<lambda>(g, m'). (\<lparr>pg_guard = Some g\<rparr>, m')) (rw_lock api m)"

definition parking_try_lock :: "('d, 'm, 'g) raw_mutex \<Rightarrow> 'm \<Rightarrow> 'g parking_guard option \<times> 'm" where
  "parking_try_lock api m =
     (case rw_try_lock api m of (Some g, m') \<Rightarrow> (Some \<lparr>pg_guard = Some g\<rparr>, m') | (None, m') \<Rightarrow> (None, m'))"

text \<open>The destructor: \<open>drop(self.guard.take())\<close>, then the empty field is dropped.\<close>

definition parking_guard_drop :: "('d, 'm, 'g) raw_mutex \<Rightarrow> 'g parking_guard \<Rightarrow> 'm \<Rightarrow> 'm" where
  "parking_guard_drop api g m = (case pg_guard g of None \<Rightarrow> m | Some raw \<Rightarrow> rw_unlock api raw m)"

definition parking_unlock :: "('d, 'm, 'g) raw_mutex \<Rightarrow> 'g parking_guard \<Rightarrow> 'm \<Rightarrow> 'm" where
  "parking_unlock api g m = parking_guard_drop api g m"

definition parking_deref :: "('d, 'm, 'g) raw_mutex \<Rightarrow> 'g parking_guard \<Rightarrow> 'm \<Rightarrow> 'd io_result" where
  "parking_deref api g m = map_ok (\<lambda>raw. rw_deref api raw m) (unwrap (pg_guard g))"

definition parking_deref_mut :: "('d, 'm, 'g) raw_mutex \<Rightarrow> 'g parking_guard \<Rightarrow> ('d \<Rightarrow> 'd) \<Rightarrow> 'm \<Rightarrow> 'm io_result" where
  "parking_deref_mut api g f m = map_ok (\<lambda>raw. rw_deref_mut api raw f m) (unwrap (pg_guard g))"

text \<open>
  What \<open>parking_lot\<close> documents of its mutex: \<open>try_lock\<close> gives a guard exactly when nobody owns one, dropping the
  guard frees the mutex, \<open>lock\<close> on a free mutex is \<open>try_lock\<close> and blocks on a held one, and writing through
  the guard changes the data and not the owner.
\<close>

definition parking_contract :: "('d, 'm, 'g) raw_mutex \<Rightarrow> ('m \<Rightarrow> bool) \<Rightarrow> ('m \<Rightarrow> 'g option) \<Rightarrow> bool" where
  "parking_contract api ok held \<longleftrightarrow>
     lockable (rw_new api) (\<lambda>(_ :: unit) m. Ok (rw_try_lock api m)) (\<lambda>g m. Ok (rw_unlock api g m)) (rw_deref api) (\<lambda>_. True) ok held \<and>
     (\<forall>m. ok m \<longrightarrow> rw_lock api m = (case rw_try_lock api m of (Some g, m') \<Rightarrow> Some (g, m') | (None, _) \<Rightarrow> None)) \<and>
     (\<forall>m g f. ok m \<longrightarrow> held m = Some g \<longrightarrow>
        ok (rw_deref_mut api g f m) \<and> held (rw_deref_mut api g f m) = Some g \<and> rw_deref api g (rw_deref_mut api g f m) = f (rw_deref api g m))"

definition parking_held :: "('m \<Rightarrow> 'g option) \<Rightarrow> 'm \<Rightarrow> 'g parking_guard option" where
  "parking_held held m = map_option (\<lambda>g. \<lparr>pg_guard = Some g\<rparr>) (held m)"

lemma parking_held_Some [simp]: "parking_held held m = Some g \<longleftrightarrow> (\<exists>raw. held m = Some raw \<and> g = \<lparr>pg_guard = Some raw\<rparr>)"
  by (auto simp: parking_held_def)

lemma parking_held_None [simp]: "parking_held held m = None \<longleftrightarrow> held m = None"
  by (simp add: parking_held_def)

text \<open>
  The adapter keeps the contract of the trait, so what holds of every \<open>lockable\<close> holds of it: it is a lock
  with one owner; \<open>lock\<close> agrees with \<open>try_lock\<close>; and the accesses through the guard of the owner never reach
  the \<open>unwrap\<close> of an empty guard.
\<close>

theorem parking_lockable:
  assumes "parking_contract api ok held"
  shows "lockable (parking_new api) (\<lambda>(_ :: unit) m. Ok (parking_try_lock api m)) (\<lambda>g m. Ok (parking_unlock api g m))
      (\<lambda>g m. case parking_deref api g m of Ok d \<Rightarrow> d) (\<lambda>_. True) ok (parking_held held)"
proof -
  have raw: "lockable (rw_new api) (\<lambda>(_ :: unit) m. Ok (rw_try_lock api m)) (\<lambda>g m. Ok (rw_unlock api g m)) (rw_deref api) (\<lambda>_. True) ok held"
    using assms by (simp add: parking_contract_def)
  note laws = lockable.inv_new [OF raw] lockable.held_new [OF raw] lockable.deref_new [OF raw] lockable.try_lock_free [OF raw]
    lockable.try_lock_held [OF raw] lockable.unlock_held [OF raw]
  show ?thesis
  proof unfold_locales
    show "\<exists>g l'. Ok (parking_try_lock api l) = Ok (Some g, l') \<and> ok l' \<and> parking_held held l' = Some g"
      if "ok l" "parking_held held l = None" for l using laws(4) [of l] that by (auto simp: parking_try_lock_def)
    show "Ok (parking_try_lock api l) = Ok (None, l)" if "ok l" "parking_held held l = Some h" for l h
      using laws(5) [of l] that by (auto simp: parking_try_lock_def)
    show "\<exists>l'. Ok (parking_unlock api g l) = Ok l' \<and> ok l' \<and> parking_held held l' = None" if "ok l" "parking_held held l = Some g" for l g
      using laws(6) [of l] that by (auto simp: parking_unlock_def parking_guard_drop_def)
    show "(case parking_deref api g l of Ok d \<Rightarrow> d) = d" if "Ok (parking_try_lock api (parking_new api d)) = Ok (Some g, l)" for d g l
      using laws(3) that by (auto simp: parking_try_lock_def parking_new_def parking_deref_def split: prod.splits option.splits)
  qed (simp_all add: parking_new_def laws)
qed

lemma parking_lock_owner:
  assumes "parking_contract api ok held" "ok m"
  shows "parking_lock api m = (case parking_try_lock api m of (Some g, m') \<Rightarrow> Some (g, m') | (None, _) \<Rightarrow> None)"
  using assms by (auto simp: parking_contract_def parking_lock_def parking_try_lock_def split: prod.splits option.splits)

lemma parking_deref_mut_owner:
  assumes "parking_contract api ok held" "ok m" "parking_held held m = Some g"
  shows "\<exists>m'. parking_deref_mut api g f m = Ok m' \<and> ok m' \<and> parking_held held m' = Some g \<and>
    parking_deref api g m' = map_ok f (parking_deref api g m) \<and> parking_deref api g m \<noteq> Panic"
  using assms by (auto simp: parking_contract_def parking_deref_mut_def parking_deref_def)

text \<open>The contract can hold: the spin mutex as one thread runs it, with guards at one address.\<close>

definition spin_as_raw :: "('d, 'd spin_mutex, spin_guard) raw_mutex" where
  "spin_as_raw =
     \<lparr>rw_new = spin_new,
      rw_lock = (\<lambda>m. if sm_flag m then None else Some (\<lparr>sg_ptr = 1\<rparr>, m\<lparr>sm_flag := True, sm_guard := 1\<rparr>)),
      rw_try_lock = (\<lambda>m. if sm_flag m then (None, m) else (Some \<lparr>sg_ptr = 1\<rparr>, m\<lparr>sm_flag := True, sm_guard := 1\<rparr>)),
      rw_unlock = (\<lambda>g m. m\<lparr>sm_flag := False, sm_guard := 0\<rparr>),
      rw_deref = spin_deref, rw_deref_mut = spin_deref_mut\<rparr>"

lemma spin_as_raw_contract: "parking_contract spin_as_raw sm_inv sm_held"
proof -
  have "lockable spin_new (\<lambda>(_ :: unit) m. Ok (rw_try_lock spin_as_raw m)) (\<lambda>g m. Ok (rw_unlock spin_as_raw g m)) (spin_deref :: _ \<Rightarrow> 'd spin_mutex \<Rightarrow> 'd) (\<lambda>_. True) sm_inv sm_held"
    by unfold_locales (auto simp: spin_as_raw_def sm_inv_def sm_held_def spin_new_def spin_deref_def split: if_splits)
  then show ?thesis by (auto simp: parking_contract_def spin_as_raw_def spin_deref_mut_def spin_deref_def sm_inv_def sm_held_def)
qed

interpretation parking_spin: lockable "parking_new spin_as_raw" "\<lambda>(_ :: unit) m. Ok (parking_try_lock spin_as_raw m)" "\<lambda>g m. Ok (parking_unlock spin_as_raw g m)"
  "\<lambda>g m. case parking_deref spin_as_raw g m of Ok d \<Rightarrow> d" "\<lambda>_. True" sm_inv "parking_held sm_held"
  by (rule parking_lockable [OF spin_as_raw_contract])

end
