(* ===== verification/Executor.thy ===== *)
theory Executor
  imports Hala_Prelude
begin

text \<open>
  The two global registers of the crates, each a \<open>OnceLock\<close>: the spawner of futures (\<open>crates/future/src/executor.rs\<close>)
  and the receiver of profiling records (\<open>crates/pprof/src/prolog/profiling.rs\<close>, with the macro of
  \<open>macros.rs\<close>). The spawner and the receiver are values of the user: their methods are arguments that work on a
  state \<open>'x\<close>. A call that panics leaves a \<open>OnceLock\<close> as it was.
\<close>

section \<open>OnceLock\<close>

definition once_set :: "'a \<Rightarrow> 'a option \<Rightarrow> bool \<times> 'a option" where
  "once_set v c = (case c of None \<Rightarrow> (True, Some v) | Some _ \<Rightarrow> (False, c))"

definition once_get_or_init :: "'a io_result \<Rightarrow> 'a option \<Rightarrow> 'a io_result \<times> 'a option" where
  "once_get_or_init init c =
     (case c of Some v \<Rightarrow> (Ok v, c) | None \<Rightarrow> (case init of Ok v \<Rightarrow> (Ok v, Some v) | _ \<Rightarrow> (init, None)))"

section \<open>The spawner\<close>

definition register_spawner :: "'sp \<Rightarrow> 'sp option \<Rightarrow> unit io_result \<times> 'sp option" where
  "register_spawner spawner reg = (let (ok, reg') = once_set spawner reg in (if ok then Ok () else Panic, reg'))"

text \<open>
  What \<open>get_or_init\<close> runs: with the feature \<open>futures-executor\<close> the creation of a thread pool, whose failure
  panics in \<open>unwrap\<close>; without it a panic.
\<close>

definition default_spawner :: "bool \<Rightarrow> 'sp option \<Rightarrow> 'sp io_result" where
  "default_spawner feature pool = (if feature then unwrap pool else Panic)"

definition future_spawn ::
  "bool \<Rightarrow> 'sp option \<Rightarrow> ('sp \<Rightarrow> 'fut \<Rightarrow> 'x \<Rightarrow> unit io_result \<times> 'x) \<Rightarrow> 'fut \<Rightarrow> 'sp option \<times> 'x \<Rightarrow> unit io_result \<times> 'sp option \<times> 'x" where
  "future_spawn feature pool spawn_boxed_future fut st =
     (case once_get_or_init (default_spawner feature pool) (fst st) of
        (Ok spawner, reg) \<Rightarrow> (let (r, x) = spawn_boxed_future spawner fut (snd st) in (r, reg, x))
      | (Err e, reg) \<Rightarrow> (Err e, reg, snd st)
      | (Panic, reg) \<Rightarrow> (Panic, reg, snd st))"

text \<open>\<open>FutureSpawner for ThreadPool\<close>: \<open>spawn\<close> of the pool, and \<open>expect\<close>.\<close>

definition pool_spawn_boxed_future :: "('sp \<Rightarrow> 'fut \<Rightarrow> 'x \<Rightarrow> bool \<times> 'x) \<Rightarrow> 'sp \<Rightarrow> 'fut \<Rightarrow> 'x \<Rightarrow> unit io_result \<times> 'x" where
  "pool_spawn_boxed_future pool_spawn pool fut x = (let (ok, x') = pool_spawn pool fut x in (if ok then Ok () else Panic, x'))"

text \<open>Calls of a program, in the order in which the \<open>OnceLock\<close> serves them.\<close>

datatype ('sp, 'fut) spawn_call = RegisterSpawner 'sp | FutureSpawn 'fut

fun spawn_calls ::
  "bool \<Rightarrow> 'sp option \<Rightarrow> ('sp \<Rightarrow> 'fut \<Rightarrow> 'x \<Rightarrow> unit io_result \<times> 'x) \<Rightarrow> ('sp, 'fut) spawn_call list \<Rightarrow> 'sp option \<times> 'x \<Rightarrow> unit io_result list \<times> 'sp option \<times> 'x" where
  "spawn_calls feature pool sbf [] st = ([], st)"
| "spawn_calls feature pool sbf (RegisterSpawner sp # cs) st =
     (let (r, reg) = register_spawner sp (fst st); (rs, st') = spawn_calls feature pool sbf cs (reg, snd st) in (r # rs, st'))"
| "spawn_calls feature pool sbf (FutureSpawn fut # cs) st =
     (let (r, st1) = future_spawn feature pool sbf fut st; (rs, st') = spawn_calls feature pool sbf cs st1 in (r # rs, st'))"

text \<open>The reference, with the spawner fixed: every future goes to it, and every registration panics.\<close>

fun calls_with :: "('sp \<Rightarrow> 'fut \<Rightarrow> 'x \<Rightarrow> unit io_result \<times> 'x) \<Rightarrow> 'sp \<Rightarrow> ('sp, 'fut) spawn_call list \<Rightarrow> 'x \<Rightarrow> unit io_result list \<times> 'x" where
  "calls_with sbf sp [] x = ([], x)"
| "calls_with sbf sp (RegisterSpawner _ # cs) x = (let (rs, x') = calls_with sbf sp cs x in (Panic # rs, x'))"
| "calls_with sbf sp (FutureSpawn fut # cs) x =
     (let (r, x1) = sbf sp fut x; (rs, x') = calls_with sbf sp cs x1 in (r # rs, x'))"

text \<open>Who decides: the first registration, or with the feature the first spawn.\<close>

fun chosen_spawner :: "bool \<Rightarrow> 'sp option \<Rightarrow> ('sp, 'fut) spawn_call list \<Rightarrow> 'sp option" where
  "chosen_spawner feature pool [] = None"
| "chosen_spawner feature pool (RegisterSpawner sp # cs) = Some sp"
| "chosen_spawner feature pool (FutureSpawn fut # cs) =
     (if feature \<and> pool \<noteq> None then pool else chosen_spawner feature pool cs)"

lemma calls_when_set:
  "spawn_calls feature pool sbf cs (Some sp, x) = (let (rs, x') = calls_with sbf sp cs x in (rs, Some sp, x'))"
proof (induction cs arbitrary: x)
  case (Cons c cs)
  then show ?case by (cases c) (auto simp: register_spawner_def once_set_def future_spawn_def once_get_or_init_def split: prod.splits)
qed simp

text \<open>
  The register is settled once. After any calls from an empty register it holds the spawner of the first
  registration or, when a spawn came before it and a pool could be made, the pool; it never changes after
  that, so later calls run with this spawner and a later registration panics.
\<close>

theorem spawner_settled:
  assumes "spawn_calls feature pool sbf cs (None, x) = (rs, reg, x')"
  shows "reg = chosen_spawner feature pool cs \<and>
    (\<forall>sp cs'. reg = Some sp \<longrightarrow> spawn_calls feature pool sbf cs' (reg, x') = (let (rs', x'') = calls_with sbf sp cs' x' in (rs', Some sp, x'')))"
proof -
  have "fst (snd (spawn_calls feature pool sbf cs (None, x))) = chosen_spawner feature pool cs"
  proof (induction cs arbitrary: x)
    case (Cons c cs)
    then show ?case
      by (cases c; cases pool; cases feature)
         (simp_all add: register_spawner_def once_set_def future_spawn_def once_get_or_init_def default_spawner_def calls_when_set case_prod_beta Let_def)
  qed simp
  then show ?thesis using assms by (simp add: calls_when_set)
qed

section \<open>A future that is polled once\<close>

text \<open>\<open>PollOnce\<close> of \<open>crates/future/src/poll.rs\<close>: ready at once with the answer of the future.\<close>

definition poll_once_poll :: "('f \<Rightarrow> 'x \<Rightarrow> 'r poll \<times> 'f \<times> 'x) \<Rightarrow> 'f \<Rightarrow> 'x \<Rightarrow> 'r poll poll \<times> 'f \<times> 'x" where
  "poll_once_poll poll_unpin fut x = (let (r, fut', x') = poll_unpin fut x in (Ready r, fut', x'))"

section \<open>Profiling records\<close>

definition set_prolog :: "'l \<Rightarrow> 'l option \<Rightarrow> unit io_result \<times> 'l option" where
  "set_prolog log reg = (let (ok, reg') = once_set log reg in (if ok then Ok () else Panic, reg'))"

definition prolog_filter :: "('l \<Rightarrow> string \<Rightarrow> bool) \<Rightarrow> string \<Rightarrow> 'l option \<Rightarrow> bool" where
  "prolog_filter log_filter target reg = (case reg of None \<Rightarrow> False | Some log \<Rightarrow> log_filter log target)"

definition prolog_write :: "('l \<Rightarrow> string \<Rightarrow> 'a list \<Rightarrow> 'x \<Rightarrow> 'x) \<Rightarrow> string \<Rightarrow> 'a list \<Rightarrow> 'l option \<Rightarrow> 'x \<Rightarrow> 'x" where
  "prolog_write profiling target args reg x = (case reg of None \<Rightarrow> x | Some log \<Rightarrow> profiling log target args x)"

text \<open>The macro \<open>prolog!\<close>: a record with a target goes to the receiver and to the log; one without only to the log.\<close>

definition prolog_macro ::
  "('l \<Rightarrow> string \<Rightarrow> bool) \<Rightarrow> ('l \<Rightarrow> string \<Rightarrow> 'a list \<Rightarrow> 'x \<Rightarrow> 'x) \<Rightarrow> (string option \<Rightarrow> 'a list \<Rightarrow> 'x \<Rightarrow> 'x) \<Rightarrow>
   string option \<Rightarrow> 'a list \<Rightarrow> 'l option \<Rightarrow> 'x \<Rightarrow> 'x" where
  "prolog_macro log_filter profiling syslog target args reg x =
     (case target of
        None \<Rightarrow> syslog None args x
      | Some tg \<Rightarrow> syslog (Some tg) args (if prolog_filter log_filter tg reg then prolog_write profiling tg args reg x else x))"

text \<open>Until a receiver is set the macros only log; afterwards a record with a target that passes its filter is written once, before it is logged.\<close>

lemma prolog_macro_cases:
  "prolog_macro lf pf sl target args None x = sl target args x"
  "prolog_macro lf pf sl (Some tg) args (Some l) x = sl (Some tg) args (if lf l tg then pf l tg args x else x)"
  by (simp_all add: prolog_macro_def prolog_filter_def prolog_write_def split: option.splits)

lemma set_prolog_once:
  assumes "set_prolog l reg = (Ok (), reg')"
  shows "reg = None \<and> reg' = Some l \<and> set_prolog l' reg' = (Panic, Some l)"
  using assms by (auto simp: set_prolog_def once_set_def split: option.splits)

end
