(* ===== verification/Spec2Isabelle.thy ===== *)
theory Spec2Isabelle
  imports Http_Body Future_Batcher Time_Wheel Async_Lock Event_Map Io_Client Quic_Client Leveldb Udp_Group Profiler Gperf_Wire Rproxy Quic_Handles Heap_Hooks Driver_Table Batcher_Threads Batcher_Wakers Parking_Lock Executor
begin

text \<open>
  \<^bold>\<open>hala-rs: a verification development\<close>

  hala-rs is a set of Rust crates for asynchronous networking: a driver interface over \<open>mio\<close> with
  timers, futures on top of it (TCP, UDP, sleep, timeout), lock-free and futures-aware
  synchronisation, HTTP message parsing, a QUIC implementation over the crate \<open>quiche\<close>, TLS
  streams over the crate \<open>boring\<close>, a reverse proxy, an interface to LevelDB, and a heap and cpu
  profiler that writes profiles of the google perftools. Paths below are relative to \<open>src/crates\<close>.

  \<^bold>\<open>How the parts interact.\<close> A task polls a future of TCP, UDP or \<open>Sleep\<close>; the future issues a
  command to the driver, which calls the operating system without blocking and registers the
  task's waker in the poller; the thread of the IO context polls and wakes. Timers are in the hashed
  time wheel that the poller ticks. The QUIC connection state is shared by tasks behind the
  futures-aware lock; its operations wait for events in the event map. The QUIC listener reads its
  connections through the future batcher, which is a client of the lock-free queue. The HTTP parsers
  read a stream into a \<open>ReadBuf\<close>. A TLS stream lends the waker of its task to the bridge through which
  the TLS library reads and writes the TCP stream; the reverse proxy accepts TCP, TLS and QUIC
  streams and runs one task per connection. The profiler resolves backtraces into symbols, interns
  them in the tables of a report, and the protobuf code writes the built profile.

  \<^bold>\<open>The theories.\<close>

  \<^item> \<open>Hala_Prelude\<close>: results with panics, error kinds, polls, bytes, machine integers, the
    enumerate search, map removal.
  \<^item> \<open>Read_Buf\<close> (\<open>io/src/read_buf.rs\<close>): the growing buffer; \<open>BytesMut\<close>'s growth is a parameter.
  \<^item> \<open>Http_Scan\<close>, \<open>Http_Loop\<close>, \<open>Http_Request\<close>, \<open>Http_Response\<close>
    (\<open>net/http/src/parse.rs\<close>): the byte scanners; the read-and-parse loop that both parsers share,
    as a locale that the two instances interpret; the two state machines with their round trips.
  \<^item> \<open>Http_Body\<close> (\<open>net/http/src/body.rs\<close>): collecting a body, JSON.
  \<^item> \<open>Lockfree_Queue\<close> (\<open>lockfree/src/queue.rs\<close>): the sequential operations and a step relation of
    the interleaved atomic accesses; the interface \<open>fifo\<close> is a locale interpreted on the queue.
  \<^item> \<open>Time_Wheel\<close> (\<open>lockfree/src/timewheel.rs\<close>): the same for the hashed time wheel.
  \<^item> \<open>Future_Batcher\<close> (\<open>future/src/batching.rs\<close>) and \<open>Event_Map\<close>
    (\<open>future/src/event_map.rs\<close>).
    \<open>Batcher_Threads\<close> has the batcher as atomic steps of many threads around the lock-free pointer to the
    system waker, and \<open>Batcher_Wakers\<close> the table of functions of its raw wakers; both rest on the lemmas of
    ownership of the prelude, as \<open>Driver_Table\<close> does.
  \<^item> \<open>Executor\<close> (\<open>future/src/executor.rs\<close>, \<open>poll.rs\<close>, \<open>pprof/src/prolog\<close>): the global registers, written once.
  \<^item> \<open>Spin_Mutex\<close> (\<open>sync/src/spin.rs\<close>), \<open>Parking_Lock\<close> (\<open>sync/src/parking_lot.rs\<close>) and
    \<open>Async_Lock\<close> (\<open>sync/src/maker.rs\<close>): the trait \<open>Lockable\<close> is a locale, interpreted on both mutexes.
  \<^item> \<open>Io_Driver\<close> (\<open>io/src/file.rs\<close>, \<open>interest.rs\<close>, \<open>driver.rs\<close>, \<open>driver_ext.rs\<close>):
    operations on a state, handles, commands, the dispatch to a driver. \<open>Driver_Table\<close> has the
    hand-written table of functions behind \<open>Driver\<close>, over a memory of headers that can be freed.
  \<^item> \<open>Mio_Driver\<close> (\<open>io/src/mio\<close>): the driver, the poller, the timers; the system calls are a
    record of parameters.
  \<^item> \<open>Io_Client\<close> (\<open>io/src/wouldblock.rs\<close>, \<open>context.rs\<close>, \<open>sleep.rs\<close>, \<open>timeout.rs\<close>,
    \<open>net/tcp\<close>, \<open>net/udp/src/udp.rs\<close>): the futures.
  \<^item> \<open>Quic_Conn\<close> (\<open>net/quic/src/errors.rs\<close>, \<open>state/conn.rs\<close>): the connection state as critical
    sections; \<open>quiche\<close> is a record of operations.
  \<^item> \<open>Quic_Listener\<close> (\<open>net/quic/src/state/listener.rs\<close>, \<open>listener.rs\<close>, \<open>config.rs\<close>): address
    validation, handshakes, the listener state, the server loops.
  \<^item> \<open>Quic_Client\<close> (\<open>net/quic/src/state/connector.rs\<close>, \<open>conn.rs\<close>, \<open>conn_pool.rs\<close>): connecting,
    client loops, stream polls, the connection pool.
  \<^item> \<open>Quic_Handles\<close> (\<open>net/quic/src/conn.rs\<close>, \<open>state/conn.rs\<close>): the reference-counted handles, what their
    drops spawn, as a step relation over the handles that a program owns.
  \<^item> \<open>Leveldb\<close> (\<open>leveldb/src/lib.rs\<close>): codecs, options, database operations, batches, iterators;
    the C library is a record of functions.
  \<^item> \<open>Udp_Group\<close> (\<open>net/udp/src/group.rs\<close>): sockets read and written as one through the batcher; the
    driver is an interface, the locale \<open>socket_driver\<close>, interpreted on the \<open>mio\<close> driver.
  \<^item> \<open>Tls\<close> (\<open>net/tls/src/lib.rs\<close>, \<open>bridge.rs\<close>): the bridge, the polls and the handshake future. A call of
    the library is a program of reads, writes and flushes of the transport (\<open>bio\<close>), the library a
    record of such programs; the transport is an interface, the locale \<open>waking_stream\<close>, interpreted
    on TCP over the \<open>mio\<close> driver.
  \<^item> \<open>Rproxy\<close> (\<open>rproxy/src\<close>): sessions, the counters, the tasks of the proxy as a step relation, the
    listeners.
  \<^item> \<open>Gperf_Report\<close> (\<open>pprof/src/profiler/report.rs\<close>) and \<open>Profiler\<close> (\<open>frames.rs\<close>, \<open>heap.rs\<close>, \<open>cpu.rs\<close>):
    the tables of the reports and how a profile is read back; the allocator hooks and the sampler.
  \<^item> \<open>Heap_Hooks\<close> (\<open>pprof/src/c/mod.rs\<close>, \<open>profiler/heap.rs\<close>): the same hooks as atomic steps of threads,
    with the recursive mutexes, the guard of reentrancy and the allocations that a hook makes itself.
  \<^item> \<open>Gperf_Proto\<close> and \<open>Gperf_Wire\<close> (\<open>pprof/src/gperf/gperf.rs\<close>): the messages with merging, sizes and
    writing over the protobuf runtime, a record of its readers and writers; the laws of the runtime,
    a concrete wire format that has them, and the round trip.

  Each Rust struct is a record whose fields carry a prefix and the names of the source, each enum a
  datatype, each method a definition; a method of a state is an operation that returns its result
  and the state (\<open>('s, 'r) op\<close>).

  \<^bold>\<open>What is shown.\<close> HTTP: printing and parsing are inverse, whatever the reads that split the
  input; parsing never panics; the body is received as sent. Concurrency: the queue loses and
  duplicates nothing and is linear at rest; the locks exclude and lose no wake-up; the time wheel
  fires timers on time on one thread and can lose them on two. IO: a call that would block and a
  sleep are woken by the poll that reports them; dispatch answers each command with the response its
  client expects. QUIC: stream identifiers are handed out once for every interleaving; a reader is
  woken by its data; packet processing terminates; the acceptor keeps no state for addresses it has
  not validated; a waiting accept is served; the pool keeps its limit; dropping the handles closes streams
  and connection, in this order. LevelDB: numbers survive a
  round trip; iterators are complete. TLS: every poll is free of
  panics and a pending one has registered the waker of its task. Reverse proxy: the counters count,
  and a closed session completes its task. Profiler: the heap profile accounts for every live block and
  reads back as it was sampled, the hooks keep the account on every thread and do not deadlock, and a
  profile survives the wire. Where the code does something else than it means to, the
  property states what it does (a blank line split between reads, header limits that never fire, a
  lost timer, a writer that closing does not wake, a second profile without tables, one packet that notifies one stream, one malformed
  datagram that stops a server, a seek past the end that starts over).

  \<^bold>\<open>Bounds and choices.\<close> Counters that wrap are 64-bit words (queue tickets, identifiers); lengths and
  instants are natural numbers, with \<open>usize_max\<close> where the source depends on it. Memory is
  sequentially consistent: every atomic access is one step. The retry loop of the non-blocking
  call takes the number of interruptions as fuel, and its lemma covers every number. A loop that may not
  return is a \<open>partial_function\<close> with \<open>None\<close> for not returning, and returning is proved under a
  measure of the transport. The readings of the clock in one critical section are one instant.
  Loops that run for ever (the server and client loops) are functions of the list of the answers
  they get, one entry per round. Errors are their \<open>ErrorKind\<close>, without the message. Arithmetic that
  overflows panics, as in a build with overflow checks, where the model says so.

  \<^bold>\<open>Not modelled.\<close> The reflection descriptors and the printing of the generated protobuf messages; the procedural macros of the profiler, which rewrite token streams at compile time;
  the thread pool behind the executor and \<open>block_on\<close>, which are the \<open>futures\<close> crate; the wrappers of
  references of \<open>ops/src/deref.rs\<close>; the accessors of the TLS streams and the callbacks that only forward
  to \<open>boring\<close>.
\<close>

section \<open>The HTTP parsers as a whole\<close>

lemma into_bytes_None: "into_bytes None rb = Ok (chunk rb)"
  by (simp add: into_bytes_def into_bytes_mut_def chunk_def)

text \<open>
  C25: the HTTP parsers do not panic. For every stream, configuration and \<open>http\<close> crate, parsing a
  request or a response returns a result or an error; no slice, \<open>split_to\<close>, \<open>advance_mut\<close> or
  state increment goes out of range.
\<close>

theorem http_parsers_never_panic:
  assumes "bufmut_contract reserve"
  shows "parse_request_with api reserve s cfg \<noteq> Panic \<and> parse_response_with api reserve s cfg \<noteq> Panic"
  using req.outer_no_Panic [OF assms rb_wf_with_capacity, where api = api]
    res.outer_no_Panic [OF assms rb_wf_with_capacity, where api = api]
  by (auto simp: parse_request_with_def parse_response_with_def requester_parse_def responser_parse_def
      Let_def and_then_eq_Panic into_bytes_None split: if_splits)

theorem http_parsers_never_panic_witness:
  "parse_request_with sample_api sample_reserve [Data ''GET'', Fail TimedOut] default_config \<noteq> Panic \<and>
   parse_response_with sample_api sample_reserve [Data ''GET'', Fail TimedOut] default_config \<noteq> Panic"
  by (rule http_parsers_never_panic) simp

text \<open>
  The header limit is not enforced. \<open>parsing_headers_max_buf\<close> is documented as the maximum
  buffer for parsing headers, and the loops test for an overflow of the buffer, but the buffer grows
  on demand: as long as the input fits the address space the overflow error is never returned,
  however long the head is.
\<close>

theorem http_header_limit_never_reported:
  assumes "bufmut_contract reserve" "length (stream_bytes s) < usize_max"
  shows "requester_parse api reserve (requester_new_with s cfg) \<noteq> Err (ParseBufOverflow n) \<and>
     responser_parse api reserve (responser_new_with s cfg) \<noteq> Err (ParseBufOverflow n)"
proof -
  have "req_outer api reserve m (requester_new_with s cfg) (with_capacity k) \<noteq> Err (ParseBufOverflow n)"
    "res_outer api reserve m (responser_new_with s cfg) (with_capacity k) \<noteq> Err (ParseBufOverflow n)" for m k
    using req.outer_no_Overflow [OF assms(1) rb_wf_with_capacity, where api = api] assms(2)
      res.outer_no_Overflow [OF assms(1) rb_wf_with_capacity, where api = api]
    by (simp_all add: requester_new_with_def responser_new_with_def)
  then show ?thesis
    by (auto simp: requester_parse_def responser_parse_def Let_def and_then_eq_Err into_bytes_None
        split: if_splits)
qed

theorem http_header_limit_never_reported_witness:
  "requester_parse sample_api sample_reserve
     (requester_new_with [Data (replicate 5000 CHR ''x'')] \<lparr>parsing_headers_max_buf = 10\<rparr>) \<noteq> Err (ParseBufOverflow 10)"
  using http_header_limit_never_reported
    [of sample_reserve "[Data (replicate 5000 CHR ''x'')]" sample_api "\<lparr>parsing_headers_max_buf = 10\<rparr>" 10]
  by (simp add: usize_max_def)

text \<open>
  No byte of the body is lost or duplicated. When a parser succeeds, the bytes the body reader
  still delivers (the cached ones followed by those of the stream) are a suffix of the bytes the
  stream held at the start: the head is a prefix of the input and nothing else is consumed.
\<close>

theorem http_body_is_input_suffix:
  assumes "bufmut_contract reserve"
    and "requester_parse api reserve (requester_new_with s cfg) = Ok (calls, br) \<or>
         responser_parse api reserve (responser_new_with s cfg) = Ok (calls, br)"
  shows "suffix (br_cached br @ stream_bytes (br_stream br)) (stream_bytes s)"
  using assms(2)
proof
  assume "requester_parse api reserve (requester_new_with s cfg) = Ok (calls, br)"
  then show ?thesis
    using req.outer_suffix [OF assms(1) rb_wf_with_capacity, where api = api]
    by (fastforce simp: requester_parse_def Let_def into_bytes_None requester_new_with_def split: if_splits)
next
  assume "responser_parse api reserve (responser_new_with s cfg) = Ok (calls, br)"
  then show ?thesis
    using res.outer_suffix [OF assms(1) rb_wf_with_capacity, where api = api]
    by (fastforce simp: responser_parse_def Let_def into_bytes_None responser_new_with_def split: if_splits)
qed


theorem http_body_is_input_suffix_witness:
  "suffix ''xy'' (stream_bytes [Data (request_wire ''GET'' ''/a'' HTTP_11 [] ''xy'')])"
proof -
  let ?s = "[Data (request_wire ''GET'' ''/a'' HTTP_11 [] ''xy'')]"
  have "requester_parse sample_api sample_reserve (requester_new_with ?s default_config) =
      Ok (request_calls sample_api ''GET'' ''/a'' HTTP_11 [], \<lparr>br_cached = ''xy'', br_stream = []\<rparr>)"
    by (rule requester_parse_request)
       (simp_all add: line_accepted_def token_ok_def fields_accepted_def sample_api_def is_space_def
          is_newline_def default_config_def request_wire_def request_line_def field_lines_def)
  from http_body_is_input_suffix [OF sample_reserve_contract disjI1, OF this] show ?thesis by simp
qed


end
